(* ===== verification/Prelude.thy ===== *)
theory Prelude
  imports Complex_Main "HOL-Library.Word" "HOL-Library.AList" "HOL-Library.Multiset"
    "HOL-Library.List_Lexorder" "HOL-Library.Char_ord" "HOL-Library.Log_Nat"
begin

text \<open>
  What every component of the development shares: the machine integers of the Rust
  source, the hash maps and vectors it uses, and the lemmas about them that the component
  theories lean on.

  A Rust \<open>HashMap\<close> is an association list with distinct keys (\<open>hmap\<close>). Its list order
  stands for the map's iteration order, which Rust leaves unspecified: a theorem about
  any state of the model holds for every such order. A Rust \<open>Vec\<close> is a list; an index
  out of range, which panics in Rust, is the value \<open>None\<close> here.
\<close>

section \<open>Machine integers\<close>

type_synonym u8 = "8 word"
type_synonym u16 = "16 word"
type_synonym u32 = "32 word"
type_synonym u64 = "64 word"
type_synonym i32 = "32 word"
type_synonym i64 = "64 word"

unbundle bit_operations_syntax

named_theorems inv_intro \<open>every operation keeps the invariant of its component\<close>
named_theorems hmap_simps \<open>look-up after an update, a removal or a traversal of a hash map\<close>

text \<open>The identifier counters (\<open>x += 1\<close> on a \<open>u64\<close>) are fresh until they are exhausted.\<close>

lemma word_le_inc: "(x::u64) \<le> n \<Longrightarrow> n \<noteq> - 1 \<Longrightarrow> x < n + 1"
  using inc_less_eq_iff by fastforce

lemma word_inc_greater: "(n::u64) \<noteq> - 1 \<Longrightarrow> n < n + 1"
  by (rule word_le_inc) simp_all

lemma unat_u32_bound: "unat (n::u32) < 2 ^ 32"
  by (rule order_less_le_trans [OF unsigned_less]) simp

lemma unat_ucast_u32_u64 [simp]: "unat (ucast (n::u32) :: u64) = unat n"
  using unat_u32_bound [of n] by (simp add: unsigned_ucast_eq take_bit_nat_eq_self)

section \<open>Hash maps\<close>

type_synonym ('k, 'v) hmap = "('k \<times> 'v) list"

abbreviation hm_get :: "('k, 'v) hmap \<Rightarrow> 'k \<Rightarrow> 'v option" where
  "hm_get \<equiv> map_of"

abbreviation hm_insert :: "'k \<Rightarrow> 'v \<Rightarrow> ('k, 'v) hmap \<Rightarrow> ('k, 'v) hmap" where
  "hm_insert \<equiv> AList.update"

abbreviation hm_remove :: "'k \<Rightarrow> ('k, 'v) hmap \<Rightarrow> ('k, 'v) hmap" where
  "hm_remove \<equiv> AList.delete"

abbreviation hm_keys :: "('k, 'v) hmap \<Rightarrow> 'k list" where
  "hm_keys m \<equiv> map fst m"

abbreviation hm_contains :: "('k, 'v) hmap \<Rightarrow> 'k \<Rightarrow> bool" where
  "hm_contains m k \<equiv> k \<in> fst ` set m"

abbreviation hm_ok :: "('k, 'v) hmap \<Rightarrow> bool" where
  "hm_ok m \<equiv> distinct (map fst m)"

text \<open>\<open>get(k).cloned().unwrap_or_default()\<close> on a map of vectors.\<close>

definition hm_list :: "('k, 'v list) hmap \<Rightarrow> 'k \<Rightarrow> 'v list" where
  "hm_list m k = (case hm_get m k of None \<Rightarrow> [] | Some v \<Rightarrow> v)"

text \<open>\<open>entry(k).or_default().push(x)\<close> on a map of vectors.\<close>

definition hm_push :: "'k \<Rightarrow> 'v \<Rightarrow> ('k, 'v list) hmap \<Rightarrow> ('k, 'v list) hmap" where
  "hm_push k x m = hm_insert k (hm_list m k @ [x]) m"

text \<open>\<open>if let Some(v) = get_mut(k) { *v = f(v) }\<close>.\<close>

definition hm_modify :: "'k \<Rightarrow> ('v \<Rightarrow> 'v) \<Rightarrow> ('k, 'v) hmap \<Rightarrow> ('k, 'v) hmap" where
  "hm_modify k f m = map (\<lambda>(k', v). (k', if k' = k then f v else v)) m"

text \<open>\<open>for v in values_mut() { *v = f(v) }\<close>.\<close>

definition hm_map_values :: "('v \<Rightarrow> 'v) \<Rightarrow> ('k, 'v) hmap \<Rightarrow> ('k, 'v) hmap" where
  "hm_map_values f m = map (\<lambda>(k, v). (k, f v)) m"

text \<open>A look-up stays a look-up: no rewriting into membership of the association list.\<close>

declare map_of_eq_Some_iff [simp del] Some_eq_map_of_iff [simp del]

lemma hm_get_insert [simp, hmap_simps]:
  "hm_get (hm_insert k v m) k' = (if k' = k then Some v else hm_get m k')"
  by (simp add: update_conv')

lemma hm_get_remove [simp, hmap_simps]:
  "hm_get (hm_remove k m) k' = (if k' = k then None else hm_get m k')"
  by (simp add: delete_conv')

lemma hm_get_modify [simp, hmap_simps]:
  "hm_get (hm_modify k f m) k' = (if k' = k then map_option f (hm_get m k) else hm_get m k')"
  by (induction m) (auto simp: hm_modify_def)

lemma hm_get_map_values [simp, hmap_simps]:
  "hm_get (hm_map_values f m) k = map_option f (hm_get m k)"
  by (induction m) (auto simp: hm_map_values_def)

lemma hm_keys_modify [simp]: "map fst (hm_modify k f m) = map fst m"
  by (induction m) (auto simp: hm_modify_def)

lemma hm_keys_map_values [simp]: "map fst (hm_map_values f m) = map fst m"
  by (induction m) (auto simp: hm_map_values_def)

lemma hm_dom_modify [simp]: "fst ` set (hm_modify k f m) = fst ` set m"
  by (metis hm_keys_modify list.set_map)

lemma hm_dom_map_values [simp]: "fst ` set (hm_map_values f m) = fst ` set m"
  by (metis hm_keys_map_values list.set_map)

lemma hm_ok_insert [simp]: "hm_ok m \<Longrightarrow> hm_ok (hm_insert k v m)"
  by (rule distinct_update)

lemma hm_ok_remove [simp]: "hm_ok m \<Longrightarrow> hm_ok (hm_remove k m)"
  by (rule distinct_delete)

lemma hm_dom_insert [simp]: "fst ` set (hm_insert k v m) = insert k (fst ` set m)"
  by (simp add: dom_update)

lemma hm_dom_remove [simp]: "fst ` set (hm_remove k m) = fst ` set m - {k}"
  by (simp add: delete_conv dom_map_of_conv_image_fst [symmetric] delete_keys
      del: dom_map_of_conv_image_fst) (auto simp: dom_map_of_conv_image_fst delete_conv')

lemma hm_dom_push [simp]: "fst ` set (hm_push k x m) = insert k (fst ` set m)"
  by (simp add: hm_push_def)

lemma hm_ok_push [simp]: "hm_ok m \<Longrightarrow> hm_ok (hm_push k x m)"
  by (simp add: hm_push_def)

lemma hm_list_insert [simp, hmap_simps]:
  "hm_list (hm_insert k v m) k' = (if k' = k then v else hm_list m k')"
  by (simp add: hm_list_def)

lemma hm_list_remove [simp, hmap_simps]:
  "hm_list (hm_remove k m) k' = (if k' = k then [] else hm_list m k')"
  by (simp add: hm_list_def)

lemma hm_list_push [simp, hmap_simps]:
  "hm_list (hm_push k x m) k' = (if k' = k then hm_list m k @ [x] else hm_list m k')"
  by (simp add: hm_push_def)

lemma hm_list_modify_filter [simp, hmap_simps]:
  "hm_list (hm_modify k (filter P) m) k' = (if k' = k then filter P (hm_list m k) else hm_list m k')"
  by (simp add: hm_list_def split: option.split)

lemma hm_list_Nil [simp]: "hm_list [] k = []"
  by (simp add: hm_list_def)

lemma hm_contains_iff: "hm_contains m k \<longleftrightarrow> hm_get m k \<noteq> None"
  by (metis map_of_eq_None_iff)

lemma hm_get_in_set: "hm_ok m \<Longrightarrow> (k, v) \<in> set m \<longleftrightarrow> hm_get m k = Some v"
  by (metis map_of_eq_Some_iff)

lemma hm_get_fold_remove: "hm_get (fold hm_remove ks m) k = (if k \<in> set ks then None else hm_get m k)"
  by (induction ks arbitrary: m) auto

lemma hm_ok_fold_remove: "hm_ok m \<Longrightarrow> hm_ok (fold hm_remove ks m)"
  by (induction ks arbitrary: m) auto

section \<open>Ordered maps\<close>

text \<open>A Rust \<open>BTreeMap\<close>: an association list sorted by its distinct keys.\<close>

definition bt_insert :: "'k::linorder \<Rightarrow> 'v \<Rightarrow> ('k \<times> 'v) list \<Rightarrow> ('k \<times> 'v) list" where
  "bt_insert k v m = insort_key fst (k, v) (AList.delete k m)"

definition bt_remove :: "'k::linorder \<Rightarrow> ('k \<times> 'v) list \<Rightarrow> ('k \<times> 'v) list" where
  "bt_remove k m = AList.delete k m"

definition bt_ok :: "('k::linorder \<times> 'v) list \<Rightarrow> bool" where
  "bt_ok m \<longleftrightarrow> sorted (map fst m) \<and> distinct (map fst m)"

lemma map_of_insort: "k \<notin> fst ` set m \<Longrightarrow> map_of (insort_key fst (k, v) m) = (map_of m)(k \<mapsto> v)"
  by (induction m) (auto simp: fun_eq_iff)

lemma bt_get_insert [simp]: "map_of (bt_insert k v m) = (map_of m)(k \<mapsto> v)"
  by (simp add: bt_insert_def map_of_insort delete_conv')

lemma bt_get_remove [simp]: "map_of (bt_remove k m) = (map_of m)(k := None)"
  by (simp add: bt_remove_def delete_conv')

lemma bt_dom_insert [simp]: "fst ` set (bt_insert k v m) = insert k (fst ` set m)"
  by (auto simp: bt_insert_def set_insort_key)

lemma bt_dom_remove [simp]: "fst ` set (bt_remove k m) = fst ` set m - {k}"
  by (simp add: bt_remove_def)

lemma sorted_delete: "sorted (map fst m) \<Longrightarrow> sorted (map fst (AList.delete k m))"
  by (induction m) auto

lemma bt_ok_Nil [simp]: "bt_ok []"
  by (simp add: bt_ok_def)

lemma bt_ok_insert [simp]: "bt_ok m \<Longrightarrow> bt_ok (bt_insert k v m)"
  by (simp add: bt_ok_def bt_insert_def sorted_insort_key sorted_delete distinct_delete distinct_insort_key)

lemma bt_ok_remove [simp]: "bt_ok m \<Longrightarrow> bt_ok (bt_remove k m)"
  by (simp add: bt_ok_def bt_remove_def sorted_delete distinct_delete)

text \<open>An insertion past the last key appends.\<close>

lemma bt_insert_last: "(\<And>x. x \<in> fst ` set m \<Longrightarrow> x < k) \<Longrightarrow> bt_insert k v m = m @ [(k, v)]"
proof -
  assume a: "\<And>x. x \<in> fst ` set m \<Longrightarrow> x < k"
  then have "k \<notin> fst ` set m" by blast
  then have "AList.delete k m = m" by (rule delete_id)
  moreover have "insort_key fst (k, v) m = m @ [(k, v)]"
    using a
  proof (induction m)
    case (Cons p m)
    then have "\<not> k \<le> fst p" by (simp add: not_le)
    with Cons show ?case by simp
  qed simp
  ultimately show ?thesis by (simp add: bt_insert_def)
qed

section \<open>Names of enumerations\<close>

text \<open>
  The contract between an enumeration and its textual names: \<open>from_str\<close> inverts \<open>as_str\<close> and
  accepts nothing else.
\<close>

locale name_codec =
  fixes as_str :: "'a \<Rightarrow> string"
    and from_str :: "string \<Rightarrow> 'a option"
  assumes from_as: "from_str (as_str a) = Some a"
    and as_from: "from_str s = Some a \<Longrightarrow> as_str a = s"
begin

lemma inj_names: "inj as_str"
  by (metis from_as injI option.inject)

lemma unknown_name: "from_str s = None \<longleftrightarrow> s \<notin> range as_str"
  by (metis as_from from_as option.distinct(1) option.exhaust rangeE rangeI)

lemma known_name: "(\<exists>a. from_str s = Some a \<and> P (as_str a)) \<longleftrightarrow> s \<in> range as_str \<and> P s"
  by (metis as_from from_as rangeE rangeI)

lemma decode_list: "those (map (from_str \<circ> as_str) xs) = Some xs"
  by (induction xs) (simp_all add: from_as)

end

section \<open>Vectors\<close>

text \<open>\<open>Vec::swap\<close>: panics (\<open>None\<close>) when an index is out of range.\<close>

definition vec_swap :: "'a list \<Rightarrow> nat \<Rightarrow> nat \<Rightarrow> 'a list option" where
  "vec_swap xs i j =
     (if i < length xs \<and> j < length xs then Some (xs[i := xs ! j, j := xs ! i]) else None)"

text \<open>\<open>get(i)\<close> on a vector, and \<open>iter().position(p)\<close>.\<close>

definition vec_get :: "'a list \<Rightarrow> nat \<Rightarrow> 'a option" where
  "vec_get xs i = (if i < length xs then Some (xs ! i) else None)"

fun position :: "('a \<Rightarrow> bool) \<Rightarrow> 'a list \<Rightarrow> nat option" where
  "position P [] = None"
| "position P (x # xs) = (if P x then Some 0 else map_option Suc (position P xs))"

lemma vec_swap_Some:
  assumes "vec_swap xs i j = Some ys"
  shows "i < length xs" "j < length xs" "length ys = length xs" "mset ys = mset xs"
    and "ys ! i = xs ! j" "ys ! j = xs ! i"
  using assms
  by (auto simp: vec_swap_def mset_swap nth_list_update split: if_splits)

lemma vec_swap_in_range: "i < length xs \<Longrightarrow> j < length xs \<Longrightarrow> \<exists>ys. vec_swap xs i j = Some ys"
  by (simp add: vec_swap_def)

lemma position_Some:
  "position P xs = Some i \<Longrightarrow> i < length xs \<and> P (xs ! i) \<and> (\<forall>j<i. \<not> P (xs ! j))"
proof (induction xs arbitrary: i)
  case Nil
  then show ?case by simp
next
  case (Cons x xs)
  then show ?case by (auto simp: nth_Cons split: if_splits nat.splits)
qed

lemma position_None: "position P xs = None \<longleftrightarrow> (\<forall>x\<in>set xs. \<not> P x)"
  by (induction xs) auto

text \<open>\<open>sort_unstable\<close> on the keys of a map and \<open>BTreeMap\<close> iteration both yield a sorted list.\<close>

lemma sort_unique: "sorted xs \<Longrightarrow> mset xs = mset ys \<Longrightarrow> sort ys = xs"
  by (metis properties_for_sort sort_key_simps)

lemma map_filter_cong:
  "(\<And>x. x \<in> set xs \<Longrightarrow> f x = g x) \<Longrightarrow> List.map_filter f xs = List.map_filter g xs"
  by (induction xs) (auto split: option.split)

lemma set_map_filter: "set (List.map_filter f xs) = {y. \<exists>x\<in>set xs. f x = Some y}"
  by (induction xs) (auto split: option.split)

section \<open>Backward shuffles\<close>

text \<open>
  The loop \<open>for i in (1..n).rev() { let j = draw(i); v.swap(i, j) }\<close>, which the queue and the
  playlist cursor both run over their own generator: \<open>loop i\<close> performs the iterations
  \<open>i, \<dots>, 1\<close>. Whatever the generator, as long as a draw for slot \<open>i\<close> is at most \<open>i\<close> and
  leaves the vector alone, no swap is out of range and the vector is permuted.
\<close>

locale backward_shuffle =
  fixes vec :: "'s \<Rightarrow> 'a list"
    and set_vec :: "'a list \<Rightarrow> 's \<Rightarrow> 's"
    and draw :: "nat \<Rightarrow> 's \<Rightarrow> nat \<times> 's"
    and loop :: "nat \<Rightarrow> 's \<Rightarrow> 's option"
  assumes vec_set: "vec (set_vec v s) = v"
    and draw_le: "draw i s = (j, s') \<Longrightarrow> j \<le> i"
    and draw_vec: "draw i s = (j, s') \<Longrightarrow> vec s' = vec s"
    and loop_0: "loop 0 s = Some s"
    and loop_Suc: "loop (Suc i) s =
      (let (j, s1) = draw (Suc i) s
       in case vec_swap (vec s1) (Suc i) j of None \<Rightarrow> None | Some v \<Rightarrow> loop i (set_vec v s1))"
begin

lemma loop_permutes:
  "i < length (vec s) \<or> i = 0 \<Longrightarrow> \<exists>s'. loop i s = Some s' \<and> mset (vec s') = mset (vec s)"
proof (induction i arbitrary: s)
  case 0
  then show ?case by (simp add: loop_0)
next
  case (Suc i)
  obtain j s1 where d: "draw (Suc i) s = (j, s1)" by force
  then have "j \<le> Suc i" "vec s1 = vec s" by (auto dest: draw_le draw_vec)
  then obtain v where v: "vec_swap (vec s1) (Suc i) j = Some v"
    using vec_swap_in_range [of "Suc i" "vec s1" j] Suc.prems by auto
  then have "length v = length (vec s)" "mset v = mset (vec s)"
    using vec_swap_Some [OF v] \<open>vec s1 = vec s\<close> by auto
  then show ?case using Suc.IH [of "set_vec v s1"] Suc.prems d v by (auto simp: loop_Suc vec_set)
qed

lemma loop_invariant:
  assumes "loop i s = Some s'" and "P s"
    and "\<And>i s j s'. P s \<Longrightarrow> draw i s = (j, s') \<Longrightarrow> P s'"
    and "\<And>v s. P s \<Longrightarrow> P (set_vec v s)"
  shows "P s'"
  using assms(1,2)
proof (induction i arbitrary: s)
  case 0
  then show ?case by (simp add: loop_0)
next
  case (Suc i)
  then obtain j s1 v where "draw (Suc i) s = (j, s1)" "loop i (set_vec v s1) = Some s'"
    by (auto simp: loop_Suc split: prod.splits option.splits)
  with Suc.prems(2) show ?case by (blast intro: Suc.IH assms(3,4))
qed

end

end
