(* ===== verification/Queue.thy ===== *)
theory Queue
  imports Prelude
begin

text \<open>
  The queue component, \<open>src/queue/\<close>: the playback mode and the shuffle state with its
  xorshift generator (\<open>state.rs\<close>), the live rotation parameters behind a watch channel
  (\<open>rotator.rs\<close>), and the path helper of \<open>mod.rs\<close>.
\<close>

section \<open>Mode (state.rs)\<close>

datatype mode = Sequential | Shuffle | Random

fun mode_as_str :: "mode \<Rightarrow> string" where
  "mode_as_str Sequential = ''sequential''"
| "mode_as_str Shuffle = ''shuffle''"
| "mode_as_str Random = ''random''"

definition mode_from_str :: "string \<Rightarrow> mode option" where
  "mode_from_str s =
     (if s = ''sequential'' then Some Sequential
      else if s = ''shuffle'' then Some Shuffle
      else if s = ''random'' then Some Random
      else None)"

lemma mode_from_as_str [simp]: "mode_from_str (mode_as_str m) = Some m"
  by (cases m) (simp_all add: mode_from_str_def)

lemma mode_from_str_Some: "mode_from_str s = Some m \<Longrightarrow> mode_as_str m = s"
  by (auto simp: mode_from_str_def split: if_splits)

interpretation mode_names: name_codec mode_as_str mode_from_str
  by unfold_locales (auto simp: mode_from_str_Some)

section \<open>The xorshift generator\<close>

text \<open>The three shift-and-xor lines, shared word for word with \<open>playlist/cursor.rs\<close>.\<close>

definition xorshift64 :: "u64 \<Rightarrow> u64" where
  "xorshift64 x0 =
     (let x1 = x0 XOR push_bit 13 x0;
          x2 = x1 XOR drop_bit 7 x1
      in x2 XOR push_bit 17 x2)"

text \<open>A shift by a positive amount has no fixed point but zero.\<close>

lemma push_bit_fixed_zero:
  fixes x :: "'a::len word"
  assumes "push_bit n x = x" and "0 < n"
  shows "x = 0"
proof (rule bit_word_eqI)
  have "\<not> bit x k" if "k < LENGTH('a)" for k
    using that
  proof (induction k rule: less_induct)
    case (less k)
    show ?case
    proof
      assume "bit x k"
      then have "bit (push_bit n x) k" using assms(1) by simp
      then have "n \<le> k" "bit x (k - n)" using less.prems by (auto simp: bit_push_bit_iff)
      moreover have "k - n < k" "k - n < LENGTH('a)" using \<open>n \<le> k\<close> assms(2) less.prems by auto
      ultimately show False using less.IH by blast
    qed
  qed
  then show "bit x k \<longleftrightarrow> bit 0 k" if "k < LENGTH('a)" for k using that by simp
qed

lemma drop_bit_fixed_zero:
  fixes x :: "'a::len word"
  assumes "drop_bit n x = x" and "0 < n"
  shows "x = 0"
proof (rule bit_word_eqI)
  have "\<not> bit x k" if "LENGTH('a) - k = m" for k m
    using that
  proof (induction m arbitrary: k rule: less_induct)
    case (less m)
    show ?case
    proof
      assume b: "bit x k"
      then have k: "k < LENGTH('a)" by (rule bit_imp_le_length)
      from b have "bit (drop_bit n x) k" using assms(1) by simp
      then have "bit x (n + k)" by (simp add: bit_drop_bit_eq)
      moreover have "LENGTH('a) - (n + k) < m" using less.prems k assms(2) by simp
      ultimately show False using less.IH by blast
    qed
  qed
  then show "bit x k \<longleftrightarrow> bit 0 k" if "k < LENGTH('a)" for k by simp
qed

lemma xor_eq_0_iff: "(a::'a::len word) XOR b = 0 \<longleftrightarrow> a = b"
  by (metis xor.left_neutral xor.right_neutral xor_self_eq xor.assoc)

lemma xor_swap_args: "(a::u64) XOR b = c XOR d \<longleftrightarrow> a XOR c = b XOR d"
  by (metis (no_types, opaque_lifting) xor.assoc xor.commute xor.left_neutral xor_self_eq)

lemma shift_left_xor_inj:
  assumes "(x::u64) XOR push_bit n x = y XOR push_bit n y" and "0 < n"
  shows "x = y"
proof -
  have "x XOR y = push_bit n (x XOR y)"
    using assms(1) unfolding push_bit_xor by (rule xor_swap_args [THEN iffD1])
  from this [symmetric] assms(2) have "x XOR y = 0" by (rule push_bit_fixed_zero)
  then show ?thesis by (simp add: xor_eq_0_iff)
qed

lemma shift_right_xor_inj:
  assumes "(x::u64) XOR drop_bit n x = y XOR drop_bit n y" and "0 < n"
  shows "x = y"
proof -
  have "x XOR y = drop_bit n (x XOR y)"
    using assms(1) unfolding drop_bit_xor by (rule xor_swap_args [THEN iffD1])
  from this [symmetric] assms(2) have "x XOR y = 0" by (rule drop_bit_fixed_zero)
  then show ?thesis by (simp add: xor_eq_0_iff)
qed

lemma xorshift64_inj: "xorshift64 x = xorshift64 y \<Longrightarrow> x = y"
  unfolding xorshift64_def Let_def
  by (blast dest: shift_left_xor_inj [of _ 17] shift_right_xor_inj [of _ 7]
      shift_left_xor_inj [of _ 13] intro: zero_less_numeral)

lemma xorshift64_0 [simp]: "xorshift64 0 = 0"
  by (simp add: xorshift64_def)

lemma xorshift64_eq_0_iff [simp]: "xorshift64 x = 0 \<longleftrightarrow> x = 0"
  using xorshift64_inj [of x 0] by auto

definition default_seed :: u64 where
  "default_seed = 0xdeadbeefcafebabe"

lemma default_seed_nonzero [simp]: "default_seed \<noteq> 0"
  by (simp add: default_seed_def)

section \<open>QueueState (state.rs)\<close>

text \<open>
  \<open>now\<close> is what \<open>SystemTime::now()\<close> gives as nanoseconds, or 0 when the clock is before
  the epoch. It is read only while the generator is unseeded.
\<close>

record queue_state =
  qs_mode :: mode
  qs_current :: "string option"
  qs_last_db_id :: "i64 option"
  qs_shuffle_round :: "i64 list"
  qs_shuffle_pos :: nat
  qs_shuffle_seed :: u64
  qs_rng :: u64

definition queue_state_default :: queue_state where
  "queue_state_default =
     \<lparr>qs_mode = Sequential, qs_current = None, qs_last_db_id = None, qs_shuffle_round = [],
      qs_shuffle_pos = 0, qs_shuffle_seed = 0, qs_rng = 0\<rparr>"

definition set_mode :: "mode \<Rightarrow> queue_state \<Rightarrow> queue_state" where
  "set_mode m s =
     (if m = qs_mode s then s
      else s\<lparr>qs_mode := m, qs_shuffle_round := [], qs_shuffle_pos := 0\<rparr>)"

definition reset_shuffle_round :: "queue_state \<Rightarrow> queue_state" where
  "reset_shuffle_round s = s\<lparr>qs_shuffle_round := [], qs_shuffle_pos := 0\<rparr>"

definition rng_next :: "u64 \<Rightarrow> queue_state \<Rightarrow> u64 \<times> queue_state" where
  "rng_next now s =
     (let seeded =
        (if qs_rng s = 0 then
           (let seed = (if qs_shuffle_seed s \<noteq> 0 then qs_shuffle_seed s else now)
            in if seed = 0 then default_seed else seed)
         else qs_rng s);
        x = xorshift64 seeded
      in (x, s\<lparr>qs_rng := x\<rparr>))"

definition rng_range :: "u64 \<Rightarrow> u32 \<Rightarrow> queue_state \<Rightarrow> u32 \<times> queue_state" where
  "rng_range now n s =
     (if n = 0 then (0, s)
      else (let (x, s') = rng_next now s in (ucast (x mod ucast n), s')))"

text \<open>
  The loop \<open>for i in (1..n).rev()\<close>: \<open>shuffle_loop now i\<close> runs the iterations
  \<open>i, i - 1, \<dots>, 1\<close>. \<open>(i + 1) as u32\<close> truncates, as the cast does.
\<close>

fun shuffle_loop :: "u64 \<Rightarrow> nat \<Rightarrow> queue_state \<Rightarrow> queue_state option" where
  "shuffle_loop now 0 s = Some s"
| "shuffle_loop now (Suc i) s =
     (let (j, s1) = rng_range now (word_of_nat (Suc i + 1)) s
      in case vec_swap (qs_shuffle_round s1) (Suc i) (unat j) of
           None \<Rightarrow> None
         | Some perm \<Rightarrow> shuffle_loop now i (s1\<lparr>qs_shuffle_round := perm\<rparr>))"

definition avoid_step :: "u64 \<Rightarrow> nat \<Rightarrow> i64 option \<Rightarrow> nat \<Rightarrow> queue_state \<Rightarrow> queue_state option" where
  "avoid_step now n avoid target_pos s =
     (case avoid of
        None \<Rightarrow> Some s
      | Some av \<Rightarrow>
          if 1 < n \<and> vec_get (qs_shuffle_round s) target_pos = Some av then
            (let (raw32, s1) = rng_range now (word_of_nat (n - 1)) s;
                 raw = unat raw32;
                 alt = (if target_pos \<le> raw then raw + 1 else raw)
             in case vec_swap (qs_shuffle_round s1) target_pos alt of
                  None \<Rightarrow> None
                | Some perm \<Rightarrow> Some (s1\<lparr>qs_shuffle_round := perm\<rparr>))
          else Some s)"

definition build_shuffle_round ::
  "u64 \<Rightarrow> i64 list \<Rightarrow> i64 option \<Rightarrow> nat \<Rightarrow> queue_state \<Rightarrow> queue_state option" where
  "build_shuffle_round now candidates avoid target_pos s =
     (let s0 = s\<lparr>qs_shuffle_round := candidates\<rparr>; n = length candidates
      in case shuffle_loop now (n - 1) s0 of
           None \<Rightarrow> None
         | Some s1 \<Rightarrow> avoid_step now n avoid target_pos s1)"

subsection \<open>The generator\<close>

lemma rng_next_nonzero: "rng_next now s = (x, s') \<Longrightarrow> x \<noteq> 0 \<and> qs_rng s' = x"
  by (auto simp: rng_next_def Let_def split: if_splits)

lemma rng_next_frame:
  "rng_next now s = (x, s') \<Longrightarrow> s' = s\<lparr>qs_rng := x\<rparr>"
  by (auto simp: rng_next_def Let_def)

lemma rng_range_frame:
  "rng_range now n s = (r, s') \<Longrightarrow> \<exists>x. s' = s\<lparr>qs_rng := x\<rparr>"
  by (auto simp: rng_range_def rng_next_def Let_def split: if_splits)
    (metis queue_state.surjective queue_state.update_convs(7))

lemma unat_u64_mod_u32:
  "0 < (n::u32) \<Longrightarrow> unat (ucast ((x::u64) mod ucast n) :: u32) = unat x mod unat n"
proof -
  assume "0 < n"
  have *: "unat (x mod (ucast n :: u64)) = unat x mod unat n"
    by (simp add: unat_mod)
  have "unat x mod unat n < unat n"
    using \<open>0 < n\<close> by (simp add: word_less_nat_alt)
  then have "unat x mod unat n < 2 ^ 32"
    using unat_u32_bound [of n] by linarith
  with * show ?thesis
    by (simp add: unsigned_ucast_eq take_bit_nat_eq_self)
qed

lemma rng_range_less: "rng_range now n s = (r, s') \<Longrightarrow> 0 < n \<Longrightarrow> r < n"
  by (auto simp: rng_range_def word_less_nat_alt unat_u64_mod_u32 split: prod.splits if_splits)

subsection \<open>The shuffle\<close>

text \<open>
  The index drawn for slot \<open>i\<close> is at most \<open>i\<close>, even where the cast \<open>(i + 1) as u32\<close>
  truncates, so no swap of the loop is out of range.
\<close>

lemma rng_range_index:
  assumes "rng_range now (word_of_nat (Suc i)) s = (j, s')"
  shows "unat j \<le> i"
proof (cases "(word_of_nat (Suc i) :: u32) = 0")
  case True
  with assms show ?thesis by (simp add: rng_range_def)
next
  case False
  then have "j < word_of_nat (Suc i)"
    using rng_range_less [OF assms] by (simp add: word_neq_0_conv)
  then have "unat j < unat (word_of_nat (Suc i) :: u32)"
    by (simp add: word_less_nat_alt)
  also have "\<dots> \<le> Suc i"
    by (simp add: unsigned_of_nat take_bit_nat_less_eq_self del: of_nat_Suc)
  finally show ?thesis by simp
qed

definition queue_draw :: "u64 \<Rightarrow> nat \<Rightarrow> queue_state \<Rightarrow> nat \<times> queue_state" where
  "queue_draw now i s = (let (j, s1) = rng_range now (word_of_nat (i + 1)) s in (unat j, s1))"

lemma queue_draw_frame: "queue_draw now i s = (j, s') \<Longrightarrow> \<exists>x. s' = s\<lparr>qs_rng := x\<rparr>"
  by (auto simp: queue_draw_def dest: rng_range_frame split: prod.splits)

interpretation queue_shuffle: backward_shuffle
  qs_shuffle_round "\<lambda>v. qs_shuffle_round_update (\<lambda>_. v)" "queue_draw now" "shuffle_loop now" for now
proof unfold_locales
  fix i s j s' assume d: "queue_draw now i s = (j, s')"
  then show "j \<le> i" by (auto simp: queue_draw_def rng_range_index split: prod.splits)
  from d show "qs_shuffle_round s' = qs_shuffle_round s" by (auto dest: queue_draw_frame)
qed (simp_all add: queue_draw_def split: prod.split)

lemma shuffle_loop_ok:
  assumes "i < length (qs_shuffle_round s) \<or> i = 0"
  obtains r x where "shuffle_loop now i s = Some (s\<lparr>qs_shuffle_round := r, qs_rng := x\<rparr>)"
    and "mset r = mset (qs_shuffle_round s)"
proof -
  obtain s' where s': "shuffle_loop now i s = Some s'" "mset (qs_shuffle_round s') = mset (qs_shuffle_round s)"
    using queue_shuffle.loop_permutes [OF assms] by blast
  have "qs_mode s' = qs_mode s \<and> qs_current s' = qs_current s \<and> qs_last_db_id s' = qs_last_db_id s
      \<and> qs_shuffle_pos s' = qs_shuffle_pos s \<and> qs_shuffle_seed s' = qs_shuffle_seed s"
    by (rule queue_shuffle.loop_invariant [OF s'(1)]) (auto dest!: queue_draw_frame)
  then have "s' = s\<lparr>qs_shuffle_round := qs_shuffle_round s', qs_rng := qs_rng s'\<rparr>"
    by simp
  with s' that show thesis by metis
qed

text \<open>
  The index drawn to replace the avoided entry skips the target slot and stays in range.
\<close>

lemma avoid_step_ok:
  assumes "n = length (qs_shuffle_round s)"
  obtains r x where "avoid_step now n avoid t s = Some (s\<lparr>qs_shuffle_round := r, qs_rng := x\<rparr>)"
    and "mset r = mset (qs_shuffle_round s)"
    and "distinct (qs_shuffle_round s) \<Longrightarrow> 1 < n \<Longrightarrow> avoid = Some av \<Longrightarrow> vec_get r t \<noteq> Some av"
proof (cases "\<exists>a. avoid = Some a \<and> 1 < n \<and> vec_get (qs_shuffle_round s) t = Some a")
  case False
  then have "avoid_step now n avoid t s = Some s"
    by (auto simp: avoid_step_def split: option.splits)
  with False show ?thesis
    by (intro that [where r = "qs_shuffle_round s" and x = "qs_rng s"]) auto
next
  case True
  then obtain a where av: "avoid = Some a" "1 < n" "vec_get (qs_shuffle_round s) t = Some a"
    by blast
  then have t: "t < n" "qs_shuffle_round s ! t = a"
    using assms by (auto simp: vec_get_def split: if_splits)
  obtain raw s1 where d: "rng_range now (word_of_nat (n - 1)) s = (raw, s1)" by force
  then have raw: "unat raw \<le> n - 2"
    using rng_range_index [of now "n - 2" s raw s1] av(2)
    by (simp add: Suc_diff_Suc numeral_2_eq_2)
  from rng_range_frame [OF d] obtain x where s1: "s1 = s\<lparr>qs_rng := x\<rparr>" by blast
  define alt where "alt = (if t \<le> unat raw then unat raw + 1 else unat raw)"
  have alt: "alt < n" "alt \<noteq> t" using raw av(2) t by (auto simp: alt_def)
  obtain r where sw: "vec_swap (qs_shuffle_round s) t alt = Some r"
    using vec_swap_in_range [of t "qs_shuffle_round s" alt] t alt assms by auto
  have "avoid_step now n avoid t s = Some (s\<lparr>qs_shuffle_round := r, qs_rng := x\<rparr>)"
    using av d s1 sw by (simp add: avoid_step_def alt_def [symmetric])
  moreover have "vec_get r t \<noteq> Some a" if "distinct (qs_shuffle_round s)"
    using that vec_swap_Some [OF sw] t alt assms
    by (metis nth_eq_iff_index_eq option.inject vec_get_def)
  ultimately show ?thesis using that [where r = r and x = x] vec_swap_Some(4) [OF sw] av by auto
qed

lemma build_shuffle_round_ok:
  obtains r x where "build_shuffle_round now cs avoid t s = Some (s\<lparr>qs_shuffle_round := r, qs_rng := x\<rparr>)"
    and "mset r = mset cs"
    and "distinct cs \<Longrightarrow> 1 < length cs \<Longrightarrow> avoid = Some av \<Longrightarrow> vec_get r t \<noteq> Some av"
proof -
  let ?s0 = "s\<lparr>qs_shuffle_round := cs\<rparr>"
  have pre: "length cs - 1 < length (qs_shuffle_round ?s0) \<or> length cs - 1 = 0" by (cases cs) auto
  obtain r x where l: "shuffle_loop now (length cs - 1) ?s0 = Some (?s0\<lparr>qs_shuffle_round := r, qs_rng := x\<rparr>)"
    and "mset r = mset (qs_shuffle_round ?s0)"
    using shuffle_loop_ok [OF pre, of now] by blast
  then have m: "mset r = mset cs" by simp
  let ?s1 = "s\<lparr>qs_shuffle_round := r, qs_rng := x\<rparr>"
  have len: "length cs = length (qs_shuffle_round ?s1)" using mset_eq_length [OF m] by simp
  obtain r' y where a: "avoid_step now (length cs) avoid t ?s1 = Some (?s1\<lparr>qs_shuffle_round := r', qs_rng := y\<rparr>)"
    and "mset r' = mset (qs_shuffle_round ?s1)"
    and "distinct (qs_shuffle_round ?s1) \<Longrightarrow> 1 < length cs \<Longrightarrow> avoid = Some av \<Longrightarrow> vec_get r' t \<noteq> Some av"
    by (rule avoid_step_ok [OF len, of now avoid t av]) blast
  then have m': "mset r' = mset r"
    and av: "distinct r \<Longrightarrow> 1 < length cs \<Longrightarrow> avoid = Some av \<Longrightarrow> vec_get r' t \<noteq> Some av"
    by simp_all
  have "build_shuffle_round now cs avoid t s = Some (s\<lparr>qs_shuffle_round := r', qs_rng := y\<rparr>)"
    using l a by (simp add: build_shuffle_round_def)
  moreover have "distinct r = distinct cs" using m by (rule mset_eq_imp_distinct_iff)
  ultimately show ?thesis using that [where r = r' and x = y] m m' av by auto
qed

text \<open>Once the generator is seeded, or a seed is set, the clock is never read.\<close>

lemma rng_range_clock:
  "qs_shuffle_seed s \<noteq> 0 \<or> qs_rng s \<noteq> 0 \<Longrightarrow> rng_range now n s = rng_range now' n s"
  by (auto simp: rng_range_def rng_next_def)

lemma rng_range_seed: "rng_range now n s = (r, s') \<Longrightarrow> qs_shuffle_seed s' = qs_shuffle_seed s"
  using rng_range_frame by fastforce

lemma rng_range_rng: "rng_range now n s = (r, s') \<Longrightarrow> qs_rng s \<noteq> 0 \<Longrightarrow> qs_rng s' \<noteq> 0"
  by (auto simp: rng_range_def dest: rng_next_nonzero split: prod.splits if_splits)

lemma shuffle_loop_clock:
  "qs_shuffle_seed s \<noteq> 0 \<or> qs_rng s \<noteq> 0 \<Longrightarrow>
   shuffle_loop now i s = shuffle_loop now' i s \<and>
   (\<forall>s'. shuffle_loop now i s = Some s' \<longrightarrow> qs_shuffle_seed s' \<noteq> 0 \<or> qs_rng s' \<noteq> 0)"
proof (induction i arbitrary: s)
  case 0
  then show ?case by simp
next
  case (Suc i)
  obtain j s1 where d: "rng_range now (word_of_nat (Suc i + 1)) s = (j, s1)" by force
  then have d': "rng_range now' (word_of_nat (Suc i + 1)) s = (j, s1)"
    using rng_range_clock [OF Suc.prems] by metis
  have ok: "qs_shuffle_seed s1 \<noteq> 0 \<or> qs_rng s1 \<noteq> 0"
    using Suc.prems rng_range_seed [OF d] rng_range_rng [OF d] by auto
  show ?case
    using Suc.IH [of "s1\<lparr>qs_shuffle_round := perm\<rparr>" for perm] ok d d'
    by (auto split: option.split)
qed

lemma avoid_step_clock:
  "qs_shuffle_seed s \<noteq> 0 \<or> qs_rng s \<noteq> 0 \<Longrightarrow> avoid_step now n avoid t s = avoid_step now' n avoid t s"
  unfolding avoid_step_def by (simp only: rng_range_clock [of s now _ now'])

lemma build_shuffle_round_clock:
  assumes "qs_shuffle_seed s \<noteq> 0 \<or> qs_rng s \<noteq> 0"
  shows "build_shuffle_round now cs avoid t s = build_shuffle_round now' cs avoid t s"
proof -
  let ?s0 = "s\<lparr>qs_shuffle_round := cs\<rparr>"
  have "qs_shuffle_seed ?s0 \<noteq> 0 \<or> qs_rng ?s0 \<noteq> 0" using assms by simp
  from shuffle_loop_clock [OF this, of now "length cs - 1" now'] show ?thesis
    by (auto simp: build_shuffle_round_def Let_def split: option.split intro: avoid_step_clock)
qed

section \<open>The rotation handle (rotator.rs)\<close>

text \<open>
  The tokio watch channel is its current value, the number of values sent so far and the
  number of live receivers; \<open>send\<close> without a receiver fails and stores nothing, and the
  code ignores that error.
\<close>

record rotation_config =
  interval_secs :: u32
  kick_no :: u64

record rotation_handle =
  rh_value :: rotation_config
  rh_version :: nat
  rh_receivers :: nat
  rh_kick_counter :: u64

definition make_handle :: rotation_handle where
  "make_handle =
     \<lparr>rh_value = \<lparr>interval_secs = 0, kick_no = 0\<rparr>, rh_version = 0, rh_receivers = 1,
      rh_kick_counter = 0\<rparr>"

definition watch_send :: "rotation_config \<Rightarrow> rotation_handle \<Rightarrow> rotation_handle" where
  "watch_send cfg h =
     (if rh_receivers h = 0 then h
      else h\<lparr>rh_value := cfg, rh_version := Suc (rh_version h)\<rparr>)"

definition set_interval :: "u32 \<Rightarrow> rotation_handle \<Rightarrow> rotation_handle" where
  "set_interval secs h =
     (let cur = rh_value h
      in if interval_secs cur = secs then h
         else watch_send \<lparr>interval_secs = secs, kick_no = kick_no cur\<rparr> h)"

definition interval :: "rotation_handle \<Rightarrow> u32" where
  "interval h = interval_secs (rh_value h)"

text \<open>
  \<open>kick\<close> takes no lock: it bumps the counter, reads the current value and sends. The three
  steps are separate, so that another task may run between them.
\<close>

definition kick_fetch :: "rotation_handle \<Rightarrow> u64 \<times> rotation_handle" where
  "kick_fetch h = (rh_kick_counter h + 1, h\<lparr>rh_kick_counter := rh_kick_counter h + 1\<rparr>)"

definition kick_send :: "u64 \<Rightarrow> rotation_config \<Rightarrow> rotation_handle \<Rightarrow> rotation_handle" where
  "kick_send next cur h = watch_send \<lparr>interval_secs = interval_secs cur, kick_no = next\<rparr> h"

definition kick :: "rotation_handle \<Rightarrow> rotation_handle" where
  "kick h = (let (next, h1) = kick_fetch h in kick_send next (rh_value h1) h1)"

lemma interval_kick [simp]: "interval (kick h) = interval h"
  by (simp add: interval_def kick_def kick_fetch_def kick_send_def watch_send_def)

lemma interval_set_interval:
  "interval (set_interval n h) = (if rh_receivers h = 0 then interval h else n)"
  by (simp add: interval_def set_interval_def watch_send_def Let_def)

lemma rh_receivers_ops [simp]:
  "rh_receivers (kick h) = rh_receivers h" "rh_receivers (set_interval n h) = rh_receivers h"
  by (simp_all add: kick_def kick_fetch_def kick_send_def watch_send_def set_interval_def Let_def)

section \<open>relative_under_root (mod.rs)\<close>

definition trim_end_slashes :: "string \<Rightarrow> string" where
  "trim_end_slashes s = rev (dropWhile (\<lambda>c. c = CHR ''/'') (rev s))"

definition trim_start_slashes :: "string \<Rightarrow> string" where
  "trim_start_slashes s = dropWhile (\<lambda>c. c = CHR ''/'') s"

definition strip_prefix :: "string \<Rightarrow> string \<Rightarrow> string option" where
  "strip_prefix p s = (if take (length p) s = p then Some (drop (length p) s) else None)"

definition relative_under_root :: "string \<Rightarrow> string \<Rightarrow> string option" where
  "relative_under_root library_root resource =
     map_option trim_start_slashes (strip_prefix (trim_end_slashes library_root) resource)"

lemma strip_prefix_Some_iff: "strip_prefix p s = Some r \<longleftrightarrow> s = p @ r"
  by (auto simp: strip_prefix_def) (metis append_take_drop_id)

lemma strip_prefix_append [simp]: "strip_prefix p (p @ r) = Some r"
  by (simp add: strip_prefix_Some_iff)

lemma trim_start_slashes_split: "\<exists>n. s = replicate n CHR ''/'' @ trim_start_slashes s"
proof (induction s)
  case Nil
  then show ?case by (simp add: trim_start_slashes_def)
next
  case (Cons c s)
  then obtain n where n: "s = replicate n CHR ''/'' @ trim_start_slashes s" by blast
  show ?case
  proof (cases "c = CHR ''/''")
    case True
    then have "c # s = replicate (Suc n) CHR ''/'' @ trim_start_slashes (c # s)"
      using n by (simp add: trim_start_slashes_def)
    then show ?thesis by blast
  next
    case False
    then show ?thesis by (intro exI [of _ 0]) (simp add: trim_start_slashes_def)
  qed
qed

lemma trim_start_slashes_id: "(\<And>s. rel \<noteq> CHR ''/'' # s) \<Longrightarrow> trim_start_slashes rel = rel"
  by (cases rel) (auto simp: trim_start_slashes_def)

lemma trim_start_slashes_no_slash: "trim_start_slashes s \<noteq> CHR ''/'' # t"
  by (metis (mono_tags, lifting) dropWhile_eq_Cons_conv trim_start_slashes_def)

section \<open>Properties\<close>

text \<open>a shuffle round is a permutation. For any candidates and any generator state,
  \<open>build_shuffle_round\<close> never indexes out of range, stores a permutation of the candidates, moves
  nothing else but the generator, and, when the candidates are distinct and there are two of them,
  keeps the avoided entry out of the target position.\<close>

theorem build_shuffle_round_permutes:
  "\<exists>r x. build_shuffle_round now cs avoid t s = Some (s\<lparr>qs_shuffle_round := r, qs_rng := x\<rparr>) \<and>
     mset r = mset cs \<and>
     (\<forall>av. avoid = Some av \<and> distinct cs \<and> 1 < length cs \<longrightarrow> vec_get r t \<noteq> Some av)"
proof (cases avoid)
  case None
  then show ?thesis by (rule_tac build_shuffle_round_ok [of now cs avoid t s 0]) auto
next
  case (Some av)
  then show ?thesis by (rule_tac build_shuffle_round_ok [of now cs avoid t s av]) auto
qed

theorem build_shuffle_round_permutes_witness:
  "\<exists>r x. build_shuffle_round 5 [3, 1, 2] (Some 1) 0 queue_state_default =
       Some (queue_state_default\<lparr>qs_shuffle_round := r, qs_rng := x\<rparr>) \<and> vec_get r 0 \<noteq> Some 1"
  using build_shuffle_round_permutes [of 5 "[3, 1, 2]" "Some 1" 0 queue_state_default] by auto

text \<open>the generator never degenerates. A step of xorshift64 is a bijection of the 64-bit
  states that fixes zero, so a seeded generator never falls into the state that asks for a new
  seed, and no two states run together.\<close>

theorem xorshift64_permutes_states: "bij xorshift64 \<and> (\<forall>x. xorshift64 x = 0 \<longleftrightarrow> x = 0)"
proof -
  have "inj xorshift64" by (auto intro: injI dest: xorshift64_inj)
  moreover from this have "surj xorshift64" by (rule finite_UNIV_inj_surj [OF finite_class.finite_UNIV])
  ultimately show ?thesis by (simp add: bij_def)
qed

text \<open>shuffles are reproducible. Once a seed is set, or the generator has run, a round does
  not depend on the wall clock.\<close>

theorem shuffle_reproducible:
  assumes "qs_shuffle_seed s \<noteq> 0 \<or> qs_rng s \<noteq> 0"
  shows "build_shuffle_round now cs avoid t s = build_shuffle_round now' cs avoid t s"
  using assms by (rule build_shuffle_round_clock)

theorem shuffle_reproducible_witness:
  "build_shuffle_round 1 [7, 8, 9] None 0 (queue_state_default\<lparr>qs_shuffle_seed := 42\<rparr>) =
   build_shuffle_round 2 [7, 8, 9] None 0 (queue_state_default\<lparr>qs_shuffle_seed := 42\<rparr>)"
  by (rule shuffle_reproducible) simp

text \<open>a path relative to a library comes back. The result of \<open>relative_under_root\<close> never
  starts with a slash and, joined to the trimmed root by slashes, gives the resource; a
  relative path joined to the root is recovered.\<close>

theorem relative_under_root_round_trip:
  "(\<forall>r. relative_under_root lib res = Some r \<longrightarrow>
      (\<exists>n. res = trim_end_slashes lib @ replicate n CHR ''/'' @ r) \<and> (\<forall>t. r \<noteq> CHR ''/'' # t)) \<and>
   ((\<forall>t. rel \<noteq> CHR ''/'' # t) \<longrightarrow>
      relative_under_root lib (trim_end_slashes lib @ ''/'' @ rel) = Some rel)"
proof -
  have "trim_start_slashes (CHR ''/'' # rel) = trim_start_slashes rel"
    by (simp add: trim_start_slashes_def)
  then show ?thesis
    using trim_start_slashes_split
    by (auto simp: relative_under_root_def strip_prefix_Some_iff trim_start_slashes_no_slash
        intro: trim_start_slashes_id)
qed

theorem relative_under_root_round_trip_witness:
  "relative_under_root ''/lib/'' ''/lib/a.png'' = Some ''a.png''"
  using relative_under_root_round_trip [where lib = "''/lib/''" and rel = "''a.png''"]
  by (simp add: trim_end_slashes_def)

text \<open>the helper does not compare whole path components: a resource of a sibling directory
  whose name merely starts with the root's is taken to lie under the root.\<close>

theorem relative_under_root_sibling:
  assumes "lib \<noteq> []" and "last lib \<noteq> CHR ''/''" and "suffix \<noteq> []" and "hd suffix \<noteq> CHR ''/''"
  shows "relative_under_root lib (lib @ suffix) = Some suffix"
proof -
  have "trim_end_slashes lib = lib"
    using assms(1,2) by (cases lib rule: rev_cases) (simp_all add: trim_end_slashes_def)
  moreover have "trim_start_slashes suffix = suffix"
    using assms(3,4) by (cases suffix) (simp_all add: trim_start_slashes_def)
  ultimately show ?thesis by (simp add: relative_under_root_def)
qed

theorem relative_under_root_sibling_witness:
  "relative_under_root ''/lib'' ''/library2/x.png'' = Some ''rary2/x.png''"
  using relative_under_root_sibling [of "''/lib''" "''rary2/x.png''"] by simp

text \<open>\<open>kick\<close> is a read followed by a write. Run alone it keeps the interval and always
  changes the published configuration; but an interval set between its read and its write is
  overwritten with the old one.\<close>

theorem kick_race:
  assumes "rh_receivers h \<noteq> 0"
  shows "interval (kick h) = interval h \<and> rh_version (kick h) = Suc (rh_version h) \<and>
    interval (set_interval n h) = n \<and>
    (let (next, h1) = kick_fetch h; cur = rh_value h1
     in interval (kick_send next cur (set_interval n h1)) = interval h)"
  using assms
  by (simp add: interval_set_interval)
    (simp add: interval_def kick_def kick_fetch_def kick_send_def watch_send_def set_interval_def Let_def)

theorem kick_race_witness:
  "let (next, h1) = kick_fetch make_handle; cur = rh_value h1
   in interval (kick_send next cur (set_interval 60 h1)) = 0"
proof -
  have "interval make_handle = 0" "rh_receivers make_handle \<noteq> 0"
    by (simp_all add: make_handle_def interval_def)
  with kick_race [of make_handle 60] show ?thesis by (simp add: Let_def)
qed

end
