(* ===== verification/Cursor.thy ===== *)
theory Cursor
  imports Queue
begin

text \<open>
  The playlist cursor, \<open>src/playlist/cursor.rs\<close>: which wallpaper of a playlist comes next
  in each of the three modes. A panic of the source (an index out of range, a remainder by
  zero) is the value \<open>None\<close> of an operation.
\<close>

section \<open>The cursor and its generator\<close>

record playlist_cursor =
  pc_items :: "string list"
  pc_mode :: mode
  pc_pos :: nat
  pc_order :: "nat list"
  pc_order_pos :: nat
  pc_rng :: u64
  pc_current :: "string option"

definition pc_rng_next :: "playlist_cursor \<Rightarrow> u64 \<times> playlist_cursor" where
  "pc_rng_next c =
     (let x = xorshift64 (if pc_rng c = 0 then default_seed else pc_rng c)
      in (x, c\<lparr>pc_rng := x\<rparr>))"

definition pc_rng_range :: "nat \<Rightarrow> playlist_cursor \<Rightarrow> nat \<times> playlist_cursor" where
  "pc_rng_range n c =
     (if n = 0 then (0, c) else (let (x, c') = pc_rng_next c in (unat x mod n, c')))"

text \<open>The loop \<open>for i in (1..n).rev()\<close> over \<open>order\<close>.\<close>

fun order_loop :: "nat \<Rightarrow> playlist_cursor \<Rightarrow> playlist_cursor option" where
  "order_loop 0 c = Some c"
| "order_loop (Suc i) c =
     (let (j, c1) = pc_rng_range (Suc i + 1) c
      in case vec_swap (pc_order c1) (Suc i) j of
           None \<Rightarrow> None
         | Some ord \<Rightarrow> order_loop i (c1\<lparr>pc_order := ord\<rparr>))"

definition build_order :: "playlist_cursor \<Rightarrow> playlist_cursor option" where
  "build_order c =
     (let n = length (pc_items c)
      in map_option (\<lambda>c'. c'\<lparr>pc_order_pos := 0\<rparr>) (order_loop (n - 1) (c\<lparr>pc_order := [0..<n]\<rparr>)))"

definition cursor_new :: "string list \<Rightarrow> mode \<Rightarrow> u64 \<Rightarrow> playlist_cursor option" where
  "cursor_new its m seed =
     (let c = \<lparr>pc_items = its, pc_mode = m, pc_pos = 0, pc_order = [], pc_order_pos = 0,
               pc_rng = (if seed = 0 then default_seed else seed), pc_current = None\<rparr>
      in if m = Shuffle then build_order c else Some c)"

section \<open>Stepping\<close>

text \<open>
  \<open>i32::rem_euclid\<close>: panics on a zero divisor and on \<open>i32::MIN\<close> by \<open>-1\<close>; otherwise the
  remainder is in \<open>0 .. |b|\<close>. Isabelle's \<open>mod\<close> by a positive number is that remainder.
\<close>

definition rem_euclid_i32 :: "i32 \<Rightarrow> i32 \<Rightarrow> nat option" where
  "rem_euclid_i32 a b =
     (if b = 0 \<or> (sint a = - (2 ^ 31) \<and> sint b = - 1) then None
      else Some (nat (sint a mod \<bar>sint b\<bar>)))"

definition pick_index ::
  "i32 \<Rightarrow> playlist_cursor \<Rightarrow> (nat \<times> playlist_cursor) option" where
  "pick_index delta c =
     (let n = length (pc_items c)
      in case pc_mode c of
           Sequential \<Rightarrow>
             (case rem_euclid_i32 delta (word_of_nat n) of
                None \<Rightarrow> None
              | Some step \<Rightarrow>
                  (let p = (pc_pos c + step) mod n in Some (p, c\<lparr>pc_pos := p\<rparr>)))
         | Random \<Rightarrow>
             (let (idx0, c1) = pc_rng_range n c;
                  idx = (if 1 < n \<and> Some (pc_items c1 ! idx0) = pc_current c1
                         then (idx0 + 1) mod n else idx0)
              in Some (idx, c1\<lparr>pc_pos := idx\<rparr>))
         | Shuffle \<Rightarrow>
             (case (if length (pc_order c) \<noteq> n then build_order c else Some c) of
                None \<Rightarrow> None
              | Some c1 \<Rightarrow>
                  (let m = length (pc_order c1)
                   in case rem_euclid_i32 delta (word_of_nat m) of
                        None \<Rightarrow> None
                      | Some step \<Rightarrow>
                          (let op = (pc_order_pos c1 + step) mod m;
                               c2 = c1\<lparr>pc_order_pos := op\<rparr>
                           in case (if op = 0 then build_order c2 else Some c2) of
                                None \<Rightarrow> None
                              | Some c3 \<Rightarrow>
                                  (case vec_get (pc_order c3) (pc_order_pos c3) of
                                     None \<Rightarrow> None
                                   | Some idx \<Rightarrow> Some (idx, c3))))))"

definition cursor_next ::
  "i32 \<Rightarrow> playlist_cursor \<Rightarrow> (string option \<times> playlist_cursor) option" where
  "cursor_next delta c =
     (if pc_items c = [] then Some (None, c)
      else (case pick_index delta c of
              None \<Rightarrow> None
            | Some (idx, c1) \<Rightarrow>
                (case vec_get (pc_items c1) idx of
                   None \<Rightarrow> None
                 | Some e \<Rightarrow> Some (Some e, c1\<lparr>pc_current := Some e\<rparr>))))"

definition set_current :: "string \<Rightarrow> playlist_cursor \<Rightarrow> (bool \<times> playlist_cursor) option" where
  "set_current e c =
     (case position (\<lambda>x. x = e) (pc_items c) of
        None \<Rightarrow> Some (False, c)
      | Some idx \<Rightarrow>
          (let c1 = c\<lparr>pc_pos := idx\<rparr>
           in case (if pc_mode c1 = Shuffle
                    then (case (if length (pc_order c1) \<noteq> length (pc_items c1)
                                then build_order c1 else Some c1) of
                            None \<Rightarrow> None
                          | Some c2 \<Rightarrow>
                              (case position (\<lambda>k. k = idx) (pc_order c2) of
                                 None \<Rightarrow> Some c2
                               | Some op \<Rightarrow> Some (c2\<lparr>pc_order_pos := op\<rparr>)))
                    else Some c1) of
                None \<Rightarrow> None
              | Some c3 \<Rightarrow> Some (True, c3\<lparr>pc_current := Some e\<rparr>)))"

definition first :: "playlist_cursor \<Rightarrow> (string option \<times> playlist_cursor) option" where
  "first c =
     (if pc_items c = [] then Some (None, c)
      else (case (case pc_mode c of
              Shuffle \<Rightarrow>
                (case (if length (pc_order c) \<noteq> length (pc_items c) then build_order c
                       else Some c) of
                   None \<Rightarrow> None
                 | Some c1 \<Rightarrow>
                     (let c2 = c1\<lparr>pc_order_pos := 0\<rparr>
                      in case vec_get (pc_order c2) 0 of
                           None \<Rightarrow> None
                         | Some k \<Rightarrow> map_option (\<lambda>e. (e, c2)) (vec_get (pc_items c2) k)))
            | Random \<Rightarrow>
                (let (idx, c1) = pc_rng_range (length (pc_items c)) c
                 in map_option (\<lambda>e. (e, c1\<lparr>pc_pos := idx\<rparr>)) (vec_get (pc_items c1) idx))
            | Sequential \<Rightarrow>
                map_option (\<lambda>e. (e, c\<lparr>pc_pos := 0\<rparr>)) (vec_get (pc_items c) 0)) of
              None \<Rightarrow> None
            | Some (e, c') \<Rightarrow> Some (Some e, c'\<lparr>pc_current := Some e\<rparr>)))"

section \<open>The order is a permutation\<close>

definition order_ok :: "playlist_cursor \<Rightarrow> bool" where
  "order_ok c \<longleftrightarrow> mset (pc_order c) = mset [0..<length (pc_order c)]"

lemma pc_rng_range_less: "pc_rng_range n c = (j, c') \<Longrightarrow> 0 < n \<Longrightarrow> j < n"
  by (auto simp: pc_rng_range_def split: prod.splits)

lemma pc_rng_range_frame: "pc_rng_range n c = (j, c') \<Longrightarrow> \<exists>x. c' = c\<lparr>pc_rng := x\<rparr>"
  by (cases c) (auto simp: pc_rng_range_def pc_rng_next_def Let_def split: if_splits)

interpretation cursor_shuffle: backward_shuffle
  pc_order "\<lambda>v. pc_order_update (\<lambda>_. v)" "\<lambda>i. pc_rng_range (i + 1)" order_loop
proof unfold_locales
  fix i s j s' assume d: "pc_rng_range (i + 1) s = (j, s')"
  then show "j \<le> i" using pc_rng_range_less by fastforce
  from d show "pc_order s' = pc_order s" by (auto dest: pc_rng_range_frame)
qed (simp_all split: prod.split)

lemma build_order_ok:
  obtains r x where "build_order c = Some (c\<lparr>pc_order := r, pc_order_pos := 0, pc_rng := x\<rparr>)"
    and "mset r = mset [0..<length (pc_items c)]"
proof -
  let ?n = "length (pc_items c)" and ?c0 = "c\<lparr>pc_order := [0..<length (pc_items c)]\<rparr>"
  have "?n - 1 < length (pc_order ?c0) \<or> ?n - 1 = 0" by auto
  from cursor_shuffle.loop_permutes [OF this] obtain c1 where
    l: "order_loop (?n - 1) ?c0 = Some c1" and m: "mset (pc_order c1) = mset [0..<?n]"
    by auto
  have "pc_items c1 = pc_items c \<and> pc_mode c1 = pc_mode c \<and> pc_pos c1 = pc_pos c
      \<and> pc_order_pos c1 = pc_order_pos c \<and> pc_current c1 = pc_current c"
    by (rule cursor_shuffle.loop_invariant [OF l]) (auto dest!: pc_rng_range_frame)
  then have "c1\<lparr>pc_order_pos := 0\<rparr> = c\<lparr>pc_order := pc_order c1, pc_order_pos := 0, pc_rng := pc_rng c1\<rparr>"
    by simp
  with l m that show thesis by (simp add: build_order_def Let_def)
qed

lemma perm_range:
  assumes "mset r = mset [0..<n]"
  shows "length r = n" "distinct r" "set r = {0..<n}"
  using assms mset_eq_length [OF assms] mset_eq_imp_distinct_iff [OF assms] mset_eq_setD [OF assms]
  by auto

section \<open>No panic, and what a step returns\<close>

lemma sint_word_of_nat_i32: "n < 2 ^ 31 \<Longrightarrow> sint (word_of_nat n :: i32) = int n"
  by (simp add: signed_of_nat signed_take_bit_int_eq_self)

lemma rem_euclid_i32_ok:
  "0 < n \<Longrightarrow> n < 2 ^ 31 \<Longrightarrow> rem_euclid_i32 d (word_of_nat n) = Some (nat (sint d mod int n))"
  by (auto simp: rem_euclid_i32_def sint_word_of_nat_i32 dest: arg_cong [where f = sint])

lemma nat_mod_less: "0 < n \<Longrightarrow> nat (d mod int n) < n"
  by (metis nat_less_iff of_nat_0_less_iff pos_mod_bound pos_mod_sign)

text \<open>
  What every operation of the cursor leaves alone, and what it keeps: the items, the mode,
  and the order being a permutation.
\<close>

definition cursor_keeps :: "playlist_cursor \<Rightarrow> playlist_cursor \<Rightarrow> bool" where
  "cursor_keeps c c' \<longleftrightarrow>
     pc_items c' = pc_items c \<and> pc_mode c' = pc_mode c \<and> (order_ok c \<longrightarrow> order_ok c')"

lemma cursor_keeps_refl [simp]: "cursor_keeps c c"
  by (simp add: cursor_keeps_def)

lemma cursor_keeps_trans: "cursor_keeps a b \<Longrightarrow> cursor_keeps b c \<Longrightarrow> cursor_keeps a c"
  by (simp add: cursor_keeps_def)

lemma build_order_result:
  obtains c' where "build_order c = Some c'" "cursor_keeps c c'" "order_ok c'"
    "length (pc_order c') = length (pc_items c)" "pc_order_pos c' = 0" "pc_pos c' = pc_pos c"
    "pc_current c' = pc_current c"
proof -
  obtain r x where b: "build_order c = Some (c\<lparr>pc_order := r, pc_order_pos := 0, pc_rng := x\<rparr>)"
    and m: "mset r = mset [0..<length (pc_items c)]"
    by (rule build_order_ok)
  show thesis
    by (rule that [OF b]) (use perm_range [OF m] m in \<open>simp_all add: cursor_keeps_def order_ok_def\<close>)
qed

text \<open>\<open>if order.len() != items.len() { build_order() }\<close>, as \<open>next\<close>, \<open>set_current\<close> and
  \<open>first\<close> have it.\<close>

lemma ensure_order_result:
  assumes "order_ok c"
  obtains c' where "(if length (pc_order c) \<noteq> length (pc_items c) then build_order c else Some c) = Some c'"
    "cursor_keeps c c'" "order_ok c'" "length (pc_order c') = length (pc_items c)"
    "pc_pos c' = pc_pos c" "pc_current c' = pc_current c"
    "length (pc_order c) = length (pc_items c) \<Longrightarrow> c' = c"
  using assms build_order_result [of c] that by (cases "length (pc_order c) = length (pc_items c)") auto

lemma order_ok_nth:
  assumes "order_ok c" and "k < length (pc_order c)"
  shows "pc_order c ! k < length (pc_order c)"
proof -
  have "set (pc_order c) = {0..<length (pc_order c)}"
    using assms(1) unfolding order_ok_def by (rule perm_range(3))
  with nth_mem [OF assms(2)] show ?thesis by auto
qed

lemma pick_index_shuffle:
  assumes ok: "order_ok c" and mode: "pc_mode c = Shuffle"
    and n: "0 < length (pc_items c)" "length (pc_items c) < 2 ^ 31"
  obtains idx c' where "pick_index delta c = Some (idx, c')" "idx < length (pc_items c)"
    "cursor_keeps c c'" "order_ok c'" "pc_pos c' = pc_pos c" "pc_current c' = pc_current c"
proof -
  let ?n = "length (pc_items c)"
  obtain c1 where c1: "(if length (pc_order c) \<noteq> ?n then build_order c else Some c) = Some c1"
    "cursor_keeps c c1" "order_ok c1" "length (pc_order c1) = ?n" "pc_pos c1 = pc_pos c"
    "pc_current c1 = pc_current c"
    using ensure_order_result [OF ok] by blast
  define op where "op = (pc_order_pos c1 + nat (sint delta mod int ?n)) mod ?n"
  let ?c2 = "c1\<lparr>pc_order_pos := op\<rparr>"
  have op: "op < ?n" using n by (simp add: op_def)
  obtain c3 where c3: "(if op = 0 then build_order ?c2 else Some ?c2) = Some c3"
    "cursor_keeps ?c2 c3" "order_ok c3" "length (pc_order c3) = ?n" "pc_order_pos c3 = op"
    "pc_pos c3 = pc_pos c" "pc_current c3 = pc_current c"
  proof (cases "op = 0")
    case True
    with c1 that show ?thesis
      by (auto simp: cursor_keeps_def intro: build_order_result [of ?c2])
  next
    case False
    with c1 show ?thesis by (intro that [of ?c2]) (simp_all add: order_ok_def)
  qed
  have "cursor_keeps c c3"
    using c1(2,3) c3(2) by (auto simp: cursor_keeps_def order_ok_def)
  moreover have "pick_index delta c = Some (pc_order c3 ! op, c3)"
    using mode c1(1,4) c3(1,4,5) op n
    by (simp add: pick_index_def Let_def rem_euclid_i32_ok op_def [symmetric] vec_get_def)
  moreover have "pc_order c3 ! op < ?n" using order_ok_nth [OF c3(3)] c3(4) op by simp
  ultimately show thesis using that c3 by blast
qed

lemma pick_index_ok:
  assumes ok: "order_ok c" and n: "0 < length (pc_items c)" "length (pc_items c) < 2 ^ 31"
  obtains idx c' where "pick_index delta c = Some (idx, c')" "idx < length (pc_items c)"
    "cursor_keeps c c'" "order_ok c'" "pc_current c' = pc_current c"
proof (cases "pc_mode c")
  case Sequential
  let ?p = "(pc_pos c + nat (sint delta mod int (length (pc_items c)))) mod length (pc_items c)"
  show ?thesis
    using Sequential ok n
    by (intro that [where idx = ?p and c' = "c\<lparr>pc_pos := ?p\<rparr>"])
      (auto simp: pick_index_def Let_def rem_euclid_i32_ok cursor_keeps_def order_ok_def)
next
  case Shuffle
  from pick_index_shuffle [OF ok this n, of delta] that show ?thesis by metis
next
  case Random
  obtain i c1 where d: "pc_rng_range (length (pc_items c)) c = (i, c1)" by force
  then have "i < length (pc_items c)" using n pc_rng_range_less by blast
  moreover obtain x where c1: "c1 = c\<lparr>pc_rng := x\<rparr>" using pc_rng_range_frame [OF d] by blast
  moreover define k where "k = (if 1 < length (pc_items c) \<and> Some (pc_items c ! i) = pc_current c
    then (i + 1) mod length (pc_items c) else i)"
  ultimately have "pick_index delta c = Some (k, c1\<lparr>pc_pos := k\<rparr>)" "k < length (pc_items c)"
    using Random d n by (simp_all add: pick_index_def Let_def)
  then show ?thesis
    using c1 ok
    by (intro that [where idx = k and c' = "c1\<lparr>pc_pos := k\<rparr>"]) (auto simp: cursor_keeps_def order_ok_def)
qed

lemma cursor_next_ok:
  assumes "order_ok c" and "0 < length (pc_items c)" and "length (pc_items c) < 2 ^ 31"
  obtains e c' where "cursor_next delta c = Some (Some e, c')" "e \<in> set (pc_items c)"
    "pc_current c' = Some e" "cursor_keeps c c'" "order_ok c'"
proof -
  obtain idx c1 where p: "pick_index delta c = Some (idx, c1)" "idx < length (pc_items c)"
    "cursor_keeps c c1" "order_ok c1"
    by (rule pick_index_ok [OF assms])
  then show thesis
    using assms(2)
    by (intro that [where e = "pc_items c ! idx" and c' = "c1\<lparr>pc_current := Some (pc_items c ! idx)\<rparr>"])
      (auto simp: cursor_next_def vec_get_def cursor_keeps_def order_ok_def)
qed

lemma set_current_ok:
  assumes "order_ok c"
  obtains c' where "set_current e c = Some (e \<in> set (pc_items c), c')" "cursor_keeps c c'"
    "pc_current c' = (if e \<in> set (pc_items c) then Some e else pc_current c)"
    "e \<in> set (pc_items c) \<Longrightarrow> pc_pos c' < length (pc_items c) \<and> pc_items c ! pc_pos c' = e"
proof (cases "position (\<lambda>x. x = e) (pc_items c)")
  case None
  then have "e \<notin> set (pc_items c)" by (auto simp: position_None)
  then show ?thesis using None that [of c] by (simp add: set_current_def)
next
  case (Some idx)
  then have idx: "idx < length (pc_items c)" "pc_items c ! idx = e" by (auto dest: position_Some)
  then have e: "e \<in> set (pc_items c)" by auto
  let ?c1 = "c\<lparr>pc_pos := idx\<rparr>"
  have "order_ok ?c1" using assms by (simp add: order_ok_def)
  then obtain c2 where c2: "(if length (pc_order ?c1) \<noteq> length (pc_items ?c1) then build_order ?c1 else Some ?c1) = Some c2"
    "cursor_keeps ?c1 c2" "pc_pos c2 = pc_pos ?c1"
    by (rule ensure_order_result)
  let ?c3 = "if pc_mode c = Shuffle
    then (case position (\<lambda>k. k = idx) (pc_order c2) of None \<Rightarrow> c2 | Some op \<Rightarrow> c2\<lparr>pc_order_pos := op\<rparr>)
    else ?c1"
  show ?thesis
  proof (rule that [of "?c3\<lparr>pc_current := Some e\<rparr>"])
    show "set_current e c = Some (e \<in> set (pc_items c), ?c3\<lparr>pc_current := Some e\<rparr>)"
      using Some e c2(1) by (auto simp: set_current_def Let_def split: option.split)
  qed (use e idx c2(2,3) assms in \<open>auto simp: cursor_keeps_def order_ok_def split: option.split\<close>)
qed

lemma first_ok:
  assumes ok: "order_ok c" and n: "0 < length (pc_items c)"
  obtains e c' where "first c = Some (Some e, c')" "e \<in> set (pc_items c)" "pc_current c' = Some e"
    "cursor_keeps c c'" "order_ok c'"
    "pc_mode c = Shuffle \<Longrightarrow> length (pc_order c') = length (pc_items c) \<and> pc_order_pos c' = 0
       \<and> pc_items c ! (pc_order c' ! 0) = e"
    "pc_mode c = Sequential \<Longrightarrow> pc_pos c' = 0 \<and> pc_items c ! 0 = e"
proof (cases "pc_mode c")
  case Sequential
  then show ?thesis
    using assms that [of "pc_items c ! 0" "c\<lparr>pc_pos := 0, pc_current := Some (pc_items c ! 0)\<rparr>"]
    by (simp add: first_def vec_get_def cursor_keeps_def order_ok_def)
next
  case Shuffle
  obtain c1 where c1: "(if length (pc_order c) \<noteq> length (pc_items c) then build_order c else Some c) = Some c1"
    "cursor_keeps c c1" "order_ok c1" "length (pc_order c1) = length (pc_items c)"
    using ensure_order_result [OF ok] by blast
  let ?k = "pc_order c1 ! 0"
  let ?c' = "c1\<lparr>pc_order_pos := 0, pc_current := Some (pc_items c ! ?k)\<rparr>"
  have "?k < length (pc_items c)" using order_ok_nth [OF c1(3)] c1(4) n by simp
  moreover have "pc_order c1 \<noteq> []" using c1(4) n by auto
  ultimately have "first c = Some (Some (pc_items c ! ?k), ?c')"
    using Shuffle c1 n by (simp add: first_def vec_get_def cursor_keeps_def Let_def)
  then show ?thesis
    using \<open>?k < length (pc_items c)\<close> that [of "pc_items c ! ?k" ?c'] c1 Shuffle by (simp add: cursor_keeps_def order_ok_def)
next
  case Random
  obtain i c1 where d: "pc_rng_range (length (pc_items c)) c = (i, c1)" by force
  then have i: "i < length (pc_items c)" using n pc_rng_range_less by blast
  obtain x where c1: "c1 = c\<lparr>pc_rng := x\<rparr>" using pc_rng_range_frame [OF d] by blast
  let ?c' = "c1\<lparr>pc_pos := i, pc_current := Some (pc_items c ! i)\<rparr>"
  have "first c = Some (Some (pc_items c ! i), ?c')"
    using Random d i c1 n by (simp add: first_def vec_get_def)
  then show ?thesis
    using that [of "pc_items c ! i" ?c'] i c1 Random ok by (simp add: cursor_keeps_def order_ok_def)
qed

lemma cursor_new_ok: "\<exists>c. cursor_new its m seed = Some c \<and> pc_items c = its \<and> pc_mode c = m \<and> order_ok c"
proof -
  let ?c = "\<lparr>pc_items = its, pc_mode = m, pc_pos = 0, pc_order = [], pc_order_pos = 0,
     pc_rng = (if seed = 0 then default_seed else seed), pc_current = None\<rparr>"
  obtain c' where "build_order ?c = Some c'" "cursor_keeps ?c c'" "order_ok c'"
    by (rule build_order_result)
  then show ?thesis by (auto simp: cursor_new_def Let_def cursor_keeps_def order_ok_def)
qed

section \<open>Rounds\<close>

text \<open>\<open>k\<close> calls of \<open>next(1)\<close>, with the entries they return (\<open>None\<close> when one panics or the
  playlist is empty).\<close>

fun cursor_run :: "nat \<Rightarrow> playlist_cursor \<Rightarrow> (string list \<times> playlist_cursor) option" where
  "cursor_run 0 c = Some ([], c)"
| "cursor_run (Suc k) c =
     (case cursor_next 1 c of
        Some (Some e, c1) \<Rightarrow> map_option (\<lambda>(es, c2). (e # es, c2)) (cursor_run k c1)
      | _ \<Rightarrow> None)"

lemma next_sequential:
  assumes "pc_mode c = Sequential" "0 < length (pc_items c)" "length (pc_items c) < 2 ^ 31"
  shows "cursor_next d c =
    (let p = (pc_pos c + nat (sint d mod int (length (pc_items c)))) mod length (pc_items c)
     in Some (Some (pc_items c ! p), c\<lparr>pc_pos := p, pc_current := Some (pc_items c ! p)\<rparr>))"
  using assms by (simp add: cursor_next_def pick_index_def Let_def rem_euclid_i32_ok vec_get_def)

lemma sint_1 [simp]: "sint (1::i32) = 1"
  by simp

lemma add_nat_mod: "(p + nat (1 mod int n)) mod n = Suc p mod n"
proof (cases "n = 1")
  case False
  then show ?thesis by (cases "n = 0") (simp_all add: nat_mod_distrib)
qed simp

lemma cursor_run_sequential:
  assumes "pc_mode c = Sequential" "0 < length (pc_items c)" "length (pc_items c) < 2 ^ 31"
  shows "\<exists>c'. cursor_run k c =
    Some (map (\<lambda>i. pc_items c ! ((pc_pos c + Suc i) mod length (pc_items c))) [0..<k], c')"
  using assms
proof (induction k arbitrary: c)
  case 0
  then show ?case by simp
next
  case (Suc k)
  let ?n = "length (pc_items c)" and ?p = "Suc (pc_pos c) mod length (pc_items c)"
  let ?c1 = "c\<lparr>pc_pos := ?p, pc_current := Some (pc_items c ! ?p)\<rparr>"
  have nx: "cursor_next 1 c = Some (Some (pc_items c ! ?p), ?c1)"
    using Suc.prems by (simp add: next_sequential Let_def add_nat_mod)
  obtain c' where "cursor_run k ?c1 =
      Some (map (\<lambda>i. pc_items c ! ((?p + Suc i) mod ?n)) [0..<k], c')"
    using Suc.IH [of ?c1] Suc.prems by auto
  moreover have "(?p + Suc i) mod ?n = (pc_pos c + Suc (Suc i)) mod ?n" for i
    by (metis add_Suc_shift mod_add_left_eq)
  ultimately show ?case using nx by (simp add: upt_conv_Cons map_Suc_upt [symmetric] comp_def del: upt_Suc)
qed

lemma mset_rotate1: "mset (rotate1 xs) = mset xs"
  by (cases xs) simp_all

lemma map_rotate_mset:
  "mset (map (\<lambda>i. xs ! ((p + Suc i) mod length xs)) [0..<length xs]) = mset xs"
proof -
  have "map (\<lambda>i. xs ! ((p + Suc i) mod length xs)) [0..<length xs] = rotate (Suc p) xs"
    by (rule nth_equalityI) (simp_all add: nth_rotate add.commute del: rotate_Suc)
  moreover have "mset (rotate n xs) = mset xs" for n
    by (induction n) (simp_all add: mset_rotate1)
  ultimately show ?thesis by (simp del: rotate_Suc)
qed

lemma next_shuffle_step:
  assumes "pc_mode c = Shuffle" "order_ok c" "length (pc_order c) = length (pc_items c)"
    and "Suc (pc_order_pos c) < length (pc_items c)" "length (pc_items c) < 2 ^ 31"
  shows "cursor_next 1 c = Some (Some (pc_items c ! (pc_order c ! Suc (pc_order_pos c))),
    c\<lparr>pc_order_pos := Suc (pc_order_pos c),
      pc_current := Some (pc_items c ! (pc_order c ! Suc (pc_order_pos c)))\<rparr>)"
  using assms order_ok_nth [OF assms(2), of "Suc (pc_order_pos c)"]
  by (auto simp: cursor_next_def pick_index_def Let_def rem_euclid_i32_ok vec_get_def add_nat_mod)

lemma cursor_run_shuffle:
  assumes "pc_mode c = Shuffle" "order_ok c" "length (pc_order c) = length (pc_items c)"
    and "pc_order_pos c + k < length (pc_items c)" "length (pc_items c) < 2 ^ 31"
  shows "\<exists>c'. cursor_run k c =
    Some (map (\<lambda>i. pc_items c ! (pc_order c ! i)) [Suc (pc_order_pos c)..<Suc (pc_order_pos c + k)], c')"
  using assms
proof (induction k arbitrary: c)
  case 0
  then show ?case by simp
next
  case (Suc k)
  let ?p = "Suc (pc_order_pos c)"
  let ?e = "pc_items c ! (pc_order c ! ?p)"
  let ?c1 = "c\<lparr>pc_order_pos := ?p, pc_current := Some ?e\<rparr>"
  have nx: "cursor_next 1 c = Some (Some ?e, ?c1)"
    using Suc.prems by (intro next_shuffle_step) simp_all
  obtain c' where "cursor_run k ?c1 =
      Some (map (\<lambda>i. pc_items c ! (pc_order c ! i)) [Suc ?p..<Suc (?p + k)], c')"
    using Suc.IH [of ?c1] Suc.prems by (auto simp: order_ok_def)
  then show ?case using nx by (simp add: upt_conv_Cons del: upt_Suc)
qed

lemma shuffle_items_mset:
  assumes "order_ok c" "length (pc_order c) = length (pc_items c)"
  shows "mset (map (\<lambda>i. pc_items c ! (pc_order c ! i)) [0..<length (pc_items c)]) = mset (pc_items c)"
proof -
  have "map (\<lambda>i. pc_items c ! (pc_order c ! i)) [0..<length (pc_items c)] = map (\<lambda>k. pc_items c ! k) (pc_order c)"
    by (rule nth_equalityI) (simp_all add: assms(2))
  also have "mset \<dots> = image_mset ((!) (pc_items c)) (mset [0..<length (pc_items c)])"
    using assms by (simp add: order_ok_def)
  also have "\<dots> = mset (map ((!) (pc_items c)) [0..<length (pc_items c)])" by (simp only: mset_map)
  finally show ?thesis by (simp add: map_nth)
qed

section \<open>Properties\<close>

definition demo_cursor :: "mode \<Rightarrow> playlist_cursor" where
  "demo_cursor m =
     \<lparr>pc_items = [''a'', ''b'', ''c''], pc_mode = m, pc_pos = 0, pc_order = [2, 0, 1],
      pc_order_pos = 0, pc_rng = 7, pc_current = Some ''a''\<rparr>"

lemma demo_cursor_simps [simp]:
  "pc_items (demo_cursor m) = [''a'', ''b'', ''c'']" "pc_mode (demo_cursor m) = m"
  "pc_current (demo_cursor m) = Some ''a''"
  by (simp_all add: demo_cursor_def)

lemma demo_cursor_length: "0 < length (pc_items (demo_cursor m))" "length (pc_items (demo_cursor m)) < 2 ^ 31"
  by simp_all

lemma demo_cursor_ok: "order_ok (demo_cursor m)"
  by (simp add: demo_cursor_def order_ok_def upt_conv_Cons)

text \<open>
  stepping a non-empty playlist of fewer than 2^31 entries never panics: whatever the
  mode and the signed step, \<open>next\<close> returns one of the items, records it as the current one,
  and leaves the items, the mode and the permutation of the shuffle order intact.
\<close>

theorem cursor_next_total:
  assumes "order_ok c" and "0 < length (pc_items c)" and "length (pc_items c) < 2 ^ 31"
  shows "\<exists>e c'. cursor_next delta c = Some (Some e, c') \<and> e \<in> set (pc_items c)
    \<and> pc_current c' = Some e \<and> pc_items c' = pc_items c \<and> pc_mode c' = pc_mode c \<and> order_ok c'"
proof -
  obtain e c' where "cursor_next delta c = Some (Some e, c')" "e \<in> set (pc_items c)"
    "pc_current c' = Some e" "cursor_keeps c c'" "order_ok c'"
    by (rule cursor_next_ok [OF assms])
  then show ?thesis unfolding cursor_keeps_def by blast
qed

theorem cursor_next_total_witness:
  "\<exists>e c'. cursor_next (- 1) (demo_cursor Shuffle) = Some (Some e, c') \<and> e \<in> {''a'', ''b'', ''c''}"
proof -
  obtain e c' where "cursor_next (- 1) (demo_cursor Shuffle) = Some (Some e, c')"
    and "e \<in> set (pc_items (demo_cursor Shuffle))"
    using cursor_next_total [OF demo_cursor_ok demo_cursor_length] by metis
  then show ?thesis by (intro exI [of _ e] exI [of _ c']) simp
qed

text \<open>
  in sequential mode, as many \<open>next(1)\<close> calls as there are items visit every item
  exactly once, from any position.
\<close>

theorem sequential_round:
  assumes "pc_mode c = Sequential" and "0 < length (pc_items c)" and "length (pc_items c) < 2 ^ 31"
  shows "\<exists>es c'. cursor_run (length (pc_items c)) c = Some (es, c') \<and> mset es = mset (pc_items c)"
  using cursor_run_sequential [OF assms] map_rotate_mset [of "pc_items c" "pc_pos c"] by blast

theorem sequential_round_witness:
  "\<exists>es c'. cursor_run 3 (demo_cursor Sequential) = Some (es, c') \<and> mset es = {#''a'', ''b'', ''c''#}"
  using sequential_round [OF _ demo_cursor_length, of Sequential]
  by (simp add: numeral_3_eq_3 del: cursor_run.simps)

text \<open>
  C34: in shuffle mode, \<open>first\<close> followed by \<open>next(1)\<close> up to the end of the round returns
  every item exactly once: nothing repeats before everything has been shown.
\<close>

theorem shuffle_round:
  assumes "order_ok c" and "pc_mode c = Shuffle"
    and "0 < length (pc_items c)" and "length (pc_items c) < 2 ^ 31"
  shows "\<exists>e c1 es c2. first c = Some (Some e, c1)
    \<and> cursor_run (length (pc_items c) - 1) c1 = Some (es, c2) \<and> mset (e # es) = mset (pc_items c)"
proof -
  let ?n = "length (pc_items c)"
  obtain e c1 where f: "first c = Some (Some e, c1)" "cursor_keeps c c1" "order_ok c1"
    "length (pc_order c1) = ?n" "pc_order_pos c1 = 0" "pc_items c ! (pc_order c1 ! 0) = e"
    using first_ok [OF assms(1,3)] assms(2) by metis
  then have it: "pc_items c1 = pc_items c" "pc_mode c1 = Shuffle"
    using assms(2) by (simp_all add: cursor_keeps_def)
  let ?g = "\<lambda>i. pc_items c ! (pc_order c1 ! i)"
  obtain c2 where r: "cursor_run (?n - 1) c1 = Some (map ?g [1..<?n], c2)"
    using cursor_run_shuffle [OF it(2) f(3), of "?n - 1"] f(4,5) it(1) assms(3,4)
    by (auto simp del: upt_Suc)
  have "e # map ?g [1..<?n] = map ?g [0..<?n]"
    using assms(3) f(6) by (simp add: upt_conv_Cons)
  then have "mset (e # map ?g [1..<?n]) = mset (pc_items c)"
    using shuffle_items_mset [OF f(3)] f(4) it(1) by simp
  with f(1) r show ?thesis by blast
qed

theorem shuffle_round_witness:
  "\<exists>e c1 es c2. first (demo_cursor Shuffle) = Some (Some e, c1)
    \<and> cursor_run 2 c1 = Some (es, c2) \<and> mset (e # es) = {#''a'', ''b'', ''c''#}"
  using shuffle_round [OF demo_cursor_ok _ demo_cursor_length, of Shuffle]
  by (simp add: numeral_2_eq_2 del: cursor_run.simps)

text \<open>
  in random mode a step never returns the wallpaper that is already current, as long as
  the playlist has two entries or more and no entry twice.
\<close>

theorem random_no_repeat:
  assumes "pc_mode c = Random" and "distinct (pc_items c)" and "1 < length (pc_items c)"
    and "cursor_next delta c = Some (Some e, c')"
  shows "pc_current c \<noteq> Some e"
proof
  assume cur: "pc_current c = Some e"
  let ?n = "length (pc_items c)"
  obtain i c1 where d: "pc_rng_range ?n c = (i, c1)" by force
  then have i: "i < ?n" using assms(3) pc_rng_range_less by fastforce
  obtain x where c1: "c1 = c\<lparr>pc_rng := x\<rparr>" using pc_rng_range_frame [OF d] by blast
  define k where "k = (if pc_items c ! i = e then (i + 1) mod ?n else i)"
  have "(i + 1) mod ?n < ?n" "(i + 1) mod ?n \<noteq> i"
    using i assms(3) by (auto simp: mod_Suc)
  then have k: "k < ?n" "pc_items c ! k \<noteq> e"
    using i nth_eq_iff_index_eq [OF assms(2), of "(i + 1) mod ?n" i] by (auto simp: k_def)
  have "cursor_next delta c = Some (Some (pc_items c ! k), c1\<lparr>pc_pos := k, pc_current := Some (pc_items c ! k)\<rparr>)"
    using assms(1,3) d c1 cur k by (auto simp: cursor_next_def pick_index_def Let_def vec_get_def k_def)
  with assms(4) k(2) show False by simp
qed

theorem random_no_repeat_witness:
  "\<exists>e c'. cursor_next 1 (demo_cursor Random) = Some (Some e, c') \<and> e \<noteq> ''a''"
proof -
  obtain e c' where n: "cursor_next 1 (demo_cursor Random) = Some (Some e, c')"
    using cursor_next_ok [OF demo_cursor_ok demo_cursor_length, where delta = 1] by metis
  have "pc_current (demo_cursor Random) \<noteq> Some e"
    by (rule random_no_repeat [OF _ _ _ n]) simp_all
  with n show ?thesis by auto
qed

end
