(* ===== verification/F32.thy ===== *)
theory F32
  imports Prelude
begin

text \<open>
  The \<open>f32\<close> of Rust, IEEE 754 binary32 with the default rounding (to nearest, ties to even),
  as far as the layout code uses it: finite values are rationals, and every arithmetic
  operation computes the exact result and rounds it. The one thing not kept is the sign of
  zero: \<open>0.0\<close> and \<open>-0.0\<close> are the same value here. They compare equal in Rust and none
  of the modelled code divides by a zero it did not exclude before.
\<close>

section \<open>Values and rounding\<close>

datatype f32 = NaN | NInf | PInf | Fin rat

text \<open>\<open>2\<close> to an integer power.\<close>

definition pow2 :: "int \<Rightarrow> rat" where
  "pow2 e = (if 0 \<le> e then 2 ^ nat e else 1 / 2 ^ nat (- e))"

text \<open>Rounding to the nearest integer, ties to even.\<close>

definition round_even :: "rat \<Rightarrow> int" where
  "round_even q =
     (let f = \<lfloor>q\<rfloor>; d = q - of_int f
      in if d < 1 / 2 then f else if 1 / 2 < d then f + 1 else if even f then f else f + 1)"

text \<open>The binade of a positive rational: \<open>pow2 e \<le> x < pow2 (e + 1)\<close>.\<close>

definition binade :: "rat \<Rightarrow> int" where
  "binade x =
     (let (n, d) = quotient_of x; e = bitlen n - bitlen d
      in if pow2 e \<le> x then e else e - 1)"

text \<open>The exponent of the last place: 24 bits of precision, subnormals below \<open>2^-126\<close>.\<close>

definition last_place :: "rat \<Rightarrow> int" where
  "last_place x = max (binade x - 23) (- 149)"

definition round_pos :: "rat \<Rightarrow> rat" where
  "round_pos x = of_int (round_even (x / pow2 (last_place x))) * pow2 (last_place x)"

definition f32_round :: "rat \<Rightarrow> f32" where
  "f32_round x =
     (if x = 0 then Fin 0
      else if 0 < x then (let r = round_pos x in if pow2 128 \<le> r then PInf else Fin r)
      else (let r = round_pos (- x) in if pow2 128 \<le> r then NInf else Fin (- r)))"

section \<open>Comparison\<close>

text \<open>\<open>PartialEq\<close> and \<open>PartialOrd\<close>: every comparison with NaN is false.\<close>

fun f32_eq :: "f32 \<Rightarrow> f32 \<Rightarrow> bool" where
  "f32_eq NaN _ = False"
| "f32_eq _ NaN = False"
| "f32_eq a b = (a = b)"

fun f32_le :: "f32 \<Rightarrow> f32 \<Rightarrow> bool" where
  "f32_le NaN _ = False"
| "f32_le _ NaN = False"
| "f32_le NInf _ = True"
| "f32_le _ PInf = True"
| "f32_le (Fin a) (Fin b) = (a \<le> b)"
| "f32_le _ _ = False"

fun is_infinite :: "f32 \<Rightarrow> bool" where
  "is_infinite PInf = True"
| "is_infinite NInf = True"
| "is_infinite _ = False"

text \<open>\<open>f32::min\<close> and \<open>f32::max\<close>: a NaN argument is ignored.\<close>

fun f32_min :: "f32 \<Rightarrow> f32 \<Rightarrow> f32" where
  "f32_min NaN b = b"
| "f32_min a NaN = a"
| "f32_min a b = (if f32_le a b then a else b)"

fun f32_max :: "f32 \<Rightarrow> f32 \<Rightarrow> f32" where
  "f32_max NaN b = b"
| "f32_max a NaN = a"
| "f32_max a b = (if f32_le a b then b else a)"

section \<open>Arithmetic\<close>

fun f32_neg :: "f32 \<Rightarrow> f32" where
  "f32_neg NaN = NaN"
| "f32_neg PInf = NInf"
| "f32_neg NInf = PInf"
| "f32_neg (Fin a) = Fin (- a)"

fun f32_add :: "f32 \<Rightarrow> f32 \<Rightarrow> f32" where
  "f32_add (Fin a) (Fin b) = f32_round (a + b)"
| "f32_add NaN _ = NaN"
| "f32_add _ NaN = NaN"
| "f32_add PInf NInf = NaN"
| "f32_add NInf PInf = NaN"
| "f32_add PInf _ = PInf"
| "f32_add _ PInf = PInf"
| "f32_add NInf _ = NInf"
| "f32_add _ NInf = NInf"

definition f32_sub :: "f32 \<Rightarrow> f32 \<Rightarrow> f32" where
  "f32_sub a b = f32_add a (f32_neg b)"

text \<open>The sign of a value that is not NaN (0 for a zero), for the infinite cases.\<close>

fun f32_sgn :: "f32 \<Rightarrow> rat" where
  "f32_sgn NaN = 0"
| "f32_sgn PInf = 1"
| "f32_sgn NInf = - 1"
| "f32_sgn (Fin a) = sgn a"

definition f32_inf_of :: "rat \<Rightarrow> f32" where
  "f32_inf_of s = (if s = 0 then NaN else if 0 < s then PInf else NInf)"

fun f32_mul :: "f32 \<Rightarrow> f32 \<Rightarrow> f32" where
  "f32_mul (Fin a) (Fin b) = f32_round (a * b)"
| "f32_mul NaN _ = NaN"
| "f32_mul _ NaN = NaN"
| "f32_mul a b = f32_inf_of (f32_sgn a * f32_sgn b)"

text \<open>Division by a zero is taken as division by \<open>+0.0\<close>.\<close>

fun f32_div :: "f32 \<Rightarrow> f32 \<Rightarrow> f32" where
  "f32_div (Fin a) (Fin b) = (if b = 0 then f32_inf_of (sgn a) else f32_round (a / b))"
| "f32_div NaN _ = NaN"
| "f32_div _ NaN = NaN"
| "f32_div (Fin a) _ = Fin 0"
| "f32_div a (Fin b) = (if 0 \<le> b then a else f32_neg a)"
| "f32_div _ _ = NaN"

text \<open>The cast \<open>as f32\<close> from \<open>u32\<close> and \<open>f32::from(u8)\<close>.\<close>

definition f32_of_nat :: "nat \<Rightarrow> f32" where
  "f32_of_nat n = f32_round (of_nat n)"

definition f32_of_u32 :: "u32 \<Rightarrow> f32" where
  "f32_of_u32 w = f32_of_nat (unat w)"

section \<open>Rounding\<close>

lemma pow2_powi: "pow2 e = 2 powi e"
  by (simp add: pow2_def power_int_def inverse_eq_divide power_one_over)

lemma pow2_pos [simp]: "0 < pow2 e"
  by (simp add: pow2_powi)

lemma pow2_add: "pow2 (a + b) = pow2 a * pow2 b"
  by (simp add: pow2_powi power_int_add)

lemma pow2_diff: "pow2 (a - b) = pow2 a / pow2 b"
  by (simp add: pow2_powi power_int_diff)

lemma pow2_le_iff: "pow2 a \<le> pow2 b \<longleftrightarrow> a \<le> b"
  using power_int_strict_increasing [of b a "2::rat"] power_int_increasing [of a b "2::rat"]
  by (fastforce simp: pow2_powi)

lemma pow2_less_iff: "pow2 a < pow2 b \<longleftrightarrow> a < b"
  by (metis linorder_not_less pow2_le_iff)

lemma pow2_int: "0 \<le> a \<Longrightarrow> pow2 a = of_int (2 ^ nat a)"
  by (simp add: pow2_def)

lemma bitlen_bounds_rat: "0 < n \<Longrightarrow> pow2 (bitlen n - 1) \<le> of_int n \<and> of_int n < pow2 (bitlen n)"
proof -
  assume n: "0 < n"
  then have b: "0 < bitlen n" using bitlen_eq_zero_iff [of n] bitlen_nonneg [of n] by linarith
  have "2 ^ nat (bitlen n - 1) \<le> n" "n < 2 ^ nat (bitlen n)"
    using bitlen_bounds [OF n] by auto
  then have "(of_int (2 ^ nat (bitlen n - 1)) :: rat) \<le> of_int n" "(of_int n :: rat) < of_int (2 ^ nat (bitlen n))"
    by (simp_all only: of_int_le_iff of_int_less_iff)
  then show ?thesis using b by (simp add: pow2_def)
qed

lemma binade_bounds:
  assumes "0 < x"
  shows "pow2 (binade x) \<le> x" "x < pow2 (binade x + 1)"
proof -
  obtain n d where q: "quotient_of x = (n, d)" by force
  have d: "0 < d" using q by (rule quotient_of_denom_pos)
  have x: "x = of_int n / of_int d" using q by (rule quotient_of_div)
  then have n: "0 < n" using assms d by (simp add: zero_less_divide_iff)
  let ?e = "bitlen n - bitlen d"
  have "x < pow2 (bitlen n) / pow2 (bitlen d - 1)"
    unfolding x using bitlen_bounds_rat [OF n] bitlen_bounds_rat [OF d] d n
    by (intro frac_less) auto
  then have up: "x < pow2 (?e + 1)" by (simp add: pow2_diff [symmetric] algebra_simps)
  have "pow2 (bitlen n - 1) / pow2 (bitlen d) \<le> x"
    unfolding x using bitlen_bounds_rat [OF n] bitlen_bounds_rat [OF d] d n
    by (intro frac_le) auto
  then have "pow2 (?e - 1) \<le> x" by (simp add: pow2_diff [symmetric] algebra_simps)
  with up show "pow2 (binade x) \<le> x" "x < pow2 (binade x + 1)"
    using q by (auto simp: binade_def Let_def)
qed

lemma binade_mono: "0 < x \<Longrightarrow> x \<le> y \<Longrightarrow> binade x \<le> binade y"
  using binade_bounds [of x] binade_bounds [of y] pow2_less_iff [of "binade x" "binade y + 1"] by auto

lemma binade_eqI: "pow2 e \<le> x \<Longrightarrow> x < pow2 (e + 1) \<Longrightarrow> binade x = e"
proof -
  assume a: "pow2 e \<le> x" "x < pow2 (e + 1)"
  then have "0 < x" using pow2_pos [of e] by linarith
  from binade_bounds [OF this] a have "e < binade x + 1" "binade x < e + 1"
    using pow2_less_iff by (meson order_le_less_trans)+
  then show ?thesis by simp
qed

lemma round_even_int [simp]: "round_even (of_int k) = k"
  by (simp add: round_even_def)

lemma round_even_bounds: "\<lfloor>q\<rfloor> \<le> round_even q" "round_even q \<le> \<lfloor>q\<rfloor> + 1"
  by (simp_all add: round_even_def Let_def)

lemma round_even_mono: "p \<le> q \<Longrightarrow> round_even p \<le> round_even q"
proof -
  assume pq: "p \<le> q"
  show ?thesis
  proof (cases "\<lfloor>p\<rfloor> = \<lfloor>q\<rfloor>")
    case True
    then show ?thesis using pq by (auto simp: round_even_def Let_def)
  next
    case False
    then have "\<lfloor>p\<rfloor> + 1 \<le> \<lfloor>q\<rfloor>" using floor_mono [OF pq] by simp
    then show ?thesis using round_even_bounds [of p] round_even_bounds [of q] by linarith
  qed
qed

text \<open>A multiple of the unit in the last place bounds a rounded value as it bounds the value.\<close>

lemma round_pos_le:
  assumes "x \<le> of_int k * pow2 (last_place x)" shows "round_pos x \<le> of_int k * pow2 (last_place x)"
proof -
  have "x / pow2 (last_place x) \<le> of_int k" using assms by (simp add: pos_divide_le_eq)
  from round_even_mono [OF this] show ?thesis by (simp add: round_pos_def)
qed

lemma round_pos_ge:
  assumes "of_int k * pow2 (last_place x) \<le> x" shows "of_int k * pow2 (last_place x) \<le> round_pos x"
proof -
  have "of_int k \<le> x / pow2 (last_place x)" using assms by (simp add: pos_le_divide_eq)
  from round_even_mono [OF this] show ?thesis by (simp add: round_pos_def)
qed

lemma pow2_multiple: "u \<le> e \<Longrightarrow> pow2 e = of_int (2 ^ nat (e - u)) * pow2 u"
  using pow2_add [of "e - u" u] pow2_int [of "e - u"] by simp

lemma round_pos_nonneg: "0 < x \<Longrightarrow> 0 \<le> round_pos x"
  using round_pos_ge [of 0 x] by simp

lemma round_pos_mono:
  assumes "0 < x" and "x \<le> y"
  shows "round_pos x \<le> round_pos y"
proof (cases "last_place x = last_place y")
  case True
  have "x / pow2 (last_place y) \<le> y / pow2 (last_place y)"
    using assms(2) by (simp add: divide_right_mono order_less_imp_le)
  then have "round_even (x / pow2 (last_place y)) \<le> round_even (y / pow2 (last_place y))"
    by (rule round_even_mono)
  then show ?thesis using True by (simp add: round_pos_def)
next
  case False
  have "binade x \<le> binade y" using assms by (rule binade_mono)
  then have l: "last_place x < last_place y" "binade x < binade y" "last_place y = binade y - 23"
    using False by (auto simp: last_place_def)
  have "x < pow2 (binade x + 1)" "pow2 (binade y) \<le> y"
    using assms binade_bounds [of x] binade_bounds [of y] by auto
  moreover have "pow2 (binade x + 1) \<le> pow2 (binade y)" using l by (simp add: pow2_le_iff)
  ultimately have b: "x \<le> pow2 (binade y)" "pow2 (binade y) \<le> y" by auto
  have u: "last_place x \<le> binade y" "last_place y \<le> binade y" using l by auto
  have "round_pos x \<le> pow2 (binade y)"
    using round_pos_le b(1) pow2_multiple [OF u(1)] by metis
  also have "\<dots> \<le> round_pos y"
    using round_pos_ge b(2) pow2_multiple [OF u(2)] by metis
  finally show ?thesis .
qed

lemma f32_le_Fin_infinite [simp]: "f32_le a PInf \<longleftrightarrow> a \<noteq> NaN" "f32_le NInf a \<longleftrightarrow> a \<noteq> NaN"
  by (cases a; simp)+

theorem f32_round_mono: "x \<le> y \<Longrightarrow> f32_le (f32_round x) (f32_round y)"
proof -
  assume xy: "x \<le> y"
  consider "x = y" | "0 < x" "x < y" | "x \<le> 0" "0 \<le> y" | "x < y" "y < 0" using xy by linarith
  then show ?thesis
  proof cases
    case 1
    then show ?thesis by (simp add: f32_round_def Let_def)
  next
    case 2
    then show ?thesis using round_pos_mono [of x y] by (auto simp: f32_round_def Let_def)
  next
    case 3
    then show ?thesis using round_pos_nonneg [of y] round_pos_nonneg [of "- x"]
      by (auto simp: f32_round_def Let_def)
  next
    case 4
    then show ?thesis using round_pos_mono [of "- y" "- x"] by (auto simp: f32_round_def Let_def)
  qed
qed

text \<open>
  The values of the type: rounding changes none of them, and whatever is computed is one.
\<close>

fun is_f32 :: "f32 \<Rightarrow> bool" where
  "is_f32 (Fin q) = (f32_round q = Fin q)"
| "is_f32 _ = True"

lemma round_pos_exact: "x = of_int k * pow2 (last_place x) \<Longrightarrow> round_pos x = x"
  using round_pos_le [of x k] round_pos_ge [of k x] by simp

lemma last_place_mono_binade: "binade x \<le> binade y \<Longrightarrow> last_place x \<le> last_place y"
  by (simp add: last_place_def)

lemma round_pos_idem:
  assumes "0 < x" and "0 < round_pos x"
  shows "round_pos (round_pos x) = round_pos x"
proof -
  let ?u = "last_place x" and ?r = "round_pos x" and ?b = "binade x"
  define k where "k = round_even (x / pow2 ?u)"
  have r: "?r = of_int k * pow2 ?u" by (simp add: round_pos_def k_def)
  show ?thesis
  proof (cases "?u \<le> ?b")
    case True
    have "pow2 ?b \<le> ?r"
      using round_pos_ge binade_bounds(1) [OF assms(1)] pow2_multiple [OF True] by metis
    moreover have "?r \<le> pow2 (?b + 1)"
      using round_pos_le binade_bounds(2) [OF assms(1)] pow2_multiple [of ?u "?b + 1"] True
      by (metis add_increasing2 order_less_imp_le zero_le_one)
    ultimately consider "binade ?r = ?b" | "?r = pow2 (?b + 1)"
      using binade_eqI by fastforce
    then show ?thesis
    proof cases
      case 1
      then have "last_place ?r = ?u" by (metis last_place_def)
      then show ?thesis using r by (intro round_pos_exact [of _ k]) simp
    next
      case 2
      have "binade ?r = ?b + 1" unfolding 2 by (rule binade_eqI) (simp_all add: pow2_le_iff pow2_less_iff)
      then have "last_place ?r \<le> ?b + 1" using True by (auto simp: last_place_def)
      from pow2_multiple [OF this] have "?r = of_int (2 ^ nat (?b + 1 - last_place ?r)) * pow2 (last_place ?r)"
        using 2 by simp
      then show ?thesis by (rule round_pos_exact)
    qed
  next
    case False
    then have u: "?u = - 149" "?b + 1 \<le> ?u" by (auto simp: last_place_def)
    have "x \<le> pow2 ?u"
      using binade_bounds(2) [OF assms(1)] pow2_le_iff [of "?b + 1" ?u] u by linarith
    then have "?r \<le> pow2 ?u" using round_pos_le [of x 1] by simp
    then have "k \<le> 1" using r by (simp add: mult_le_cancel_right1)
    moreover have "0 < k" using assms(2) r pow2_pos [of ?u] by (auto simp: zero_less_mult_iff)
    ultimately have "?r = pow2 ?u" using r by simp
    moreover have "binade (pow2 ?u) = ?u" by (rule binade_eqI) (simp_all add: pow2_less_iff)
    ultimately have "last_place ?r = ?u" using u by (simp add: last_place_def)
    with r show ?thesis by (intro round_pos_exact [of _ k]) simp
  qed
qed

lemma f32_round_is_f32 [simp]: "is_f32 (f32_round x)"
proof -
  have pos: "is_f32 (f32_round x)" if "0 < x" for x
  proof (cases "round_pos x = 0")
    case True
    then show ?thesis using that by (simp add: f32_round_def)
  next
    case False
    then have "0 < round_pos x" using round_pos_nonneg [OF that] by simp
    then show ?thesis using that round_pos_idem [OF that] by (simp add: f32_round_def Let_def)
  qed
  have neg: "f32_round x = f32_neg (f32_round (- x))" if "x < 0"
    using that by (simp add: f32_round_def Let_def)
  have "is_f32 (f32_neg a)" if "is_f32 a" for a
  proof (cases a)
    case (Fin q)
    with that show ?thesis by (cases "q < 0"; cases "0 < q") (auto simp: f32_round_def Let_def split: if_splits)
  qed (simp_all)
  then show ?thesis using pos [of x] pos [of "- x"] neg by (cases "x = 0"; cases "0 < x") (auto simp: f32_round_def)
qed

text \<open>Rounding never leaves an interval whose ends are values of the type.\<close>

lemma f32_round_between:
  assumes "l \<le> x" and "x \<le> h" and "is_f32 (Fin l)" and "is_f32 (Fin h)"
  obtains r where "f32_round x = Fin r" "l \<le> r" "r \<le> h" "is_f32 (Fin r)"
proof -
  have "f32_le (Fin l) (f32_round x)" "f32_le (f32_round x) (Fin h)"
    using f32_round_mono [OF assms(1)] f32_round_mono [OF assms(2)] assms(3,4) by simp_all
  then show thesis using f32_round_is_f32 [of x] that by (cases "f32_round x") auto
qed

text \<open>Whole numbers of up to 24 bits are values of the type.\<close>

lemma pow2_numerals [simp]: "pow2 0 = 1" "pow2 24 = 16777216" "pow2 128 = 340282366920938463463374607431768211456"
  by (simp_all add: pow2_def)

lemma f32_round_nat:
  assumes "n \<le> 2 ^ 24" shows "f32_round (of_nat n) = Fin (of_nat n)"
proof (cases "n = 0")
  case True
  then show ?thesis by (simp add: f32_round_def)
next
  case False
  let ?x = "of_nat n :: rat"
  have "?x \<le> of_nat (2 ^ 24)" using assms by (simp only: of_nat_le_iff)
  then have x: "0 < ?x" "?x \<le> pow2 24" using False by simp_all
  have "binade ?x \<le> binade (pow2 24)" using x by (rule binade_mono)
  also have "binade (pow2 24) = 24" by (rule binade_eqI) (simp_all add: pow2_def)
  finally have b: "binade ?x \<le> 24" .
  have "round_pos ?x = ?x"
  proof (cases "binade ?x = 24")
    case True
    then have "?x = pow2 24" using x binade_bounds(1) [OF x(1)] by simp
    then have "?x = of_int (2 ^ 23) * pow2 (last_place ?x)" using True by (simp add: last_place_def pow2_def)
    then show ?thesis by (rule round_pos_exact)
  next
    case False
    then have "last_place ?x \<le> 0" using b by (simp add: last_place_def)
    from pow2_multiple [OF this] have one: "(1::rat) = of_int (2 ^ nat (0 - last_place ?x)) * pow2 (last_place ?x)"
      by simp
    have "?x = of_int (int n) * 1" by simp
    also have "\<dots> = of_int (int n * 2 ^ nat (0 - last_place ?x)) * pow2 (last_place ?x)"
      by (subst one) (simp only: of_int_mult mult.assoc)
    finally have "?x = of_int (int n * 2 ^ nat (0 - last_place ?x)) * pow2 (last_place ?x)" .
    then show ?thesis by (rule round_pos_exact)
  qed
  moreover have "\<not> pow2 128 \<le> ?x" using x by simp
  ultimately show ?thesis using x by (simp add: f32_round_def Let_def)
qed

lemma is_f32_0 [simp]: "is_f32 (Fin 0)" and is_f32_1 [simp]: "is_f32 (Fin 1)"
  using f32_round_nat [of 0] f32_round_nat [of 1] by simp_all

lemma f32_of_nat_exact: "n \<le> 2 ^ 24 \<Longrightarrow> f32_of_nat n = Fin (of_nat n) \<and> is_f32 (Fin (of_nat n))"
  by (simp add: f32_of_nat_def f32_round_nat)

lemma f32_of_u32_exact: "unat w \<le> 2 ^ 24 \<Longrightarrow> f32_of_u32 w = Fin (of_nat (unat w)) \<and> is_f32 (Fin (of_nat (unat w)))"
  unfolding f32_of_u32_def by (rule f32_of_nat_exact)

text \<open>The relative error of one rounding in the normal range is at most \<open>2^-24\<close>.\<close>

lemma round_even_error: "\<bar>of_int (round_even q) - q\<bar> \<le> 1 / 2"
  using floor_correct [of q] by (auto simp: round_even_def Let_def abs_le_iff)

lemma round_pos_error:
  assumes "pow2 (- 126) \<le> x"
  shows "\<bar>round_pos x - x\<bar> \<le> x * pow2 (- 24)"
proof -
  let ?u = "last_place x"
  have x: "0 < x" using assms pow2_pos [of "- 126"] by linarith
  have "pow2 (- 126) < pow2 (binade x + 1)" using assms binade_bounds(2) [OF x] by linarith
  then have u: "?u = binade x - 23" by (simp add: pow2_less_iff last_place_def)
  have "round_pos x - x = (of_int (round_even (x / pow2 ?u)) - x / pow2 ?u) * pow2 ?u"
    using pow2_pos [of ?u] by (simp add: round_pos_def left_diff_distrib del: pow2_pos)
  then have "\<bar>round_pos x - x\<bar> = \<bar>of_int (round_even (x / pow2 ?u)) - x / pow2 ?u\<bar> * pow2 ?u"
    by (simp add: abs_mult abs_of_pos [OF pow2_pos])
  also have "\<dots> \<le> 1 / 2 * pow2 ?u" by (intro mult_right_mono round_even_error) (simp add: order_less_imp_le)
  also have "\<dots> = pow2 (binade x) * pow2 (- 24)"
    unfolding u pow2_diff by (simp add: pow2_def)
  also have "\<dots> \<le> x * pow2 (- 24)"
    using binade_bounds(1) [OF x] by (intro mult_right_mono) (simp_all add: order_less_imp_le)
  finally show ?thesis .
qed

lemma f32_round_error:
  assumes "pow2 (- 126) \<le> x" and "x \<le> pow2 100"
  obtains r where "f32_round x = Fin r" "is_f32 (Fin r)" "x * (1 - pow2 (- 24)) \<le> r" "r \<le> x * (1 + pow2 (- 24))"
proof -
  have x: "0 < x" using assms(1) pow2_pos [of "- 126"] by linarith
  have e: "x * (1 - pow2 (- 24)) \<le> round_pos x" "round_pos x \<le> x * (1 + pow2 (- 24))"
    using round_pos_error [OF assms(1)] by (simp_all add: abs_le_iff algebra_simps)
  have "x * (1 + pow2 (- 24)) \<le> pow2 100 * 2"
    using x assms(2) by (intro mult_mono) (simp_all add: pow2_def)
  also have "\<dots> < pow2 128" by (simp add: pow2_def)
  finally have "f32_round x = Fin (round_pos x)" using e x by (simp add: f32_round_def Let_def)
  with e that f32_round_is_f32 [of x] show thesis by metis
qed

declare is_f32.simps(1) [simp del]

end
