(* ===== verification/Scheduler.thy ===== *)
theory Scheduler
  imports F32
begin

text \<open>
  The frame scheduler, \<open>src/scheduler.rs\<close>: the registered displays, the active buffer pool,
  and for every frame in flight the displays that still owe a release. The display record
  and the projected configuration defined here are the ones the router uses.
\<close>

section \<open>Data\<close>

record display_info =
  di_id :: u64
  di_name :: string
  di_instance_id :: "string option"
  di_width :: u32
  di_height :: u32
  di_refresh_mhz :: u32
  di_properties :: "(string \<times> string) list"
  di_bound :: bool

record active_binding =
  ab_renderer_id :: string
  ab_wp_type :: string
  ab_generation :: u64
  ab_tex_width :: u32
  ab_tex_height :: u32

record projected_config =
  config_generation :: u64
  source_x :: f32
  source_y :: f32
  source_w :: f32
  source_h :: f32
  dest_x :: f32
  dest_y :: f32
  dest_w :: f32
  dest_h :: f32
  cfg_transform :: u32
  cfg_clear :: "f32 \<times> f32 \<times> f32 \<times> f32"

datatype release_outcome = StillInFlight | AllReleased | Stale | Unknown

text \<open>\<open>(buffer_generation, buffer_index, seq)\<close>.\<close>

type_synonym frame_key = "u64 \<times> u32 \<times> u64"

record scheduler =
  sc_next_display :: u64
  sc_next_config :: u64
  sc_displays :: "(u64, display_info) hmap"
  sc_active :: "active_binding option"
  sc_pending :: "(frame_key, u64 set) hmap"

definition scheduler_new :: scheduler where
  "scheduler_new =
     \<lparr>sc_next_display = 0, sc_next_config = 0, sc_displays = [], sc_active = None, sc_pending = []\<rparr>"

section \<open>Display registration\<close>

definition register_display ::
  "string \<Rightarrow> u32 \<Rightarrow> u32 \<Rightarrow> u32 \<Rightarrow> (string \<times> string) list \<Rightarrow> scheduler \<Rightarrow> u64 \<times> scheduler" where
  "register_display name w h refresh props s =
     (let did = sc_next_display s + 1
      in (did, s\<lparr>sc_next_display := did,
                 sc_displays := hm_insert did
                   \<lparr>di_id = did, di_name = name, di_instance_id = None, di_width = w, di_height = h,
                    di_refresh_mhz = refresh, di_properties = props,
                    di_bound = (sc_active s \<noteq> None)\<rparr> (sc_displays s)\<rparr>))"

definition unregister_display :: "u64 \<Rightarrow> scheduler \<Rightarrow> frame_key list \<times> scheduler" where
  "unregister_display did s =
     (let swept = hm_map_values (\<lambda>owed. owed - {did}) (sc_pending s)
      in (map fst (filter (\<lambda>(k, owed). owed = {}) swept),
          s\<lparr>sc_displays := hm_remove did (sc_displays s),
            sc_pending := filter (\<lambda>(k, owed). owed \<noteq> {}) swept\<rparr>))"

definition get_display :: "scheduler \<Rightarrow> u64 \<Rightarrow> display_info option" where
  "get_display s did = hm_get (sc_displays s) did"

definition sched_update_display_size :: "u64 \<Rightarrow> u32 \<Rightarrow> u32 \<Rightarrow> scheduler \<Rightarrow> scheduler" where
  "sched_update_display_size did w h s =
     s\<lparr>sc_displays := hm_modify did (\<lambda>d. d\<lparr>di_width := w, di_height := h\<rparr>) (sc_displays s)\<rparr>"

section \<open>Renderer binding\<close>

definition set_active_binding :: "active_binding \<Rightarrow> scheduler \<Rightarrow> u64 list \<times> scheduler" where
  "set_active_binding b s =
     (let pending' =
        (case sc_active s of
           None \<Rightarrow> sc_pending s
         | Some old \<Rightarrow>
             if ab_generation old \<noteq> ab_generation b
             then filter (\<lambda>(key, _). fst key = ab_generation b) (sc_pending s)
             else sc_pending s)
      in (sort (hm_keys (sc_displays s)),
          s\<lparr>sc_active := Some b, sc_pending := pending',
            sc_displays := hm_map_values (\<lambda>d. d\<lparr>di_bound := True\<rparr>) (sc_displays s)\<rparr>))"

definition clear_active_binding :: "scheduler \<Rightarrow> u64 list \<times> scheduler" where
  "clear_active_binding s =
     (sort (hm_keys (sc_displays s)),
      s\<lparr>sc_active := None, sc_pending := [],
        sc_displays := hm_map_values (\<lambda>d. d\<lparr>di_bound := False\<rparr>) (sc_displays s)\<rparr>)"

definition project_config :: "u64 \<Rightarrow> scheduler \<Rightarrow> projected_config option \<times> scheduler" where
  "project_config did s =
     (case sc_active s of
        None \<Rightarrow> (None, s)
      | Some active \<Rightarrow>
          (case hm_get (sc_displays s) did of
             None \<Rightarrow> (None, s)
           | Some disp \<Rightarrow>
               (let gen = sc_next_config s + 1
                in (Some \<lparr>config_generation = gen, source_x = Fin 0, source_y = Fin 0,
                          source_w = f32_of_u32 (ab_tex_width active),
                          source_h = f32_of_u32 (ab_tex_height active),
                          dest_x = Fin 0, dest_y = Fin 0,
                          dest_w = f32_of_u32 (di_width disp), dest_h = f32_of_u32 (di_height disp),
                          cfg_transform = 0, cfg_clear = (Fin 0, Fin 0, Fin 0, Fin 1)\<rparr>,
                    s\<lparr>sc_next_config := gen\<rparr>))))"

section \<open>Frame fan-out and release\<close>

definition bound_displays :: "scheduler \<Rightarrow> u64 set" where
  "bound_displays s = fst ` set (filter (\<lambda>(_, d). di_bound d) (sc_displays s))"

definition begin_frame :: "u64 \<Rightarrow> u32 \<Rightarrow> u64 \<Rightarrow> scheduler \<Rightarrow> u64 list \<times> scheduler" where
  "begin_frame gen idx seq s =
     (case sc_active s of
        None \<Rightarrow> ([], s)
      | Some active \<Rightarrow>
          if ab_generation active \<noteq> gen then ([], s)
          else if bound_displays s = {} then ([], s)
          else (sort (map fst (filter (\<lambda>(_, d). di_bound d) (sc_displays s))),
                s\<lparr>sc_pending := hm_insert (gen, idx, seq) (bound_displays s) (sc_pending s)\<rparr>))"

definition release_frame ::
  "u64 \<Rightarrow> u64 \<Rightarrow> u32 \<Rightarrow> u64 \<Rightarrow> scheduler \<Rightarrow> release_outcome \<times> scheduler" where
  "release_frame did gen idx seq s =
     (case sc_active s of
        None \<Rightarrow> (Stale, s)
      | Some active \<Rightarrow>
          if ab_generation active \<noteq> gen then (Stale, s)
          else (case hm_get (sc_pending s) (gen, idx, seq) of
                  None \<Rightarrow> (Unknown, s)
                | Some owed \<Rightarrow>
                    if did \<notin> owed then (Unknown, s)
                    else if owed - {did} = {}
                    then (AllReleased, s\<lparr>sc_pending := hm_remove (gen, idx, seq) (sc_pending s)\<rparr>)
                    else (StillInFlight,
                          s\<lparr>sc_pending := hm_modify (gen, idx, seq) (\<lambda>o'. o' - {did}) (sc_pending s)\<rparr>)))"

section \<open>The invariant\<close>

definition sched_ok :: "scheduler \<Rightarrow> bool" where
  "sched_ok s \<longleftrightarrow>
     hm_ok (sc_displays s) \<and> hm_ok (sc_pending s) \<and>
     (\<forall>did d. hm_get (sc_displays s) did = Some d \<longrightarrow> di_id d = did \<and> did \<le> sc_next_display s) \<and>
     (\<forall>k owed. hm_get (sc_pending s) k = Some owed \<longrightarrow>
        owed \<noteq> {} \<and> owed \<subseteq> fst ` set (sc_displays s) \<and>
        (\<exists>b. sc_active s = Some b \<and> ab_generation b = fst k))"

lemma hm_get_filter:
  "hm_ok m \<Longrightarrow> hm_get (filter P m) k = (case hm_get m k of None \<Rightarrow> None
     | Some v \<Rightarrow> if P (k, v) then Some v else None)"
  by (induction m) (auto split: option.split simp: map_of_eq_None_iff image_iff)

lemma hm_ok_filter: "hm_ok m \<Longrightarrow> hm_ok (filter P m)"
  by (induction m) (auto simp: image_iff)

lemma sched_ok_new [inv_intro]: "sched_ok scheduler_new"
  by (simp add: sched_ok_def scheduler_new_def)

lemma sched_ok_register [inv_intro]:
  assumes "sched_ok s" and "sc_next_display s \<noteq> - 1"
  shows "sched_ok (snd (register_display n w h r p s))"
proof -
  have "did < sc_next_display s + 1" if "did \<le> sc_next_display s" for did
    using that assms(2) by (rule word_le_inc)
  then show ?thesis using assms(1) by (fastforce simp: sched_ok_def register_display_def Let_def)
qed

lemma sched_ok_unregister [inv_intro]: "sched_ok s \<Longrightarrow> sched_ok (snd (unregister_display did s))"
  by (fastforce simp: sched_ok_def unregister_display_def Let_def hm_get_filter hm_ok_filter
      split: option.splits if_splits)

lemma sched_ok_size [inv_intro]: "sched_ok s \<Longrightarrow> sched_ok (sched_update_display_size did w h s)"
  by (auto simp: sched_ok_def sched_update_display_size_def split: if_splits)

lemma sched_ok_set_active [inv_intro]: "sched_ok s \<Longrightarrow> sched_ok (snd (set_active_binding b s))"
  by (fastforce simp: sched_ok_def set_active_binding_def Let_def hm_get_filter hm_ok_filter
      split: option.splits if_splits)

lemma sched_ok_clear [inv_intro]: "sched_ok s \<Longrightarrow> sched_ok (snd (clear_active_binding s))"
  by (auto simp: sched_ok_def clear_active_binding_def)

lemma sched_ok_project [inv_intro]: "sched_ok s \<Longrightarrow> sched_ok (snd (project_config did s))"
  by (auto simp: sched_ok_def project_config_def Let_def split: option.split)

lemma bound_displays_subset: "bound_displays s \<subseteq> fst ` set (sc_displays s)"
  by (auto simp: bound_displays_def)

lemma sched_ok_begin [inv_intro]: "sched_ok s \<Longrightarrow> sched_ok (snd (begin_frame g i q s))"
  using bound_displays_subset [of s]
  by (auto simp: sched_ok_def begin_frame_def split: option.split)

lemma sched_ok_pending:
  "sched_ok s \<Longrightarrow> hm_get (sc_pending s) k = Some x \<Longrightarrow> x \<noteq> {} \<and> x \<subseteq> fst ` set (sc_displays s)"
  unfolding sched_ok_def by blast

lemma sched_ok_pending_active:
  "sched_ok s \<Longrightarrow> hm_get (sc_pending s) k = Some x \<Longrightarrow> \<exists>b. sc_active s = Some b \<and> ab_generation b = fst k"
  unfolding sched_ok_def by blast

lemma sched_ok_shrink:
  assumes "sched_ok s" and "hm_ok p"
    and "\<And>k x. hm_get p k = Some x \<Longrightarrow> x \<noteq> {} \<and> (\<exists>y. hm_get (sc_pending s) k = Some y \<and> x \<subseteq> y)"
  shows "sched_ok (s\<lparr>sc_pending := p\<rparr>)"
proof -
  have "x \<noteq> {} \<and> x \<subseteq> fst ` set (sc_displays s) \<and> (\<exists>b. sc_active s = Some b \<and> ab_generation b = fst k)"
    if "hm_get p k = Some x" for k x
    using assms(3) [OF that] sched_ok_pending [OF assms(1)] sched_ok_pending_active [OF assms(1)]
    by blast
  then show ?thesis using assms(1,2) by (simp add: sched_ok_def)
qed

lemma release_frame_cases:
  obtains (stale) "sc_active s = None \<or> (\<exists>b. sc_active s = Some b \<and> ab_generation b \<noteq> g)"
      "release_frame did g i q s = (Stale, s)"
  | (unknown) b where "sc_active s = Some b" "ab_generation b = g"
      "\<And>owed. hm_get (sc_pending s) (g, i, q) = Some owed \<Longrightarrow> did \<notin> owed"
      "release_frame did g i q s = (Unknown, s)"
  | (last) b where "sc_active s = Some b" "ab_generation b = g"
      "hm_get (sc_pending s) (g, i, q) = Some {did}"
      "release_frame did g i q s = (AllReleased, s\<lparr>sc_pending := hm_remove (g, i, q) (sc_pending s)\<rparr>)"
  | (more) b owed where "sc_active s = Some b" "ab_generation b = g"
      "hm_get (sc_pending s) (g, i, q) = Some owed" "did \<in> owed" "owed \<noteq> {did}"
      "release_frame did g i q s =
        (StillInFlight, s\<lparr>sc_pending := hm_modify (g, i, q) (\<lambda>x. x - {did}) (sc_pending s)\<rparr>)"
proof (cases "sc_active s")
  case None
  then show ?thesis using stale by (simp add: release_frame_def)
next
  case a: (Some b)
  show ?thesis
  proof (cases "ab_generation b = g")
    case False
    then show ?thesis using a stale by (simp add: release_frame_def)
  next
    case g: True
    show ?thesis
    proof (cases "hm_get (sc_pending s) (g, i, q)")
      case None
      then show ?thesis using a g unknown [of b] by (simp add: release_frame_def)
    next
      case p: (Some owed)
      consider "did \<notin> owed" | "owed = {did}" | "did \<in> owed" "owed \<noteq> {did}" by blast
      then show ?thesis
      proof cases
        case 1
        then show ?thesis using a g p unknown [of b] by (simp add: release_frame_def)
      next
        case 2
        then show ?thesis using a g p last [of b] by (simp add: release_frame_def)
      next
        case 3
        then have "owed - {did} \<noteq> {}" by blast
        with 3 show ?thesis using a g p more [of b owed] by (simp add: release_frame_def)
      qed
    qed
  qed
qed

lemma sched_ok_release [inv_intro]:
  assumes ok: "sched_ok s"
  shows "sched_ok (snd (release_frame did g i q s))"
proof -
  have p: "hm_ok (sc_pending s)" using ok by (simp add: sched_ok_def)
  show ?thesis
  proof (cases rule: release_frame_cases [of s g did i q])
    case last
    have "sched_ok (s\<lparr>sc_pending := hm_remove (g, i, q) (sc_pending s)\<rparr>)"
      by (rule sched_ok_shrink [OF ok])
        (use p in \<open>auto split: if_splits dest: sched_ok_pending [OF ok]\<close>)
    then show ?thesis using last by simp
  next
    case (more b owed)
    have "sched_ok (s\<lparr>sc_pending := hm_modify (g, i, q) (\<lambda>x. x - {did}) (sc_pending s)\<rparr>)"
      by (rule sched_ok_shrink [OF ok])
        (use p more in \<open>auto split: if_splits dest: sched_ok_pending [OF ok]\<close>)
    then show ?thesis using more by simp
  qed (use ok in simp_all)
qed

section \<open>Release accounting\<close>

text \<open>
  What a frame ledger owes its clients, whatever it is built from: a release by a display
  that owes frame \<open>k\<close> takes it off \<open>k\<close>'s list and nothing else, and reports whether it was the
  last one; a release nobody is waiting for changes nothing.
\<close>

locale release_ledger =
  fixes owed :: "'s \<Rightarrow> 'k \<Rightarrow> 'd set"
    and release :: "'d \<Rightarrow> 'k \<Rightarrow> 's \<Rightarrow> release_outcome \<times> 's"
    and ok :: "'s \<Rightarrow> bool"
  assumes ok_release: "ok s \<Longrightarrow> ok (snd (release d k s))"
    and owed_release: "ok s \<Longrightarrow>
      owed (snd (release d k s)) k' = (if k' = k then owed s k - {d} else owed s k')"
    and last_release: "ok s \<Longrightarrow> fst (release d k s) = AllReleased \<longleftrightarrow> owed s k = {d}"
    and partial_release: "ok s \<Longrightarrow> fst (release d k s) = StillInFlight \<longleftrightarrow> d \<in> owed s k \<and> owed s k \<noteq> {d}"
begin

fun run :: "('d \<times> 'k) list \<Rightarrow> 's \<Rightarrow> (('k \<times> release_outcome) list \<times> 's)" where
  "run [] s = ([], s)"
| "run ((d, k) # rs) s =
     (let (o1, s1) = release d k s; (os, s2) = run rs s1 in ((k, o1) # os, s2))"

lemma run_ok: "ok s \<Longrightarrow> ok (snd (run rs s))"
proof (induction rs arbitrary: s)
  case (Cons r rs)
  then show ?case
    using ok_release [of s "fst r" "snd r"] by (cases r) (auto simp: split_beta Let_def)
qed simp

lemma run_owed: "ok s \<Longrightarrow> owed (snd (run rs s)) k = owed s k - {d. (d, k) \<in> set rs}"
proof (induction rs arbitrary: s)
  case (Cons r rs)
  then show ?case
    using ok_release [of s "fst r" "snd r"]
    by (cases r) (auto simp: split_beta Let_def owed_release)
qed simp

text \<open>Among any releases, in any order, by anyone, one and only one is the last.\<close>

lemma run_completes_once:
  "ok s \<Longrightarrow> length (filter ((=) (k, AllReleased)) (fst (run rs s))) =
     (if owed s k \<noteq> {} \<and> owed s k \<subseteq> {d. (d, k) \<in> set rs} then 1 else 0)"
proof (induction rs arbitrary: s)
  case Nil
  then show ?case by simp
next
  case (Cons r rs)
  obtain d k' where r: "r = (d, k')" by (cases r)
  define s1 where "s1 = snd (release d k' s)"
  have ok1: "ok s1" and ow: "owed s1 k = (if k = k' then owed s k - {d} else owed s k)"
    using Cons.prems by (simp_all add: s1_def ok_release owed_release)
  show ?case
  proof (cases "k = k'")
    case False
    then show ?thesis using Cons.IH [OF ok1] ow
      by (simp add: r split_beta Let_def s1_def [symmetric])
  next
    case True
    have here: "fst (release d k' s) = AllReleased \<longleftrightarrow> owed s k = {d}"
      using Cons.prems True by (simp add: last_release)
    have later: "owed s1 k \<noteq> {} \<and> owed s1 k \<subseteq> {d. (d, k) \<in> set rs} \<longleftrightarrow>
        owed s k \<noteq> {} \<and> owed s k \<noteq> {d} \<and> owed s k \<subseteq> {e. (e, k) \<in> set (r # rs)}"
      using ow True r by auto
    have split: "length (filter ((=) (k, AllReleased)) (fst (run (r # rs) s))) =
        (if owed s k = {d} then 1 else 0) + length (filter ((=) (k, AllReleased)) (fst (run rs s1)))"
      using here True by (auto simp: r split_beta Let_def s1_def [symmetric])
    have "owed s k = {d} \<Longrightarrow> owed s k \<subseteq> {e. (e, k) \<in> set (r # rs)}"
      using True r by auto
    then show ?thesis unfolding split Cons.IH [OF ok1] later by simp
  qed
qed

end

text \<open>The displays that owe a release of a frame in flight.\<close>

definition owed_displays :: "scheduler \<Rightarrow> frame_key \<Rightarrow> u64 set" where
  "owed_displays s k = (case hm_get (sc_pending s) k of None \<Rightarrow> {} | Some owed \<Rightarrow> owed)"

definition release_key :: "u64 \<Rightarrow> frame_key \<Rightarrow> scheduler \<Rightarrow> release_outcome \<times> scheduler" where
  "release_key did k s = release_frame did (fst k) (fst (snd k)) (snd (snd k)) s"

fun release_run :: "(u64 \<times> frame_key) list \<Rightarrow> scheduler \<Rightarrow> (frame_key \<times> release_outcome) list \<times> scheduler" where
  "release_run [] s = ([], s)"
| "release_run ((d, k) # rs) s =
     (let (o1, s1) = release_key d k s; (os, s2) = release_run rs s1 in ((k, o1) # os, s2))"

lemma owed_active:
  "sched_ok s \<Longrightarrow> owed_displays s k \<noteq> {} \<Longrightarrow> \<exists>b. sc_active s = Some b \<and> ab_generation b = fst k"
  by (auto simp: owed_displays_def split: option.splits dest: sched_ok_pending_active)

lemma release_key_cases:
  assumes ok: "sched_ok s"
  obtains (ignored) "d \<notin> owed_displays s k" "release_key d k s = (Stale, s) \<or> release_key d k s = (Unknown, s)"
  | (last) "owed_displays s k = {d}"
      "release_key d k s = (AllReleased, s\<lparr>sc_pending := hm_remove k (sc_pending s)\<rparr>)"
  | (more) "d \<in> owed_displays s k" "owed_displays s k \<noteq> {d}" "release_key d k s =
      (StillInFlight, s\<lparr>sc_pending := hm_modify k (\<lambda>x. x - {d}) (sc_pending s)\<rparr>)"
proof -
  obtain g i q where k: "k = (g, i, q)" by (cases k)
  show thesis
  proof (cases rule: release_frame_cases [of s g d i q])
    case stale
    then have "owed_displays s k = {}" using owed_active [OF ok, of k] k by fastforce
    then show ?thesis using stale k ignored by (auto simp: release_key_def)
  next
    case unknown
    then have "d \<notin> owed_displays s k" using k by (auto simp: owed_displays_def split: option.splits)
    then show ?thesis using unknown k ignored by (auto simp: release_key_def)
  next
    case l: last
    then show ?thesis using k last by (simp add: release_key_def owed_displays_def)
  next
    case m: (more b owed)
    then show ?thesis using k more by (simp add: release_key_def owed_displays_def)
  qed
qed

interpretation ledger: release_ledger owed_displays release_key sched_ok
proof
  fix s d k k' assume ok: "sched_ok s"
  show "sched_ok (snd (release_key d k s))"
    using sched_ok_release [OF ok] by (simp add: release_key_def)
  show "owed_displays (snd (release_key d k s)) k' =
      (if k' = k then owed_displays s k - {d} else owed_displays s k')"
    by (cases rule: release_key_cases [OF ok, of d k])
      (auto simp: owed_displays_def split: option.splits)
  show "fst (release_key d k s) = AllReleased \<longleftrightarrow> owed_displays s k = {d}"
    by (cases rule: release_key_cases [OF ok, of d k]) auto
  show "fst (release_key d k s) = StillInFlight \<longleftrightarrow> d \<in> owed_displays s k \<and> owed_displays s k \<noteq> {d}"
    by (cases rule: release_key_cases [OF ok, of d k]) auto
qed

lemma release_run_eq: "release_run rs s = ledger.run rs s"
  by (induction rs arbitrary: s) (auto simp: split_beta Let_def)

lemma release_key_invalid: "release_key d k s = (o', s') \<Longrightarrow> sched_ok s \<Longrightarrow> d \<notin> owed_displays s k \<Longrightarrow>
  s' = s \<and> (o' = Stale \<or> o' = Unknown)"
  by (cases rule: release_key_cases [of s d k]) auto

section \<open>Reachable schedulers\<close>

text \<open>
  Every sequence of the scheduler's operations; \<open>register\<close> is limited to the first
  \<open>2 ^ 64 - 1\<close> displays of the daemon's lifetime (the id counter is a \<open>u64\<close>).
\<close>

inductive sched_reachable :: "scheduler \<Rightarrow> bool" where
  new: "sched_reachable scheduler_new"
| register: "sched_reachable s \<Longrightarrow> sc_next_display s \<noteq> - 1 \<Longrightarrow>
    sched_reachable (snd (register_display n w h r p s))"
| unregister: "sched_reachable s \<Longrightarrow> sched_reachable (snd (unregister_display did s))"
| size: "sched_reachable s \<Longrightarrow> sched_reachable (sched_update_display_size did w h s)"
| bind: "sched_reachable s \<Longrightarrow> sched_reachable (snd (set_active_binding b s))"
| clear: "sched_reachable s \<Longrightarrow> sched_reachable (snd (clear_active_binding s))"
| project: "sched_reachable s \<Longrightarrow> sched_reachable (snd (project_config did s))"
| begin_fan_out: "sched_reachable s \<Longrightarrow> sched_reachable (snd (begin_frame g i q s))"
| release: "sched_reachable s \<Longrightarrow> sched_reachable (snd (release_frame did g i q s))"

lemma sched_reachable_ok: "sched_reachable s \<Longrightarrow> sched_ok s"
  by (induction rule: sched_reachable.induct) (auto intro: inv_intro)

definition bound_sorted :: "scheduler \<Rightarrow> u64 list" where
  "bound_sorted s = sort (map fst (filter (\<lambda>(_, d). di_bound d) (sc_displays s)))"

lemma bound_sorted:
  assumes "sched_ok s"
  shows "sorted (bound_sorted s)" "distinct (bound_sorted s)" "set (bound_sorted s) = bound_displays s"
proof -
  have "hm_ok (filter (\<lambda>(_, d). di_bound d) (sc_displays s))"
    using assms by (simp add: sched_ok_def hm_ok_filter)
  then show "sorted (bound_sorted s)" "distinct (bound_sorted s)" "set (bound_sorted s) = bound_displays s"
    by (simp_all add: bound_sorted_def bound_displays_def)
qed

lemma begin_frame_cases:
  obtains (none) "begin_frame g i q s = ([], s)"
      "(\<forall>b. sc_active s = Some b \<longrightarrow> ab_generation b \<noteq> g) \<or> bound_displays s = {}"
  | (fan) b where "sc_active s = Some b" "ab_generation b = g" "bound_displays s \<noteq> {}"
      "begin_frame g i q s =
        (bound_sorted s, s\<lparr>sc_pending := hm_insert (g, i, q) (bound_displays s) (sc_pending s)\<rparr>)"
proof (cases "\<exists>b. sc_active s = Some b \<and> ab_generation b = g \<and> bound_displays s \<noteq> {}")
  case True
  then obtain b where "sc_active s = Some b" "ab_generation b = g" "bound_displays s \<noteq> {}" by blast
  then show ?thesis using fan by (simp add: begin_frame_def bound_sorted_def)
next
  case False
  then have "begin_frame g i q s = ([], s)" by (auto simp: begin_frame_def split: option.split)
  then show ?thesis using none False by blast
qed

section \<open>Properties\<close>

text \<open>the bookkeeping of a scheduler never breaks. After any sequence of operations every
  display is stored under its own id, no id exceeds the counter, every frame in flight is owed by
  at least one display that is still registered, and belongs to the active buffer pool.\<close>

theorem sched_reachable_consistent:
  assumes "sched_reachable s"
  shows "(\<forall>did d. get_display s did = Some d \<longrightarrow> di_id d = did \<and> did \<le> sc_next_display s) \<and>
    (\<forall>k owed. hm_get (sc_pending s) k = Some owed \<longrightarrow>
       owed \<noteq> {} \<and> (\<forall>did \<in> owed. get_display s did \<noteq> None) \<and>
       (\<exists>b. sc_active s = Some b \<and> ab_generation b = fst k))"
proof -
  have ok: "sched_ok s" using assms by (rule sched_reachable_ok)
  have "get_display s did \<noteq> None" if "hm_get (sc_pending s) k = Some owed" "did \<in> owed" for k owed did
  proof -
    have "did \<in> fst ` set (sc_displays s)" using sched_ok_pending [OF ok that(1)] that(2) by blast
    then show ?thesis by (simp add: get_display_def hm_contains_iff)
  qed
  moreover have "di_id d = did \<and> did \<le> sc_next_display s" if "get_display s did = Some d" for did d
    using ok that unfolding sched_ok_def get_display_def by blast
  ultimately show ?thesis
    using sched_ok_pending [OF ok] sched_ok_pending_active [OF ok] by blast
qed

text \<open>C12: frames complete once. Take any scheduler the daemon can reach, a frame it is fanning
  out, and any sequence of releases of any frames by any displays, stray ones included, in any
  order: \<open>AllReleased\<close> is reported for the frame exactly once when every display that owed it is
  among the releases, and never otherwise.\<close>

theorem frame_completes_once:
  assumes "sched_reachable s"
  shows "length (filter ((=) (k, AllReleased)) (fst (release_run rs s))) =
    (if owed_displays s k \<noteq> {} \<and> owed_displays s k \<subseteq> {d. (d, k) \<in> set rs} then 1 else 0)"
  unfolding release_run_eq
  by (rule ledger.run_completes_once) (rule sched_reachable_ok [OF assms])

text \<open>a fan-out. \<open>begin_frame\<close> answers with the bound displays in ascending order, without
  duplicates; it answers with the empty list, and changes nothing, exactly when the frame is not
  of the active pool or no display is bound. The displays listed are the ones that then owe the
  frame, and no other frame in flight is touched.\<close>

theorem begin_frame_fans_out:
  assumes "sched_reachable s" and "begin_frame g i q s = (ids, s')"
  shows "sorted ids \<and> distinct ids \<and>
    (ids = [] \<longleftrightarrow> (\<forall>b. sc_active s = Some b \<longrightarrow> ab_generation b \<noteq> g) \<or> bound_displays s = {}) \<and>
    (ids = [] \<longrightarrow> s' = s) \<and>
    (ids \<noteq> [] \<longrightarrow> set ids = bound_displays s \<and> owed_displays s' (g, i, q) = set ids) \<and>
    (\<forall>k. k \<noteq> (g, i, q) \<longrightarrow> owed_displays s' k = owed_displays s k)"
proof (cases rule: begin_frame_cases [of g i q s])
  case none
  then show ?thesis using assms(2) by auto
next
  case (fan b)
  have "set (bound_sorted s) \<noteq> {}"
    using fan(3) bound_sorted(3) [OF sched_reachable_ok [OF assms(1)]] by simp
  with fan assms(2) show ?thesis
    using bound_sorted [OF sched_reachable_ok [OF assms(1)]]
    by (auto simp: owed_displays_def)
qed

text \<open>a display that goes away never strands a frame. \<open>unregister_display\<close> reports, without
  repetition, exactly the frames that only that display still owed; it no longer owes anything,
  and what the other displays owe is unchanged.\<close>

theorem unregister_frees_exactly:
  assumes "sched_reachable s" and "unregister_display did s = (freed, s')"
  shows "distinct freed \<and> set freed = {k. owed_displays s k = {did}} \<and>
    get_display s' did = None \<and> (\<forall>k. owed_displays s' k = owed_displays s k - {did})"
proof -
  have ok: "sched_ok s" using assms(1) by (rule sched_reachable_ok)
  then have p: "hm_ok (sc_pending s)" by (simp add: sched_ok_def)
  let ?m = "hm_map_values (\<lambda>owed. owed - {did}) (sc_pending s)"
  let ?f = "filter (\<lambda>(k, owed). owed = {}) ?m"
  have m: "hm_ok ?m" using p by simp
  have "k \<in> set (map fst ?f) \<longleftrightarrow> owed_displays s k = {did}" for k
    using sched_ok_pending [OF ok, of k] hm_contains_iff [where m = ?f and k = k]
    by (auto simp: hm_get_filter [OF m] owed_displays_def subset_singleton_iff
        split: option.splits if_splits)
  moreover have "distinct (map fst ?f)" by (rule hm_ok_filter [OF m])
  moreover have "owed_displays s' k = owed_displays s k - {did}" for k
    using assms(2)
    by (auto simp: unregister_display_def Let_def owed_displays_def hm_get_filter [OF m]
        split: option.splits if_splits)
  ultimately show ?thesis using assms(2)
    by (auto simp: unregister_display_def Let_def get_display_def)
qed

section \<open>Witnesses\<close>

definition sched_wit :: scheduler where
  "sched_wit = snd (begin_frame 7 0 1 (snd (register_display ''b'' 10 20 60 [] (snd (set_active_binding
     \<lparr>ab_renderer_id = ''r1'', ab_wp_type = ''image'', ab_generation = 7, ab_tex_width = 64, ab_tex_height = 32\<rparr>
     (snd (register_display ''a'' 10 20 60 [] scheduler_new)))))))"

lemma sched_wit_reachable: "sched_reachable sched_wit"
  unfolding sched_wit_def
  by (intro sched_reachable.intros)
    (simp_all add: register_display_def scheduler_new_def set_active_binding_def Let_def)

lemma sched_wit_owed: "owed_displays sched_wit (7, 0, 1) = {1, 2}"
  by code_simp

theorem sched_reachable_consistent_witness:
  "\<exists>b. sc_active sched_wit = Some b \<and> ab_generation b = 7"
proof -
  have "hm_get (sc_pending sched_wit) (7, 0, 1) = Some {1, 2}"
    using sched_wit_owed by (simp add: owed_displays_def split: option.splits)
  then show ?thesis using sched_reachable_consistent [OF sched_wit_reachable] by fastforce
qed

theorem frame_completes_once_witness:
  "length (filter ((=) ((7, 0, 1), AllReleased))
     (fst (release_run [(1, (7, 0, 1)), (9, (7, 0, 1)), (1, (7, 0, 1)), (2, (7, 0, 1))] sched_wit))) = 1"
  by (subst frame_completes_once [OF sched_wit_reachable]) (simp add: sched_wit_owed)

theorem begin_frame_fans_out_witness:
  "set (fst (begin_frame 7 1 2 sched_wit)) = {1, 2}"
proof -
  have "bound_displays sched_wit = {1, 2}" by code_simp
  moreover have "fst (begin_frame 7 1 2 sched_wit) \<noteq> []" by code_simp
  ultimately show ?thesis
    using begin_frame_fans_out [OF sched_wit_reachable, of 7 1 2] by (metis prod.collapse)
qed

theorem unregister_frees_exactly_witness:
  "(7, 0, 1) \<in> set (fst (unregister_display 1 (snd (release_frame 2 7 0 1 sched_wit))))"
proof -
  have "sched_reachable (snd (release_frame 2 7 0 1 sched_wit))"
    by (rule sched_reachable.release [OF sched_wit_reachable])
  moreover have "owed_displays (snd (release_frame 2 7 0 1 sched_wit)) (7, 0, 1) = {1}" by code_simp
  ultimately show ?thesis using unregister_frees_exactly by (metis (mono_tags) mem_Collect_eq prod.collapse)
qed

end
