(* ===== verification/Layout.thy ===== *)
theory Layout
  imports Scheduler
begin

text \<open>
  The wallpaper layout, \<open>src/display/layout.rs\<close>: fill modes, rotations, alignments, the
  percentage location, the projection of a texture onto a display, and its inverse for
  pointer coordinates. All arithmetic is the rounded arithmetic of F32.
\<close>

section \<open>Data\<close>

datatype fill_mode = Stretched | PreserveAspectFit | PreserveAspectCrop | Centered
datatype rotation = Normal | Cw90 | Cw180 | Cw270
datatype align = TopLeft | Top | TopRight | Left | Center | Right | BottomLeft | Bottom | BottomRight

fun to_wl_transform :: "rotation \<Rightarrow> u32" where
  "to_wl_transform Normal = 0"
| "to_wl_transform Cw90 = 1"
| "to_wl_transform Cw180 = 2"
| "to_wl_transform Cw270 = 3"

definition align_h_factor :: "align \<Rightarrow> f32" where
  "align_h_factor a =
     (if a \<in> {TopLeft, Left, BottomLeft} then Fin 0
      else if a \<in> {Top, Center, Bottom} then Fin (1 / 2) else Fin 1)"

definition align_v_factor :: "align \<Rightarrow> f32" where
  "align_v_factor a =
     (if a \<in> {TopLeft, Top, TopRight} then Fin 0
      else if a \<in> {Left, Center, Right} then Fin (1 / 2) else Fin 1)"

record location =
  loc_x :: u8
  loc_y :: u8

definition location_default :: location where
  "location_default = \<lparr>loc_x = 50, loc_y = 50\<rparr>"

definition location_new :: "u8 \<Rightarrow> u8 \<Rightarrow> location" where
  "location_new x y = \<lparr>loc_x = min x 100, loc_y = min y 100\<rparr>"

text \<open>\<open>f32::round\<close> (half away from zero) followed by the saturating cast \<open>as u8\<close>.\<close>

fun round_to_u8 :: "f32 \<Rightarrow> u8" where
  "round_to_u8 NaN = 0"
| "round_to_u8 NInf = 0"
| "round_to_u8 PInf = 255"
| "round_to_u8 (Fin q) =
     (let r = (if 0 \<le> q then \<lfloor>q + 1 / 2\<rfloor> else - \<lfloor>1 / 2 - q\<rfloor>)
      in if r \<le> 0 then 0 else if 255 \<le> r then 255 else word_of_int r)"

definition from_align :: "align \<Rightarrow> location" where
  "from_align a =
     location_new (round_to_u8 (f32_mul (align_h_factor a) (Fin 100)))
       (round_to_u8 (f32_mul (align_v_factor a) (Fin 100)))"

definition bucket :: "u8 \<Rightarrow> nat" where
  "bucket v = (if v \<le> 25 then 0 else if 75 \<le> v then 2 else 1)"

definition to_align :: "location \<Rightarrow> align" where
  "to_align l =
     (let p = (bucket (loc_x l), bucket (loc_y l)) in
      if p = (0, 0) then TopLeft else if p = (1, 0) then Top else if p = (2, 0) then TopRight
      else if p = (0, 1) then Left else if p = (1, 1) then Center else if p = (2, 1) then Right
      else if p = (0, 2) then BottomLeft else if p = (1, 2) then Bottom
      else if p = (2, 2) then BottomRight else Center)"

definition loc_h_factor :: "location \<Rightarrow> f32" where
  "loc_h_factor l = f32_div (f32_of_nat (unat (min (loc_x l) 100))) (Fin 100)"

definition loc_v_factor :: "location \<Rightarrow> f32" where
  "loc_v_factor l = f32_div (f32_of_nat (unat (min (loc_y l) 100))) (Fin 100)"

section \<open>The projection\<close>

type_synonym f32_quad = "f32 \<times> f32 \<times> f32 \<times> f32"

record layout_input =
  tex_w :: f32
  tex_h :: f32
  disp_w :: f32
  disp_h :: f32
  li_fillmode :: fill_mode
  li_location :: location
  li_clear :: f32_quad

record layout_output =
  lo_source :: f32_quad
  lo_dest :: f32_quad
  lo_clear :: f32_quad

definition axis_centered :: "f32 \<Rightarrow> f32 \<Rightarrow> f32 \<Rightarrow> f32_quad" where
  "axis_centered tex disp factor =
     (if f32_le tex disp then (Fin 0, tex, f32_mul (f32_sub disp tex) factor, tex)
      else (f32_mul (f32_sub tex disp) factor, disp, Fin 0, disp))"

definition compute :: "layout_input \<Rightarrow> layout_output" where
  "compute i =
     (if f32_le (tex_w i) (Fin 0) \<or> f32_le (tex_h i) (Fin 0) \<or>
         f32_le (disp_w i) (Fin 0) \<or> f32_le (disp_h i) (Fin 0)
      then \<lparr>lo_source = (Fin 0, Fin 0, f32_max (tex_w i) (Fin 0), f32_max (tex_h i) (Fin 0)),
            lo_dest = (Fin 0, Fin 0, f32_max (disp_w i) (Fin 0), f32_max (disp_h i) (Fin 0)),
            lo_clear = li_clear i\<rparr>
      else (case li_fillmode i of
        Stretched \<Rightarrow>
          \<lparr>lo_source = (Fin 0, Fin 0, tex_w i, tex_h i),
           lo_dest = (Fin 0, Fin 0, disp_w i, disp_h i), lo_clear = li_clear i\<rparr>
      | PreserveAspectFit \<Rightarrow>
          (let scale = f32_min (f32_div (disp_w i) (tex_w i)) (f32_div (disp_h i) (tex_h i));
               dw = f32_mul (tex_w i) scale;
               dh = f32_mul (tex_h i) scale;
               dx = f32_mul (f32_sub (disp_w i) dw) (loc_h_factor (li_location i));
               dy = f32_mul (f32_sub (disp_h i) dh) (loc_v_factor (li_location i))
           in \<lparr>lo_source = (Fin 0, Fin 0, tex_w i, tex_h i), lo_dest = (dx, dy, dw, dh),
               lo_clear = li_clear i\<rparr>)
      | PreserveAspectCrop \<Rightarrow>
          (let scale = f32_max (f32_div (disp_w i) (tex_w i)) (f32_div (disp_h i) (tex_h i));
               sw = f32_div (disp_w i) scale;
               sh = f32_div (disp_h i) scale;
               sx = f32_mul (f32_sub (tex_w i) sw) (loc_h_factor (li_location i));
               sy = f32_mul (f32_sub (tex_h i) sh) (loc_v_factor (li_location i))
           in \<lparr>lo_source = (sx, sy, sw, sh), lo_dest = (Fin 0, Fin 0, disp_w i, disp_h i),
               lo_clear = li_clear i\<rparr>)
      | Centered \<Rightarrow>
          (let (sx, sw, dx, dw) = axis_centered (tex_w i) (disp_w i) (loc_h_factor (li_location i));
               (sy, sh, dy, dh) = axis_centered (tex_h i) (disp_h i) (loc_v_factor (li_location i))
           in \<lparr>lo_source = (sx, sy, sw, sh), lo_dest = (dx, dy, dw, dh), lo_clear = li_clear i\<rparr>)))"

section \<open>Pointer coordinates\<close>

definition inverse_transform :: "u32 \<Rightarrow> f32 \<Rightarrow> f32 \<Rightarrow> f32 \<times> f32" where
  "inverse_transform t u v =
     (let u' = f32_sub (Fin 1) u; v' = f32_sub (Fin 1) v in
      if t = 0 then (u, v)
      else if t = 1 then (v', u)
      else if t = 2 then (u', v')
      else if t = 3 then (v, u')
      else if t = 4 then (u', v)
      else if t = 5 then (v, u)
      else if t = 6 then (u, v')
      else if t = 7 then (v', u')
      else (u, v))"

definition in_unit :: "f32 \<Rightarrow> bool" where
  "in_unit u \<longleftrightarrow> f32_le (Fin 0) u \<and> f32_le u (Fin 1)"

definition display_point_to_texture :: "f32 \<Rightarrow> f32 \<Rightarrow> projected_config \<Rightarrow> (f32 \<times> f32) option" where
  "display_point_to_texture x y cfg =
     (if f32_le (dest_w cfg) (Fin 0) \<or> f32_le (dest_h cfg) (Fin 0) then None
      else
        (let u = f32_div (f32_sub x (dest_x cfg)) (dest_w cfg);
             v = f32_div (f32_sub y (dest_y cfg)) (dest_h cfg)
         in if \<not> in_unit u \<or> \<not> in_unit v then None
            else (let (uu, vv) = inverse_transform (cfg_transform cfg) u v
                  in Some (f32_add (source_x cfg) (f32_mul uu (source_w cfg)),
                           f32_add (source_y cfg) (f32_mul vv (source_h cfg))))))"

section \<open>Factors and axes\<close>

text \<open>A value between two others, both of the type.\<close>

definition f32_within :: "rat \<Rightarrow> rat \<Rightarrow> f32 \<Rightarrow> bool" where
  "f32_within l h a \<longleftrightarrow> (\<exists>q. a = Fin q \<and> l \<le> q \<and> q \<le> h \<and> is_f32 a)"

lemma f32_withinE:
  assumes "f32_within l h a"
  obtains q where "a = Fin q" "l \<le> q" "q \<le> h" "is_f32 (Fin q)"
  using assms unfolding f32_within_def by blast

lemma f32_round_within:
  "l \<le> x \<Longrightarrow> x \<le> h \<Longrightarrow> is_f32 (Fin l) \<Longrightarrow> is_f32 (Fin h) \<Longrightarrow> f32_within l h (f32_round x)"
  unfolding f32_within_def by (metis f32_round_between)

lemma is_f32_of_nat: "n \<le> 2 ^ 24 \<Longrightarrow> is_f32 (Fin (of_nat n))"
  using f32_of_nat_exact by blast

lemma loc_factor_within: "f32_within 0 1 (loc_h_factor l)" "f32_within 0 1 (loc_v_factor l)"
proof -
  have *: "f32_within 0 1 (f32_div (f32_of_nat (unat (min v 100))) (Fin 100))" for v :: u8
  proof -
    have "min v 100 \<le> 100" by simp
    then obtain n where n: "unat (min v 100) = n" "n \<le> 100" by (simp add: word_le_nat_alt)
    then have "f32_of_nat n = Fin (of_nat n)" using f32_of_nat_exact by simp
    moreover have "of_nat n \<le> (100 :: rat)" using n by linarith
    ultimately show ?thesis unfolding n(1) by (simp add: f32_round_within)
  qed
  show "f32_within 0 1 (loc_h_factor l)" "f32_within 0 1 (loc_v_factor l)"
    unfolding loc_h_factor_def loc_v_factor_def by (rule *)+
qed

lemma f32_mul_unit:
  assumes "f32_within 0 h a" and "f32_within 0 1 b" and "is_f32 (Fin h)"
  shows "f32_within 0 h (f32_mul a b)"
proof -
  obtain p q where "a = Fin p" "0 \<le> p" "p \<le> h" "b = Fin q" "0 \<le> q" "q \<le> 1"
    using assms(1,2) by (elim f32_withinE)
  moreover from this have "0 \<le> p * q" "p * q \<le> h" using mult_left_le [of q p] by auto
  ultimately show ?thesis using assms(3) by (simp add: f32_round_within)
qed

lemma f32_sub_nats:
  assumes "m \<le> n" and "n \<le> 2 ^ 24"
  shows "f32_sub (Fin (of_nat n)) (Fin (of_nat m)) = Fin (of_nat (n - m))"
  using f32_round_nat [of "n - m"] assms by (simp add: f32_sub_def of_nat_diff)

lemma axis_centered_ok:
  assumes "t \<le> 2 ^ 24" and "d \<le> 2 ^ 24" and "f32_within 0 1 f"
    and "axis_centered (Fin (of_nat t)) (Fin (of_nat d)) f = (so, sl, do', dl)"
  shows "sl = Fin (of_nat (min t d)) \<and> dl = sl \<and>
    f32_within 0 (of_nat (t - min t d)) so \<and> f32_within 0 (of_nat (d - min t d)) do'"
proof -
  have z: "f32_within 0 h (Fin 0)" if "0 \<le> h" for h using that by (simp add: f32_within_def)
  have m: "f32_within 0 (of_nat k) (f32_mul (Fin (of_nat k)) f)" if "k \<le> 2 ^ 24" for k
    using is_f32_of_nat [OF that] by (intro f32_mul_unit assms(3)) (simp_all add: f32_within_def)
  show ?thesis
  proof (cases "t \<le> d")
    case True
    then have "so = Fin 0" "sl = Fin (of_nat t)" "do' = f32_mul (Fin (of_nat (d - t))) f" "dl = Fin (of_nat t)"
      using assms(2,4) by (auto simp: axis_centered_def f32_sub_nats)
    then show ?thesis using True m [of "d - t"] assms(2) z by auto
  next
    case False
    then have "so = f32_mul (Fin (of_nat (t - d))) f" "sl = Fin (of_nat d)" "do' = Fin 0" "dl = Fin (of_nat d)"
      using assms(1,4) by (auto simp: axis_centered_def f32_sub_nats)
    then show ?thesis using False m [of "t - d"] assms(1) z by auto
  qed
qed

lemma f32_le_nat_0: "0 < n \<Longrightarrow> \<not> f32_le (Fin (of_nat n)) (Fin 0)"
  by simp

text \<open>The inputs of the router: whole pixels, up to \<open>2^24\<close> of them.\<close>

definition pixel_input :: "nat \<Rightarrow> nat \<Rightarrow> nat \<Rightarrow> nat \<Rightarrow> fill_mode \<Rightarrow> location \<Rightarrow> f32_quad \<Rightarrow> layout_input" where
  "pixel_input tw th dw dh fm l clear =
     \<lparr>tex_w = Fin (of_nat tw), tex_h = Fin (of_nat th), disp_w = Fin (of_nat dw), disp_h = Fin (of_nat dh),
      li_fillmode = fm, li_location = l, li_clear = clear\<rparr>"

lemma compute_centered:
  assumes "0 < tw" "0 < th" "0 < dw" "0 < dh"
  shows "compute (pixel_input tw th dw dh Centered l c) =
    (let (sx, sw, dx, dw') = axis_centered (Fin (of_nat tw)) (Fin (of_nat dw)) (loc_h_factor l);
         (sy, sh, dy, dh') = axis_centered (Fin (of_nat th)) (Fin (of_nat dh)) (loc_v_factor l)
     in \<lparr>lo_source = (sx, sy, sw, sh), lo_dest = (dx, dy, dw', dh'), lo_clear = c\<rparr>)"
  using assms by (simp add: compute_def pixel_input_def)

lemma nat_le_rat: "m \<le> n \<Longrightarrow> (of_nat m :: rat) \<le> of_nat n"
  by (simp only: of_nat_le_iff)

text \<open>A ratio of two pixel sizes, rounded.\<close>

lemma pixel_ratio:
  assumes "0 < t" "t \<le> 2 ^ 24" "0 < d" "d \<le> 2 ^ 24"
  obtains s where "f32_div (Fin (of_nat d)) (Fin (of_nat t)) = Fin s" "is_f32 (Fin s)"
    "of_nat d * (1 - pow2 (- 24)) \<le> s * of_nat t" "s * of_nat t \<le> of_nat d * (1 + pow2 (- 24))"
    "pow2 (- 25) \<le> s" "s \<le> pow2 25"
proof -
  let ?q = "of_nat d / of_nat t :: rat"
  have n: "1 \<le> (of_nat t :: rat)" "of_nat t \<le> pow2 24" "1 \<le> (of_nat d :: rat)" "of_nat d \<le> pow2 24"
    using assms nat_le_rat [of t "2 ^ 24"] nat_le_rat [of d "2 ^ 24"] nat_le_rat [of 1 t] nat_le_rat [of 1 d]
    by simp_all
  have q: "pow2 (- 24) \<le> ?q" "?q \<le> pow2 24"
    using n mult_mono [of 1 "of_nat d :: rat" "of_nat t" "pow2 24"] mult_mono [of "of_nat d :: rat" "pow2 24" 1 "of_nat t"]
    by (simp_all add: pow2_def divide_simps)
  moreover have "pow2 (- 126) \<le> pow2 (- 24)" "pow2 24 \<le> pow2 100" by (simp_all only: pow2_le_iff)
  ultimately have "pow2 (- 126) \<le> ?q" "?q \<le> pow2 100" by (blast intro: order_trans)+
  then obtain s where s: "f32_round ?q = Fin s" "is_f32 (Fin s)"
    "?q * (1 - pow2 (- 24)) \<le> s" "s \<le> ?q * (1 + pow2 (- 24))" by (rule f32_round_error)
  have "s * of_nat t \<le> of_nat d * (1 + pow2 (- 24))" "of_nat d * (1 - pow2 (- 24)) \<le> s * of_nat t"
    using s(3,4) n(1) by (simp_all add: field_simps)
  moreover have "pow2 (- 25) \<le> s" "s \<le> pow2 25" using s(3,4) q by (simp_all add: pow2_def)
  ultimately show thesis using s that assms(1) by simp
qed

text \<open>One rounded product or quotient of a pixel size and a scale.\<close>

lemma pixel_scaled:
  assumes "pow2 (- 126) \<le> x" and "x \<le> pow2 100" and "x \<le> a * (1 + pow2 (- 24))"
  obtains w where "f32_round x = Fin w" "x * (1 - pow2 (- 24)) \<le> w" "w \<le> a * (1 + pow2 (- 24)) ^ 2"
proof -
  obtain w where w: "f32_round x = Fin w" "x * (1 - pow2 (- 24)) \<le> w" "w \<le> x * (1 + pow2 (- 24))"
    using assms(1,2) by (rule f32_round_error)
  have "x * (1 + pow2 (- 24)) \<le> a * (1 + pow2 (- 24)) * (1 + pow2 (- 24))"
    using assms(3) by (intro mult_right_mono) (simp_all add: pow2_def)
  with w that show thesis by (simp add: power2_eq_square mult.assoc)
qed

lemma pixel_scale_range:
  assumes "0 < t" "t \<le> 2 ^ 24" "pow2 (- 25) \<le> s" "s \<le> pow2 25"
  shows "pow2 (- 126) \<le> of_nat t * s" "of_nat t * s \<le> pow2 100"
proof -
  have t: "1 \<le> (of_nat t :: rat)" "of_nat t \<le> pow2 24"
    using nat_le_rat [of 1 t] nat_le_rat [of t "2 ^ 24"] assms(1,2) by simp_all
  have "1 * pow2 (- 25) \<le> of_nat t * s" using t assms(3) by (intro mult_mono) (simp_all add: pow2_def)
  moreover have "pow2 (- 126) \<le> pow2 (- 25)" by (simp only: pow2_le_iff)
  ultimately show "pow2 (- 126) \<le> of_nat t * s" by simp
  have "0 \<le> s" using assms(3) pow2_pos [of "- 25"] by linarith
  then have "of_nat t * s \<le> pow2 24 * pow2 25"
    using t assms(4) by (intro mult_mono) (simp_all add: order_less_imp_le)
  also have "\<dots> \<le> pow2 100" by (simp only: pow2_add [symmetric] pow2_le_iff)
  finally show "of_nat t * s \<le> pow2 100" .
qed

lemma compute_fit:
  assumes "0 < tw" "tw \<le> 2 ^ 24" "0 < th" "th \<le> 2 ^ 24" "0 < dw" "dw \<le> 2 ^ 24" "0 < dh" "dh \<le> 2 ^ 24"
  obtains dx dy w h where
    "compute (pixel_input tw th dw dh PreserveAspectFit l c) =
      \<lparr>lo_source = (Fin 0, Fin 0, Fin (of_nat tw), Fin (of_nat th)), lo_dest = (dx, dy, Fin w, Fin h), lo_clear = c\<rparr>"
    "w \<le> of_nat dw * (1 + pow2 (- 24)) ^ 2" "h \<le> of_nat dh * (1 + pow2 (- 24)) ^ 2"
    "of_nat dw * (1 - pow2 (- 24)) ^ 2 \<le> w \<or> of_nat dh * (1 - pow2 (- 24)) ^ 2 \<le> h"
proof -
  let ?e = "pow2 (- 24)"
  obtain s1 where s1: "f32_div (Fin (of_nat dw)) (Fin (of_nat tw)) = Fin s1"
    "of_nat dw * (1 - ?e) \<le> s1 * of_nat tw" "s1 * of_nat tw \<le> of_nat dw * (1 + ?e)"
    "pow2 (- 25) \<le> s1" "s1 \<le> pow2 25"
    using pixel_ratio [of tw dw] assms by metis
  obtain s2 where s2: "f32_div (Fin (of_nat dh)) (Fin (of_nat th)) = Fin s2"
    "of_nat dh * (1 - ?e) \<le> s2 * of_nat th" "s2 * of_nat th \<le> of_nat dh * (1 + ?e)"
    "pow2 (- 25) \<le> s2" "s2 \<le> pow2 25"
    using pixel_ratio [of th dh] assms by metis
  define s where "s = min s1 s2"
  have sc: "f32_min (Fin s1) (Fin s2) = Fin s" by (simp add: s_def min_def)
  have s: "s \<le> s1" "s \<le> s2" "pow2 (- 25) \<le> s" "s \<le> pow2 25" "s = s1 \<or> s = s2"
    using s1 s2 by (auto simp: s_def)
  have "of_nat tw * s \<le> of_nat tw * s1" "of_nat th * s \<le> of_nat th * s2"
    using s by (simp_all add: mult_left_mono)
  then have x: "of_nat tw * s \<le> of_nat dw * (1 + ?e)" "of_nat th * s \<le> of_nat dh * (1 + ?e)"
    using s1(3) s2(3) by (simp_all add: mult.commute)
  obtain w where w: "f32_round (of_nat tw * s) = Fin w" "of_nat tw * s * (1 - ?e) \<le> w"
    "w \<le> of_nat dw * (1 + ?e) ^ 2"
    using pixel_scale_range [OF assms(1,2) s(3,4)] x(1) by (rule pixel_scaled)
  obtain h where h: "f32_round (of_nat th * s) = Fin h" "of_nat th * s * (1 - ?e) \<le> h"
    "h \<le> of_nat dh * (1 + ?e) ^ 2"
    using pixel_scale_range [OF assms(3,4) s(3,4)] x(2) by (rule pixel_scaled)
  have e: "0 \<le> 1 - ?e" by (simp add: pow2_def)
  have "of_nat dw * (1 - ?e) ^ 2 \<le> w" if "s = s1"
    using mult_right_mono [OF s1(2) e] w(2) that by (simp add: power2_eq_square algebra_simps)
  moreover have "of_nat dh * (1 - ?e) ^ 2 \<le> h" if "s = s2"
    using mult_right_mono [OF s2(2) e] h(2) that by (simp add: power2_eq_square algebra_simps)
  ultimately have "of_nat dw * (1 - ?e) ^ 2 \<le> w \<or> of_nat dh * (1 - ?e) ^ 2 \<le> h" using s(5) by blast
  moreover have "compute (pixel_input tw th dw dh PreserveAspectFit l c) =
      \<lparr>lo_source = (Fin 0, Fin 0, Fin (of_nat tw), Fin (of_nat th)),
       lo_dest = (f32_mul (f32_sub (Fin (of_nat dw)) (Fin w)) (loc_h_factor l),
                  f32_mul (f32_sub (Fin (of_nat dh)) (Fin h)) (loc_v_factor l), Fin w, Fin h), lo_clear = c\<rparr>"
    using assms s1(1) s2(1) sc w(1) h(1) by (simp add: compute_def pixel_input_def Let_def)
  ultimately show thesis using that w(3) h(3) by blast
qed

section \<open>Properties\<close>

text \<open>an alignment survives the trip through a percentage location.\<close>

theorem align_location_round_trip: "to_align (from_align a) = a"
proof -
  have "f32_round 50 = Fin 50" "f32_round 100 = Fin 100" "f32_round 0 = Fin 0"
    using f32_round_nat [of 50] f32_round_nat [of 100] f32_round_nat [of 0] by simp_all
  moreover have "\<lfloor>101 / 2 :: rat\<rfloor> = 50" "\<lfloor>201 / 2 :: rat\<rfloor> = 100" by (simp_all add: floor_eq_iff)
  ultimately show ?thesis
    by (cases a) (simp_all add: from_align_def align_h_factor_def align_v_factor_def location_new_def
        to_align_def bucket_def min_def)
qed

text \<open>in \<open>Centered\<close> mode the texture is shown pixel for pixel and nothing sticks out: for
  sizes of up to \<open>2^24\<close> pixels the source and destination rectangles have the same size, the
  smaller of texture and display on each axis, and, wherever the location puts them, the source
  lies within the texture and the destination within the display.\<close>

theorem centered_stays_inside:
  assumes "0 < tw" "tw \<le> 2 ^ 24" "0 < th" "th \<le> 2 ^ 24" "0 < dw" "dw \<le> 2 ^ 24" "0 < dh" "dh \<le> 2 ^ 24"
    and "compute (pixel_input tw th dw dh Centered l c) =
      \<lparr>lo_source = (sx, sy, sw, sh), lo_dest = (dx, dy, dw', dh'), lo_clear = c'\<rparr>"
  shows "sw = Fin (of_nat (min tw dw)) \<and> sh = Fin (of_nat (min th dh)) \<and> dw' = sw \<and> dh' = sh \<and> c' = c \<and>
    f32_within 0 (of_nat (tw - min tw dw)) sx \<and> f32_within 0 (of_nat (th - min th dh)) sy \<and>
    f32_within 0 (of_nat (dw - min tw dw)) dx \<and> f32_within 0 (of_nat (dh - min th dh)) dy"
proof -
  obtain a b d e where ax: "axis_centered (Fin (of_nat tw)) (Fin (of_nat dw)) (loc_h_factor l) = (a, b, d, e)"
    using prod_cases4 by blast
  obtain a' b' d' e' where ay: "axis_centered (Fin (of_nat th)) (Fin (of_nat dh)) (loc_v_factor l) = (a', b', d', e')"
    using prod_cases4 by blast
  have eq: "sx = a" "sw = b" "dx = d" "dw' = e" "sy = a'" "sh = b'" "dy = d'" "dh' = e'" "c' = c"
    using assms(9) unfolding compute_centered [OF assms(1,3,5,7)] by (simp_all add: ax ay)
  show ?thesis unfolding eq
    using axis_centered_ok [OF assms(2,6) loc_factor_within(1) ax]
      axis_centered_ok [OF assms(4,8) loc_factor_within(2) ay] by simp
qed

text \<open>aspect-preserving fit. The whole texture is shown, both axes are scaled by the same
  factor, and the destination exceeds neither side of the display, save for the two roundings
  (a relative \<open>2^-24\<close> each), while it fills at least one of them up to the same error.\<close>

theorem fit_fits:
  assumes "0 < tw" "tw \<le> 2 ^ 24" "0 < th" "th \<le> 2 ^ 24" "0 < dw" "dw \<le> 2 ^ 24" "0 < dh" "dh \<le> 2 ^ 24"
  shows "\<exists>dx dy w h. compute (pixel_input tw th dw dh PreserveAspectFit l c) =
      \<lparr>lo_source = (Fin 0, Fin 0, Fin (of_nat tw), Fin (of_nat th)), lo_dest = (dx, dy, Fin w, Fin h), lo_clear = c\<rparr> \<and>
    w \<le> of_nat dw * (1 + pow2 (- 24)) ^ 2 \<and> h \<le> of_nat dh * (1 + pow2 (- 24)) ^ 2 \<and>
    (of_nat dw * (1 - pow2 (- 24)) ^ 2 \<le> w \<or> of_nat dh * (1 - pow2 (- 24)) ^ 2 \<le> h)"
  by (rule compute_fit [OF assms, of l c]) blast

lemma is_f32_div: "is_f32 a \<Longrightarrow> is_f32 (f32_div a b)"
  by (cases a; cases b) (auto simp: f32_inf_of_def)

lemma is_f32_sub: "is_f32 (f32_sub a b)"
  unfolding f32_sub_def by (cases a; cases b) simp_all

lemma in_unit_within: "in_unit u \<Longrightarrow> is_f32 u \<Longrightarrow> f32_within 0 1 u"
  by (cases u) (auto simp: in_unit_def f32_within_def)

lemma unit_complement: "f32_within 0 1 u \<Longrightarrow> f32_within 0 1 (f32_sub (Fin 1) u)"
  by (auto elim!: f32_withinE intro!: f32_round_within simp: f32_sub_def)

lemma inverse_transform_within:
  assumes "f32_within 0 1 u" and "f32_within 0 1 v" and "inverse_transform t u v = (u', v')"
  shows "f32_within 0 1 u'" "f32_within 0 1 v'"
  using assms unit_complement [OF assms(1)] unit_complement [OF assms(2)]
  by (auto simp: inverse_transform_def Let_def split: if_splits)

lemma source_axis_within:
  assumes "f32_within 0 1 u" and "0 \<le> w" and "is_f32 (Fin w)" and "is_f32 (Fin x)"
  shows "f32_le (Fin x) (f32_add (Fin x) (f32_mul u (Fin w))) \<and>
    f32_le (f32_add (Fin x) (f32_mul u (Fin w))) (f32_add (Fin x) (Fin w))"
proof -
  obtain q where q: "u = Fin q" "0 \<le> q" "q \<le> 1" using assms(1) by (rule f32_withinE)
  then have "0 \<le> q * w" "q * w \<le> w" using assms(2) mult_right_mono [of q 1 w] by simp_all
  then obtain r where r: "f32_round (q * w) = Fin r" "0 \<le> r" "r \<le> w"
    by (rule f32_round_between) (use assms(3) in simp_all)
  have "f32_le (f32_round x) (f32_round (x + r))" "f32_le (f32_round (x + r)) (f32_round (x + w))"
    using r by (intro f32_round_mono; simp)+
  then show ?thesis using q(1) r(1) assms(4) by (simp add: is_f32.simps)
qed

text \<open>C39: a pointer position is mapped into the picture. Whatever the rotation or mirroring, when
  a point of the display is mapped to texture coordinates, they lie between the origin of the
  source rectangle and its far corner; a point outside the destination rectangle, and every
  point of an empty one, is mapped to nothing.\<close>

theorem pointer_stays_in_source:
  assumes "source_x cfg = Fin x0" "source_y cfg = Fin y0" "source_w cfg = Fin w" "source_h cfg = Fin h"
    and "is_f32 (Fin x0)" "is_f32 (Fin y0)" "is_f32 (Fin w)" "is_f32 (Fin h)" "0 \<le> w" "0 \<le> h"
    and "display_point_to_texture px py cfg = Some (tx, ty)"
  shows "f32_le (source_x cfg) tx \<and> f32_le tx (f32_add (source_x cfg) (source_w cfg)) \<and>
    f32_le (source_y cfg) ty \<and> f32_le ty (f32_add (source_y cfg) (source_h cfg))"
proof -
  let ?u = "f32_div (f32_sub px (dest_x cfg)) (dest_w cfg)" and ?v = "f32_div (f32_sub py (dest_y cfg)) (dest_h cfg)"
  obtain uu vv where t: "inverse_transform (cfg_transform cfg) ?u ?v = (uu, vv)" by force
  have io: "in_unit ?u" "in_unit ?v" "tx = f32_add (Fin x0) (f32_mul uu (Fin w))"
    "ty = f32_add (Fin y0) (f32_mul vv (Fin h))"
    using assms(1-4,11) t by (auto simp: display_point_to_texture_def Let_def split: if_splits)
  then have "f32_within 0 1 ?u" "f32_within 0 1 ?v" by (simp_all add: in_unit_within is_f32_div is_f32_sub)
  then have "f32_within 0 1 uu" "f32_within 0 1 vv" using t by (rule inverse_transform_within)+
  then show ?thesis unfolding assms(1-4) io(3,4)
    using source_axis_within [OF _ assms(9,7,5)] source_axis_within [OF _ assms(10,8,6)] by blast
qed

section \<open>Witnesses\<close>

theorem centered_stays_inside_witness:
  "\<exists>sx sy sw sh dx dy c. compute (pixel_input 6 2 4 4 Centered location_default (Fin 0, Fin 0, Fin 0, Fin 1)) =
     \<lparr>lo_source = (sx, sy, sw, sh), lo_dest = (dx, dy, sw, sh), lo_clear = c\<rparr> \<and>
     sw = Fin 4 \<and> sh = Fin 2 \<and> f32_within 0 2 sx \<and> f32_within 0 2 dy"
proof -
  let ?o = "compute (pixel_input 6 2 4 4 Centered location_default (Fin 0, Fin 0, Fin 0, Fin 1))"
  obtain sx sy sw sh dx dy dw dh c where
    o: "?o = \<lparr>lo_source = (sx, sy, sw, sh), lo_dest = (dx, dy, dw, dh), lo_clear = c\<rparr>"
    by (metis (full_types) layout_output.cases prod_cases4)
  have "0 < (6::nat)" "6 \<le> (2::nat) ^ 24" "0 < (2::nat)" "2 \<le> (2::nat) ^ 24" "0 < (4::nat)" "4 \<le> (2::nat) ^ 24"
    by simp_all
  from centered_stays_inside [OF this(1-6) this(5,6) o] o show ?thesis by (simp add: min_def)
qed

theorem fit_fits_witness:
  "\<exists>dx dy w h. compute (pixel_input 1920 1080 505 1080 PreserveAspectFit location_default (Fin 0, Fin 0, Fin 0, Fin 1)) =
      \<lparr>lo_source = (Fin 0, Fin 0, Fin 1920, Fin 1080), lo_dest = (dx, dy, Fin w, Fin h),
       lo_clear = (Fin 0, Fin 0, Fin 0, Fin 1)\<rparr> \<and> w \<le> 505 * (1 + pow2 (- 24)) ^ 2"
  using fit_fits [of 1920 1080 505 1080 location_default "(Fin 0, Fin 0, Fin 0, Fin 1)"] by auto

definition pointer_cfg :: projected_config where
  "pointer_cfg = \<lparr>config_generation = 1, source_x = Fin 0, source_y = Fin 0, source_w = Fin 8, source_h = Fin 8,
     dest_x = Fin 0, dest_y = Fin 0, dest_w = Fin 4, dest_h = Fin 4, cfg_transform = 2,
     cfg_clear = (Fin 0, Fin 0, Fin 0, Fin 1)\<rparr>"

theorem pointer_stays_in_source_witness:
  "\<exists>tx ty. display_point_to_texture (Fin 1) (Fin 2) pointer_cfg = Some (tx, ty) \<and> f32_le tx (Fin 8)"
proof -
  have "display_point_to_texture (Fin 1) (Fin 2) pointer_cfg \<noteq> None" by code_simp
  then obtain tx ty where p: "display_point_to_texture (Fin 1) (Fin 2) pointer_cfg = Some (tx, ty)" by auto
  have "is_f32 (Fin 8)" using is_f32_of_nat [of 8] by simp
  moreover have "f32_add (Fin 0) (Fin 8) = Fin 8" using f32_round_nat [of 8] by simp
  ultimately show ?thesis
    using pointer_stays_in_source [OF _ _ _ _ _ _ _ _ _ _ p, of 0 0 8 8] p by (simp add: pointer_cfg_def)
qed

end
