(* ===== verification/Hotkeys.thy ===== *)
theory Hotkeys
  imports Prelude
begin

text \<open>
  The keyboard shortcuts, \<open>src/hotkeys.rs\<close>: the enumeration of actions with its persisted
  names, and the table of bindings keyed by those names (a \<open>BTreeMap\<close>, so a sorted
  association list).
\<close>

section \<open>Actions\<close>

datatype hotkey_action =
  HK_OpenWallpapers | HK_OpenWorkshop | HK_OpenDisplays | HK_OpenStatus | HK_OpenPlugins |
  HK_OpenSettings | HK_OpenHotkeys | HK_ReloadUi | HK_NavigateLeft | HK_NavigateRight |
  HK_NavigateUp | HK_NavigateDown | HK_JumpLeft | HK_JumpRight | HK_JumpUp | HK_JumpDown |
  HK_Home | HK_End | HK_HomeAll | HK_EndAll | HK_PageUp | HK_PageDown | HK_RefreshScan |
  HK_FocusSearch | HK_SelectAll | HK_Cancel | HK_ApplyWallpaper | HK_ToggleSelection |
  HK_ToggleFilters | HK_WorkshopReload | HK_WorkshopClearSession | HK_StatusRefresh |
  HK_SettingsSave

fun hotkey_as_str :: "hotkey_action \<Rightarrow> string" where
  "hotkey_as_str HK_OpenWallpapers = ''open_wallpapers''"
| "hotkey_as_str HK_OpenWorkshop = ''open_workshop''"
| "hotkey_as_str HK_OpenDisplays = ''open_displays''"
| "hotkey_as_str HK_OpenStatus = ''open_status''"
| "hotkey_as_str HK_OpenPlugins = ''open_plugins''"
| "hotkey_as_str HK_OpenSettings = ''open_settings''"
| "hotkey_as_str HK_OpenHotkeys = ''open_hotkeys''"
| "hotkey_as_str HK_ReloadUi = ''reload_ui''"
| "hotkey_as_str HK_NavigateLeft = ''navigate_left''"
| "hotkey_as_str HK_NavigateRight = ''navigate_right''"
| "hotkey_as_str HK_NavigateUp = ''navigate_up''"
| "hotkey_as_str HK_NavigateDown = ''navigate_down''"
| "hotkey_as_str HK_JumpLeft = ''jump_left''"
| "hotkey_as_str HK_JumpRight = ''jump_right''"
| "hotkey_as_str HK_JumpUp = ''jump_up''"
| "hotkey_as_str HK_JumpDown = ''jump_down''"
| "hotkey_as_str HK_Home = ''home''"
| "hotkey_as_str HK_End = ''end''"
| "hotkey_as_str HK_HomeAll = ''home_all''"
| "hotkey_as_str HK_EndAll = ''end_all''"
| "hotkey_as_str HK_PageUp = ''page_up''"
| "hotkey_as_str HK_PageDown = ''page_down''"
| "hotkey_as_str HK_RefreshScan = ''refresh_scan''"
| "hotkey_as_str HK_FocusSearch = ''focus_search''"
| "hotkey_as_str HK_SelectAll = ''select_all''"
| "hotkey_as_str HK_Cancel = ''cancel''"
| "hotkey_as_str HK_ApplyWallpaper = ''apply_wallpaper''"
| "hotkey_as_str HK_ToggleSelection = ''toggle_selection''"
| "hotkey_as_str HK_ToggleFilters = ''toggle_filters''"
| "hotkey_as_str HK_WorkshopReload = ''workshop_reload''"
| "hotkey_as_str HK_WorkshopClearSession = ''workshop_clear_session''"
| "hotkey_as_str HK_StatusRefresh = ''status_refresh''"
| "hotkey_as_str HK_SettingsSave = ''settings_save''"

text \<open>The \<open>match\<close> on the persisted name, arm by arm.\<close>

definition hotkey_from_str :: "string \<Rightarrow> hotkey_action option" where
  "hotkey_from_str s = map_of
    [(''open_wallpapers'', HK_OpenWallpapers),
     (''open_workshop'', HK_OpenWorkshop),
     (''open_displays'', HK_OpenDisplays),
     (''open_status'', HK_OpenStatus),
     (''open_plugins'', HK_OpenPlugins),
     (''open_settings'', HK_OpenSettings),
     (''open_hotkeys'', HK_OpenHotkeys),
     (''reload_ui'', HK_ReloadUi),
     (''navigate_left'', HK_NavigateLeft),
     (''navigate_right'', HK_NavigateRight),
     (''navigate_up'', HK_NavigateUp),
     (''navigate_down'', HK_NavigateDown),
     (''jump_left'', HK_JumpLeft),
     (''jump_right'', HK_JumpRight),
     (''jump_up'', HK_JumpUp),
     (''jump_down'', HK_JumpDown),
     (''home'', HK_Home),
     (''end'', HK_End),
     (''home_all'', HK_HomeAll),
     (''end_all'', HK_EndAll),
     (''page_up'', HK_PageUp),
     (''page_down'', HK_PageDown),
     (''refresh_scan'', HK_RefreshScan),
     (''focus_search'', HK_FocusSearch),
     (''select_all'', HK_SelectAll),
     (''cancel'', HK_Cancel),
     (''apply_wallpaper'', HK_ApplyWallpaper),
     (''toggle_selection'', HK_ToggleSelection),
     (''toggle_filters'', HK_ToggleFilters),
     (''workshop_reload'', HK_WorkshopReload),
     (''workshop_clear_session'', HK_WorkshopClearSession),
     (''status_refresh'', HK_StatusRefresh),
     (''settings_save'', HK_SettingsSave)] s"

definition hotkey_section :: "hotkey_action \<Rightarrow> string" where
  "hotkey_section a =
     (if a \<in> {
          HK_OpenWallpapers, HK_OpenWorkshop, HK_OpenDisplays, HK_OpenStatus, HK_OpenPlugins,
          HK_OpenSettings, HK_OpenHotkeys, HK_ReloadUi} then ''Global''
      else if a \<in> {
          HK_NavigateLeft, HK_NavigateRight, HK_NavigateUp, HK_NavigateDown, HK_JumpLeft,
          HK_JumpRight, HK_JumpUp, HK_JumpDown, HK_Home, HK_End, HK_HomeAll, HK_EndAll,
          HK_PageUp, HK_PageDown} then ''Wallpaper grid navigation''
      else if a \<in> {
          HK_RefreshScan, HK_FocusSearch, HK_SelectAll, HK_Cancel, HK_ApplyWallpaper,
          HK_ToggleSelection, HK_ToggleFilters} then ''Wallpaper actions''
      else if a \<in> {
          HK_WorkshopReload, HK_WorkshopClearSession} then ''Workshop''
      else if a \<in> {
          HK_StatusRefresh} then ''Status''
      else ''Settings'')"

fun hotkey_label :: "hotkey_action \<Rightarrow> string" where
  "hotkey_label HK_OpenWallpapers = ''Open Wallpapers tab''"
| "hotkey_label HK_OpenWorkshop = ''Open Workshop tab''"
| "hotkey_label HK_OpenDisplays = ''Open Displays tab''"
| "hotkey_label HK_OpenStatus = ''Open Status tab''"
| "hotkey_label HK_OpenPlugins = ''Open Plugins tab''"
| "hotkey_label HK_OpenSettings = ''Open Settings tab''"
| "hotkey_label HK_OpenHotkeys = ''Open Hotkeys tab''"
| "hotkey_label HK_ReloadUi = ''Reload UI''"
| "hotkey_label HK_NavigateLeft = ''Navigate left''"
| "hotkey_label HK_NavigateRight = ''Navigate right''"
| "hotkey_label HK_NavigateUp = ''Navigate up''"
| "hotkey_label HK_NavigateDown = ''Navigate down''"
| "hotkey_label HK_JumpLeft = ''Jump to row/col boundary (left)''"
| "hotkey_label HK_JumpRight = ''Jump to row/col boundary (right)''"
| "hotkey_label HK_JumpUp = ''Jump to row/col boundary (up)''"
| "hotkey_label HK_JumpDown = ''Jump to row/col boundary (down)''"
| "hotkey_label HK_Home = ''First item in row''"
| "hotkey_label HK_End = ''Last item in row''"
| "hotkey_label HK_HomeAll = ''First item overall''"
| "hotkey_label HK_EndAll = ''Last item overall''"
| "hotkey_label HK_PageUp = ''Page up''"
| "hotkey_label HK_PageDown = ''Page down''"
| "hotkey_label HK_RefreshScan = ''Refresh / rescan library''"
| "hotkey_label HK_FocusSearch = ''Focus search''"
| "hotkey_label HK_SelectAll = ''Select all wallpapers''"
| "hotkey_label HK_Cancel = ''Cancel selection / close detail''"
| "hotkey_label HK_ApplyWallpaper = ''Apply focused wallpaper''"
| "hotkey_label HK_ToggleSelection = ''Toggle selection of focused wallpaper''"
| "hotkey_label HK_ToggleFilters = ''Open filters dialog''"
| "hotkey_label HK_WorkshopReload = ''Reload Workshop''"
| "hotkey_label HK_WorkshopClearSession = ''Clear Workshop session''"
| "hotkey_label HK_StatusRefresh = ''Refresh status''"
| "hotkey_label HK_SettingsSave = ''Save settings''"

section \<open>Bindings\<close>

text \<open>\<open>bindings\<close>: from the name of an action to its key sequences.\<close>

type_synonym hotkey_settings = "(string \<times> string list) list"

definition hotkey_get :: "hotkey_settings \<Rightarrow> hotkey_action \<Rightarrow> string list" where
  "hotkey_get h a = (case map_of h (hotkey_as_str a) of None \<Rightarrow> [] | Some v \<Rightarrow> v)"

definition hotkey_set :: "hotkey_action \<Rightarrow> string list \<Rightarrow> hotkey_settings \<Rightarrow> hotkey_settings" where
  "hotkey_set a seqs h =
     (if seqs = [] then bt_remove (hotkey_as_str a) h else bt_insert (hotkey_as_str a) seqs h)"

fun replace_loop :: "(string \<times> string list) list \<Rightarrow> nat \<Rightarrow> hotkey_settings \<Rightarrow> nat \<times> hotkey_settings" where
  "replace_loop [] dropped next = (dropped, next)"
| "replace_loop ((k, v) # raw) dropped next =
     (case hotkey_from_str k of
        Some act \<Rightarrow> replace_loop raw dropped (bt_insert (hotkey_as_str act) v next)
      | None \<Rightarrow> replace_loop raw (dropped + 1) next)"

definition replace_from :: "(string \<times> string list) list \<Rightarrow> hotkey_settings \<Rightarrow> nat \<times> hotkey_settings" where
  "replace_from raw h = replace_loop raw 0 []"

fun actions_for_sequence :: "hotkey_settings \<Rightarrow> string \<Rightarrow> hotkey_action list" where
  "actions_for_sequence [] sq = []"
| "actions_for_sequence ((key, seqs) # h) sq =
     (case (if sq \<in> set seqs then hotkey_from_str key else None) of
        Some act \<Rightarrow> act # actions_for_sequence h sq
      | None \<Rightarrow> actions_for_sequence h sq)"

definition default_table :: "(hotkey_action \<times> string list) list" where
  "default_table =
    [(HK_OpenWallpapers, [''Ctrl+1'']),
     (HK_OpenWorkshop, [''Ctrl+2'']),
     (HK_OpenDisplays, [''Ctrl+3'']),
     (HK_OpenStatus, [''Ctrl+4'']),
     (HK_OpenPlugins, [''Ctrl+5'']),
     (HK_OpenSettings, [''Ctrl+6'']),
     (HK_OpenHotkeys, [''Ctrl+7'']),
     (HK_ReloadUi, [''Ctrl+Shift+R'']),
     (HK_NavigateLeft, [''Left'', ''A'']),
     (HK_NavigateRight, [''Right'', ''D'']),
     (HK_NavigateUp, [''Up'', ''W'']),
     (HK_NavigateDown, [''Down'', ''S'']),
     (HK_JumpLeft, [''Ctrl+Left'', ''Ctrl+A'']),
     (HK_JumpRight, [''Ctrl+Right'', ''Ctrl+D'']),
     (HK_JumpUp, [''Ctrl+Up'', ''Ctrl+W'']),
     (HK_JumpDown, [''Ctrl+Down'', ''Ctrl+S'']),
     (HK_Home, [''Home'']),
     (HK_End, [''End'']),
     (HK_HomeAll, [''Ctrl+Home'']),
     (HK_EndAll, [''Ctrl+End'']),
     (HK_PageUp, [''PageUp'']),
     (HK_PageDown, [''PageDown'']),
     (HK_RefreshScan, [''F5'', ''Ctrl+R'']),
     (HK_FocusSearch, [''Ctrl+F'']),
     (HK_SelectAll, [''Ctrl+Alt+A'']),
     (HK_Cancel, [''Delete'', ''Backspace'', ''Escape'']),
     (HK_ApplyWallpaper, [''Enter'', ''Return'']),
     (HK_ToggleSelection, [''Space'']),
     (HK_ToggleFilters, [''Ctrl+Shift+F'']),
     (HK_WorkshopReload, [''F5'', ''Ctrl+R'']),
     (HK_WorkshopClearSession, [''Ctrl+Shift+Delete'']),
     (HK_StatusRefresh, [''F5'']),
     (HK_SettingsSave, [''Ctrl+S''])]"

definition default_bindings :: hotkey_settings where
  "default_bindings = fold (\<lambda>(a, seqs). bt_insert (hotkey_as_str a) seqs) default_table []"

section \<open>Names\<close>

lemma hotkey_from_as [simp]: "hotkey_from_str (hotkey_as_str a) = Some a"
  by (cases a) (simp_all add: hotkey_from_str_def)

lemma hotkey_as_from: "hotkey_from_str s = Some a \<Longrightarrow> hotkey_as_str a = s"
  by (auto simp: hotkey_from_str_def split: if_splits)

interpretation hotkey_names: name_codec hotkey_as_str hotkey_from_str
  by unfold_locales (simp_all add: hotkey_as_from)

lemma hotkey_as_str_eq_iff [simp]: "hotkey_as_str a = hotkey_as_str b \<longleftrightarrow> a = b"
  using hotkey_names.inj_names by (auto dest: injD)

section \<open>The bindings\<close>

definition hotkeys_ok :: "hotkey_settings \<Rightarrow> bool" where
  "hotkeys_ok h \<longleftrightarrow> bt_ok h \<and> fst ` set h \<subseteq> range hotkey_as_str"

lemma hotkey_get_set: "hotkey_get (hotkey_set a seqs h) b = (if b = a then seqs else hotkey_get h b)"
  by (auto simp: hotkey_get_def hotkey_set_def)

text \<open>The loop keeps the known entries and counts the others.\<close>

definition known_entries :: "(string \<times> string list) list \<Rightarrow> (string \<times> string list) list" where
  "known_entries raw = filter (\<lambda>(k, v). hotkey_from_str k \<noteq> None) raw"

lemma known_entries_keys: "fst ` set (known_entries raw) = fst ` set raw \<inter> range hotkey_as_str"
  by (auto simp: known_entries_def image_iff dest: hotkey_as_from)

lemma replace_loop_eq:
  assumes "bt_ok raw" and "\<forall>k \<in> fst ` set raw. \<forall>x \<in> fst ` set next. x < k"
  shows "replace_loop raw n next = (n + (length raw - length (known_entries raw)), next @ known_entries raw)"
  using assms
proof (induction raw arbitrary: n "next")
  case Nil
  then show ?case by (simp add: known_entries_def)
next
  case (Cons e raw)
  obtain k v where e: "e = (k, v)" by force
  have ok: "bt_ok raw" and lt: "\<And>y. y \<in> fst ` set raw \<Longrightarrow> k < y"
    using Cons.prems(1) e by (auto simp: bt_ok_def order.strict_iff_order)
  show ?case
  proof (cases "hotkey_from_str k")
    case None
    then have ke: "known_entries (e # raw) = known_entries raw" using e by (simp add: known_entries_def)
    have "length (known_entries raw) \<le> length raw" by (simp add: known_entries_def)
    then show ?thesis using None Cons.IH [OF ok, of "next" "n + 1"] Cons.prems(2) e
      by (simp add: ke [unfolded e])
  next
    case (Some act)
    then have k: "hotkey_as_str act = k" by (rule hotkey_as_from)
    have "bt_insert k v next = next @ [(k, v)]" using Cons.prems(2) e by (intro bt_insert_last) auto
    moreover have "\<forall>y \<in> fst ` set raw. \<forall>x \<in> fst ` set (next @ [(k, v)]). x < y"
      using Cons.prems(2) e lt by auto
    ultimately show ?thesis using Some k e Cons.IH [OF ok] by (simp add: known_entries_def)
  qed
qed

lemma replace_from_eq:
  "bt_ok raw \<Longrightarrow> replace_from raw h = (length raw - length (known_entries raw), known_entries raw)"
  by (simp add: replace_from_def replace_loop_eq)

lemma known_entries_ok: "bt_ok raw \<Longrightarrow> hotkeys_ok (known_entries raw)"
  by (auto simp: hotkeys_ok_def known_entries_keys)
    (auto simp: bt_ok_def known_entries_def intro: sorted_filter distinct_map_filter)

lemma known_entries_id: "hotkeys_ok h \<Longrightarrow> known_entries h = h"
  unfolding known_entries_def hotkeys_ok_def
  by (rule filter_True) (auto simp: subset_iff image_iff)

lemma actions_for_sequence_eq:
  "actions_for_sequence h sq =
     List.map_filter (\<lambda>(key, seqs). if sq \<in> set seqs then hotkey_from_str key else None) h"
  by (induction h sq rule: actions_for_sequence.induct) (auto split: option.split)

lemma hotkeys_ok_set [inv_intro]: "hotkeys_ok h \<Longrightarrow> hotkeys_ok (hotkey_set a seqs h)"
  by (auto simp: hotkeys_ok_def hotkey_set_def)

lemma hotkeys_ok_fold:
  "hotkeys_ok h \<Longrightarrow> hotkeys_ok (fold (\<lambda>(a, seqs). bt_insert (hotkey_as_str a) seqs) xs h)"
proof (induction xs arbitrary: h)
  case (Cons x xs)
  then show ?case by (cases x) (auto simp: hotkeys_ok_def intro!: Cons.IH)
qed simp

lemma hotkeys_ok_default [inv_intro]: "hotkeys_ok default_bindings"
  unfolding default_bindings_def by (rule hotkeys_ok_fold) (simp add: hotkeys_ok_def)

lemma fold_bindings:
  "hotkey_get (fold (\<lambda>(a, seqs). bt_insert (hotkey_as_str a) seqs) xs h) a =
     (case map_of (rev xs) a of Some seqs \<Rightarrow> seqs | None \<Rightarrow> hotkey_get h a)"
  by (induction xs arbitrary: h) (auto simp: hotkey_get_def map_add_def split: option.split)

section \<open>Properties\<close>

text \<open>the persisted names are stable: the name of every action reads back as that action, and
  any name that reads as an action is exactly its name.\<close>

theorem hotkey_names_round_trip:
  "hotkey_from_str (hotkey_as_str a) = Some a \<and> (hotkey_from_str s = Some b \<longleftrightarrow> hotkey_as_str b = s)"
  using hotkey_as_from by auto

text \<open>replacing the bindings. From an ordered table, \<open>replace_from\<close> keeps the entries of known
  actions, unchanged and in order, drops the others and counts them; nothing of the previous
  bindings survives. The result is well-formed, and replacing with it again drops nothing.\<close>

theorem replace_from_keeps_known:
  assumes "bt_ok raw" and "replace_from raw h = (n, h')"
  shows "h' = filter (\<lambda>(k, v). hotkey_from_str k \<noteq> None) raw \<and> n + length h' = length raw \<and>
    hotkeys_ok h' \<and> (\<forall>a. hotkey_get h' a = hotkey_get raw a) \<and> replace_from h' h = (0, h')"
proof -
  have n: "n = length raw - length h'" and h: "h' = known_entries raw"
    using assms by (auto simp: replace_from_eq)
  have ok: "hotkeys_ok h'" unfolding h by (rule known_entries_ok [OF assms(1)])
  have "length h' \<le> length raw" by (simp add: h known_entries_def)
  moreover have "map_of h' (hotkey_as_str a) = map_of raw (hotkey_as_str a)" for a
    unfolding h known_entries_def by (induction raw) (auto split: if_splits)
  moreover have "replace_from h' h = (0, h')"
    using ok replace_from_eq [of h' h] known_entries_id [OF ok] by (simp add: hotkeys_ok_def)
  ultimately show ?thesis using n ok by (simp add: hotkey_get_def h known_entries_def)
qed

text \<open>finding conflicts. For well-formed bindings, \<open>actions_for_sequence\<close> lists exactly the
  actions whose binding list contains the sequence, none of them twice.\<close>

theorem actions_for_sequence_exact:
  assumes "hotkeys_ok h"
  shows "set (actions_for_sequence h sq) = {a. sq \<in> set (hotkey_get h a)} \<and>
    distinct (actions_for_sequence h sq)"
proof -
  have d: "distinct (map fst h)" using assms by (simp add: hotkeys_ok_def bt_ok_def)
  have "a \<in> set (actions_for_sequence h sq) \<longleftrightarrow> (\<exists>v. map_of h (hotkey_as_str a) = Some v \<and> sq \<in> set v)" for a
    unfolding actions_for_sequence_eq set_map_filter
    using hm_get_in_set [OF d] by (force split: if_splits dest: hotkey_as_from)
  moreover have "distinct (actions_for_sequence h sq)"
    using d
  proof (induction h sq rule: actions_for_sequence.induct)
    case (2 key seqs h sq)
    have "a \<notin> set (actions_for_sequence h sq)" if k: "hotkey_from_str key = Some a" for a
    proof
      assume "a \<in> set (actions_for_sequence h sq)"
      then obtain key' v where "(key', v) \<in> set h" "hotkey_from_str key' = Some a"
        unfolding actions_for_sequence_eq set_map_filter by (auto split: if_splits)
      moreover from this have "key' = key" using hotkey_as_from [of key' a] hotkey_as_from [OF k] by simp
      ultimately have "key \<in> fst ` set h" by force
      then show False using "2.prems" by simp
    qed
    with 2 show ?case by (auto split: option.split if_splits)
  qed simp
  moreover have "(\<exists>v. map_of h (hotkey_as_str a) = Some v \<and> sq \<in> set v) \<longleftrightarrow> sq \<in> set (hotkey_get h a)" for a
    by (cases "map_of h (hotkey_as_str a)") (simp_all add: hotkey_get_def)
  ultimately show ?thesis by blast
qed

text \<open>the defaults. Every action has a default key sequence. The comment of the first
  navigation action promises a single one, \<open>Left\<close>; the table has a second one.\<close>

theorem default_bindings_complete:
  "hotkeys_ok default_bindings \<and> hotkey_get default_bindings a \<noteq> [] \<and>
   hotkey_get default_bindings HK_NavigateLeft = [''Left'', ''A'']"
proof -
  have "a \<in> fst ` set default_table" by (cases a) (simp_all add: default_table_def)
  then obtain seqs where "map_of (rev default_table) a = Some seqs"
    by (metis list.set_map map_of_eq_None_iff not_Some_eq rev_map set_rev)
  moreover from this have "seqs \<noteq> []"
    using map_of_SomeD [of "rev default_table" a seqs] by (auto simp: default_table_def)
  ultimately have "hotkey_get default_bindings a \<noteq> []" by (simp add: default_bindings_def fold_bindings)
  moreover have "map_of (rev default_table) HK_NavigateLeft = Some [''Left'', ''A'']"
    by (simp add: default_table_def)
  then have "hotkey_get default_bindings HK_NavigateLeft = [''Left'', ''A'']"
    by (simp add: default_bindings_def fold_bindings)
  ultimately show ?thesis using hotkeys_ok_default by simp
qed

section \<open>Witnesses\<close>

theorem replace_from_keeps_known_witness:
  "replace_from [(''home'', [''Home'']), (''zoom'', [''Ctrl+Z''])] [] = (1, [(''home'', [''Home''])])"
proof -
  have ok: "bt_ok [(''home'', [''Home'']), (''zoom'', [''Ctrl+Z''])]"
    by (simp add: bt_ok_def)
  obtain n h' where r: "replace_from [(''home'', [''Home'']), (''zoom'', [''Ctrl+Z''])] [] = (n, h')" by force
  have h: "h' = [(''home'', [''Home''])]"
    using replace_from_keeps_known [OF ok r] by (simp add: hotkey_from_str_def)
  moreover have "n = 1" using replace_from_keeps_known [OF ok r] unfolding h by simp
  ultimately show ?thesis using r by simp
qed

theorem actions_for_sequence_exact_witness:
  "set (actions_for_sequence default_bindings ''Ctrl+S'') = {a. ''Ctrl+S'' \<in> set (hotkey_get default_bindings a)}"
  using actions_for_sequence_exact [OF hotkeys_ok_default] by simp

end
