(* ===== verification/Settings.thy ===== *)
theory Settings
  imports Layout Hotkeys
begin

text \<open>
  The daemon's settings, \<open>src/settings.rs\<close>: global defaults and per-display overrides with the
  cascade that resolves them, the wallpaper filter in its stored and its protocol form, and
  the store that keeps the settings in memory and writes them to disk behind a dirty flag.

  The protocol messages are the records of \<open>proto/filter.proto\<close>; enumeration values travel as
  \<open>i32\<close>, as prost generates them. The TOML reader and writer are parameters.
\<close>

section \<open>Defaults and overrides\<close>

datatype autopause_mode = Never | Any | Max | Focus | FocusOrMax | FullScreen

record autopause_defaults =
  ad_mode :: autopause_mode
  ad_resume_ms :: u32
  pause_on_lock :: bool
  pause_on_user_switch :: bool

definition autopause_defaults_default :: autopause_defaults where
  "autopause_defaults_default =
     \<lparr>ad_mode = Never, ad_resume_ms = 500, pause_on_lock = True, pause_on_user_switch = True\<rparr>"

record resolved_autopause =
  ra_mode :: autopause_mode
  ra_resume_ms :: u32

record layout_defaults =
  ld_fillmode :: fill_mode
  ld_location :: "location option"
  ld_align :: align
  ld_rotation :: rotation

definition layout_defaults_default :: layout_defaults where
  "layout_defaults_default =
     \<lparr>ld_fillmode = PreserveAspectCrop, ld_location = None, ld_align = Center, ld_rotation = Normal\<rparr>"

record display_prefs =
  dp_fillmode :: "fill_mode option"
  dp_location :: "location option"
  dp_align :: "align option"
  dp_rotation :: "rotation option"
  dp_autopause_mode :: "autopause_mode option"
  dp_autopause_resume_ms :: "u32 option"
  dp_last_wallpaper :: "string option"
  dp_alias :: "string option"
  dp_active_playlist_id :: "i64 option"

definition display_prefs_default :: display_prefs where
  "display_prefs_default =
     \<lparr>dp_fillmode = None, dp_location = None, dp_align = None, dp_rotation = None,
      dp_autopause_mode = None, dp_autopause_resume_ms = None, dp_last_wallpaper = None,
      dp_alias = None, dp_active_playlist_id = None\<rparr>"

definition is_empty :: "display_prefs \<Rightarrow> bool" where
  "is_empty p \<longleftrightarrow>
     dp_fillmode p = None \<and> dp_location p = None \<and> dp_align p = None \<and> dp_rotation p = None \<and>
     dp_autopause_mode p = None \<and> dp_autopause_resume_ms p = None \<and> dp_last_wallpaper p = None \<and>
     dp_alias p = None \<and> dp_active_playlist_id p = None"

record resolved_layout =
  rl_fillmode :: fill_mode
  rl_location :: location
  rl_rotation :: rotation

section \<open>The wallpaper filter, stored and on the wire\<close>

text \<open>The values of \<open>WallpaperFilterType\<close> and \<open>StringCondition\<close> that the code names.\<close>

definition WP_TYPE :: i32 where "WP_TYPE = 2"
definition CONTENT_RATING :: i32 where "CONTENT_RATING = 8"
definition TAG :: i32 where "TAG = 9"
definition COND_IS :: i32 where "COND_IS = 1"
definition COND_IS_NOT :: i32 where "COND_IS_NOT = 2"

record string_filter = sf_value :: string  sf_condition :: i32
record int_filter = if_value :: i64  if_condition :: i32
record tag_filter = tf_values :: "string list"  tf_condition :: i32

datatype payload = StringFilter string_filter | IntFilter int_filter | TagFilter tag_filter

record filter_rule =
  fr_type :: i32
  fr_group :: i32
  fr_payload :: "payload option"

record filter_logic =
  fl_op :: i32
  fl_group_a :: i32
  fl_group_b :: i32

record filter_rule_state =
  frs_type :: i32
  frs_group :: i32
  frs_string :: "string_filter option"
  frs_int :: "int_filter option"
  frs_tag :: "tag_filter option"

record filter_state =
  fs_filters :: "filter_rule_state list"
  fs_logics :: "filter_logic list"

definition filter_state_default :: filter_state where
  "filter_state_default = \<lparr>fs_filters = [], fs_logics = []\<rparr>"

definition rule_to_pb :: "filter_rule_state \<Rightarrow> filter_rule" where
  "rule_to_pb r =
     \<lparr>fr_type = frs_type r, fr_group = frs_group r,
      fr_payload =
        (case frs_tag r of
           Some f \<Rightarrow> Some (TagFilter f)
         | None \<Rightarrow>
             (case frs_string r of
                Some f \<Rightarrow> Some (StringFilter f)
              | None \<Rightarrow> map_option IntFilter (frs_int r)))\<rparr>"

definition to_pb :: "filter_state \<Rightarrow> filter_rule list \<times> filter_logic list" where
  "to_pb s = (map rule_to_pb (fs_filters s), fs_logics s)"

definition rule_from_pb :: "filter_rule \<Rightarrow> filter_rule_state" where
  "rule_from_pb r =
     \<lparr>frs_type = fr_type r, frs_group = fr_group r,
      frs_string = (case fr_payload r of Some (StringFilter f) \<Rightarrow> Some f | _ \<Rightarrow> None),
      frs_int = (case fr_payload r of Some (IntFilter f) \<Rightarrow> Some f | _ \<Rightarrow> None),
      frs_tag = (case fr_payload r of Some (TagFilter f) \<Rightarrow> Some f | _ \<Rightarrow> None)\<rparr>"

definition from_pb :: "filter_rule list \<Rightarrow> filter_logic list \<Rightarrow> filter_state" where
  "from_pb rules logics = \<lparr>fs_filters = map rule_from_pb rules, fs_logics = logics\<rparr>"

record sort_rule =
  sr_key :: i32
  sr_direction :: i32

section \<open>Global settings\<close>

record global_settings =
  gs_last_wallpaper :: "string option"
  gs_queue_mode :: string
  gs_rotation_secs :: u32
  gs_layout :: layout_defaults
  gs_autopause :: autopause_defaults
  gs_wallpaper_filter :: filter_state
  gs_wallpaper_sorts :: "sort_rule list"
  gs_skip_types :: "string list"
  gs_filter_tags :: "string list"
  gs_skip_content_ratings :: "string list"
  gs_auto_attach_playlist_id :: "i64 option"
  gs_hotkeys :: hotkey_settings

definition global_settings_default :: global_settings where
  "global_settings_default =
     \<lparr>gs_last_wallpaper = None, gs_queue_mode = ''sequential'', gs_rotation_secs = 0,
      gs_layout = layout_defaults_default, gs_autopause = autopause_defaults_default,
      gs_wallpaper_filter = filter_state_default, gs_wallpaper_sorts = [], gs_skip_types = [],
      gs_filter_tags = [], gs_skip_content_ratings = [], gs_auto_attach_playlist_id = None,
      gs_hotkeys = default_bindings\<rparr>"

text \<open>\<open>map(|f| f.group).max()\<close>, in the signed order of \<open>i32\<close>.\<close>

definition max_group :: "filter_rule list \<Rightarrow> i32 option" where
  "max_group rs =
     (if rs = [] then None
      else Some (foldl (\<lambda>a b. if sint a \<le> sint b then b else a) (fr_group (hd rs)) (map fr_group (tl rs))))"

definition skip_rule :: "i32 \<Rightarrow> i32 \<Rightarrow> string \<Rightarrow> filter_rule" where
  "skip_rule ty g value =
     \<lparr>fr_type = ty, fr_group = g,
      fr_payload = Some (StringFilter \<lparr>sf_value = value, sf_condition = COND_IS_NOT\<rparr>)\<rparr>"

text \<open>The two loops over skipped values: one group per value, counting up.\<close>

fun push_skips :: "i32 \<Rightarrow> string list \<Rightarrow> filter_rule list \<times> i32 \<Rightarrow> filter_rule list \<times> i32" where
  "push_skips ty [] (filters, g) = (filters, g)"
| "push_skips ty (v # vs) (filters, g) = push_skips ty vs (filters @ [skip_rule ty g v], g + 1)"

definition push_tags :: "string list \<Rightarrow> filter_rule list \<times> i32 \<Rightarrow> filter_rule list \<times> i32" where
  "push_tags tags fg =
     (let (filters, g) = fg in
      if tags = [] then fg
      else (filters @ [\<lparr>fr_type = TAG, fr_group = g,
               fr_payload = Some (TagFilter \<lparr>tf_values = tags, tf_condition = COND_IS\<rparr>)\<rparr>], g + 1))"

definition wallpaper_queue_filter :: "global_settings \<Rightarrow> filter_rule list \<times> filter_logic list" where
  "wallpaper_queue_filter gs =
     (let (filters, logics) = to_pb (gs_wallpaper_filter gs);
          g0 = (case max_group filters of None \<Rightarrow> 0 | Some g \<Rightarrow> g + 1);
          fg1 = push_skips WP_TYPE (gs_skip_types gs) (filters, g0);
          fg2 = push_tags (gs_filter_tags gs) fg1;
          fg3 = push_skips CONTENT_RATING (gs_skip_content_ratings gs) fg2
      in (fst fg3, logics))"

record settings =
  set_global :: global_settings
  set_plugins :: "(string, (string, string) hmap) hmap"
  set_displays :: "(string, display_prefs) hmap"

definition settings_default :: settings where
  "settings_default = \<lparr>set_global = global_settings_default, set_plugins = [], set_displays = []\<rparr>"

section \<open>Where the files are\<close>

definition path_join :: "string \<Rightarrow> string \<Rightarrow> string" where
  "path_join a b =
     (if a = [] then b else if last a = CHR ''/'' then a @ b else a @ ''/'' @ b)"

text \<open>\<open>xdg\<close> and \<open>home\<close> are the values of the environment variables, if set.\<close>

definition default_config_path :: "string option \<Rightarrow> string option \<Rightarrow> string" where
  "default_config_path xdg home =
     (case xdg of Some d \<Rightarrow> path_join d ''waywallen/config.toml''
      | None \<Rightarrow> (case home of Some d \<Rightarrow> path_join d ''.config/waywallen/config.toml''
                 | None \<Rightarrow> ''waywallen.toml''))"

definition default_db_path :: "string option \<Rightarrow> string option \<Rightarrow> string" where
  "default_db_path xdg home =
     (case xdg of Some d \<Rightarrow> path_join d ''waywallen/waywallen-v2.db''
      | None \<Rightarrow> (case home of Some d \<Rightarrow> path_join d ''.local/share/waywallen/waywallen-v2.db''
                 | None \<Rightarrow> ''waywallen-v2.db''))"

section \<open>Reading the settings\<close>

definition resolved_layout_of :: "settings \<Rightarrow> string \<Rightarrow> resolved_layout" where
  "resolved_layout_of s name =
     (let defaults = gs_layout (set_global s);
          prefs = hm_get (set_displays s) name;
          default_location =
            (case ld_location defaults of Some l \<Rightarrow> l | None \<Rightarrow> from_align (ld_align defaults))
      in \<lparr>rl_fillmode =
            (case Option.bind prefs dp_fillmode of Some f \<Rightarrow> f | None \<Rightarrow> ld_fillmode defaults),
          rl_location =
            (case Option.bind prefs dp_location of
               Some l \<Rightarrow> l
             | None \<Rightarrow>
                 (case Option.bind prefs (\<lambda>p. map_option from_align (dp_align p)) of
                    Some l \<Rightarrow> l
                  | None \<Rightarrow> default_location)),
          rl_rotation =
            (case Option.bind prefs dp_rotation of Some r \<Rightarrow> r | None \<Rightarrow> ld_rotation defaults)\<rparr>)"

definition resolved_autopause_of :: "settings \<Rightarrow> string \<Rightarrow> resolved_autopause" where
  "resolved_autopause_of s name =
     (let d = gs_autopause (set_global s); prefs = hm_get (set_displays s) name
      in \<lparr>ra_mode = (case Option.bind prefs dp_autopause_mode of Some m \<Rightarrow> m | None \<Rightarrow> ad_mode d),
          ra_resume_ms =
            (case Option.bind prefs dp_autopause_resume_ms of Some m \<Rightarrow> m | None \<Rightarrow> ad_resume_ms d)\<rparr>)"

definition resolved_last_wallpaper :: "settings \<Rightarrow> string \<Rightarrow> string option" where
  "resolved_last_wallpaper s key =
     (case hm_get (set_displays s) key of
        Some prefs \<Rightarrow>
          (case dp_last_wallpaper prefs of Some i \<Rightarrow> Some i | None \<Rightarrow> gs_last_wallpaper (set_global s))
      | None \<Rightarrow> gs_last_wallpaper (set_global s))"

definition plugin_settings :: "settings \<Rightarrow> string \<Rightarrow> (string, string) hmap option" where
  "plugin_settings s name = hm_get (set_plugins s) name"

definition display_prefs_of :: "settings \<Rightarrow> string \<Rightarrow> display_prefs option" where
  "display_prefs_of s name = hm_get (set_displays s) name"

definition display_pref_names :: "settings \<Rightarrow> string list" where
  "display_pref_names s = hm_keys (set_displays s)"

section \<open>The store\<close>

text \<open>
  Two settings are equal in Rust when their hash maps hold the same entries, in whatever order.
\<close>

definition hm_eq :: "('v \<Rightarrow> 'v \<Rightarrow> bool) \<Rightarrow> ('k, 'v) hmap \<Rightarrow> ('k, 'v) hmap \<Rightarrow> bool" where
  "hm_eq eq m n \<longleftrightarrow>
     (\<forall>k \<in> set (hm_keys m @ hm_keys n).
        case (hm_get m k, hm_get n k) of (Some a, Some b) \<Rightarrow> eq a b | (None, None) \<Rightarrow> True | _ \<Rightarrow> False)"

definition settings_eq :: "settings \<Rightarrow> settings \<Rightarrow> bool" where
  "settings_eq s t \<longleftrightarrow>
     set_global s = set_global t \<and> hm_eq (hm_eq (=)) (set_plugins s) (set_plugins t) \<and>
     hm_eq (=) (set_displays s) (set_displays t)"

text \<open>
  The store: the settings under their lock, the dirty flag, the permit of the \<open>Notify\<close>, the
  file and its \<open>.tmp\<close> neighbour. \<open>marks\<close> counts the updates that have changed the settings
  and released the lock but have not yet set the flag; a flush holds the flush lock from
  \<open>Swapped\<close> until it is \<open>Idle\<close> again; the writer task waits, debounces, or flushes.
\<close>

datatype flush_phase = Idle | Swapped | Serialized string | TmpWritten

datatype writer_phase = Waiting | Debouncing | Flushing

record store =
  st_inner :: settings
  st_dirty :: bool
  st_permit :: bool
  st_marks :: nat
  st_flush :: flush_phase
  st_writer :: writer_phase
  st_disk :: "string option"
  st_tmp :: "string option"

text \<open>What reading the file gives: its text, that it is not there, or another error.\<close>

datatype read_result = ReadOk string | NotFound | ReadError

definition file_of :: "read_result \<Rightarrow> string option" where
  "file_of r = (case r of ReadOk c \<Rightarrow> Some c | _ \<Rightarrow> None)"

text \<open>\<open>load_or_default\<close> up to the seeding flush.\<close>

definition load_or_default :: "(string \<Rightarrow> settings option) \<Rightarrow> read_result \<Rightarrow> string option \<Rightarrow> store" where
  "load_or_default parse r disk =
     \<lparr>st_inner = (case r of ReadOk c \<Rightarrow> (case parse c of Some s \<Rightarrow> s | None \<Rightarrow> settings_default)
                          | _ \<Rightarrow> settings_default),
      st_dirty = (r = NotFound), st_permit = False, st_marks = 0, st_flush = Idle,
      st_writer = Waiting, st_disk = disk, st_tmp = None\<rparr>"

text \<open>\<open>update\<close>: the mutation under the lock, then, if it changed anything, the mark.\<close>

definition update_inner :: "(settings \<Rightarrow> settings) \<Rightarrow> store \<Rightarrow> store" where
  "update_inner f st =
     (let after = f (st_inner st) in
      st\<lparr>st_inner := after,
         st_marks := (if settings_eq after (st_inner st) then st_marks st else Suc (st_marks st))\<rparr>)"

definition update_mark :: "store \<Rightarrow> store" where
  "update_mark st = st\<lparr>st_marks := st_marks st - 1, st_dirty := True, st_permit := True\<rparr>"

text \<open>
  \<open>flush\<close>: test and clear the flag; take a snapshot and serialise it; write the \<open>.tmp\<close> file;
  rename it over the target. Every failure sets the flag again and gives up.
\<close>

definition flush_begin :: "store \<Rightarrow> store" where
  "flush_begin st = (if st_dirty st then st\<lparr>st_dirty := False, st_flush := Swapped\<rparr> else st)"

definition flush_fail :: "store \<Rightarrow> store" where
  "flush_fail st = st\<lparr>st_dirty := True, st_flush := Idle\<rparr>"

definition flush_serialize :: "(settings \<Rightarrow> string option) \<Rightarrow> store \<Rightarrow> store" where
  "flush_serialize print st =
     (case print (st_inner st) of
        Some text \<Rightarrow> st\<lparr>st_flush := Serialized text\<rparr>
      | None \<Rightarrow> flush_fail st)"

definition flush_write :: "string \<Rightarrow> store \<Rightarrow> store" where
  "flush_write text st = st\<lparr>st_tmp := Some text, st_flush := TmpWritten\<rparr>"

definition flush_rename :: "store \<Rightarrow> store" where
  "flush_rename st = st\<lparr>st_disk := st_tmp st, st_tmp := None, st_flush := Idle\<rparr>"

text \<open>An undisturbed flush: \<open>dirs\<close>, \<open>written\<close> and \<open>renamed\<close> say which file operations succeed.\<close>

definition flush :: "(settings \<Rightarrow> string option) \<Rightarrow> bool \<Rightarrow> bool \<Rightarrow> bool \<Rightarrow> store \<Rightarrow> store" where
  "flush print dirs written renamed st =
     (if \<not> st_dirty st then st
      else (let st1 = flush_serialize print (flush_begin st) in
        case st_flush st1 of
          Serialized text \<Rightarrow>
            if \<not> dirs \<or> \<not> written then flush_fail st1
            else if \<not> renamed then flush_fail (flush_write text st1)
            else flush_rename (flush_write text st1)
        | _ \<Rightarrow> st1))"

text \<open>The writer task: it consumes the permit, again and again within the debounce time.\<close>

definition writer_notified :: "store \<Rightarrow> store" where
  "writer_notified st = st\<lparr>st_permit := False, st_writer := Debouncing\<rparr>"

section \<open>Executions of the store\<close>

text \<open>
  The steps of all tasks, interleaved in any order. Failures of the file system and of the
  serialiser happen only when \<open>ff\<close> (failure free) is false. \<open>flush_start\<close> is any task that
  calls \<open>flush\<close>, such as a shutdown; \<open>writer_flush\<close> is the writer task.
\<close>

inductive store_step :: "(settings \<Rightarrow> string option) \<Rightarrow> bool \<Rightarrow> store \<Rightarrow> store \<Rightarrow> bool"
  for print :: "settings \<Rightarrow> string option" and ff :: bool where
  mutate: "store_step print ff st (update_inner f st)"
| mark: "0 < st_marks st \<Longrightarrow> store_step print ff st (update_mark st)"
| flush_start: "st_flush st = Idle \<Longrightarrow> store_step print ff st (flush_begin st)"
| serialize: "st_flush st = Swapped \<Longrightarrow> ff \<longrightarrow> print (st_inner st) \<noteq> None \<Longrightarrow>
    store_step print ff st (flush_serialize print st)"
| write_tmp: "st_flush st = Serialized text \<Longrightarrow> store_step print ff st (flush_write text st)"
| rename: "st_flush st = TmpWritten \<Longrightarrow> store_step print ff st (flush_rename st)"
| fail_write: "\<not> ff \<Longrightarrow> st_flush st = Serialized text \<Longrightarrow> store_step print ff st (flush_fail st)"
| fail_rename: "\<not> ff \<Longrightarrow> st_flush st = TmpWritten \<Longrightarrow> store_step print ff st (flush_fail st)"
| writer_wake: "st_permit st \<Longrightarrow> st_writer st \<noteq> Flushing \<Longrightarrow> store_step print ff st (writer_notified st)"
| writer_timeout: "st_writer st = Debouncing \<Longrightarrow> store_step print ff st (st\<lparr>st_writer := Flushing\<rparr>)"
| writer_flush: "st_writer st = Flushing \<Longrightarrow> st_flush st = Idle \<Longrightarrow>
    store_step print ff st ((flush_begin st)\<lparr>st_writer := Waiting\<rparr>)"

inductive store_reachable :: "(settings \<Rightarrow> string option) \<Rightarrow> bool \<Rightarrow> store \<Rightarrow> store \<Rightarrow> bool"
  for print :: "settings \<Rightarrow> string option" and ff :: bool and init :: store where
  start: "store_reachable print ff init init"
| step: "store_reachable print ff init st \<Longrightarrow> store_step print ff st st' \<Longrightarrow> store_reachable print ff init st'"

inductive_cases store_stepE: "store_step print ff st st'"

section \<open>Equality of settings\<close>

lemma hm_eq_rel: "hm_eq eq m n \<longleftrightarrow> (\<forall>k. rel_option eq (hm_get m k) (hm_get n k))"
proof -
  have "(\<forall>k. rel_option eq (hm_get m k) (hm_get n k)) \<longleftrightarrow>
      (\<forall>k \<in> set (hm_keys m @ hm_keys n). rel_option eq (hm_get m k) (hm_get n k))"
  proof (intro iffI ballI allI)
    fix k assume all: "\<forall>k \<in> set (hm_keys m @ hm_keys n). rel_option eq (hm_get m k) (hm_get n k)"
    show "rel_option eq (hm_get m k) (hm_get n k)"
    proof (cases "k \<in> set (hm_keys m @ hm_keys n)")
      case False
      then have "hm_get m k = None" "hm_get n k = None" by (simp_all add: map_of_eq_None_iff)
      then show ?thesis by simp
    qed (use all in blast)
  qed simp
  moreover have "(case (a, b) of (Some x, Some y) \<Rightarrow> eq x y | (None, None) \<Rightarrow> True | _ \<Rightarrow> False) = rel_option eq a b"
    for a b by (cases a; cases b) simp_all
  ultimately show ?thesis unfolding hm_eq_def by simp
qed

lemma hm_eq_plain: "hm_eq (=) m n \<longleftrightarrow> map_of m = map_of n"
  by (simp add: hm_eq_rel option.rel_eq fun_eq_iff)

text \<open>What the comparison looks at.\<close>

definition settings_view ::
  "settings \<Rightarrow> global_settings \<times> (string \<rightharpoonup> string \<rightharpoonup> string) \<times> (string \<rightharpoonup> display_prefs)" where
  "settings_view s =
     (set_global s, \<lambda>k. map_option map_of (hm_get (set_plugins s) k), map_of (set_displays s))"

lemma settings_eq_view: "settings_eq s t \<longleftrightarrow> settings_view s = settings_view t"
proof -
  have "rel_option (hm_eq (=)) a b \<longleftrightarrow> map_option map_of a = map_option map_of b"
    for a b :: "(string, string) hmap option"
    by (cases a; cases b) (simp_all add: hm_eq_plain)
  then show ?thesis
    by (simp add: settings_eq_def settings_view_def hm_eq_plain hm_eq_rel [of "hm_eq (=)"] fun_eq_iff)
qed

lemma settings_eq_refl [simp]: "settings_eq s s"
  by (simp add: settings_eq_view)

section \<open>The store invariants\<close>

text \<open>The text \<open>d\<close> holds the settings \<open>s\<close>.\<close>

definition holds :: "(string \<Rightarrow> settings option) \<Rightarrow> string option \<Rightarrow> settings \<Rightarrow> bool" where
  "holds parse d s \<longleftrightarrow> (\<exists>c t. d = Some c \<and> parse c = Some t \<and> settings_eq t s)"

text \<open>The text is up to date, or nothing has changed since a load that did not read it.\<close>

definition up_to_date :: "(string \<Rightarrow> settings option) \<Rightarrow> store \<Rightarrow> string option \<Rightarrow> settings \<Rightarrow> bool" where
  "up_to_date parse init d s \<longleftrightarrow>
     holds parse d s \<or> (\<not> st_dirty init \<and> d = st_disk init \<and> settings_eq s (st_inner init))"

lemma up_to_date_eq: "up_to_date parse init d s \<Longrightarrow> settings_eq t s \<Longrightarrow> up_to_date parse init d t"
  by (auto simp: up_to_date_def holds_def settings_eq_view)

definition clean_file :: "(string \<Rightarrow> settings option) \<Rightarrow> store \<Rightarrow> store \<Rightarrow> bool" where
  "clean_file parse init st \<longleftrightarrow>
     (\<not> st_dirty st \<and> st_marks st = 0 \<longrightarrow>
        (case st_flush st of
           Idle \<Rightarrow> up_to_date parse init (st_disk st) (st_inner st)
         | Swapped \<Rightarrow> True
         | Serialized text \<Rightarrow> up_to_date parse init (Some text) (st_inner st)
         | TmpWritten \<Rightarrow> up_to_date parse init (st_tmp st) (st_inner st)))"

lemma clean_file_step:
  assumes rt: "\<And>s text. print s = Some text \<Longrightarrow> holds parse (Some text) s"
    and "store_step print ff st st'" and "clean_file parse init st"
  shows "clean_file parse init st'"
  using assms(2,3)
proof (cases rule: store_step.cases)
  case (mutate f)
  then show ?thesis using assms(3)
    by (auto simp: clean_file_def update_inner_def Let_def intro: up_to_date_eq split: if_splits flush_phase.splits)
next
  case serialize
  then show ?thesis
    by (auto simp: clean_file_def flush_serialize_def flush_fail_def up_to_date_def dest: rt split: option.split)
qed (use assms(3) in \<open>auto simp: clean_file_def update_mark_def flush_begin_def flush_write_def
    flush_rename_def flush_fail_def writer_notified_def split: flush_phase.splits\<close>)

text \<open>What reaches the file is always the complete text of some settings.\<close>

definition whole_file :: "(settings \<Rightarrow> string option) \<Rightarrow> store \<Rightarrow> store \<Rightarrow> bool" where
  "whole_file print init st \<longleftrightarrow>
     (st_disk st = st_disk init \<or> (\<exists>s. st_disk st = print s \<and> print s \<noteq> None)) \<and>
     (case st_flush st of
        Serialized text \<Rightarrow> (\<exists>s. print s = Some text)
      | TmpWritten \<Rightarrow> (\<exists>s. st_tmp st = print s \<and> print s \<noteq> None)
      | _ \<Rightarrow> True)"

lemma whole_file_step:
  assumes "store_step print ff st st'" and w: "whole_file print init st"
  shows "whole_file print init st'"
  using assms(1)
proof (cases rule: store_step.cases)
  case serialize
  then show ?thesis using w
    by (auto simp: whole_file_def flush_serialize_def flush_fail_def split: option.split)
next
  case (write_tmp t)
  then obtain s where "print s = Some t" using w by (auto simp: whole_file_def)
  then show ?thesis using w write_tmp by (auto simp: whole_file_def flush_write_def intro: exI [of _ s])
qed (use w in \<open>auto simp: whole_file_def update_inner_def update_mark_def flush_begin_def Let_def
    flush_rename_def flush_fail_def writer_notified_def split: flush_phase.splits\<close>)

text \<open>No update is forgotten: a dirty store has a wake-up on its way to the writer.\<close>

definition awake :: "store \<Rightarrow> bool" where
  "awake st \<longleftrightarrow> (st_dirty st \<longrightarrow> st_permit st \<or> st_writer st \<noteq> Waiting)"

lemma awake_step: "store_step print True st st' \<Longrightarrow> awake st \<Longrightarrow> awake st'"
  by (erule store_stepE)
    (auto simp: awake_def update_inner_def update_mark_def flush_begin_def flush_serialize_def
      flush_write_def flush_rename_def writer_notified_def Let_def split: option.split)

lemma load_clean: "clean_file parse (load_or_default parse r disk) (load_or_default parse r disk)"
  by (auto simp: clean_file_def load_or_default_def up_to_date_def)

lemma reachable_clean_file:
  assumes "\<And>s text. print s = Some text \<Longrightarrow> holds parse (Some text) s"
    and "store_reachable print ff (load_or_default parse r disk) st"
  shows "clean_file parse (load_or_default parse r disk) st"
  using assms(2) by induction (auto intro: load_clean clean_file_step [OF assms(1)])

lemma reachable_whole_file: "store_reachable print ff init st \<Longrightarrow> st_flush init = Idle \<Longrightarrow> whole_file print init st"
proof (induction rule: store_reachable.induct)
  case start
  then show ?case by (simp add: whole_file_def)
qed (blast intro: whole_file_step)

lemma reachable_awake: "store_reachable print True init st \<Longrightarrow> awake init \<Longrightarrow> awake st"
  by (induction rule: store_reachable.induct) (auto intro: awake_step)

section \<open>Groups of the queue filter\<close>

lemma foldl_max_group:
  "\<forall>g \<in> set (a # gs). sint g \<le> sint (foldl (\<lambda>a b. if sint a \<le> sint b then b else a) a gs)"
proof (induction gs arbitrary: a)
  case (Cons b gs)
  from Cons.IH [of "if sint a \<le> sint b then b else a"] show ?case by (auto split: if_splits)
qed simp

lemma foldl_max_in: "foldl (\<lambda>a b. if sint a \<le> sint b then b else a) a gs \<in> set (a # gs)"
proof (induction gs arbitrary: a)
  case (Cons b gs)
  from Cons.IH [of "if sint a \<le> sint b then b else a"] show ?case by (auto split: if_splits)
qed simp

lemma max_group_Some:
  assumes "max_group rs = Some g"
  shows "\<forall>r \<in> set rs. sint (fr_group r) \<le> sint g" and "\<exists>r \<in> set rs. fr_group r = g"
proof -
  obtain r rs' where rs: "rs = r # rs'" "g = foldl (\<lambda>a b. if sint a \<le> sint b then b else a) (fr_group r) (map fr_group rs')"
    using assms by (cases rs) (auto simp: max_group_def)
  show "\<forall>r \<in> set rs. sint (fr_group r) \<le> sint g"
    using foldl_max_group [of "fr_group r" "map fr_group rs'"] rs by auto
  show "\<exists>r \<in> set rs. fr_group r = g"
    using foldl_max_in [of "fr_group r" "map fr_group rs'"] rs by auto
qed

lemma push_skips_eq:
  "push_skips ty vs (fs, g) =
     (fs @ map (\<lambda>i. skip_rule ty (g + of_nat i) (vs ! i)) [0..<length vs], g + of_nat (length vs))"
proof (induction vs arbitrary: fs g)
  case (Cons v vs)
  have "map (\<lambda>i. skip_rule ty (g + of_nat i) ((v # vs) ! i)) [0..<length (v # vs)] =
      skip_rule ty g v # map (\<lambda>i. skip_rule ty (g + 1 + of_nat i) (vs ! i)) [0..<length vs]"
    by (simp add: upt_conv_Cons map_Suc_upt [symmetric] del: upt_Suc map_Suc_upt) (simp add: algebra_simps)
  then show ?case using Cons.IH [of "fs @ [skip_rule ty g v]" "g + 1"] by (simp add: algebra_simps)
qed simp

lemma sint_add_small:
  "sint (g::i32) + int n < 2 ^ 31 \<Longrightarrow> sint (g + of_nat n) = sint g + int n"
proof -
  assume a: "sint g + int n < 2 ^ 31"
  have "- (2 ^ 31) \<le> sint g + int n" using sint_ge [of g] by simp
  then have "signed_take_bit 31 (sint g + int n) = sint g + int n"
    using a by (intro signed_take_bit_int_eq_self) simp_all
  then have "sint (word_of_int (sint g + int n) :: i32) = sint g + int n"
    by (subst sint_sbintrunc') simp
  moreover have "g + of_nat n = word_of_int (sint g + int n)" by simp
  ultimately show ?thesis by metis
qed

lemma skip_groups_distinct:
  assumes "sint (g::i32) + int n < 2 ^ 31"
  shows "distinct (map (\<lambda>i. g + of_nat i) [0..<Suc n])"
    and "\<And>i. i < Suc n \<Longrightarrow> sint g \<le> sint (g + of_nat i) \<and> sint (g + of_nat i) < sint g + int (Suc n)"
proof -
  have s: "sint (g + of_nat i) = sint g + int i" if "i < Suc n" for i
    using sint_add_small [of g i] assms that by simp
  then have "inj_on (\<lambda>i. g + of_nat i) {0..<Suc n}"
  proof (intro inj_onI)
    fix i j assume "i \<in> {0..<Suc n}" "j \<in> {0..<Suc n}" "g + of_nat i = g + of_nat j"
    then have "int i = int j" using s [of i] s [of j] by (metis add_left_cancel atLeastLessThan_iff)
    then show "i = j" by simp
  qed
  then show "distinct (map (\<lambda>i. g + of_nat i) [0..<Suc n])" by (simp add: distinct_map del: upt_Suc)
  show "sint g \<le> sint (g + of_nat i) \<and> sint (g + of_nat i) < sint g + int (Suc n)" if "i < Suc n" for i
    using s [OF that] that by simp
qed

text \<open>The rules the quick toggles add, and the groups they get.\<close>

definition added_rules :: "global_settings \<Rightarrow> i32 \<Rightarrow> filter_rule list" where
  "added_rules gs g =
     (let a = length (gs_skip_types gs); t = (if gs_filter_tags gs = [] then 0 else 1)
      in map (\<lambda>i. skip_rule WP_TYPE (g + of_nat i) (gs_skip_types gs ! i)) [0..<a] @
         (if gs_filter_tags gs = [] then []
          else [\<lparr>fr_type = TAG, fr_group = g + of_nat a,
                 fr_payload = Some (TagFilter \<lparr>tf_values = gs_filter_tags gs, tf_condition = COND_IS\<rparr>)\<rparr>]) @
         map (\<lambda>i. skip_rule CONTENT_RATING (g + of_nat a + of_nat t + of_nat i) (gs_skip_content_ratings gs ! i))
           [0..<length (gs_skip_content_ratings gs)])"

definition first_free :: "filter_rule list \<Rightarrow> i32" where
  "first_free fs = (case max_group fs of None \<Rightarrow> 0 | Some g \<Rightarrow> g + 1)"

lemma wallpaper_queue_filter_eq:
  "wallpaper_queue_filter gs =
     (let (fs, logics) = to_pb (gs_wallpaper_filter gs) in (fs @ added_rules gs (first_free fs), logics))"
  by (simp add: wallpaper_queue_filter_def to_pb_def push_skips_eq push_tags_def added_rules_def
      first_free_def Let_def)

lemma map_shift: "map (\<lambda>i. f (a + i)) [0..<n] = map f [a..<a + n]"
  by (rule nth_equalityI) simp_all

lemma added_groups:
  "map fr_group (added_rules gs g) = map (\<lambda>i. g + of_nat i) [0..<length (added_rules gs g)]"
proof -
  let ?a = "length (gs_skip_types gs)" and ?c = "length (gs_skip_content_ratings gs)"
  have *: "map (\<lambda>i. g + of_nat k + of_nat i) [0..<n] = map (\<lambda>i. g + of_nat i) [k..<k + n]" for k n
    using map_shift [of "\<lambda>i. g + of_nat i" k n] by (simp add: algebra_simps)
  have sk: "map fr_group (map (\<lambda>i. skip_rule ty (h i) (v i)) xs) = map h xs" for ty h v xs
    by (simp add: skip_rule_def)
  show ?thesis
  proof (cases "gs_filter_tags gs = []")
    case True
    then show ?thesis using * [of ?a ?c] upt_add_eq_append [of 0 ?a ?c]
      by (simp add: added_rules_def Let_def sk del: map_map)
  next
    case False
    have "map (\<lambda>i. g + of_nat ?a + of_nat 1 + of_nat i) [0..<?c] = map (\<lambda>i. g + of_nat i) [Suc ?a..<Suc ?a + ?c]"
      using * [of "Suc ?a" ?c] by (simp add: algebra_simps)
    moreover have "[?a..<?a + (1 + ?c)] = ?a # [Suc ?a..<Suc ?a + ?c]" by (subst upt_conv_Cons) simp_all
    then have "[0..<?a + (1 + ?c)] = [0..<?a] @ ?a # [Suc ?a..<Suc ?a + ?c]"
      by (simp only: upt_add_eq_append [of 0 ?a "1 + ?c"])
    ultimately show ?thesis using False by (simp add: added_rules_def Let_def sk del: map_map upt_Suc)
  qed
qed

section \<open>Properties\<close>

text \<open>C31: a clean store is on disk. Whatever updates, flushes (by any task), file-system
  failures and writer wake-ups are interleaved after a load, when no flush is under way, no
  update is between its change and its mark, and the dirty flag is clear, then the file parses
  to the settings in memory. The one exception is a load that could not read the file: as long
  as the settings are still the defaults it substituted, the file is left as it was found. The
  hypothesis is the round trip of the TOML crate.\<close>

theorem clean_store_is_on_disk:
  assumes "\<And>s text. print s = Some text \<Longrightarrow> \<exists>t. parse text = Some t \<and> settings_eq t s"
    and "store_reachable print ff (load_or_default parse r (file_of r)) st"
    and "st_flush st = Idle" and "st_marks st = 0" and "\<not> st_dirty st"
  shows "(\<exists>c t. st_disk st = Some c \<and> parse c = Some t \<and> settings_eq t (st_inner st)) \<or>
    (r \<noteq> NotFound \<and> (\<forall>c. r = ReadOk c \<longrightarrow> parse c = None) \<and>
     st_disk st = file_of r \<and> settings_eq (st_inner st) settings_default)"
proof -
  have "clean_file parse (load_or_default parse r (file_of r)) st"
    by (rule reachable_clean_file [OF _ assms(2)]) (use assms(1) in \<open>auto simp: holds_def\<close>)
  then consider "holds parse (st_disk st) (st_inner st)"
    | "r \<noteq> NotFound" "st_disk st = file_of r"
      "settings_eq (st_inner st) (st_inner (load_or_default parse r (file_of r)))"
    using assms(3-5) by (auto simp: clean_file_def up_to_date_def load_or_default_def)
  then show ?thesis
  proof cases
    case 1
    then show ?thesis by (simp add: holds_def)
  next
    case 2
    show ?thesis
    proof (cases "\<exists>c s. r = ReadOk c \<and> parse c = Some s")
      case True
      with 2 show ?thesis by (auto simp: load_or_default_def file_of_def settings_eq_view)
    next
      case False
      with 2 show ?thesis by (auto simp: load_or_default_def split: read_result.splits option.splits)
    qed
  qed
qed

text \<open>the file is never torn. In every reachable state it holds either what was there at the
  start or the complete text of some settings, never a prefix and never a mixture.\<close>

theorem file_never_torn:
  assumes "store_reachable print ff init st" and "st_flush init = Idle"
  shows "st_disk st = st_disk init \<or> (\<exists>s text. print s = Some text \<and> st_disk st = Some text)"
  using reachable_whole_file [OF assms] by (auto simp: whole_file_def)

text \<open>no update is forgotten while nothing fails: whenever the store is dirty, a wake-up is
  waiting for the writer task or the writer is already on its way to a flush.\<close>

theorem dirty_store_wakes_writer:
  assumes "store_reachable print True init st" and "\<not> st_dirty init" and "st_dirty st"
  shows "\<not> (\<not> st_permit st \<and> st_writer st = Waiting)"
  using reachable_awake [OF assms(1)] assms(2,3) by (simp add: awake_def)

text \<open>a failed write is not retried. After one update and one flush whose rename fails, a state
  is reachable in which the store is dirty and idle, the writer waits and nothing will wake it
  but another update: of the steps of the daemon, neither the writer's nor the flush's apply.\<close>

theorem failed_flush_is_not_retried:
  assumes "parse c = Some s" and "print (f s) = Some content" and "\<not> settings_eq (f s) s"
  shows "\<exists>st. store_reachable print False (load_or_default parse (ReadOk c) (Some c)) st \<and>
    st_inner st = f s \<and> st_disk st = Some c \<and> st_dirty st \<and>
    st_flush st = Idle \<and> st_marks st = 0 \<and> \<not> st_permit st \<and> st_writer st = Waiting"
proof -
  let ?i = "load_or_default parse (ReadOk c) (Some c)"
  let ?R = "store_reachable print False ?i"
  let ?f1 = "update_inner f ?i" and ?w = "\<lambda>st. st\<lparr>st_writer := Flushing\<rparr>"
  let ?f2 = "update_mark ?f1" let ?f3 = "writer_notified ?f2" let ?f4 = "?w ?f3"
  let ?f5 = "(flush_begin ?f4)\<lparr>st_writer := Waiting\<rparr>" let ?f6 = "flush_serialize print ?f5"
  let ?f7 = "flush_write content ?f6" let ?f8 = "flush_fail ?f7"
  note defs = load_or_default_def update_inner_def update_mark_def writer_notified_def flush_begin_def
    flush_serialize_def flush_write_def flush_fail_def Let_def
  note steps = store_reachable.step
  have 1: "?R ?f1" by (rule steps [OF store_reachable.start store_step.mutate])
  have 2: "?R ?f2" by (rule steps [OF 1 store_step.mark]) (use assms in \<open>simp add: defs\<close>)
  have 3: "?R ?f3" by (rule steps [OF 2 store_step.writer_wake]) (simp_all add: defs)
  have 4: "?R ?f4" by (rule steps [OF 3 store_step.writer_timeout]) (simp_all add: defs)
  have 5: "?R ?f5" by (rule steps [OF 4 store_step.writer_flush]) (simp_all add: defs)
  have 6: "?R ?f6" by (rule steps [OF 5 store_step.serialize]) (simp_all add: defs)
  have 7: "?R ?f7"
    by (rule steps [OF 6 store_step.write_tmp]) (use assms in \<open>simp add: defs\<close>)
  have 8: "?R ?f8" by (rule steps [OF 7 store_step.fail_rename]) (simp_all add: defs)
  show ?thesis
    by (rule exI [of _ ?f8]) (use 8 assms in \<open>simp add: defs\<close>)
qed

text \<open>the stored form of the wallpaper filter loses nothing: converting rules and logics to it
  and back is the identity.\<close>

theorem filter_state_round_trip: "to_pb (from_pb rules logics) = (rules, logics)"
proof -
  have "rule_to_pb (rule_from_pb r) = r" for r
    by (cases r; cases "fr_payload r") (auto simp: rule_to_pb_def rule_from_pb_def split: payload.split)
  then show ?thesis by (simp add: to_pb_def from_pb_def comp_def)
qed

text \<open>the quick toggles never disturb the user's rules. The queue filter starts with the
  user's rules, unchanged, and keeps the logics; every rule it adds is in a group of its own that
  no rule of the user is in, as long as the group numbers do not run over \<open>2^31\<close>.\<close>

theorem queue_filter_fresh_groups:
  assumes "wallpaper_queue_filter gs = (rules, logics)" and "to_pb (gs_wallpaper_filter gs) = (user, user_logics)"
    and "\<forall>r \<in> set user. sint (fr_group r) + int (length rules) + 1 < 2 ^ 31"
    and "int (length rules) < 2 ^ 31"
  shows "logics = user_logics \<and> (\<exists>added. rules = user @ added \<and> distinct (map fr_group added) \<and>
    fr_group ` set added \<inter> fr_group ` set user = {} \<and>
    length added = length (gs_skip_types gs) + (if gs_filter_tags gs = [] then 0 else 1) +
      length (gs_skip_content_ratings gs))"
proof -
  let ?g = "first_free user" let ?added = "added_rules gs ?g"
  have eq: "rules = user @ ?added" "logics = user_logics"
    using assms(1,2) by (simp_all add: wallpaper_queue_filter_eq)
  let ?n = "length ?added"
  have low: "(user = [] \<longrightarrow> sint ?g = 0) \<and> (\<forall>r \<in> set user. sint (fr_group r) < sint ?g)"
    and up: "sint ?g + int ?n < 2 ^ 31"
  proof -
    have "(user = [] \<longrightarrow> sint ?g = 0) \<and> (\<forall>r \<in> set user. sint (fr_group r) < sint ?g) \<and> sint ?g + int ?n < 2 ^ 31"
    proof (cases "max_group user")
      case None
      then have "user = []" by (simp add: max_group_def split: if_splits)
      then show ?thesis using None assms(4) eq by (simp add: first_free_def)
    next
      case (Some g)
      then obtain r where r: "r \<in> set user" "fr_group r = g" using max_group_Some(2) by blast
      then have "sint g + int 1 < 2 ^ 31" using assms(3) by force
      then have "sint ?g = sint g + 1" using Some sint_add_small [of g 1] by (simp add: first_free_def)
      then show ?thesis using max_group_Some(1) [OF Some] r assms(3) eq by force
    qed
    then show "(user = [] \<longrightarrow> sint ?g = 0) \<and> (\<forall>r \<in> set user. sint (fr_group r) < sint ?g)"
      "sint ?g + int ?n < 2 ^ 31" by blast+
  qed
  have groups: "set (map fr_group ?added) = (\<lambda>i. ?g + of_nat i) ` {0..<?n}"
    unfolding added_groups by simp
  have "distinct (map (\<lambda>i. ?g + of_nat i) [0..<Suc ?n])" by (rule skip_groups_distinct(1) [OF up])
  then have "distinct (map fr_group ?added)" unfolding added_groups by simp
  moreover have "fr_group ` set ?added \<inter> fr_group ` set user = {}"
  proof -
    have "sint ?g \<le> sint (fr_group r)" if "r \<in> set ?added" for r
    proof -
      have "fr_group r \<in> (\<lambda>i. ?g + of_nat i) ` {0..<?n}" using groups that by auto
      then obtain i where "i \<in> {0..<?n}" "fr_group r = ?g + of_nat i" by blast
      moreover from this have "i < Suc ?n" by simp
      ultimately show ?thesis using skip_groups_distinct(2) [OF up] by simp
    qed
    then show ?thesis using low by fastforce
  qed
  moreover have "?n = length (gs_skip_types gs) + (if gs_filter_tags gs = [] then 0 else 1) +
      length (gs_skip_content_ratings gs)"
    by (simp add: added_rules_def Let_def)
  ultimately show ?thesis using eq by blast
qed

text \<open>an empty override is invisible: whatever is resolved for a display is the same with an
  empty entry as with none, so pruning empty entries changes nothing.\<close>

theorem empty_override_is_invisible:
  assumes "is_empty p"
  shows "resolved_layout_of (s\<lparr>set_displays := hm_insert name p m\<rparr>) name =
      resolved_layout_of (s\<lparr>set_displays := hm_remove name m\<rparr>) name \<and>
    resolved_autopause_of (s\<lparr>set_displays := hm_insert name p m\<rparr>) name =
      resolved_autopause_of (s\<lparr>set_displays := hm_remove name m\<rparr>) name \<and>
    resolved_last_wallpaper (s\<lparr>set_displays := hm_insert name p m\<rparr>) name =
      resolved_last_wallpaper (s\<lparr>set_displays := hm_remove name m\<rparr>) name"
  using assms
  by (simp add: is_empty_def resolved_layout_of_def resolved_autopause_of_def resolved_last_wallpaper_def)

section \<open>Witnesses\<close>

definition toy_settings :: settings where
  "toy_settings = settings_default\<lparr>set_global := global_settings_default\<lparr>gs_rotation_secs := 60\<rparr>\<rparr>"

text \<open>A reader and a writer of two texts, enough to see the hypotheses hold together.\<close>

definition toy_print :: "settings \<Rightarrow> string option" where
  "toy_print s = (if settings_eq s settings_default then Some ''d''
     else if settings_eq s toy_settings then Some ''r60'' else None)"

definition toy_parse :: "string \<Rightarrow> settings option" where
  "toy_parse c = (if c = ''d'' then Some settings_default else if c = ''r60'' then Some toy_settings else None)"

lemma toy_round_trip: "toy_print s = Some text \<Longrightarrow> \<exists>t. toy_parse text = Some t \<and> settings_eq t s"
  by (auto simp: toy_print_def toy_parse_def settings_eq_view split: if_splits)

lemma toy_changed: "\<not> settings_eq toy_settings settings_default"
  by (simp add: settings_eq_def toy_settings_def settings_default_def global_settings_default_def)

lemma toy_run:
  "store_reachable toy_print ff (load_or_default toy_parse (ReadOk ''d'') (Some ''d''))
     (update_mark (update_inner (\<lambda>_. toy_settings) (load_or_default toy_parse (ReadOk ''d'') (Some ''d''))))"
proof (rule store_reachable.step [OF store_reachable.step [OF store_reachable.start store_step.mutate] store_step.mark])
  show "0 < st_marks (update_inner (\<lambda>_. toy_settings) (load_or_default toy_parse (ReadOk ''d'') (Some ''d'')))"
    using toy_changed by (simp add: update_inner_def load_or_default_def toy_parse_def)
qed

theorem clean_store_is_on_disk_witness:
  "\<exists>c t. st_disk (load_or_default toy_parse (ReadOk ''r60'') (Some ''r60'')) = Some c \<and>
     toy_parse c = Some t \<and> settings_eq t toy_settings"
proof -
  let ?st = "load_or_default toy_parse (ReadOk ''r60'') (Some ''r60'')"
  have "store_reachable toy_print False (load_or_default toy_parse (ReadOk ''r60'') (file_of (ReadOk ''r60''))) ?st"
    using store_reachable.start by (simp add: file_of_def)
  from clean_store_is_on_disk [OF toy_round_trip this]
  show ?thesis by (simp add: load_or_default_def toy_parse_def)
qed

theorem file_never_torn_witness:
  "st_disk (update_mark (update_inner (\<lambda>_. toy_settings) (load_or_default toy_parse (ReadOk ''d'') (Some ''d'')))) =
     Some ''d'' \<or> (\<exists>s text. toy_print s = Some text \<and>
       st_disk (update_mark (update_inner (\<lambda>_. toy_settings) (load_or_default toy_parse (ReadOk ''d'') (Some ''d'')))) = Some text)"
  using file_never_torn [OF toy_run] by (simp add: load_or_default_def)

theorem dirty_store_wakes_writer_witness:
  "\<not> (\<not> st_permit (update_mark (update_inner (\<lambda>_. toy_settings) (load_or_default toy_parse (ReadOk ''d'') (Some ''d'')))) \<and>
     st_writer (update_mark (update_inner (\<lambda>_. toy_settings) (load_or_default toy_parse (ReadOk ''d'') (Some ''d'')))) = Waiting)"
  by (rule dirty_store_wakes_writer [OF toy_run])
    (simp_all add: load_or_default_def update_mark_def update_inner_def Let_def)

theorem failed_flush_is_not_retried_witness:
  "\<exists>st. store_reachable toy_print False (load_or_default toy_parse (ReadOk ''d'') (Some ''d'')) st \<and>
    st_dirty st \<and> \<not> st_permit st \<and> st_writer st = Waiting \<and> st_disk st = Some ''d''"
  using failed_flush_is_not_retried [where parse = toy_parse and c = "''d''" and s = settings_default
      and print = toy_print and f = "\<lambda>_. toy_settings" and content = "''r60''"]
    toy_changed by (auto simp: toy_parse_def toy_print_def)

definition toy_global :: global_settings where
  "toy_global = global_settings_default\<lparr>
     gs_wallpaper_filter := \<lparr>fs_filters = [\<lparr>frs_type = 1, frs_group = 4, frs_string = None, frs_int = None, frs_tag = None\<rparr>],
       fs_logics = []\<rparr>, gs_skip_types := [''video''], gs_filter_tags := [''sea'']\<rparr>"

theorem queue_filter_fresh_groups_witness:
  "fr_group ` set (fst (wallpaper_queue_filter toy_global)) = {4, 5, 6} \<and>
   distinct (map fr_group (tl (fst (wallpaper_queue_filter toy_global))))"
proof -
  define rules where "rules = fst (wallpaper_queue_filter toy_global)"
  have r: "rules = [\<lparr>fr_type = 1, fr_group = 4, fr_payload = None\<rparr>, skip_rule WP_TYPE 5 ''video'',
      \<lparr>fr_type = TAG, fr_group = 6, fr_payload = Some (TagFilter \<lparr>tf_values = [''sea''], tf_condition = COND_IS\<rparr>)\<rparr>]"
    by (simp add: rules_def wallpaper_queue_filter_def toy_global_def global_settings_default_def to_pb_def
        rule_to_pb_def max_group_def push_tags_def)
  have w: "wallpaper_queue_filter toy_global = (rules, [])"
    by (simp add: rules_def prod_eq_iff wallpaper_queue_filter_def toy_global_def to_pb_def Let_def)
  have u: "to_pb (gs_wallpaper_filter toy_global) = ([\<lparr>fr_type = 1, fr_group = 4, fr_payload = None\<rparr>], [])"
    by (simp add: toy_global_def to_pb_def rule_to_pb_def)
  have "distinct (map fr_group (tl rules))"
    using queue_filter_fresh_groups [OF w u] by (auto simp: r)
  then show ?thesis using r by (simp add: rules_def [symmetric] skip_rule_def)
qed

theorem empty_override_is_invisible_witness:
  "resolved_autopause_of (settings_default\<lparr>set_displays := hm_insert ''DP-1'' display_prefs_default []\<rparr>) ''DP-1'' =
   resolved_autopause_of (settings_default\<lparr>set_displays := hm_remove ''DP-1'' []\<rparr>) ''DP-1''"
  using empty_override_is_invisible [where p = display_prefs_default and s = settings_default and name = "''DP-1''" and m = "[]"]
  by (simp add: is_empty_def display_prefs_default_def)

end
