(* ===== verification/Negotiate.thy ===== *)
theory Negotiate
  imports Prelude
begin

text \<open>
  Buffer negotiation, \<open>src/dma/negotiate.rs\<close>: the capability sets of a producer and a
  consumer, their decoding from the wire arrays, and the picker that chooses a pixel format,
  modifier, synchronisation mode, colour description and memory path both can use. The
  render-node identity is that of \<open>src/renderer_manager.rs\<close>.
\<close>

section \<open>Capabilities\<close>

record mod_cap =
  mc_modifier :: u64
  mc_plane_count :: u32

text \<open>\<open>BTreeMap<u32, Vec<ModCap>>\<close>.\<close>

type_synonym format_caps = "(u32 \<times> mod_cap list) list"

record drm_node =
  drm_major :: u32
  drm_minor :: u32

definition DRM_UNKNOWN :: drm_node where
  "DRM_UNKNOWN = \<lparr>drm_major = 0, drm_minor = 0\<rparr>"

definition is_known :: "drm_node \<Rightarrow> bool" where
  "is_known d \<longleftrightarrow> drm_major d \<noteq> 0 \<or> drm_minor d \<noteq> 0"

text \<open>The UUIDs are 16 bytes each.\<close>

record device_identity =
  device_uuid :: "u8 list"
  driver_uuid :: "u8 list"
  id_drm :: drm_node

definition IDENTITY_ZERO :: device_identity where
  "IDENTITY_ZERO = \<lparr>device_uuid = replicate 16 0, driver_uuid = replicate 16 0, id_drm = DRM_UNKNOWN\<rparr>"

definition same_device :: "device_identity \<Rightarrow> device_identity \<Rightarrow> bool" where
  "same_device a b =
     (if device_uuid a \<noteq> replicate 16 0 \<and> device_uuid b \<noteq> replicate 16 0
      then device_uuid a = device_uuid b
      else if is_known (id_drm a) \<and> is_known (id_drm b) then id_drm a = id_drm b
      else False)"

type_synonym blacklist = "(u32 \<times> u64) set"

record peer_caps =
  caps_formats :: format_caps
  caps_identity :: device_identity
  caps_sync :: u32
  caps_color :: u32
  caps_mem_hint :: u32
  caps_extent_max :: "u32 \<times> u32"
  caps_blacklist :: blacklist

datatype path_category = OptimizedSameDevice | OptimizedSameVendor | CompatLinear | CompatCpuReadback
datatype mem_source = GpuNative | GpuLinear | DmabufHeap

fun path_as_u32 :: "path_category \<Rightarrow> u32" where
  "path_as_u32 OptimizedSameDevice = 0"
| "path_as_u32 OptimizedSameVendor = 1"
| "path_as_u32 CompatLinear = 2"
| "path_as_u32 CompatCpuReadback = 3"

fun mem_source_as_u32 :: "mem_source \<Rightarrow> u32" where
  "mem_source_as_u32 GpuNative = 0"
| "mem_source_as_u32 GpuLinear = 1"
| "mem_source_as_u32 DmabufHeap = 2"

record negotiated_scheme =
  ns_fourcc :: u32
  ns_modifier :: u64
  ns_plane_count :: u32
  ns_sync_mode :: u32
  ns_color :: u32
  ns_mem_hint :: u32
  ns_count :: u32
  ns_path :: path_category
  ns_mem_source :: mem_source

datatype negotiate_error = NoFormatIntersection | NoSyncIntersection | MalformedCaps string

section \<open>Wire constants\<close>

definition MEM_HINT_DEVICE_LOCAL :: u32 where "MEM_HINT_DEVICE_LOCAL = 1"
definition MEM_HINT_HOST_VISIBLE :: u32 where "MEM_HINT_HOST_VISIBLE = 2"
definition SYNC_IMPLICIT :: u32 where "SYNC_IMPLICIT = 1"
definition SYNC_SYNCOBJ_BINARY :: u32 where "SYNC_SYNCOBJ_BINARY = 2"
definition SYNC_SYNCOBJ_TIMELINE :: u32 where "SYNC_SYNCOBJ_TIMELINE = 4"

text \<open>sRGB, limited range, premultiplied alpha.\<close>

definition DEFAULT_COLOR :: u32 where "DEFAULT_COLOR = 1 OR 64 OR 128"
definition COLOR_MASK_ENCODING :: u32 where "COLOR_MASK_ENCODING = 1 OR 2 OR 4 OR 8 OR 16"
definition COLOR_MASK_RANGE :: u32 where "COLOR_MASK_RANGE = 32 OR 64"
definition COLOR_MASK_ALPHA :: u32 where "COLOR_MASK_ALPHA = 128 OR 256"
definition DRM_FORMAT_MOD_LINEAR :: u64 where "DRM_FORMAT_MOD_LINEAR = 0"
definition DEFAULT_POOL_COUNT :: u32 where "DEFAULT_POOL_COUNT = 3"

section \<open>Decoding the wire arrays\<close>

text \<open>\<open>w.to_le_bytes()\<close>.\<close>

definition to_le_bytes :: "u32 \<Rightarrow> u8 list" where
  "to_le_bytes w = [ucast w, ucast (drop_bit 8 w), ucast (drop_bit 16 w), ucast (drop_bit 24 w)]"

text \<open>Bytes past the words given stay zero, as in the array the code fills.\<close>

definition pack_uuid_words :: "u32 list \<Rightarrow> u8 list" where
  "pack_uuid_words words =
     (let bytes = concat (map to_le_bytes (take 4 words))
      in bytes @ replicate (16 - length bytes) 0)"

text \<open>The inner loop; an index out of range, a panic in Rust, is \<open>None\<close>.\<close>

fun take_caps :: "nat \<Rightarrow> nat \<Rightarrow> u64 list \<Rightarrow> u32 list \<Rightarrow> mod_cap list option" where
  "take_caps cursor 0 modifiers plane_counts = Some []"
| "take_caps cursor (Suc n) modifiers plane_counts =
     (case (vec_get modifiers cursor, vec_get plane_counts cursor) of
        (Some m, Some p) \<Rightarrow>
          map_option ((#) \<lparr>mc_modifier = m, mc_plane_count = p\<rparr>)
            (take_caps (Suc cursor) n modifiers plane_counts)
      | _ \<Rightarrow> None)"

text \<open>\<open>entry(fourcc).or_default().extend(caps)\<close>.\<close>

definition extend_fourcc :: "u32 \<Rightarrow> mod_cap list \<Rightarrow> format_caps \<Rightarrow> format_caps" where
  "extend_fourcc fourcc caps m =
     bt_insert fourcc ((case map_of m fourcc of None \<Rightarrow> [] | Some v \<Rightarrow> v) @ caps) m"

fun unflatten_loop ::
  "(u32 \<times> u32) list \<Rightarrow> nat \<Rightarrow> u64 list \<Rightarrow> u32 list \<Rightarrow> format_caps \<Rightarrow> format_caps option" where
  "unflatten_loop [] cursor modifiers plane_counts m = Some m"
| "unflatten_loop ((fourcc, n) # rest) cursor modifiers plane_counts m =
     (case take_caps cursor (unat n) modifiers plane_counts of
        None \<Rightarrow> None
      | Some caps \<Rightarrow>
          unflatten_loop rest (cursor + unat n) modifiers plane_counts (extend_fourcc fourcc caps m))"

text \<open>The outer \<open>None\<close> is a panic; it does not happen (see below).\<close>

definition unflatten_caps ::
  "u32 list \<Rightarrow> u32 list \<Rightarrow> u64 list \<Rightarrow> u32 list \<Rightarrow> u32 list \<Rightarrow> u32 list \<Rightarrow> drm_node \<Rightarrow>
   u32 \<Rightarrow> u32 \<Rightarrow> u32 \<Rightarrow> u32 \<times> u32 \<Rightarrow> (negotiate_error + peer_caps) option" where
  "unflatten_caps fourccs mod_counts modifiers plane_counts dev_uuid drv_uuid drm sync color mem_hint extent_max =
     (let total = sum_list (map unat mod_counts) in
      if length fourccs \<noteq> length mod_counts
      then Some (Inl (MalformedCaps ''fourccs.len() != mod_counts.len()''))
      else if length modifiers \<noteq> total
      then Some (Inl (MalformedCaps ''modifiers.len() != sum(mod_counts)''))
      else if length plane_counts \<noteq> total
      then Some (Inl (MalformedCaps ''plane_counts.len() != sum(mod_counts)''))
      else if length dev_uuid \<noteq> 4 \<or> length drv_uuid \<noteq> 4
      then Some (Inl (MalformedCaps (''device_uuid/driver_uuid must be 4'' @ [CHR 0xC3, CHR 0x97] @ ''u32 (16 bytes packed LE)'')))
      else map_option
        (\<lambda>by_fourcc. Inr
           \<lparr>caps_formats = by_fourcc,
            caps_identity = \<lparr>device_uuid = pack_uuid_words dev_uuid, driver_uuid = pack_uuid_words drv_uuid,
                           id_drm = drm\<rparr>,
            caps_sync = sync, caps_color = color, caps_mem_hint = mem_hint, caps_extent_max = extent_max,
            caps_blacklist = {}\<rparr>)
        (unflatten_loop (zip fourccs mod_counts) 0 modifiers plane_counts []))"

section \<open>The picker\<close>

fun pick_fourcc_only ::
  "format_caps \<Rightarrow> format_caps \<Rightarrow> blacklist \<Rightarrow> blacklist \<Rightarrow> negotiate_error + u32" where
  "pick_fourcc_only [] consumer pb cb = Inl NoFormatIntersection"
| "pick_fourcc_only ((fourcc, _) # rest) consumer pb cb =
     (if map_of consumer fourcc = None then pick_fourcc_only rest consumer pb cb
      else if (fourcc, DRM_FORMAT_MOD_LINEAR) \<in> pb then pick_fourcc_only rest consumer pb cb
      else if (fourcc, DRM_FORMAT_MOD_LINEAR) \<in> cb then pick_fourcc_only rest consumer pb cb
      else Inr fourcc)"

text \<open>Does the inner loop over the consumer's modifiers push this one?\<close>

fun consumer_match :: "u32 \<Rightarrow> mod_cap \<Rightarrow> blacklist \<Rightarrow> mod_cap list \<Rightarrow> bool" where
  "consumer_match fourcc pc cb [] = False"
| "consumer_match fourcc pc cb (cc # ccs) =
     (if (fourcc, mc_modifier cc) \<in> cb then consumer_match fourcc pc cb ccs
      else if mc_modifier pc = mc_modifier cc then
        (if mc_plane_count pc \<noteq> mc_plane_count cc then consumer_match fourcc pc cb ccs else True)
      else consumer_match fourcc pc cb ccs)"

definition intersect_mods ::
  "u32 \<Rightarrow> mod_cap list \<Rightarrow> mod_cap list \<Rightarrow> blacklist \<Rightarrow> blacklist \<Rightarrow> (u64 \<times> u32) list" where
  "intersect_mods fourcc p_mods c_mods pb cb =
     map (\<lambda>pc. (mc_modifier pc, mc_plane_count pc))
       (filter (\<lambda>pc. (fourcc, mc_modifier pc) \<notin> pb \<and> consumer_match fourcc pc cb c_mods) p_mods)"

text \<open>\<open>is_none\<close> or a smaller fourcc: the update guard of both candidates.\<close>

definition keep_lowest :: "(u32 \<times> u64 \<times> u32) option \<Rightarrow> u32 \<times> u64 \<times> u32 \<Rightarrow> (u32 \<times> u64 \<times> u32) option" where
  "keep_lowest best new =
     (case best of None \<Rightarrow> Some new
      | Some prev \<Rightarrow> if fst new < fst prev then Some new else Some prev)"

fun format_loop ::
  "format_caps \<Rightarrow> format_caps \<Rightarrow> blacklist \<Rightarrow> blacklist \<Rightarrow>
   (u32 \<times> u64 \<times> u32) option \<Rightarrow> (u32 \<times> u64 \<times> u32) option \<Rightarrow> (u32 \<times> u64 \<times> u32) option" where
  "format_loop [] consumer pb cb best lin = (case best of None \<Rightarrow> lin | Some b \<Rightarrow> Some b)"
| "format_loop ((fourcc, p_mods) # rest) consumer pb cb best lin =
     (case map_of consumer fourcc of
        None \<Rightarrow> format_loop rest consumer pb cb best lin
      | Some c_mods \<Rightarrow>
          (let xs = intersect_mods fourcc p_mods c_mods pb cb in
           case find (\<lambda>(m, _). m \<noteq> DRM_FORMAT_MOD_LINEAR) xs of
             Some (m, pc) \<Rightarrow> format_loop rest consumer pb cb (keep_lowest best (fourcc, m, pc)) lin
           | None \<Rightarrow>
               (case find (\<lambda>(m, _). m = DRM_FORMAT_MOD_LINEAR) xs of
                  Some (_, pc) \<Rightarrow>
                    format_loop rest consumer pb cb best (keep_lowest lin (fourcc, DRM_FORMAT_MOD_LINEAR, pc))
                | None \<Rightarrow> format_loop rest consumer pb cb best lin)))"

definition pick_format_same_device ::
  "format_caps \<Rightarrow> format_caps \<Rightarrow> blacklist \<Rightarrow> blacklist \<Rightarrow> negotiate_error + u32 \<times> u64 \<times> u32" where
  "pick_format_same_device producer consumer pb cb =
     (case format_loop producer consumer pb cb None None of
        None \<Rightarrow> Inl NoFormatIntersection
      | Some t \<Rightarrow> Inr t)"

definition pick_sync :: "u32 \<Rightarrow> u32 \<Rightarrow> negotiate_error + u32" where
  "pick_sync producer consumer =
     (let common = producer AND consumer in
      if common = 0 then Inl NoSyncIntersection
      else if common AND SYNC_SYNCOBJ_TIMELINE \<noteq> 0 then Inr SYNC_SYNCOBJ_TIMELINE
      else if common AND SYNC_SYNCOBJ_BINARY \<noteq> 0 then Inr SYNC_SYNCOBJ_BINARY
      else Inr SYNC_IMPLICIT)"

definition pick_axis :: "u32 \<Rightarrow> u32 \<Rightarrow> u32" where
  "pick_axis intersect axis =
     (let common = intersect AND axis
      in if common \<noteq> 0 then common AND (- common) else DEFAULT_COLOR AND axis)"

definition pick_color :: "u32 \<Rightarrow> u32 \<Rightarrow> u32" where
  "pick_color producer consumer =
     (let i = producer AND consumer
      in (pick_axis i COLOR_MASK_ENCODING OR pick_axis i COLOR_MASK_RANGE) OR pick_axis i COLOR_MASK_ALPHA)"

definition pick_mem_hint_same_dev :: "u32 \<Rightarrow> u32 \<Rightarrow> u32" where
  "pick_mem_hint_same_dev producer consumer =
     (let common = producer AND consumer in
      if common AND MEM_HINT_DEVICE_LOCAL \<noteq> 0 then MEM_HINT_DEVICE_LOCAL
      else if common AND MEM_HINT_HOST_VISIBLE \<noteq> 0 then MEM_HINT_HOST_VISIBLE
      else if common \<noteq> 0 then common
      else MEM_HINT_HOST_VISIBLE)"

definition pick :: "peer_caps \<Rightarrow> peer_caps \<Rightarrow> negotiate_error + negotiated_scheme" where
  "pick p c =
     (case pick_sync (caps_sync p) (caps_sync c) of
        Inl e \<Rightarrow> Inl e
      | Inr sync_mode \<Rightarrow>
          (let color = pick_color (caps_color p) (caps_color c) in
           if same_device (caps_identity p) (caps_identity c) then
             (case pick_format_same_device (caps_formats p) (caps_formats c) (caps_blacklist p) (caps_blacklist c) of
                Inl e \<Rightarrow> Inl e
              | Inr (fourcc, modifier, planes) \<Rightarrow> Inr
                  \<lparr>ns_fourcc = fourcc, ns_modifier = modifier, ns_plane_count = planes,
                   ns_sync_mode = sync_mode, ns_color = color,
                   ns_mem_hint = pick_mem_hint_same_dev (caps_mem_hint p) (caps_mem_hint c),
                   ns_count = DEFAULT_POOL_COUNT,
                   ns_path = (if modifier = DRM_FORMAT_MOD_LINEAR then CompatLinear else OptimizedSameDevice),
                   ns_mem_source = (if modifier = DRM_FORMAT_MOD_LINEAR then GpuLinear else GpuNative)\<rparr>)
           else
             (case pick_fourcc_only (caps_formats p) (caps_formats c) (caps_blacklist p) (caps_blacklist c) of
                Inl e \<Rightarrow> Inl e
              | Inr fourcc \<Rightarrow> Inr
                  \<lparr>ns_fourcc = fourcc, ns_modifier = DRM_FORMAT_MOD_LINEAR, ns_plane_count = 1,
                   ns_sync_mode = sync_mode, ns_color = color, ns_mem_hint = 0,
                   ns_count = DEFAULT_POOL_COUNT, ns_path = CompatLinear, ns_mem_source = GpuLinear\<rparr>)))"

section \<open>What can be picked\<close>

text \<open>The pairs both sides list with the same number of planes and neither has rejected.\<close>

definition viable ::
  "format_caps \<Rightarrow> format_caps \<Rightarrow> blacklist \<Rightarrow> blacklist \<Rightarrow> (u32 \<times> u64 \<times> u32) set" where
  "viable P C pb cb =
     {(f, m, n). \<exists>pm cm. (f, pm) \<in> set P \<and> map_of C f = Some cm \<and>
        \<lparr>mc_modifier = m, mc_plane_count = n\<rparr> \<in> set pm \<and> \<lparr>mc_modifier = m, mc_plane_count = n\<rparr> \<in> set cm \<and>
        (f, m) \<notin> pb \<and> (f, m) \<notin> cb}"

definition linear :: "u32 \<times> u64 \<times> u32 \<Rightarrow> bool" where
  "linear t \<longleftrightarrow> fst (snd t) = DRM_FORMAT_MOD_LINEAR"

lemma consumer_match_iff:
  "consumer_match f pc cb cs \<longleftrightarrow> (f, mc_modifier pc) \<notin> cb \<and> pc \<in> set cs"
  by (induction f pc cb cs rule: consumer_match.induct) auto

lemma set_intersect_mods:
  "(m, n) \<in> set (intersect_mods f pm cm pb cb) \<longleftrightarrow>
     \<lparr>mc_modifier = m, mc_plane_count = n\<rparr> \<in> set pm \<and> \<lparr>mc_modifier = m, mc_plane_count = n\<rparr> \<in> set cm \<and>
     (f, m) \<notin> pb \<and> (f, m) \<notin> cb"
  by (auto simp: intersect_mods_def consumer_match_iff image_iff) (metis mod_cap.surjective unit.exhaust)+

lemma viable_Cons:
  "viable ((f, pm) # P) C pb cb =
     (case map_of C f of None \<Rightarrow> {} | Some cm \<Rightarrow> {f} \<times> set (intersect_mods f pm cm pb cb)) \<union> viable P C pb cb"
  by (auto simp: viable_def set_intersect_mods split: option.splits)

lemma find_in: "find P xs = Some x \<Longrightarrow> x \<in> set xs \<and> P x"
  by (induction xs) (auto split: if_splits)

text \<open>One round of the loop, seen as a choice for its fourcc.\<close>

definition nonlinear_of :: "(u64 \<times> u32) list \<Rightarrow> (u64 \<times> u32) option" where
  "nonlinear_of xs = find (\<lambda>(m, _). m \<noteq> DRM_FORMAT_MOD_LINEAR) xs"

definition linear_of :: "(u64 \<times> u32) list \<Rightarrow> (u64 \<times> u32) option" where
  "linear_of xs = find (\<lambda>(m, _). m = DRM_FORMAT_MOD_LINEAR) xs"

lemma nonlinear_of_Some: "nonlinear_of xs = Some (m, n) \<Longrightarrow> (m, n) \<in> set xs \<and> m \<noteq> DRM_FORMAT_MOD_LINEAR"
  using find_in [of _ xs "(m, n)"] by (auto simp: nonlinear_of_def)

lemma linear_of_Some: "linear_of xs = Some (m, n) \<Longrightarrow> (m, n) \<in> set xs \<and> m = DRM_FORMAT_MOD_LINEAR"
  using find_in [of _ xs "(m, n)"] by (auto simp: linear_of_def)

lemma nonlinear_of_None: "nonlinear_of xs = None \<Longrightarrow> (m, n) \<in> set xs \<Longrightarrow> m = DRM_FORMAT_MOD_LINEAR"
  by (auto simp: nonlinear_of_def find_None_iff)

lemma linear_of_None: "linear_of xs = None \<Longrightarrow> (m, n) \<in> set xs \<Longrightarrow> m \<noteq> DRM_FORMAT_MOD_LINEAR"
  by (auto simp: linear_of_def find_None_iff)

lemma format_loop_Cons:
  obtains (skip) "viable ((f, pm) # P) C pb cb = viable P C pb cb"
      "format_loop ((f, pm) # P) C pb cb best lin = format_loop P C pb cb best lin"
  | (tiled) m n xs where "viable ((f, pm) # P) C pb cb = {f} \<times> xs \<union> viable P C pb cb"
      "(m, n) \<in> xs" "m \<noteq> DRM_FORMAT_MOD_LINEAR"
      "format_loop ((f, pm) # P) C pb cb best lin = format_loop P C pb cb (keep_lowest best (f, m, n)) lin"
  | (linear) m n xs where "viable ((f, pm) # P) C pb cb = {f} \<times> xs \<union> viable P C pb cb"
      "(m, n) \<in> xs" "m = DRM_FORMAT_MOD_LINEAR" "\<And>x. x \<in> xs \<Longrightarrow> fst x = DRM_FORMAT_MOD_LINEAR"
      "format_loop ((f, pm) # P) C pb cb best lin = format_loop P C pb cb best (keep_lowest lin (f, m, n))"
proof (cases "map_of C f")
  case None
  then show thesis by (intro skip) (simp_all add: viable_Cons)
next
  case c: (Some cm)
  let ?xs = "intersect_mods f pm cm pb cb"
  have v: "viable ((f, pm) # P) C pb cb = {f} \<times> set ?xs \<union> viable P C pb cb"
    using c by (simp add: viable_Cons)
  have loop: "format_loop ((f, pm) # P) C pb cb best lin =
      (case nonlinear_of ?xs of
         Some (m, n) \<Rightarrow> format_loop P C pb cb (keep_lowest best (f, m, n)) lin
       | None \<Rightarrow> (case linear_of ?xs of
           Some (_, n) \<Rightarrow> format_loop P C pb cb best (keep_lowest lin (f, DRM_FORMAT_MOD_LINEAR, n))
         | None \<Rightarrow> format_loop P C pb cb best lin))"
    using c unfolding nonlinear_of_def linear_of_def by (simp add: Let_def)
  show thesis
  proof (cases "nonlinear_of ?xs")
    case (Some t)
    then obtain m n where "nonlinear_of ?xs = Some (m, n)" by (cases t) auto
    then show thesis using tiled [OF v] nonlinear_of_Some loop by fastforce
  next
    case nl: None
    show thesis
    proof (cases "linear_of ?xs")
      case (Some t)
      then obtain m n where l: "linear_of ?xs = Some (m, n)" by (cases t) auto
      show thesis
      proof (rule linear [OF v])
        show "(m, n) \<in> set ?xs" "m = DRM_FORMAT_MOD_LINEAR" using linear_of_Some [OF l] by auto
        show "fst x = DRM_FORMAT_MOD_LINEAR" if "x \<in> set ?xs" for x
          using nonlinear_of_None [OF nl, of "fst x" "snd x"] that by simp
        show "format_loop ((f, pm) # P) C pb cb best lin = format_loop P C pb cb best (keep_lowest lin (f, m, n))"
          using loop nl l linear_of_Some [OF l] by simp
      qed
    next
      case None
      then have "set ?xs = {}"
        using nl linear_of_None nonlinear_of_None by (metis ex_in_conv prod.exhaust)
      then show thesis using skip v loop nl None by simp
    qed
  qed
qed

text \<open>A tiled candidate beats a linear one, and among equals the lower fourcc wins.\<close>

definition better :: "u32 \<times> u64 \<times> u32 \<Rightarrow> u32 \<times> u64 \<times> u32 \<Rightarrow> bool" where
  "better t u \<longleftrightarrow> (linear t \<longrightarrow> linear u) \<and> (linear t = linear u \<longrightarrow> fst t \<le> fst u)"

definition least :: "(u32 \<times> u64 \<times> u32) set \<Rightarrow> (u32 \<times> u64 \<times> u32) option \<Rightarrow> bool" where
  "least U r \<longleftrightarrow> (case r of None \<Rightarrow> U = {} | Some t \<Rightarrow> t \<in> U \<and> (\<forall>u \<in> U. better t u))"

lemma better_refl [simp]: "better t t"
  by (simp add: better_def)

lemma better_trans: "better a b \<Longrightarrow> better b c \<Longrightarrow> better a c"
  by (auto simp: better_def)

lemma least_widen:
  assumes "least A r" and "A \<subseteq> B" and "\<And>u. u \<in> B \<Longrightarrow> \<exists>a \<in> A. better a u"
  shows "least B r"
proof (cases r)
  case None
  then show ?thesis using assms by (auto simp: least_def)
next
  case (Some t)
  then have "t \<in> A" "\<And>a. a \<in> A \<Longrightarrow> better t a" using assms(1) by (auto simp: least_def)
  then have "better t u" if "u \<in> B" for u using assms(3) [OF that] better_trans by blast
  with \<open>t \<in> A\<close> show ?thesis using Some assms(2) by (auto simp: least_def)
qed

lemma keep_lowest_cases:
  obtains (new) "keep_lowest best t = Some t" "\<And>b. best = Some b \<Longrightarrow> fst t < fst b"
  | (old) b where "best = Some b" "keep_lowest best t = Some b" "fst b \<le> fst t"
  by (cases best) (fastforce simp: keep_lowest_def not_less split: if_splits)+

text \<open>Replacing a candidate by the lower of itself and a new one of the same kind.\<close>

lemma least_keep_lowest:
  assumes l: "least (V \<union> set_option (keep_lowest best t) \<union> W) r"
    and best: "\<And>b. best = Some b \<Longrightarrow> linear b = linear t"
    and X: "t \<in> X" "\<And>u. u \<in> X \<Longrightarrow> better t u"
  shows "least (X \<union> V \<union> set_option best \<union> W) r"
proof (cases rule: keep_lowest_cases [of best t])
  case new
  show ?thesis
  proof (rule least_widen [OF l])
    show "V \<union> set_option (keep_lowest best t) \<union> W \<subseteq> X \<union> V \<union> set_option best \<union> W" using new X by auto
    show "\<exists>a \<in> V \<union> set_option (keep_lowest best t) \<union> W. better a u" if "u \<in> X \<union> V \<union> set_option best \<union> W" for u
      using that new X(2) [of u] best better_refl [of u] by (fastforce simp: better_def)
  qed
next
  case (old b)
  have "better b t" using old best [OF old(1)] by (simp add: better_def)
  show ?thesis
  proof (rule least_widen [OF l])
    show "V \<union> set_option (keep_lowest best t) \<union> W \<subseteq> X \<union> V \<union> set_option best \<union> W" using old by auto
    show "\<exists>a \<in> V \<union> set_option (keep_lowest best t) \<union> W. better a u" if u: "u \<in> X \<union> V \<union> set_option best \<union> W" for u
    proof (cases "u \<in> X")
      case True
      then have "better b u" using \<open>better b t\<close> X(2) better_trans by blast
      then show ?thesis using old by auto
    next
      case False
      then show ?thesis using u old by (intro bexI [of _ u]) auto
    qed
  qed
qed

lemma format_loop_least:
  assumes "\<And>b. best = Some b \<Longrightarrow> \<not> linear b" and "\<And>l. lin = Some l \<Longrightarrow> linear l"
  shows "least (viable P C pb cb \<union> set_option best \<union> set_option lin) (format_loop P C pb cb best lin)"
  using assms
proof (induction P arbitrary: best lin)
  case Nil
  then show ?case by (cases best; cases lin) (auto simp: viable_def least_def better_def)
next
  case (Cons fp P)
  obtain f pm where fp: "fp = (f, pm)" by force
  show ?case
  proof (cases rule: format_loop_Cons [of f pm P C pb cb best lin])
    case skip
    then show ?thesis unfolding fp using Cons.IH [OF Cons.prems] by simp
  next
    case (tiled m n xs)
    let ?t = "(f, m, n)"
    have t: "\<not> linear ?t" using tiled by (simp add: linear_def)
    have IH: "least (viable P C pb cb \<union> set_option (keep_lowest best ?t) \<union> set_option lin)
        (format_loop P C pb cb (keep_lowest best ?t) lin)"
      by (rule Cons.IH)
        (use t Cons.prems in \<open>auto simp: keep_lowest_def split: option.splits if_splits\<close>)
    have "least ({f} \<times> xs \<union> viable P C pb cb \<union> set_option best \<union> set_option lin)
        (format_loop P C pb cb (keep_lowest best ?t) lin)"
      by (rule least_keep_lowest [OF IH]) (use t tiled Cons.prems(1) in \<open>auto simp: better_def\<close>)
    then show ?thesis unfolding fp tiled(1,4) .
  next
    case (linear m n xs)
    let ?t = "(f, m, n)"
    have t: "linear ?t" "\<And>u. u \<in> {f} \<times> xs \<Longrightarrow> linear u" using linear by (auto simp: linear_def)
    have "least (viable P C pb cb \<union> set_option best \<union> set_option (keep_lowest lin ?t))
        (format_loop P C pb cb best (keep_lowest lin ?t))"
      by (rule Cons.IH)
        (use t Cons.prems in \<open>auto simp: keep_lowest_def split: option.splits if_splits\<close>)
    then have IH': "least (viable P C pb cb \<union> set_option (keep_lowest lin ?t) \<union> set_option best)
        (format_loop P C pb cb best (keep_lowest lin ?t))"
      by (simp add: Un_ac)
    have "least ({f} \<times> xs \<union> viable P C pb cb \<union> set_option lin \<union> set_option best)
        (format_loop P C pb cb best (keep_lowest lin ?t))"
      by (rule least_keep_lowest [OF IH']) (use t linear Cons.prems(2) in \<open>auto simp: better_def\<close>)
    then show ?thesis unfolding fp linear(1,5) by (simp add: Un_ac)
  qed
qed

definition caps_ok :: "peer_caps \<Rightarrow> bool" where
  "caps_ok c \<longleftrightarrow> bt_ok (caps_formats c)"

text \<open>A peer lists a modifier for a pixel format and has not rejected it.\<close>

definition accepts :: "peer_caps \<Rightarrow> u32 \<Rightarrow> u64 \<Rightarrow> u32 \<Rightarrow> bool" where
  "accepts c f m n \<longleftrightarrow>
     (\<exists>v. map_of (caps_formats c) f = Some v \<and> \<lparr>mc_modifier = m, mc_plane_count = n\<rparr> \<in> set v) \<and>
     (f, m) \<notin> caps_blacklist c"

lemma viable_accepts:
  "caps_ok p \<Longrightarrow> (f, m, n) \<in> viable (caps_formats p) (caps_formats c) (caps_blacklist p) (caps_blacklist c) \<longleftrightarrow>
     accepts p f m n \<and> accepts c f m n"
proof -
  assume "caps_ok p"
  then have "(f, pm) \<in> set (caps_formats p) \<longleftrightarrow> map_of (caps_formats p) f = Some pm" for pm
    by (intro hm_get_in_set) (simp add: caps_ok_def bt_ok_def)
  then show ?thesis by (auto simp: viable_def accepts_def)
qed

lemma pick_format_least:
  "least (viable P C pb cb) (case pick_format_same_device P C pb cb of Inl _ \<Rightarrow> None | Inr t \<Rightarrow> Some t)"
  using format_loop_least [of None None P C pb cb]
  by (auto simp: pick_format_same_device_def split: option.split)

lemma pick_format_Inl: "pick_format_same_device P C pb cb = Inl e \<Longrightarrow> e = NoFormatIntersection"
  by (auto simp: pick_format_same_device_def split: option.splits)

text \<open>A format common to both that neither has rejected in its linear form.\<close>

definition common_linear :: "peer_caps \<Rightarrow> peer_caps \<Rightarrow> u32 \<Rightarrow> bool" where
  "common_linear p c f \<longleftrightarrow>
     f \<in> fst ` set (caps_formats p) \<and> f \<in> fst ` set (caps_formats c) \<and>
     (f, DRM_FORMAT_MOD_LINEAR) \<notin> caps_blacklist p \<and> (f, DRM_FORMAT_MOD_LINEAR) \<notin> caps_blacklist c"

lemma pick_fourcc_only_find:
  "pick_fourcc_only P C pb cb =
     (case find (\<lambda>f. f \<in> fst ` set C \<and> (f, DRM_FORMAT_MOD_LINEAR) \<notin> pb \<and> (f, DRM_FORMAT_MOD_LINEAR) \<notin> cb)
        (map fst P) of
        None \<Rightarrow> Inl NoFormatIntersection | Some f \<Rightarrow> Inr f)"
  by (induction P C pb cb rule: pick_fourcc_only.induct) (simp_all add: map_of_eq_None_iff)

lemma pick_fourcc_only_cases:
  obtains (found) f where "pick_fourcc_only P C pb cb = Inr f" "f \<in> fst ` set P" "f \<in> fst ` set C"
      "(f, DRM_FORMAT_MOD_LINEAR) \<notin> pb" "(f, DRM_FORMAT_MOD_LINEAR) \<notin> cb"
  | (none) "pick_fourcc_only P C pb cb = Inl NoFormatIntersection"
      "\<And>f. f \<in> fst ` set P \<Longrightarrow> f \<in> fst ` set C \<Longrightarrow>
        (f, DRM_FORMAT_MOD_LINEAR) \<in> pb \<or> (f, DRM_FORMAT_MOD_LINEAR) \<in> cb"
proof -
  let ?ok = "\<lambda>f. f \<in> fst ` set C \<and> (f, DRM_FORMAT_MOD_LINEAR) \<notin> pb \<and> (f, DRM_FORMAT_MOD_LINEAR) \<notin> cb"
  show thesis
  proof (cases "find ?ok (map fst P)")
    case None
    then have "\<And>f. f \<in> fst ` set P \<Longrightarrow> \<not> ?ok f" by (force simp: find_None_iff)
    then show thesis using none None by (simp add: pick_fourcc_only_find)
  next
    case (Some f)
    then show thesis using found [of f] find_in [OF Some] by (simp add: pick_fourcc_only_find)
  qed
qed

lemma pick_cases:
  obtains (no_sync) "pick p c = Inl NoSyncIntersection" "caps_sync p AND caps_sync c = 0"
  | (no_format) "pick p c = Inl NoFormatIntersection" "caps_sync p AND caps_sync c \<noteq> 0"
      "same_device (caps_identity p) (caps_identity c) \<Longrightarrow>
        viable (caps_formats p) (caps_formats c) (caps_blacklist p) (caps_blacklist c) = {}"
      "\<not> same_device (caps_identity p) (caps_identity c) \<Longrightarrow> \<nexists>f. common_linear p c f"
  | (same) s where "pick p c = Inr s" "same_device (caps_identity p) (caps_identity c)"
      "(ns_fourcc s, ns_modifier s, ns_plane_count s) \<in>
        viable (caps_formats p) (caps_formats c) (caps_blacklist p) (caps_blacklist c)"
      "\<And>u. u \<in> viable (caps_formats p) (caps_formats c) (caps_blacklist p) (caps_blacklist c) \<Longrightarrow>
        better (ns_fourcc s, ns_modifier s, ns_plane_count s) u"
      "pick_sync (caps_sync p) (caps_sync c) = Inr (ns_sync_mode s)"
      "ns_color s = pick_color (caps_color p) (caps_color c)"
      "ns_path s = (if ns_modifier s = DRM_FORMAT_MOD_LINEAR then CompatLinear else OptimizedSameDevice)"
  | (cross) s where "pick p c = Inr s" "\<not> same_device (caps_identity p) (caps_identity c)"
      "common_linear p c (ns_fourcc s)" "ns_modifier s = DRM_FORMAT_MOD_LINEAR"
      "pick_sync (caps_sync p) (caps_sync c) = Inr (ns_sync_mode s)"
      "ns_color s = pick_color (caps_color p) (caps_color c)" "ns_path s = CompatLinear"
proof (cases "caps_sync p AND caps_sync c = 0")
  case True
  then show thesis using no_sync by (simp add: pick_def pick_sync_def)
next
  case nz: False
  then obtain sync where sync: "pick_sync (caps_sync p) (caps_sync c) = Inr sync"
    by (cases "pick_sync (caps_sync p) (caps_sync c)") (auto simp: pick_sync_def Let_def split: if_splits)
  let ?V = "viable (caps_formats p) (caps_formats c) (caps_blacklist p) (caps_blacklist c)"
  let ?pf = "pick_format_same_device (caps_formats p) (caps_formats c) (caps_blacklist p) (caps_blacklist c)"
  show thesis
  proof (cases "same_device (caps_identity p) (caps_identity c)")
    case sd: True
    have l: "least ?V (case ?pf of Inl _ \<Rightarrow> None | Inr t \<Rightarrow> Some t)" by (rule pick_format_least)
    show thesis
    proof (cases ?pf)
      case (Inl e)
      then have "?V = {}" using l by (simp add: least_def)
      then show thesis using no_format nz sd Inl pick_format_Inl [OF Inl] sync by (simp add: pick_def)
    next
      case (Inr t)
      obtain f m n where t: "t = (f, m, n)" by (cases t)
      show thesis
        by (rule same) (use l Inr t sync sd in \<open>auto simp: pick_def Let_def least_def\<close>)
    qed
  next
    case sd: False
    show thesis
    proof (cases rule: pick_fourcc_only_cases [of "caps_formats p" "caps_formats c" "caps_blacklist p" "caps_blacklist c"])
      case (found f)
      let ?s = "\<lparr>ns_fourcc = f, ns_modifier = DRM_FORMAT_MOD_LINEAR, ns_plane_count = 1, ns_sync_mode = sync,
        ns_color = pick_color (caps_color p) (caps_color c), ns_mem_hint = 0, ns_count = DEFAULT_POOL_COUNT,
        ns_path = CompatLinear, ns_mem_source = GpuLinear\<rparr>"
      show thesis
        by (rule cross [of ?s]) (use found sync sd in \<open>simp_all add: pick_def Let_def common_linear_def\<close>)
    next
      case none
      show thesis
        by (rule no_format) (use none sync sd nz in \<open>auto simp: pick_def Let_def common_linear_def\<close>)
    qed
  qed
qed

section \<open>Decoding\<close>

lemma take_caps_eq:
  "cursor + n \<le> length ms \<Longrightarrow> length ps = length ms \<Longrightarrow>
   take_caps cursor n ms ps =
     Some (map (\<lambda>(m, p). \<lparr>mc_modifier = m, mc_plane_count = p\<rparr>) (take n (drop cursor (zip ms ps))))"
proof (induction n arbitrary: cursor)
  case (Suc n)
  then have c: "cursor < length ms" "cursor < length (zip ms ps)" by simp_all
  have "drop cursor (zip ms ps) = (ms ! cursor, ps ! cursor) # drop (Suc cursor) (zip ms ps)"
    using Cons_nth_drop_Suc [OF c(2)] Suc.prems(2) c by simp
  then show ?case using Suc.IH [of "Suc cursor"] Suc.prems c by (simp add: vec_get_def)
qed simp

text \<open>The capabilities listed, each with its pixel format.\<close>

definition listed :: "format_caps \<Rightarrow> (u32 \<times> mod_cap) set" where
  "listed m = {(f, x). \<exists>v. map_of m f = Some v \<and> x \<in> set v}"

lemma listed_extend: "listed (extend_fourcc f caps m) = listed m \<union> {f} \<times> set caps"
  by (auto simp: listed_def extend_fourcc_def split: option.splits if_splits)

lemma unflatten_loop_eq:
  "cursor + sum_list (map (unat \<circ> snd) fs) \<le> length ms \<Longrightarrow> length ps = length ms \<Longrightarrow> bt_ok m \<Longrightarrow>
   \<exists>m'. unflatten_loop fs cursor ms ps m = Some m' \<and> bt_ok m' \<and>
     listed m' = listed m \<union> (\<lambda>(f, x, p). (f, \<lparr>mc_modifier = x, mc_plane_count = p\<rparr>)) `
       set (zip (concat (map (\<lambda>(f, n). replicate (unat n) f) fs)) (drop cursor (zip ms ps)))"
proof (induction fs arbitrary: cursor m)
  case (Cons e fs)
  obtain f n where e: "e = (f, n)" by force
  let ?caps = "map (\<lambda>(m, p). \<lparr>mc_modifier = m, mc_plane_count = p\<rparr>) (take (unat n) (drop cursor (zip ms ps)))"
  have t: "take_caps cursor (unat n) ms ps = Some ?caps"
    using Cons.prems e by (intro take_caps_eq) auto
  have ok: "bt_ok (extend_fourcc f ?caps m)" using Cons.prems by (simp add: extend_fourcc_def)
  have len: "cursor + unat n + sum_list (map (unat \<circ> snd) fs) \<le> length ms" using Cons.prems e 
    by (simp add: comp_def add.assoc)
  obtain m' where m': "unflatten_loop fs (cursor + unat n) ms ps (extend_fourcc f ?caps m) = Some m'" "bt_ok m'"
    "listed m' = listed (extend_fourcc f ?caps m) \<union> (\<lambda>(f, x, p). (f, \<lparr>mc_modifier = x, mc_plane_count = p\<rparr>)) `
       set (zip (concat (map (\<lambda>(f, n). replicate (unat n) f) fs)) (drop (cursor + unat n) (zip ms ps)))"
    using Cons.IH [OF len Cons.prems(2) ok] by blast
  let ?d = "drop cursor (zip ms ps)" and ?rest = "concat (map (\<lambda>(f, n). replicate (unat n) f) fs)"
  have l: "unat n \<le> length ?d" using Cons.prems e by simp
  have "zip (replicate (unat n) f @ ?rest) ?d =
      zip (replicate (unat n) f) (take (unat n) ?d) @ zip ?rest (drop (unat n) ?d)"
    using l by (simp add: zip_append1)
  moreover have "zip (replicate (unat n) f) (take (unat n) ?d) = map (Pair f) (take (unat n) ?d)"
    by (simp add: zip_replicate1)
  ultimately have z: "set (zip (replicate (unat n) f @ ?rest) ?d) =
      Pair f ` set (take (unat n) ?d) \<union> set (zip ?rest (drop (cursor + unat n) (zip ms ps)))"
    by (simp add: add.commute)
  let ?g = "\<lambda>(f, x, p). (f, \<lparr>mc_modifier = x, mc_plane_count = p\<rparr>)"
  have caps: "?g ` Pair f ` set (take (unat n) ?d) = {f} \<times> set ?caps"
    unfolding image_image set_map by (simp add: split_beta image_def) blast
  have "unflatten_loop (e # fs) cursor ms ps m = Some m'" using m'(1) t e by simp
  moreover have "listed m' = listed m \<union>
      ?g ` set (zip (concat (map (\<lambda>(f, n). replicate (unat n) f) (e # fs))) ?d)"
    unfolding e list.map prod.case concat.simps z m'(3) listed_extend image_Un caps by (simp add: Un_assoc)
  ultimately show ?case using m'(2) by blast
qed simp

section \<open>Renegotiation\<close>

text \<open>
  What the router does when a bind fails: the pair reported goes on the blacklist of the side that
  reports it (\<open>reject\<close>; \<open>side\<close> is true for the consumer) and the picker runs again. In \<open>renegotiate\<close>
  each round reports the pair it was asked for, as a peer does that tries what it is told to; the
  result lists the pairs tried.
\<close>

definition reject :: "bool \<Rightarrow> u32 \<times> u64 \<Rightarrow> peer_caps \<times> peer_caps \<Rightarrow> peer_caps \<times> peer_caps" where
  "reject side pair pc =
     (if side then (fst pc, (snd pc)\<lparr>caps_blacklist := insert pair (caps_blacklist (snd pc))\<rparr>)
      else ((fst pc)\<lparr>caps_blacklist := insert pair (caps_blacklist (fst pc))\<rparr>, snd pc))"

fun renegotiate :: "bool list \<Rightarrow> peer_caps \<times> peer_caps \<Rightarrow> (u32 \<times> u64) list" where
  "renegotiate [] pc = []"
| "renegotiate (side # sides) pc =
     (case pick (fst pc) (snd pc) of
        Inl _ \<Rightarrow> []
      | Inr s \<Rightarrow> (ns_fourcc s, ns_modifier s) #
          renegotiate sides (reject side (ns_fourcc s, ns_modifier s) pc))"

text \<open>The pairs a producer can ever be asked for.\<close>

definition askable :: "peer_caps \<Rightarrow> (u32 \<times> u64) set" where
  "askable p = (\<Union>(f, v) \<in> set (caps_formats p). {f} \<times> insert DRM_FORMAT_MOD_LINEAR (mc_modifier ` set v))"

lemma finite_askable: "finite (askable p)"
  by (auto simp: askable_def)

lemma pick_askable:
  assumes "pick p c = Inr s"
  shows "(ns_fourcc s, ns_modifier s) \<in> askable p"
    and "(ns_fourcc s, ns_modifier s) \<notin> caps_blacklist p \<union> caps_blacklist c"
  by (cases rule: pick_cases [of p c];
      use assms in \<open>force simp: askable_def viable_def common_linear_def\<close>)+

lemma askable_reject: "askable (fst (reject side pair pc)) = askable (fst pc)"
  by (simp add: reject_def askable_def)

lemma blacklist_reject:
  "caps_blacklist (fst (reject side pair pc)) \<union> caps_blacklist (snd (reject side pair pc)) =
   insert pair (caps_blacklist (fst pc) \<union> caps_blacklist (snd pc))"
  by (simp add: reject_def)

lemma renegotiate_fresh:
  "set (renegotiate sides pc) \<subseteq> askable (fst pc) - (caps_blacklist (fst pc) \<union> caps_blacklist (snd pc)) \<and>
   distinct (renegotiate sides pc)"
proof (induction sides pc rule: renegotiate.induct)
  case (2 side sides pc)
  show ?case
  proof (cases "pick (fst pc) (snd pc)")
    case (Inr s)
    let ?pair = "(ns_fourcc s, ns_modifier s)"
    have "set (renegotiate sides (reject side ?pair pc)) \<subseteq>
        askable (fst pc) - insert ?pair (caps_blacklist (fst pc) \<union> caps_blacklist (snd pc)) \<and>
        distinct (renegotiate sides (reject side ?pair pc))"
      using 2 [OF Inr] by (simp only: askable_reject blacklist_reject)
    then show ?thesis using Inr pick_askable [OF Inr] by auto
  qed simp
qed simp

section \<open>Properties\<close>

text \<open>
  C20: A scheme picked for two peers on one device is a pair of pixel format and modifier that both
  list with the number of planes chosen and that neither has rejected, and no other such pair is
  better: a tiled one goes before a linear one, then the lower fourcc.
\<close>

theorem pick_best_common_format:
  assumes "caps_ok p" and "same_device (caps_identity p) (caps_identity c)" and "pick p c = Inr s"
  shows "accepts p (ns_fourcc s) (ns_modifier s) (ns_plane_count s) \<and>
    accepts c (ns_fourcc s) (ns_modifier s) (ns_plane_count s) \<and>
    (\<forall>f m n. accepts p f m n \<and> accepts c f m n \<longrightarrow>
      better (ns_fourcc s, ns_modifier s, ns_plane_count s) (f, m, n))"
  using assms viable_accepts [OF assms(1)] by (cases rule: pick_cases [of p c]) auto

text \<open>
  Peers on different devices, or on devices that cannot be told apart, get the linear layout
  on one plane, of a pixel format both list and neither has rejected linearly.
\<close>

theorem pick_cross_device_linear:
  assumes "\<not> same_device (caps_identity p) (caps_identity c)" and "pick p c = Inr s"
  shows "common_linear p c (ns_fourcc s) \<and> ns_modifier s = DRM_FORMAT_MOD_LINEAR \<and> ns_path s = CompatLinear"
  using assms by (cases rule: pick_cases [of p c]) auto

text \<open>
  C33: The picker fails exactly when the sync masks are disjoint or no pixel format is left, and its
  error says which.
\<close>

theorem pick_error_exact:
  assumes "caps_ok p"
  shows "(pick p c = Inl NoSyncIntersection \<longleftrightarrow> caps_sync p AND caps_sync c = 0) \<and>
    (pick p c = Inl NoFormatIntersection \<longleftrightarrow> caps_sync p AND caps_sync c \<noteq> 0 \<and>
      (if same_device (caps_identity p) (caps_identity c)
       then \<nexists>f m n. accepts p f m n \<and> accepts c f m n
       else \<nexists>f. common_linear p c f))"
proof -
  let ?V = "viable (caps_formats p) (caps_formats c) (caps_blacklist p) (caps_blacklist c)"
  have V: "?V = {} \<longleftrightarrow> (\<nexists>f m n. accepts p f m n \<and> accepts c f m n)"
    using viable_accepts [OF assms] by (metis equals0I equals0D prod_cases3)
  have S: "pick_sync (caps_sync p) (caps_sync c) = Inr y \<Longrightarrow> caps_sync p AND caps_sync c \<noteq> 0" for y
    by (auto simp: pick_sync_def Let_def split: if_splits)
  let ?sd = "same_device (caps_identity p) (caps_identity c)"
  consider (a) "pick p c = Inl NoSyncIntersection" "caps_sync p AND caps_sync c = 0"
    | (b) "pick p c = Inl NoFormatIntersection" "caps_sync p AND caps_sync c \<noteq> 0"
        "if ?sd then ?V = {} else \<nexists>f. common_linear p c f"
    | (c) s where "pick p c = Inr s" "caps_sync p AND caps_sync c \<noteq> 0"
        "if ?sd then ?V \<noteq> {} else \<exists>f. common_linear p c f"
  proof (cases rule: pick_cases [of p c])
    case no_sync
    then show ?thesis by (rule a)
  next
    case no_format
    then show ?thesis using b by (metis (full_types))
  next
    case (same s)
    then show ?thesis using c [OF same(1)] S by auto
  next
    case (cross s)
    then show ?thesis using c [OF cross(1)] S by auto
  qed
  then show ?thesis unfolding V [symmetric] by cases (simp_all split: if_splits)
qed

text \<open>
  C32: Renegotiation ends: each round tries a pair not tried before, and there are at most as many
  rounds as pairs the producer lists (the linear one included), whichever side rejects each time.
\<close>

theorem renegotiation_terminates:
  "distinct (renegotiate sides (p, c)) \<and> length (renegotiate sides (p, c)) \<le> card (askable p)"
proof -
  have "set (renegotiate sides (p, c)) \<subseteq> askable p" "distinct (renegotiate sides (p, c))"
    using renegotiate_fresh [of sides "(p, c)"] by auto
  then show ?thesis using card_mono [OF finite_askable] distinct_card by metis
qed

text \<open>
  The decoder of the wire arrays never indexes out of range: whatever the lengths of its
  arrays it returns, and when it accepts them it keeps every capability listed, each under its
  own pixel format, with both UUIDs 16 bytes long.
\<close>

theorem unflatten_caps_total:
  "\<exists>r. unflatten_caps fourccs counts ms ps dev drv drm sync color hint ext = Some r \<and>
     (case r of
        Inl e \<Rightarrow> \<not> (length fourccs = length counts \<and> length ms = sum_list (map unat counts) \<and>
                 length ps = sum_list (map unat counts) \<and> length dev = 4 \<and> length drv = 4)
      | Inr c \<Rightarrow> caps_ok c \<and> length (device_uuid (caps_identity c)) = 16 \<and>
          length (driver_uuid (caps_identity c)) = 16 \<and>
          listed (caps_formats c) = (\<lambda>(f, x, p). (f, \<lparr>mc_modifier = x, mc_plane_count = p\<rparr>)) `
            set (zip (concat (map (\<lambda>(f, n). replicate (unat n) f) (zip fourccs counts))) (zip ms ps)))"
proof (cases "length fourccs = length counts \<and> length ms = sum_list (map unat counts) \<and>
    length ps = sum_list (map unat counts) \<and> length dev = 4 \<and> length drv = 4")
  case False
  then show ?thesis unfolding unflatten_caps_def Let_def by (auto split: if_splits)
next
  case True
  have "sum_list (map (unat \<circ> snd) (zip fourccs counts)) = sum_list (map unat counts)"
    using True by (simp flip: map_map)
  then obtain m where "unflatten_loop (zip fourccs counts) 0 ms ps [] = Some m" "bt_ok m"
    "listed m = listed [] \<union> (\<lambda>(f, x, p). (f, \<lparr>mc_modifier = x, mc_plane_count = p\<rparr>)) `
       set (zip (concat (map (\<lambda>(f, n). replicate (unat n) f) (zip fourccs counts))) (drop 0 (zip ms ps)))"
    using unflatten_loop_eq [of 0 "zip fourccs counts" ms ps "[]"] True by auto
  moreover have "length (pack_uuid_words ws) = 16" if "length ws = 4" for ws
    using that by (auto simp: pack_uuid_words_def Let_def to_le_bytes_def length_concat o_def sum_list_triv
        simp flip: numeral_eq_Suc)
  ultimately show ?thesis using True unfolding unflatten_caps_def
    by (auto simp: Let_def caps_ok_def listed_def)
qed

text \<open>Two peers on one device: both list the tiled modifier 5, only the producer the tiled 9.\<close>

definition ex_caps :: "mod_cap list \<Rightarrow> u8 \<Rightarrow> peer_caps" where
  "ex_caps v uuid = \<lparr>caps_formats = [(7, v)],
     caps_identity = \<lparr>device_uuid = replicate 16 uuid, driver_uuid = replicate 16 0, id_drm = DRM_UNKNOWN\<rparr>,
     caps_sync = 6, caps_color = 0, caps_mem_hint = 3, caps_extent_max = (64, 64), caps_blacklist = {}\<rparr>"

definition ex_producer :: peer_caps where
  "ex_producer = ex_caps [\<lparr>mc_modifier = 0, mc_plane_count = 1\<rparr>, \<lparr>mc_modifier = 9, mc_plane_count = 1\<rparr>,
     \<lparr>mc_modifier = 5, mc_plane_count = 2\<rparr>] 1"

definition ex_consumer :: "u8 \<Rightarrow> peer_caps" where
  "ex_consumer uuid = ex_caps [\<lparr>mc_modifier = 0, mc_plane_count = 1\<rparr>, \<lparr>mc_modifier = 5, mc_plane_count = 2\<rparr>] uuid"

lemmas ex_peers = ex_producer_def ex_consumer_def ex_caps_def

lemma ex_same: "same_device (caps_identity ex_producer) (caps_identity (ex_consumer u)) \<longleftrightarrow> u = 1"
  by (auto simp: ex_peers same_device_def is_known_def DRM_UNKNOWN_def)

lemma ex_ok: "caps_ok ex_producer"
  by (simp add: ex_peers caps_ok_def bt_ok_def)

lemma ex_pick:
  "pick ex_producer (ex_consumer u) = Inr
     (if u = 1 then
        \<lparr>ns_fourcc = 7, ns_modifier = 5, ns_plane_count = 2, ns_sync_mode = 4, ns_color = 193, ns_mem_hint = 1,
         ns_count = 3, ns_path = OptimizedSameDevice, ns_mem_source = GpuNative\<rparr>
      else
        \<lparr>ns_fourcc = 7, ns_modifier = 0, ns_plane_count = 1, ns_sync_mode = 4, ns_color = 193, ns_mem_hint = 0,
         ns_count = 3, ns_path = CompatLinear, ns_mem_source = GpuLinear\<rparr>)"
proof -
  have f: "caps_sync ex_producer = 6" "caps_sync (ex_consumer u) = 6" "caps_color ex_producer = 0"
    "caps_color (ex_consumer u) = 0" "caps_mem_hint ex_producer = 3" "caps_mem_hint (ex_consumer u) = 3"
    "caps_blacklist ex_producer = {}" "caps_blacklist (ex_consumer u) = {}"
    by (simp_all add: ex_peers)
  have "pick_sync 6 6 = Inr 4" by (simp add: pick_sync_def SYNC_SYNCOBJ_TIMELINE_def)
  moreover have "pick_color 0 0 = 193"
    by (simp add: pick_color_def pick_axis_def DEFAULT_COLOR_def COLOR_MASK_ENCODING_def
        COLOR_MASK_RANGE_def COLOR_MASK_ALPHA_def)
  moreover have "pick_mem_hint_same_dev 3 3 = 1" by (simp add: pick_mem_hint_same_dev_def MEM_HINT_DEVICE_LOCAL_def)
  moreover have "pick_format_same_device (caps_formats ex_producer) (caps_formats (ex_consumer u)) {} {} = Inr (7, 5, 2)"
    by (simp add: ex_peers pick_format_same_device_def intersect_mods_def DRM_FORMAT_MOD_LINEAR_def keep_lowest_def)
  moreover have "pick_fourcc_only (caps_formats ex_producer) (caps_formats (ex_consumer u)) {} {} = Inr 7"
    by (simp add: ex_peers)
  ultimately show ?thesis unfolding pick_def f
    by (cases "u = 1") (simp_all add: ex_same DRM_FORMAT_MOD_LINEAR_def DEFAULT_POOL_COUNT_def)
qed

theorem pick_best_common_format_witness:
  "pick ex_producer (ex_consumer 1) = Inr
      \<lparr>ns_fourcc = 7, ns_modifier = 5, ns_plane_count = 2, ns_sync_mode = 4, ns_color = 193, ns_mem_hint = 1,
       ns_count = 3, ns_path = OptimizedSameDevice, ns_mem_source = GpuNative\<rparr> \<and>
   accepts ex_producer 7 5 2 \<and> accepts (ex_consumer 1) 7 5 2"
  using pick_best_common_format [OF ex_ok, of "ex_consumer 1"] ex_pick [of 1] ex_same [of 1] by simp

theorem pick_cross_device_linear_witness: "common_linear ex_producer (ex_consumer 2) 7"
  using pick_cross_device_linear [of ex_producer "ex_consumer 2"] ex_pick [of 2] ex_same [of 2] by simp

theorem pick_error_exact_witness:
  "pick ex_producer (ex_consumer 1) \<noteq> Inl NoSyncIntersection \<and>
   (\<exists>f m n. accepts ex_producer f m n \<and> accepts (ex_consumer 1) f m n)"
proof -
  have "pick ex_producer (ex_consumer 1) \<noteq> Inl e" for e by (simp add: ex_pick)
  moreover have "caps_sync ex_producer AND caps_sync (ex_consumer 1) \<noteq> 0" by (simp add: ex_peers)
  ultimately show ?thesis using pick_error_exact [OF ex_ok, of "ex_consumer 1"] ex_same [of 1] by auto
qed

text \<open>The lowest set bit of a field of two or five bits.\<close>

lemma and_push_mask:
  "i AND push_bit k (mask n) = push_bit k (take_bit n (drop_bit k i))" for i :: "'a::len word"
  by (rule bit_word_eqI) (auto simp: bit_simps)

lemma take_bit_small: "take_bit n a \<in> of_nat ` {..<2 ^ n}" for a :: "'a::len word"
proof -
  have "take_bit n a = of_nat (take_bit n (unat a))" by (metis of_nat_take_bit of_nat_unat ucast_id)
  then show ?thesis using take_bit_nat_less_exp by blast
qed

lemma take_bit_2: "take_bit 2 a \<in> {0, 1, 2, 3}" for a :: u32
  using take_bit_small [of 2 a] by (simp add: lessThan_nat_numeral lessThan_Suc) fastforce

lemma take_bit_5: "take_bit 5 a \<in> {0, 1, 2, 3, 4, 5, 6, 7, 8, 9, 10, 11, 12, 13, 14, 15, 16, 17, 18, 19, 20, 21,
    22, 23, 24, 25, 26, 27, 28, 29, 30, 31}" for a :: u32
  using take_bit_small [of 5 a] by (simp add: lessThan_nat_numeral lessThan_Suc) fastforce

lemma axis_fields:
  "i AND COLOR_MASK_ENCODING = take_bit 5 i"
  "i AND COLOR_MASK_RANGE = push_bit 5 (take_bit 2 (drop_bit 5 i))"
  "i AND COLOR_MASK_ALPHA = push_bit 7 (take_bit 2 (drop_bit 7 i))"
  using and_push_mask [of i 0 5] and_push_mask [of i 5 2] and_push_mask [of i 7 2]
  by (simp_all add: COLOR_MASK_ENCODING_def COLOR_MASK_RANGE_def COLOR_MASK_ALPHA_def mask_eq_exp_minus_1)

lemmas axis_bit_defs = pick_axis_def Let_def DEFAULT_COLOR_def COLOR_MASK_ENCODING_def COLOR_MASK_RANGE_def
  COLOR_MASK_ALPHA_def

lemma pick_axis_encoding: "pick_axis i COLOR_MASK_ENCODING \<in> {1, 2, 4, 8, 16}"
proof -
  have "i AND 31 = take_bit 5 i" using axis_fields(1) [of i] by (simp add: COLOR_MASK_ENCODING_def)
  then show ?thesis using take_bit_5 [of i] unfolding axis_bit_defs by (elim insertE emptyE) simp_all
qed

lemma pick_axis_range: "pick_axis i COLOR_MASK_RANGE \<in> {32, 64}"
proof -
  have "i AND 96 = push_bit 5 (take_bit 2 (drop_bit 5 i))"
    using axis_fields(2) [of i] by (simp add: COLOR_MASK_RANGE_def)
  then show ?thesis using take_bit_2 [of "drop_bit 5 i"] unfolding axis_bit_defs by (elim insertE emptyE) simp_all
qed

lemma pick_axis_alpha: "pick_axis i COLOR_MASK_ALPHA \<in> {128, 256}"
proof -
  have "i AND 384 = push_bit 7 (take_bit 2 (drop_bit 7 i))"
    using axis_fields(3) [of i] by (simp add: COLOR_MASK_ALPHA_def)
  then show ?thesis using take_bit_2 [of "drop_bit 7 i"] unfolding axis_bit_defs by (elim insertE emptyE) simp_all
qed

lemmas pick_axis_bit = pick_axis_encoding pick_axis_range pick_axis_alpha

lemma pick_axis_common:
  "if i AND axis = 0 then pick_axis i axis = DEFAULT_COLOR AND axis else pick_axis i axis AND i = pick_axis i axis"
  by (simp add: pick_axis_def Let_def and.assoc and.left_commute and.commute)

text \<open>
  C40: The colour description always has exactly one encoding, one range and one alpha mode, each
  one that both peers offer, or the default of that axis where they have none in common.
\<close>

theorem pick_color_one_per_axis:
  "pick_color a b AND COLOR_MASK_ENCODING \<in> {1, 2, 4, 8, 16} \<and>
   pick_color a b AND COLOR_MASK_RANGE \<in> {32, 64} \<and>
   pick_color a b AND COLOR_MASK_ALPHA \<in> {128, 256} \<and>
   (\<forall>axis \<in> {COLOR_MASK_ENCODING, COLOR_MASK_RANGE, COLOR_MASK_ALPHA}.
      if (a AND b) AND axis = 0 then pick_color a b AND axis = DEFAULT_COLOR AND axis
      else (pick_color a b AND axis) AND (a AND b) = pick_color a b AND axis)"
proof -
  let ?r = "pick_axis (a AND b)"
  have parts: "pick_color a b AND COLOR_MASK_ENCODING = ?r COLOR_MASK_ENCODING"
    "pick_color a b AND COLOR_MASK_RANGE = ?r COLOR_MASK_RANGE"
    "pick_color a b AND COLOR_MASK_ALPHA = ?r COLOR_MASK_ALPHA"
    unfolding pick_color_def Let_def using pick_axis_bit [of "a AND b"]
    by (auto simp: COLOR_MASK_ENCODING_def COLOR_MASK_RANGE_def COLOR_MASK_ALPHA_def)
  show ?thesis
    using pick_axis_bit [of "a AND b"] pick_axis_common [of "a AND b"] by (simp add: parts)
qed

theorem pick_color_one_per_axis_witness:
  "pick_color 1 1 AND COLOR_MASK_ENCODING \<in> {1, 2, 4, 8, 16}"
  using pick_color_one_per_axis [of 1 1] by simp

text \<open>
  The sync mode picked is one that both peers offer, unless the masks share only bits outside
  the three known ones: then it is the implicit mode, which neither may have offered.
\<close>

theorem pick_sync_mode:
  assumes "pick_sync a b = Inr m"
  shows "(m \<in> {SYNC_IMPLICIT, SYNC_SYNCOBJ_BINARY, SYNC_SYNCOBJ_TIMELINE} \<and> (a AND b) AND m = m) \<or>
    (m = SYNC_IMPLICIT \<and> (a AND b) AND 7 = 0 \<and> a AND b \<noteq> 0)"
proof -
  let ?c = "a AND b"
  have f: "?c AND push_bit k (mask 1) = 0 \<or> ?c AND push_bit k (mask 1) = push_bit k 1" for k
    unfolding and_push_mask by (simp add: take_bit_Suc mod2_eq_if numeral_eq_Suc)
  have b: "?c AND 1 = 0 \<or> ?c AND 1 = 1" "?c AND 2 = 0 \<or> ?c AND 2 = 2" "?c AND 4 = 0 \<or> ?c AND 4 = 4"
    using f [of 0] f [of 1] f [of 2] by (simp_all add: mask_eq_exp_minus_1 push_bit_eq_mult)
  have "?c AND 7 = (?c AND 1) OR ((?c AND 2) OR (?c AND 4))" by (simp flip: bit.conj_disj_distrib)
  then show ?thesis using assms b
    by (auto simp: pick_sync_def Let_def SYNC_IMPLICIT_def SYNC_SYNCOBJ_BINARY_def SYNC_SYNCOBJ_TIMELINE_def
        split: if_splits)
qed

theorem pick_sync_mode_witness: "pick_sync 8 8 = Inr SYNC_IMPLICIT \<and> (8 AND 8) AND (7::u32) = 0"
proof -
  have s: "pick_sync 8 8 = Inr SYNC_IMPLICIT"
    by (simp add: pick_sync_def SYNC_SYNCOBJ_BINARY_def SYNC_SYNCOBJ_TIMELINE_def)
  show ?thesis using pick_sync_mode [OF s] s by simp
qed

end
