(* ===== verification/Strings.thy ===== *)
theory Strings
  imports F32
begin

text \<open>
  The string operations of the Rust standard library that the components use. A string is
  the list of its UTF-8 bytes; \<open>trim\<close> removes ASCII white space (Rust also removes the
  Unicode kinds, which no protocol string of the daemon contains).
\<close>

section \<open>White space, case and splitting\<close>

definition is_space :: "char \<Rightarrow> bool" where
  "is_space c \<longleftrightarrow> c \<in> {CHR 0x09, CHR 0x0A, CHR 0x0B, CHR 0x0C, CHR 0x0D, CHR 0x20}"

definition str_trim :: "string \<Rightarrow> string" where
  "str_trim s = rev (dropWhile is_space (rev (dropWhile is_space s)))"

text \<open>\<open>split(sep)\<close>: always at least one part.\<close>

fun split_on :: "char \<Rightarrow> string \<Rightarrow> string list" where
  "split_on sep [] = [[]]"
| "split_on sep (c # s) =
     (if c = sep then [] # split_on sep s
      else (case split_on sep s of [] \<Rightarrow> [[c]] | p # ps \<Rightarrow> (c # p) # ps))"

text \<open>\<open>split_once(sep)\<close>.\<close>

fun split_once :: "char \<Rightarrow> string \<Rightarrow> (string \<times> string) option" where
  "split_once sep [] = None"
| "split_once sep (c # s) =
     (if c = sep then Some ([], s) else map_option (\<lambda>(a, b). (c # a, b)) (split_once sep s))"

definition ascii_lower :: "char \<Rightarrow> char" where
  "ascii_lower c = (if of_char c \<in> {65..90::nat} then char_of (of_char c + 32 :: nat) else c)"

definition eq_ignore_ascii_case :: "string \<Rightarrow> string \<Rightarrow> bool" where
  "eq_ignore_ascii_case a b \<longleftrightarrow> map ascii_lower a = map ascii_lower b"

section \<open>Decimal numbers\<close>

definition digit_of :: "char \<Rightarrow> nat option" where
  "digit_of c = (if of_char c \<in> {48..57::nat} then Some (of_char c - 48) else None)"

text \<open>The value of a run of digits; \<open>None\<close> on any other character.\<close>

fun digits_from :: "nat \<Rightarrow> string \<Rightarrow> nat option" where
  "digits_from acc [] = Some acc"
| "digits_from acc (c # s) =
     (case digit_of c of None \<Rightarrow> None | Some d \<Rightarrow> digits_from (10 * acc + d) s)"

text \<open>\<open>u32::from_str\<close>: an optional plus sign, at least one digit, no overflow.\<close>

definition parse_u32 :: "string \<Rightarrow> u32 option" where
  "parse_u32 s =
     (let ds = (case s of [] \<Rightarrow> [] | c # r \<Rightarrow> if c = CHR ''+'' then r else s) in
      if ds = [] then None
      else (case digits_from 0 ds of
              None \<Rightarrow> None
            | Some n \<Rightarrow> if n < 2 ^ 32 then Some (of_nat n) else None))"

text \<open>\<open>Display\<close> of an unsigned integer.\<close>

definition digit_char :: "nat \<Rightarrow> char" where
  "digit_char d = char_of (48 + d)"

fun show_nat :: "nat \<Rightarrow> string" where
  "show_nat n = (if n < 10 then [digit_char n] else show_nat (n div 10) @ [digit_char (n mod 10)])"

declare show_nat.simps [simp del]

text \<open>
  \<open>f32::from_str\<close>: an optional sign, then digits with an optional point and an optional
  exponent (at least one digit before the exponent), or \<open>inf\<close>, \<open>infinity\<close>, \<open>nan\<close> in any case.
  The value is the decimal one, rounded once.
\<close>

fun take_digits :: "string \<Rightarrow> string \<times> string" where
  "take_digits [] = ([], [])"
| "take_digits (c # s) =
     (if digit_of c = None then ([], c # s) else (let (ds, r) = take_digits s in (c # ds, r)))"

definition nat_of_digits :: "string \<Rightarrow> nat" where
  "nat_of_digits ds = (case digits_from 0 ds of None \<Rightarrow> 0 | Some n \<Rightarrow> n)"

definition split_sign :: "string \<Rightarrow> bool \<times> string" where
  "split_sign s =
     (case s of [] \<Rightarrow> (False, [])
      | c # r \<Rightarrow> if c = CHR ''-'' then (True, r) else if c = CHR ''+'' then (False, r) else (False, s))"

definition parse_exponent :: "string \<Rightarrow> int option" where
  "parse_exponent s =
     (case s of
        [] \<Rightarrow> Some 0
      | c # r \<Rightarrow>
          if c = CHR ''e'' \<or> c = CHR ''E'' then
            (let (neg, ds) = split_sign r in
             if ds = [] \<or> snd (take_digits ds) \<noteq> [] then None
             else Some (if neg then - int (nat_of_digits ds) else int (nat_of_digits ds)))
          else None)"

definition pow10 :: "int \<Rightarrow> rat" where
  "pow10 e = (if 0 \<le> e then 10 ^ nat e else 1 / 10 ^ nat (- e))"

definition parse_decimal :: "string \<Rightarrow> rat option" where
  "parse_decimal s =
     (let (whole, r) = take_digits s;
          (frac, rest) = (case r of [] \<Rightarrow> ([], [])
             | c # r' \<Rightarrow> if c = CHR ''.'' then take_digits r' else ([], r))
      in if whole @ frac = [] then None
         else map_option (\<lambda>e. of_nat (nat_of_digits (whole @ frac)) * pow10 (e - int (length frac)))
                (parse_exponent rest))"

definition parse_f32 :: "string \<Rightarrow> f32 option" where
  "parse_f32 s =
     (let (neg, body) = split_sign s; low = map ascii_lower body in
      case parse_decimal body of
        Some q \<Rightarrow> Some (f32_round (if neg then - q else q))
      | None \<Rightarrow>
          if low = ''inf'' \<or> low = ''infinity'' then Some (if neg then NInf else PInf)
          else if low = ''nan'' then Some NaN else None)"

section \<open>Printing and parsing\<close>

lemma digit_of_char [simp]: "d < 10 \<Longrightarrow> digit_of (digit_char d) = Some d"
  by (simp add: digit_of_def digit_char_def of_char_of)

lemma digits_from_append:
  "digits_from a (s @ t) = (case digits_from a s of None \<Rightarrow> None | Some b \<Rightarrow> digits_from b t)"
  by (induction s arbitrary: a) (auto split: option.split)

lemma digits_from_show: "digits_from 0 (show_nat n) = Some n"
proof (induction n rule: show_nat.induct)
  case (1 n)
  show ?case
  proof (cases "n < 10")
    case True
    then show ?thesis by (subst show_nat.simps) simp
  next
    case False
    then show ?thesis using 1 by (subst show_nat.simps) (simp add: digits_from_append)
  qed
qed

lemma digit_char_neq: "d < 10 \<Longrightarrow> of_char c \<notin> {48..57::nat} \<Longrightarrow> digit_char d \<noteq> c"
  using digit_of_char [of d] by (auto simp: digit_of_def)

lemma show_nat_chars: "c \<in> set (show_nat n) \<Longrightarrow> of_char c \<in> {48..57::nat}"
proof (induction n rule: show_nat.induct)
  case (1 n)
  have d: "d < 10 \<Longrightarrow> of_char (digit_char d) \<in> {48..57::nat}" for d
    by (simp add: digit_char_def of_char_of)
  show ?case
  proof (cases "n < 10")
    case True
    then show ?thesis using 1(2) d by (simp add: show_nat.simps [of n])
  next
    case False
    then show ?thesis using 1 d [of "n mod 10"] by (auto simp: show_nat.simps [of n])
  qed
qed

lemma show_nat_nonempty [simp]: "show_nat n \<noteq> []"
  by (subst show_nat.simps) simp

lemma parse_show_u32: "parse_u32 (show_nat (unat w)) = Some w"
proof -
  obtain c r where s: "show_nat (unat w) = c # r" by (cases "show_nat (unat w)") simp_all
  have "c \<noteq> CHR ''+''"
    using show_nat_chars [of c "unat w"] s by auto
  moreover have "unat w < 2 ^ 32" by (rule unat_u32_bound)
  ultimately show ?thesis using digits_from_show [of "unat w"] s by (simp add: parse_u32_def)
qed

lemma split_once_append: "sep \<notin> set a \<Longrightarrow> split_once sep (a @ sep # b) = Some (a, b)"
  by (induction a) auto

section \<open>Signed 64-bit numbers\<close>

text \<open>\<open>i64::from_str\<close>: an optional sign, at least one digit, no overflow; and its inverse, \<open>to_string\<close>.\<close>

definition parse_i64 :: "string \<Rightarrow> i64 option" where
  "parse_i64 s =
     (let neg = (case s of [] \<Rightarrow> False | c # _ \<Rightarrow> c = CHR ''-'');
          ds = (case s of [] \<Rightarrow> [] | c # r \<Rightarrow> if c = CHR ''-'' \<or> c = CHR ''+'' then r else s)
      in if ds = [] then None
         else (case digits_from 0 ds of
                 None \<Rightarrow> None
               | Some n \<Rightarrow>
                   if neg then (if n \<le> 2 ^ 63 then Some (- of_nat n) else None)
                   else (if n < 2 ^ 63 then Some (of_nat n) else None)))"

definition show_i64 :: "i64 \<Rightarrow> string" where
  "show_i64 w = (if sint w < 0 then CHR ''-'' # show_nat (nat (- sint w)) else show_nat (nat (sint w)))"

lemma parse_show_i64 [simp]: "parse_i64 (show_i64 w) = Some w"
proof -
  have range: "- (2 ^ 63) \<le> sint w" "sint w < 2 ^ 63"
    using sint_range_size [of w] by (simp_all add: word_size)
  show ?thesis
  proof (cases "sint w < 0")
    case True
    have n: "nat (- sint w) \<le> 2 ^ 63" using range(1) by simp
    have "- of_nat (nat (- sint w)) = w"
      using True by (simp add: of_nat_nat)
    then show ?thesis using True n by (simp add: show_i64_def parse_i64_def digits_from_show)
  next
    case False
    have c: "hd (show_nat k) \<noteq> CHR ''-'' \<and> hd (show_nat k) \<noteq> CHR ''+''" for k
      using show_nat_chars [of "hd (show_nat k)" k] hd_in_set [OF show_nat_nonempty [of k]] by fastforce
    obtain d ds where d: "show_nat (nat (sint w)) = d # ds" using show_nat_nonempty by (meson neq_Nil_conv)
    have "of_nat (nat (sint w)) = w" using False by (simp add: of_nat_nat)
    moreover have "digits_from 0 (d # ds) = Some (nat (sint w))" using digits_from_show [of "nat (sint w)"] d by simp
    ultimately show ?thesis
      using False range(2) c [of "nat (sint w)"] d by (simp add: show_i64_def parse_i64_def Let_def del: digits_from.simps)
  qed
qed

lemma show_i64_inj: "show_i64 a = show_i64 b \<longleftrightarrow> a = b"
  by (metis parse_show_i64 option.inject)

end
