(* ===== verification/Wallpaper.thy ===== *)
theory Wallpaper
  imports Settings Strings
begin

text \<open>
  Wallpaper properties, \<open>src/wallpaper/properties.rs\<close>: the per-wallpaper layout override, the
  split of the stored properties into the daemon's own and the renderer's, and the
  normalisation of legacy keys. The JSON reader and writer (serde) are parameters; a JSON
  object is its \<open>BTreeMap\<close>, an association list sorted by key, and a \<open>HashMap\<close> an association
  list in any order.
\<close>

section \<open>Layout overrides\<close>

record layout_override =
  lo_fillmode :: "fill_mode option"
  lo_location :: "location option"
  lo_rotation :: "rotation option"

definition override_default :: layout_override where
  "override_default = \<lparr>lo_fillmode = None, lo_location = None, lo_rotation = None\<rparr>"

definition from_resolved :: "resolved_layout \<Rightarrow> layout_override" where
  "from_resolved l =
     \<lparr>lo_fillmode = Some (rl_fillmode l), lo_location = Some (rl_location l), lo_rotation = Some (rl_rotation l)\<rparr>"

definition apply_to :: "layout_override \<Rightarrow> resolved_layout \<Rightarrow> resolved_layout" where
  "apply_to o' base =
     \<lparr>rl_fillmode = (case lo_fillmode o' of None \<Rightarrow> rl_fillmode base | Some f \<Rightarrow> f),
      rl_location = (case lo_location o' of None \<Rightarrow> rl_location base | Some l \<Rightarrow> l),
      rl_rotation = (case lo_rotation o' of None \<Rightarrow> rl_rotation base | Some r \<Rightarrow> r)\<rparr>"

definition materialize :: "layout_override \<Rightarrow> resolved_layout" where
  "materialize o' = apply_to o'
     \<lparr>rl_fillmode = PreserveAspectCrop, rl_location = location_default, rl_rotation = Normal\<rparr>"

definition override_is_empty :: "layout_override \<Rightarrow> bool" where
  "override_is_empty o' \<longleftrightarrow> lo_fillmode o' = None \<and> lo_location o' = None \<and> lo_rotation o' = None"

text \<open>
  \<open>parse_persisted\<close> reads the complete form the daemon writes, \<open>parse_partial\<close> the form with
  optional fields, \<open>print\<close> writes the complete form.
\<close>

definition override_from_json ::
  "(string \<Rightarrow> resolved_layout option) \<Rightarrow> (string \<Rightarrow> layout_override option) \<Rightarrow> string \<Rightarrow> layout_override option" where
  "override_from_json parse_persisted parse_partial raw0 =
     (let raw = str_trim raw0 in
      if raw = [] then None
      else (case parse_persisted raw of
              Some l \<Rightarrow> Some (from_resolved l)
            | None \<Rightarrow>
                (case parse_partial raw of
                   None \<Rightarrow> None
                 | Some p \<Rightarrow> if override_is_empty p then None else Some p)))"

definition override_to_json :: "(resolved_layout \<Rightarrow> string option) \<Rightarrow> resolved_layout \<Rightarrow> string option" where
  "override_to_json print l =
     print \<lparr>rl_fillmode = rl_fillmode l, rl_location = rl_location l, rl_rotation = rl_rotation l\<rparr>"

section \<open>Keys\<close>

definition SCHEME_COLOR_KEY :: string where "SCHEME_COLOR_KEY = ''waywallen.scheme_color''"
definition FILL_MODE_KEY :: string where "FILL_MODE_KEY = ''waywallen.fill_mode''"
definition ROTATION_KEY :: string where "ROTATION_KEY = ''waywallen.rotation''"
definition LOCATION_X_KEY :: string where "LOCATION_X_KEY = ''waywallen.location_x''"
definition LOCATION_Y_KEY :: string where "LOCATION_Y_KEY = ''waywallen.location_y''"
definition LEGACY_SCHEME_COLOR_KEY :: string where "LEGACY_SCHEME_COLOR_KEY = ''schemecolor''"

lemmas key_defs = SCHEME_COLOR_KEY_def FILL_MODE_KEY_def ROTATION_KEY_def LOCATION_X_KEY_def
  LOCATION_Y_KEY_def LEGACY_SCHEME_COLOR_KEY_def

definition DAEMON_LAYOUT_SCHEMA_KEYS :: "string list" where
  "DAEMON_LAYOUT_SCHEMA_KEYS = [FILL_MODE_KEY, ROTATION_KEY, LOCATION_X_KEY, LOCATION_Y_KEY]"

definition is_daemon_display_property_key :: "string \<Rightarrow> bool" where
  "is_daemon_display_property_key k \<longleftrightarrow>
     k = FILL_MODE_KEY \<or> k = ROTATION_KEY \<or> k = LOCATION_X_KEY \<or> k = LOCATION_Y_KEY"

definition canonical_user_property_key :: "string \<Rightarrow> string" where
  "canonical_user_property_key k = (if k = LEGACY_SCHEME_COLOR_KEY then SCHEME_COLOR_KEY else k)"

section \<open>Legacy keys\<close>

text \<open>One step of the three remapping loops: a canonical key always wins over a legacy one.\<close>

definition remap_step :: "string \<times> 'v \<Rightarrow> (string, 'v) hmap \<Rightarrow> (string, 'v) hmap" where
  "remap_step kv out =
     (let c = canonical_user_property_key (fst kv) in
      if fst kv = c \<or> hm_get out c = None then hm_insert c (snd kv) out else out)"

definition normalize_user_property_overrides :: "(string, string) hmap \<Rightarrow> (string, string) hmap" where
  "normalize_user_property_overrides m = fold remap_step m []"

datatype 'n json = JNull | JBool bool | JNum 'n | JStr string | JArr "'n json list"
  | JObj "(string \<times> 'n json) list"

text \<open>The same step on a \<open>serde_json::Map\<close>, which keeps its keys sorted.\<close>

definition remap_step_map :: "string \<times> 'v \<Rightarrow> (string \<times> 'v) list \<Rightarrow> (string \<times> 'v) list" where
  "remap_step_map kv out =
     (let c = canonical_user_property_key (fst kv) in
      if fst kv = c \<or> map_of out c = None then bt_insert c (snd kv) out else out)"

definition dedupe_predefined_schema ::
  "(string \<Rightarrow> 'n json option) \<Rightarrow> ('n json \<Rightarrow> string option) \<Rightarrow> string \<Rightarrow> string" where
  "dedupe_predefined_schema parse print raw0 =
     (let raw = str_trim raw0 in
      if raw = [] then []
      else (case parse raw of
              Some (JObj old) \<Rightarrow>
                (let remapped = filter (\<lambda>(k, _). k \<notin> set DAEMON_LAYOUT_SCHEMA_KEYS) (fold remap_step_map old [])
                 in if remapped = [] then []
                    else (case print (JObj remapped) of None \<Rightarrow> raw | Some s \<Rightarrow> s))
            | _ \<Rightarrow> raw))"

definition normalize_user_property_overrides_json ::
  "(string \<Rightarrow> 'n json option) \<Rightarrow> ('n json \<Rightarrow> string option) \<Rightarrow> string \<Rightarrow> string" where
  "normalize_user_property_overrides_json parse print raw0 =
     (let raw = str_trim raw0 in
      if raw = [] then []
      else (case parse raw of
              Some (JObj old) \<Rightarrow>
                (case print (JObj (fold remap_step_map old [])) of None \<Rightarrow> raw | Some s \<Rightarrow> s)
            | _ \<Rightarrow> raw))"

section \<open>Default values on the wire\<close>

text \<open>
  \<open>show_num\<close> is serde's \<open>Number::to_string\<close>; \<open>fixed4\<close> is its \<open>as_f64\<close> followed by the \<open>{:.4}\<close>
  format.
\<close>

fun join :: "string \<Rightarrow> string list \<Rightarrow> string" where
  "join sep [] = []"
| "join sep [s] = s"
| "join sep (s # ss) = s @ sep @ join sep ss"

definition components_to_wire :: "('n \<Rightarrow> string option) \<Rightarrow> 'n json list \<Rightarrow> string option" where
  "components_to_wire fixed4 vs =
     map_option (join '' '') (those (map (\<lambda>v. case v of JNum n \<Rightarrow> fixed4 n | _ \<Rightarrow> None) vs))"

definition json_value_to_wire_string ::
  "('n \<Rightarrow> string) \<Rightarrow> ('n \<Rightarrow> string option) \<Rightarrow> 'n json \<Rightarrow> string option" where
  "json_value_to_wire_string show_num fixed4 v =
     (case v of
        JBool b \<Rightarrow> Some (if b then ''true'' else ''false'')
      | JNum n \<Rightarrow> Some (show_num n)
      | JStr s \<Rightarrow> Some s
      | JArr vs \<Rightarrow> components_to_wire fixed4 vs
      | _ \<Rightarrow> None)"

definition coerce_default_wire_value ::
  "('n \<Rightarrow> string) \<Rightarrow> ('n \<Rightarrow> string option) \<Rightarrow> 'n json \<Rightarrow> string \<Rightarrow> string option" where
  "coerce_default_wire_value show_num fixed4 v ty =
     (if ty = ''color'' then
        (case v of
           JArr vs \<Rightarrow> components_to_wire fixed4 vs
         | JStr s \<Rightarrow> Some s
         | _ \<Rightarrow> json_value_to_wire_string show_num fixed4 v)
      else if ty = ''bool'' then
        (case v of
           JBool b \<Rightarrow> Some (if b then ''true'' else ''false'')
         | _ \<Rightarrow> json_value_to_wire_string show_num fixed4 v)
      else json_value_to_wire_string show_num fixed4 v)"

definition user_property_default_wire_value ::
  "(string \<Rightarrow> 'n json option) \<Rightarrow> ('n \<Rightarrow> string) \<Rightarrow> ('n \<Rightarrow> string option) \<Rightarrow> string \<Rightarrow> string \<Rightarrow> string option" where
  "user_property_default_wire_value parse show_num fixed4 raw_schema key =
     (let raw = str_trim raw_schema; canonical = canonical_user_property_key key in
      if raw = [] then None
      else (case parse raw of
              Some (JObj m) \<Rightarrow>
                (case (case map_of m canonical of
                         Some p \<Rightarrow> Some p
                       | None \<Rightarrow> map_option snd (find (\<lambda>(k, _). canonical_user_property_key k = canonical) m)) of
                   Some (JObj prop) \<Rightarrow>
                     (let ty = (case map_of prop ''type'' of Some (JStr s) \<Rightarrow> map ascii_lower s | _ \<Rightarrow> [])
                      in case map_of prop ''value'' of
                           None \<Rightarrow> None
                         | Some v \<Rightarrow> coerce_default_wire_value show_num fixed4 v ty)
                 | _ \<Rightarrow> None)
            | _ \<Rightarrow> None))"

section \<open>The daemon's and the renderer's properties\<close>

definition parse_fillmode :: "string \<Rightarrow> fill_mode option" where
  "parse_fillmode s =
     (if s = ''stretched'' then Some Stretched
      else if s = ''preserve_aspect_fit'' then Some PreserveAspectFit
      else if s = ''preserve_aspect_crop'' then Some PreserveAspectCrop
      else if s = ''centered'' then Some Centered else None)"

definition parse_rotation :: "string \<Rightarrow> rotation option" where
  "parse_rotation s =
     (if s = ''normal'' then Some Normal
      else if s = ''cw_90'' then Some Cw90
      else if s = ''cw_180'' then Some Cw180
      else if s = ''cw_270'' then Some Cw270 else None)"

text \<open>\<open>f32::round\<close>: half away from zero.\<close>

definition round_away :: "rat \<Rightarrow> int" where
  "round_away q = (if 0 \<le> q then \<lfloor>q + 1 / 2\<rfloor> else - \<lfloor>1 / 2 - q\<rfloor>)"

definition parse_percent :: "string \<Rightarrow> u8 option" where
  "parse_percent value =
     (let v = str_trim value in
      if v = [] then None
      else (case parse_f32 v of
              Some (Fin q) \<Rightarrow> Some (of_int (min 100 (max 0 (round_away q))))
            | _ \<Rightarrow> None))"

record split_state =
  sp_renderer :: "(string, string) hmap"
  sp_fillmode :: "fill_mode option"
  sp_rotation :: "rotation option"
  sp_x :: "u8 option"
  sp_y :: "u8 option"

definition split_step :: "string \<times> string \<Rightarrow> split_state \<Rightarrow> split_state" where
  "split_step kv s =
     (let (k, v) = kv in
      if k = FILL_MODE_KEY then s\<lparr>sp_fillmode := parse_fillmode v\<rparr>
      else if k = ROTATION_KEY then s\<lparr>sp_rotation := parse_rotation v\<rparr>
      else if k = LOCATION_X_KEY then s\<lparr>sp_x := parse_percent v\<rparr>
      else if k = LOCATION_Y_KEY then s\<lparr>sp_y := parse_percent v\<rparr>
      else s\<lparr>sp_renderer := hm_insert k v (sp_renderer s)\<rparr>)"

definition split_renderer_properties ::
  "(string \<Rightarrow> (string, string) hmap option) \<Rightarrow> ((string, string) hmap \<Rightarrow> string option) \<Rightarrow> string option \<Rightarrow>
   string option \<times> layout_override" where
  "split_renderer_properties parse print raw =
     (case raw of
        None \<Rightarrow> (None, override_default)
      | Some r \<Rightarrow>
          if str_trim r = [] then (None, override_default)
          else (case parse r of
                  None \<Rightarrow> (Some r, override_default)
                | Some m \<Rightarrow>
                    (let s = fold split_step m
                           \<lparr>sp_renderer = [], sp_fillmode = None, sp_rotation = None, sp_x = None, sp_y = None\<rparr>;
                         loc = (if sp_x s \<noteq> None \<or> sp_y s \<noteq> None
                                then Some (location_new (case sp_x s of None \<Rightarrow> 50 | Some x \<Rightarrow> x)
                                                        (case sp_y s of None \<Rightarrow> 50 | Some y \<Rightarrow> y))
                                else None)
                     in (if sp_renderer s = [] then None else print (sp_renderer s),
                         \<lparr>lo_fillmode = sp_fillmode s, lo_location = loc, lo_rotation = sp_rotation s\<rparr>))))"

section \<open>Remapping\<close>

lemma canonical_idem [simp]: "canonical_user_property_key (canonical_user_property_key k) = canonical_user_property_key k"
  by (simp add: canonical_user_property_key_def key_defs)

lemma canonical_cases:
  "canonical_user_property_key k' = c \<longleftrightarrow>
     (k' = c \<and> c \<noteq> LEGACY_SCHEME_COLOR_KEY) \<or> (k' = LEGACY_SCHEME_COLOR_KEY \<and> c = SCHEME_COLOR_KEY)"
  by (auto simp: canonical_user_property_key_def key_defs)

text \<open>What a remapping loop leaves under a key, whatever the order of the map it runs over.\<close>

definition remapped :: "(string \<rightharpoonup> 'v) \<Rightarrow> string \<Rightarrow> 'v option" where
  "remapped m c =
     (if c = LEGACY_SCHEME_COLOR_KEY then None
      else if m c \<noteq> None then m c
      else if c = SCHEME_COLOR_KEY then m LEGACY_SCHEME_COLOR_KEY
      else None)"

lemma remap_fold:
  assumes "distinct (map fst m)" and "\<And>k. k \<in> fst ` set m \<Longrightarrow> M k = None"
    and "map_of out = remapped M"
  shows "map_of (fold remap_step m out) = remapped (M ++ map_of m)"
  using assms
proof (induction m arbitrary: out M)
  case (Cons kv m)
  obtain k v where kv: "kv = (k, v)" by force
  have M: "M k = None" using Cons.prems(2) kv by simp
  have out: "map_of (remap_step kv out) = remapped (M(k \<mapsto> v))"
    using Cons.prems(3) M
    by (auto simp: kv remap_step_def Let_def remapped_def fun_eq_iff canonical_user_property_key_def key_defs)
  have fresh: "(M(k \<mapsto> v)) j = None" if "j \<in> fst ` set m" for j
    using that Cons.prems(1,2) kv by (auto simp: image_iff)
  have "distinct (map fst m)" using Cons.prems(1) by simp
  then have "map_of (fold remap_step m (remap_step kv out)) = remapped (M(k \<mapsto> v) ++ map_of m)"
    using fresh out by (rule Cons.IH)
  moreover have "map_of m k = None" using Cons.prems(1) kv by (simp add: map_of_eq_None_iff)
  then have "M(k \<mapsto> v) ++ map_of m = M ++ map_of (kv # m)"
    by (simp add: kv fun_eq_iff map_add_def split: option.split)
  ultimately show ?case by (simp only: fold.simps comp_apply)
qed simp

text \<open>
  Normalising user properties does not depend on the order of the hash map: a canonical key
  keeps its value, a legacy key gives its value to the canonical one only when that is absent, and
  no legacy key is left.
\<close>

theorem normalize_order_independent:
  assumes "hm_ok m"
  shows "hm_get (normalize_user_property_overrides m) c =
    (if c = LEGACY_SCHEME_COLOR_KEY then None
     else if hm_get m c \<noteq> None then hm_get m c
     else if c = SCHEME_COLOR_KEY then hm_get m LEGACY_SCHEME_COLOR_KEY
     else None)"
proof -
  have "map_of (normalize_user_property_overrides m) = remapped (Map.empty ++ map_of m)"
    unfolding normalize_user_property_overrides_def
    by (rule remap_fold) (use assms in \<open>auto simp: remapped_def fun_eq_iff\<close>)
  then show ?thesis by (simp add: remapped_def fun_eq_iff)
qed

theorem normalize_order_independent_witness:
  "hm_get (normalize_user_property_overrides
      [(''schemecolor'', ''1''), (''waywallen.scheme_color'', ''2''), (''fps'', ''30'')]) SCHEME_COLOR_KEY = Some ''2''"
  using normalize_order_independent [of "[(''schemecolor'', ''1''), (''waywallen.scheme_color'', ''2''), (''fps'', ''30'')]"
      SCHEME_COLOR_KEY]
  by (simp add: key_defs)

section \<open>Splitting\<close>

lemma split_fold_renderer:
  "distinct (map fst m) \<Longrightarrow> (\<And>k. k \<in> fst ` set m \<Longrightarrow> hm_get (sp_renderer s) k = None) \<Longrightarrow>
   hm_get (sp_renderer (fold split_step m s)) k =
     (case hm_get (sp_renderer s) k of
        Some v \<Rightarrow> Some v
      | None \<Rightarrow> if is_daemon_display_property_key k then None else hm_get m k)"
proof (induction m arbitrary: s)
  case (Cons kv m)
  obtain j v where kv: "kv = (j, v)" by force
  have get: "hm_get (sp_renderer (split_step kv s)) i =
      (if i = j \<and> \<not> is_daemon_display_property_key j then Some v else hm_get (sp_renderer s) i)" for i
    by (auto simp: kv split_step_def is_daemon_display_property_key_def)
  have "hm_get (sp_renderer (split_step kv s)) i = None" if "i \<in> fst ` set m" for i
    using that Cons.prems kv get [of i] by (auto simp: image_iff)
  then have IH: "hm_get (sp_renderer (fold split_step m (split_step kv s))) k =
      (case hm_get (sp_renderer (split_step kv s)) k of
         Some v \<Rightarrow> Some v | None \<Rightarrow> if is_daemon_display_property_key k then None else hm_get m k)"
    using Cons.prems(1) by (intro Cons.IH) simp_all
  show ?case
  proof (cases "k = j")
    case True
    then have "hm_get m k = None" "hm_get (sp_renderer s) k = None"
      using Cons.prems kv by (simp_all add: map_of_eq_None_iff)
    then show ?thesis using IH get [of k] True kv by simp
  next
    case False
    then show ?thesis using IH get [of k] unfolding kv by (simp split: option.split)
  qed
qed (simp split: option.split)

text \<open>
  The properties handed to a renderer are exactly those stored that are not the daemon's
  own, each with its value; when there are none it gets no property document at all.
\<close>

theorem split_keeps_renderer_keys:
  assumes "parse r = Some m" and "hm_ok m" and "str_trim r \<noteq> []"
  shows "\<exists>q. fst (split_renderer_properties parse print (Some r)) = (if q = [] then None else print q) \<and>
    (\<forall>k. hm_get q k = (if is_daemon_display_property_key k then None else hm_get m k))"
proof -
  let ?s0 = "\<lparr>sp_renderer = [], sp_fillmode = None, sp_rotation = None, sp_x = None, sp_y = None\<rparr>"
  have "hm_get (sp_renderer (fold split_step m ?s0)) k =
      (if is_daemon_display_property_key k then None else hm_get m k)" for k
    using split_fold_renderer [of m ?s0 k] assms(2) by simp
  then show ?thesis
    using assms unfolding split_renderer_properties_def Let_def
    by (intro exI [of _ "sp_renderer (fold split_step m ?s0)"]) simp
qed

theorem split_keeps_renderer_keys_witness:
  "\<exists>q. fst (split_renderer_properties (\<lambda>_. Some [(''waywallen.rotation'', ''cw_90''), (''fps'', ''30'')])
       (\<lambda>q. Some (concat (map fst q))) (Some ''x'')) = (if q = [] then None else Some (concat (map fst q))) \<and>
    (\<forall>k. hm_get q k = (if is_daemon_display_property_key k then None
                        else hm_get [(''waywallen.rotation'', ''cw_90''), (''fps'', ''30'')] k))"
  by (rule split_keeps_renderer_keys) (simp_all add: str_trim_def is_space_def)

text \<open>An override built from a layout hides whatever it is applied to; an empty one changes nothing.\<close>

lemma apply_from_resolved [simp]: "apply_to (from_resolved l) base = l"
  by (simp add: apply_to_def from_resolved_def)

lemma apply_empty: "override_is_empty o' \<Longrightarrow> apply_to o' base = base"
  by (simp add: apply_to_def override_is_empty_def)

end
