(* ===== verification/Sorts.thy ===== *)
theory Sorts
  imports Wallpaper "HOL-Library.Sorting_Algorithms"
begin

text \<open>
  The composite sort of the wallpaper browser, \<open>src/wallpaper/sort.rs\<close>, over the entries of
  \<open>src/wallpaper/types.rs\<close>. \<open>sort_by\<close> is the stable sort of the library; \<open>lower\<close> is the
  Unicode \<open>to_lowercase\<close>, a parameter.
\<close>

section \<open>Entries and rules\<close>

record wallpaper_entry =
  we_item_id :: i64
  we_name :: string
  we_wp_type :: string
  we_resource :: string
  we_preview :: "string option"
  we_description :: "string option"
  we_tags :: "string list"
  we_external_id :: "string option"
  we_size :: "i64 option"
  we_width :: "u32 option"
  we_height :: "u32 option"
  we_content_rating :: "string option"
  we_modified_at :: "i64 option"
  we_plugin_name :: string
  we_library_root :: string

datatype sort_key = ByName | ByWpType | BySize | ByLastModified

text \<open>\<open>WallpaperSortKey::try_from\<close>; the unspecified key is skipped like an unknown one.\<close>

definition sort_key_of :: "i32 \<Rightarrow> sort_key option" where
  "sort_key_of k =
     (if k = 1 then Some ByName else if k = 2 then Some ByWpType else if k = 3 then Some BySize
      else if k = 4 then Some ByLastModified else None)"

definition sort_desc :: "i32 \<Rightarrow> bool" where
  "sort_desc d \<longleftrightarrow> d = 2"

text \<open>\<open>unwrap_or(0)\<close>, in the signed order of \<open>i64\<close>.\<close>

definition or_zero :: "i64 option \<Rightarrow> int" where
  "or_zero v = (case v of None \<Rightarrow> 0 | Some n \<Rightarrow> sint n)"

fun key_comparator :: "(string \<Rightarrow> string) \<Rightarrow> sort_key \<Rightarrow> wallpaper_entry comparator" where
  "key_comparator lower ByName = key (\<lambda>e. lower (we_name e)) default"
| "key_comparator lower ByWpType = key we_wp_type default"
| "key_comparator lower BySize = key (\<lambda>e. or_zero (we_size e)) default"
| "key_comparator lower ByLastModified = key (\<lambda>e. or_zero (we_modified_at e)) default"

definition rule_comparator :: "(string \<Rightarrow> string) \<Rightarrow> sort_rule \<Rightarrow> wallpaper_entry comparator option" where
  "rule_comparator lower r =
     (case sort_key_of (sr_key r) of
        None \<Rightarrow> None
      | Some k \<Rightarrow>
          Some (if sort_desc (sr_direction r) then reversed (key_comparator lower k) else key_comparator lower k))"

definition apply_wallpaper_sorts ::
  "(string \<Rightarrow> string) \<Rightarrow> sort_rule list \<Rightarrow> wallpaper_entry list \<Rightarrow> wallpaper_entry list" where
  "apply_wallpaper_sorts lower sorts entries =
     fold (\<lambda>rule es. case rule_comparator lower rule of
             None \<Rightarrow> es
           | Some c \<Rightarrow> Sorting_Algorithms.sort c es) (rev sorts) entries"

section \<open>Composite orders\<close>

text \<open>Compare by the first order, and where it does not decide, by the second.\<close>

lift_definition lex :: "'a comparator \<Rightarrow> 'a comparator \<Rightarrow> 'a comparator"
  is "\<lambda>c d a b. if c a b = Equiv then d a b else c a b"
proof -
  fix c d :: "'a \<Rightarrow> 'a \<Rightarrow> comp"
  assume c: "comparator c" and d: "comparator d"
  show "comparator (\<lambda>a b. if c a b = Equiv then d a b else c a b)"
  proof
    fix x y z
    let ?l = "\<lambda>a b. if c a b = Equiv then d a b else c a b"
    show "?l x x = Equiv" by (simp add: comparator.refl [OF c] comparator.refl [OF d])
    show "?l x y = Equiv \<Longrightarrow> ?l y z = Equiv \<Longrightarrow> ?l x z = Equiv"
      by (auto split: if_splits intro: comparator.trans_equiv [OF c] comparator.trans_equiv [OF d])
    show "?l x y = Less \<Longrightarrow> ?l y z = Less \<Longrightarrow> ?l x z = Less"
      using comparator.trans_less [OF c, of x y z] comparator.trans_less [OF d, of x y z]
        comparator.trans_equiv_less [OF c, of x y z] comparator.trans_less_equiv [OF c, of x y z]
        comparator.trans_equiv [OF c, of x y z]
      by (auto split: if_splits)
    show "?l y x = Greater \<longleftrightarrow> ?l x y = Less"
      using comparator.greater_iff_sym_less [OF c, of y x] comparator.greater_iff_sym_less [OF d, of y x]
        comparator.sym [OF c, of x y]
      by (auto split: if_splits)
  qed
qed

lemma compare_lex:
  "compare (lex c d) a b = (if compare c a b = Equiv then compare d a b else compare c a b)"
  by transfer simp

lemma lex_not_greater:
  "compare (lex c d) a b \<noteq> Greater \<longleftrightarrow>
     compare c a b \<noteq> Greater \<and> (compare c a b = Equiv \<longrightarrow> compare d a b \<noteq> Greater)"
  by (auto simp: compare_lex)

text \<open>Sorting by the second order and then, stably, by the first sorts by the composite.\<close>

lemma insort_lex:
  assumes "\<And>y. y \<in> set ys \<Longrightarrow> compare d x y \<noteq> Greater"
  shows "Sorting_Algorithms.insort c x ys = Sorting_Algorithms.insort (lex c d) x ys"
  using assms
proof (induction ys)
  case (Cons y ys)
  then have "compare c x y \<noteq> Greater \<longleftrightarrow> compare (lex c d) x y \<noteq> Greater"
    by (auto simp: compare_lex)
  with Cons show ?case by simp
qed simp

lemma sort_sort:
  "Sorting_Algorithms.sorted d xs \<Longrightarrow> Sorting_Algorithms.sort c xs = Sorting_Algorithms.sort (lex c d) xs"
proof (induction xs rule: sorted_induct)
  case (Cons x xs)
  then have "Sorting_Algorithms.insort c x (Sorting_Algorithms.sort (lex c d) xs) =
      Sorting_Algorithms.insort (lex c d) x (Sorting_Algorithms.sort (lex c d) xs)"
    by (intro insort_lex) auto
  with Cons show ?case by simp
qed simp

lemma sort_sort_lex:
  "Sorting_Algorithms.sort c (Sorting_Algorithms.sort d xs) = Sorting_Algorithms.sort (lex c d) xs"
proof -
  have seg: "stable_segment (lex c d) x ys = filter (\<lambda>y. compare c x y = Equiv) (stable_segment d x ys)"
    for x ys by (auto simp: compare_lex intro!: filter_cong split: if_splits)
  have "Sorting_Algorithms.sort (lex c d) (Sorting_Algorithms.sort d xs) = Sorting_Algorithms.sort (lex c d) xs"
  proof (rule sort_eqI)
    fix y
    have "stable_segment (lex c d) y (Sorting_Algorithms.sort d xs) = stable_segment (lex c d) y xs"
      unfolding seg stable_sort ..
    then show "stable_segment (lex c d) y (Sorting_Algorithms.sort d xs) =
        stable_segment (lex c d) y (Sorting_Algorithms.sort (lex c d) xs)"
      by (simp only: stable_sort)
  qed simp_all
  then show ?thesis using sort_sort [OF sorted_sort, of c d xs] by simp
qed

text \<open>The order that the rules describe: the first rule decides first.\<close>

fun rules_comparator :: "(string \<Rightarrow> string) \<Rightarrow> sort_rule list \<Rightarrow> wallpaper_entry comparator" where
  "rules_comparator lower [] = flat"
| "rules_comparator lower (r # rs) =
     (case rule_comparator lower r of
        None \<Rightarrow> rules_comparator lower rs
      | Some c \<Rightarrow> lex c (rules_comparator lower rs))"

lemma sort_flat: "Sorting_Algorithms.sort flat xs = xs"
proof (induction xs)
  case (Cons x xs)
  have "compare flat a b = Equiv" for a b :: 'a by transfer simp
  then show ?case using Cons by (cases xs) simp_all
qed simp

text \<open>
  The sort loop, which applies its rules last to first with a stable sort each, gives the
  same list as one stable sort by the lexicographic order of the rules; rules with an unknown
  key count for nothing.
\<close>

theorem composite_sort:
  "apply_wallpaper_sorts lower rules entries = Sorting_Algorithms.sort (rules_comparator lower rules) entries"
proof (induction rules)
  case (Cons r rs)
  have "apply_wallpaper_sorts lower (r # rs) entries =
      (case rule_comparator lower r of
         None \<Rightarrow> Sorting_Algorithms.sort (rules_comparator lower rs) entries
       | Some c \<Rightarrow> Sorting_Algorithms.sort c (Sorting_Algorithms.sort (rules_comparator lower rs) entries))"
    using Cons by (simp add: apply_wallpaper_sorts_def split: option.split)
  then show ?case by (simp add: sort_sort_lex split: option.split)
qed (simp add: apply_wallpaper_sorts_def sort_flat)

end
