(* ===== verification/Registry.thy ===== *)
theory Registry
  imports Wallpaper
begin

text \<open>
  Renderer plugins, \<open>src/plugin/renderer_registry.rs\<close>, and the reconciliation of the stored
  plugin settings with their schemas, \<open>SettingsStore::reconcile\<close> of \<open>src/settings.rs\<close>.

  A TOML value keeps the kinds the code tells apart; a float (\<open>f64\<close>) is a value of \<open>f32\<close> that is
  not rounded to single precision. The shortest decimal printing of floats and the printing of
  other TOML values are parameters, collected in a record. The file system appears as what it
  returned: the entries of a directory with their parsed manifests.
\<close>

section \<open>Schemas\<close>

datatype toml = TInt i64 | TFloat f32 | TStr string | TBool bool | TOther

record printers =
  show_f32 :: "f32 \<Rightarrow> string"
  show_f64 :: "f32 \<Rightarrow> string"
  show_toml :: "toml \<Rightarrow> string"

datatype setting_type = U32 | F32 | String | Bool

record setting_def =
  sd_ty :: setting_type
  sd_default :: toml
  sd_identity :: bool
  sd_label_key :: "string option"
  sd_description_key :: "string option"
  sd_min :: "toml option"
  sd_max :: "toml option"
  sd_step :: "toml option"
  sd_choices :: "string list option"
  sd_group :: "string option"
  sd_order :: "i32 option"

definition setting_def_new :: "setting_type \<Rightarrow> toml \<Rightarrow> bool \<Rightarrow> setting_def" where
  "setting_def_new ty d i =
     \<lparr>sd_ty = ty, sd_default = d, sd_identity = i, sd_label_key = None, sd_description_key = None,
      sd_min = None, sd_max = None, sd_step = None, sd_choices = None, sd_group = None, sd_order = None\<rparr>"

type_synonym schema = "(string, setting_def) hmap"

datatype validation_error =
    BadSettingType string setting_type string
  | OutOfRange string string "string option" "string option"
  | BadChoice string string "string list"

section \<open>Validation\<close>

definition show_int :: "int \<Rightarrow> string" where
  "show_int i = (if i < 0 then CHR ''-'' # show_nat (nat (- i)) else show_nat (nat i))"

definition show_u32 :: "u32 \<Rightarrow> string" where
  "show_u32 w = show_nat (unat w)"

definition toml_value_to_display :: "printers \<Rightarrow> toml \<Rightarrow> string" where
  "toml_value_to_display pr v =
     (case v of
        TInt i \<Rightarrow> show_int (sint i)
      | TFloat f \<Rightarrow> show_f64 pr f
      | TStr s \<Rightarrow> s
      | other \<Rightarrow> show_toml pr other)"

definition toml_to_u32 :: "toml \<Rightarrow> u32 option" where
  "toml_to_u32 v =
     (case v of
        TInt i \<Rightarrow> if 0 \<le> sint i then (if sint i < 2 ^ 32 then Some (word_of_int (sint i)) else None) else None
      | TStr s \<Rightarrow> parse_u32 s
      | _ \<Rightarrow> None)"

text \<open>The cast of an \<open>f64\<close> to \<open>f32\<close> rounds a finite value once.\<close>

definition f64_as_f32 :: "f32 \<Rightarrow> f32" where
  "f64_as_f32 f = (case f of Fin q \<Rightarrow> f32_round q | _ \<Rightarrow> f)"

definition toml_to_f32 :: "toml \<Rightarrow> f32 option" where
  "toml_to_f32 v =
     (case v of
        TInt i \<Rightarrow> Some (f32_round (of_int (sint i)))
      | TFloat f \<Rightarrow> Some (f64_as_f32 f)
      | TStr s \<Rightarrow> parse_f32 s
      | _ \<Rightarrow> None)"

definition out_of_range :: "printers \<Rightarrow> string \<Rightarrow> string \<Rightarrow> setting_def \<Rightarrow> validation_error" where
  "out_of_range pr k coerced d =
     OutOfRange k coerced (map_option (toml_value_to_display pr) (sd_min d))
       (map_option (toml_value_to_display pr) (sd_max d))"

definition f32_less :: "f32 \<Rightarrow> f32 \<Rightarrow> bool" where
  "f32_less a b \<longleftrightarrow> f32_le a b \<and> \<not> f32_eq a b"

definition check_setting_bounds ::
  "printers \<Rightarrow> string \<Rightarrow> string \<Rightarrow> setting_def \<Rightarrow> validation_error + unit" where
  "check_setting_bounds pr k coerced d =
     (case sd_ty d of
        U32 \<Rightarrow>
          (case parse_u32 coerced of
             None \<Rightarrow> Inl (BadSettingType k U32 coerced)
           | Some v \<Rightarrow>
               if (case Option.bind (sd_min d) toml_to_u32 of Some m \<Rightarrow> v < m | None \<Rightarrow> False)
               then Inl (out_of_range pr k coerced d)
               else if (case Option.bind (sd_max d) toml_to_u32 of Some m \<Rightarrow> m < v | None \<Rightarrow> False)
               then Inl (out_of_range pr k coerced d)
               else Inr ())
      | F32 \<Rightarrow>
          (case parse_f32 coerced of
             None \<Rightarrow> Inl (BadSettingType k F32 coerced)
           | Some v \<Rightarrow>
               if (case Option.bind (sd_min d) toml_to_f32 of Some m \<Rightarrow> f32_less v m | None \<Rightarrow> False)
               then Inl (out_of_range pr k coerced d)
               else if (case Option.bind (sd_max d) toml_to_f32 of Some m \<Rightarrow> f32_less m v | None \<Rightarrow> False)
               then Inl (out_of_range pr k coerced d)
               else Inr ())
      | String \<Rightarrow>
          (case sd_choices d of
             Some cs \<Rightarrow> if coerced \<in> set cs then Inr () else Inl (BadChoice k coerced cs)
           | None \<Rightarrow> Inr ())
      | Bool \<Rightarrow> Inr ())"

definition coerce_setting :: "printers \<Rightarrow> string \<Rightarrow> setting_type \<Rightarrow> string option" where
  "coerce_setting pr raw ty =
     (case ty of
        U32 \<Rightarrow> map_option show_u32 (parse_u32 raw)
      | F32 \<Rightarrow> map_option (show_f32 pr) (parse_f32 raw)
      | Bool \<Rightarrow> if raw = ''true'' \<or> raw = ''false'' then Some raw else None
      | String \<Rightarrow> Some raw)"

definition coerce_and_validate ::
  "printers \<Rightarrow> string \<Rightarrow> string \<Rightarrow> setting_def \<Rightarrow> validation_error + string" where
  "coerce_and_validate pr k raw d =
     (case coerce_setting pr raw (sd_ty d) of
        None \<Rightarrow> Inl (BadSettingType k (sd_ty d) raw)
      | Some coerced \<Rightarrow>
          (case check_setting_bounds pr k coerced d of
             Inl e \<Rightarrow> Inl e
           | Inr _ \<Rightarrow> Inr coerced))"

definition show_bool :: "bool \<Rightarrow> string" where
  "show_bool b = (if b then ''true'' else ''false'')"

fun toml_default_to_string :: "printers \<Rightarrow> toml \<Rightarrow> setting_type \<Rightarrow> string option" where
  "toml_default_to_string pr (TInt i) U32 = (if 0 \<le> sint i then Some (show_int (sint i)) else None)"
| "toml_default_to_string pr (TInt i) F32 = Some (show_f32 pr (f32_round (of_int (sint i))))"
| "toml_default_to_string pr (TFloat f) F32 = Some (show_f64 pr f)"
| "toml_default_to_string pr (TBool b) Bool = Some (show_bool b)"
| "toml_default_to_string pr (TStr s) String = Some s"
| "toml_default_to_string pr (TStr s) other = coerce_setting pr s other"
| "toml_default_to_string pr _ _ = None"

section \<open>The registry\<close>

record renderer_def =
  rd_name :: string
  rd_plugin_id :: string
  rd_bin :: string
  rd_types :: "string list"
  rd_priority :: u32
  rd_spawn_version :: "u32 option"
  rd_extras :: "string list"
  rd_settings :: schema
  rd_events :: "string list"

type_synonym registry = "(string, renderer_def list) hmap"

text \<open>\<open>sort_by(|a, b| b.priority.cmp(&a.priority))\<close> is stable; \<open>sort_key\<close> is stable too.\<close>

definition falling :: "renderer_def \<Rightarrow> int" where
  "falling d = - int (unat (rd_priority d))"

definition by_priority :: "renderer_def list \<Rightarrow> renderer_def list" where
  "by_priority ds = sort_key falling ds"

definition registry_new :: registry where
  "registry_new = []"

definition register :: "renderer_def \<Rightarrow> registry \<Rightarrow> registry" where
  "register d reg =
     fold (\<lambda>ty r. hm_insert ty (by_priority (hm_list r ty @ [d])) r) (rd_types d) reg"

definition resolve :: "registry \<Rightarrow> string \<Rightarrow> renderer_def option" where
  "resolve reg ty =
     (case hm_get reg ty of None \<Rightarrow> None | Some [] \<Rightarrow> None | Some (d # _) \<Rightarrow> Some d)"

definition resolve_by_name :: "registry \<Rightarrow> string \<Rightarrow> renderer_def option" where
  "resolve_by_name reg name = find (\<lambda>d. rd_name d = name) (concat (map snd reg))"

definition supported_types :: "registry \<Rightarrow> string list" where
  "supported_types reg = hm_keys reg"

definition dedup_step :: "renderer_def \<Rightarrow> string set \<times> renderer_def list \<Rightarrow> string set \<times> renderer_def list" where
  "dedup_step d so =
     (if rd_name d \<in> fst so then so else (insert (rd_name d) (fst so), snd so @ [d]))"

definition all_renderers :: "registry \<Rightarrow> renderer_def list" where
  "all_renderers reg = snd (fold dedup_step (concat (map snd reg)) ({}, []))"

section \<open>Scanning plugin directories\<close>

record plugin_meta =
  pm_id :: string
  pm_name :: string
  pm_version :: string
  pm_entry :: "string option"
  pm_entry_version :: "u32 option"
  pm_files :: "string list"
  pm_system :: bool

record plugin_manifest =
  mf_plugin :: plugin_meta
  mf_renderers :: "(string, renderer_def) hmap"

record entry_ref =
  er_plugin_id :: string
  er_plugin_version :: string
  er_entry :: string
  er_entry_version :: u32

record plugin_scan =
  ps_renderers :: "renderer_def list"
  ps_entries :: "entry_ref list"
  ps_plugins :: "plugin_meta list"

record plugin_package_meta =
  pp_id :: string
  pp_name :: string
  pp_version :: string
  pp_has_entry :: bool
  pp_system :: bool

definition scan_default :: plugin_scan where
  "scan_default = \<lparr>ps_renderers = [], ps_entries = [], ps_plugins = []\<rparr>"

text \<open>The names already present are taken once, before the other scan's items are pushed.\<close>

definition merge :: "plugin_scan \<Rightarrow> plugin_scan \<Rightarrow> plugin_scan" where
  "merge self other =
     \<lparr>ps_renderers = ps_renderers self @
        filter (\<lambda>d. rd_name d \<notin> rd_name ` set (ps_renderers self)) (ps_renderers other),
      ps_entries = ps_entries self @
        filter (\<lambda>e. er_plugin_id e \<notin> er_plugin_id ` set (ps_entries self)) (ps_entries other),
      ps_plugins = ps_plugins self @
        filter (\<lambda>m. pm_id m \<notin> pm_id ` set (ps_plugins self)) (ps_plugins other)\<rparr>"

definition packages :: "plugin_scan \<Rightarrow> plugin_package_meta list" where
  "packages s = map (\<lambda>m.
     \<lparr>pp_id = pm_id m, pp_name = pm_name m, pp_version = pm_version m,
      pp_has_entry = (\<exists>e \<in> set (ps_entries s). er_plugin_id e = pm_id m), pp_system = pm_system m\<rparr>)
     (ps_plugins s)"

definition is_known_event_kind :: "string \<Rightarrow> bool" where
  "is_known_event_kind name \<longleftrightarrow> name = ''pointer''"

definition resolve_rel :: "string \<Rightarrow> string \<Rightarrow> string" where
  "resolve_rel base p = (case p of CHR ''/'' # _ \<Rightarrow> p | _ \<Rightarrow> path_join base p)"

text \<open>\<open>Path::starts_with\<close> compares whole components.\<close>

definition path_components :: "string \<Rightarrow> string list" where
  "path_components p =
     (if take 1 p = ''/'' then [''/''] else []) @ filter (\<lambda>c. c \<noteq> [] \<and> c \<noteq> ''.'') (split_on (CHR ''/'') p)"

definition path_starts_with :: "string \<Rightarrow> string \<Rightarrow> bool" where
  "path_starts_with p base \<longleftrightarrow> take (length (path_components base)) (path_components p) = path_components base"

text \<open>A path with what \<open>canonicalize\<close> returned for it.\<close>

definition is_under :: "string \<times> string option \<Rightarrow> (string \<times> string option) option \<Rightarrow> bool" where
  "is_under path base =
     (case base of
        None \<Rightarrow> False
      | Some (r, cr) \<Rightarrow>
          (case (snd path, cr) of
             (Some p, Some r') \<Rightarrow> path_starts_with p r'
           | _ \<Rightarrow> path_starts_with (fst path) r))"

text \<open>
  An entry of the directory: its path, its canonical path, whether it is a directory, whether
  it holds a \<open>plugin.toml\<close>, that file read and parsed, and the text of its \<open>files.txt\<close>.
\<close>

record dir_entry =
  de_path :: string
  de_canonical :: "string option"
  de_is_dir :: bool
  de_has_manifest :: bool
  de_manifest :: "plugin_manifest option"
  de_files :: "string option"

definition scan_entry :: "(string \<times> string option) option \<Rightarrow> dir_entry \<Rightarrow> plugin_scan \<Rightarrow> plugin_scan" where
  "scan_entry user_root de out =
     (if \<not> de_is_dir de then out
      else if \<not> de_has_manifest de then out
      else (case de_manifest de of
        None \<Rightarrow> out
      | Some manifest \<Rightarrow>
          (let meta0 = mf_plugin manifest;
               files = (case de_files de of
                          Some t \<Rightarrow> filter (\<lambda>l. l \<noteq> []) (map str_trim (split_on (CHR 0x0A) t))
                        | None \<Rightarrow> []);
               meta = meta0\<lparr>pm_system := \<not> is_under (de_path de, de_canonical de) user_root,
                            pm_files := pm_files meta0 @ files, pm_entry := None\<rparr>;
               entries = (case (pm_entry meta0, pm_entry_version meta0) of
                            (Some e, Some v) \<Rightarrow>
                              [\<lparr>er_plugin_id = pm_id meta0, er_plugin_version = pm_version meta0,
                                er_entry = resolve_rel (de_path de) e, er_entry_version = v\<rparr>]
                          | _ \<Rightarrow> []);
               defs = map (\<lambda>(name, d). d\<lparr>rd_name := name, rd_plugin_id := pm_id meta0,
                         rd_bin := resolve_rel (de_path de) (rd_bin d),
                         rd_events := filter is_known_event_kind (rd_events d)\<rparr>) (mf_renderers manifest)
           in \<lparr>ps_renderers = ps_renderers out @ defs, ps_entries = ps_entries out @ entries,
               ps_plugins = ps_plugins out @ [meta]\<rparr>)))"

text \<open>\<open>None\<close> for a directory that could not be read.\<close>

definition scan_plugins :: "(string \<times> string option) option \<Rightarrow> dir_entry list option \<Rightarrow> plugin_scan" where
  "scan_plugins user_root entries =
     (case entries of None \<Rightarrow> scan_default | Some es \<Rightarrow> fold (scan_entry user_root) es scan_default)"

text \<open>Each root with whether it is a directory, and its entries.\<close>

definition build_default_plugin_scan ::
  "(string \<times> string option) option \<Rightarrow> (bool \<times> dir_entry list option) list \<Rightarrow> plugin_scan" where
  "build_default_plugin_scan user_root dirs =
     fold (\<lambda>(is_dir, es) scan. if is_dir then merge scan (scan_plugins user_root es) else scan) dirs scan_default"

text \<open>\<open>exe\<close> is the path of the running program, if known; its grandparent holds \<open>share\<close>.\<close>

definition path_parent :: "string \<Rightarrow> string option" where
  "path_parent p =
     (case rev p of
        [] \<Rightarrow> None
      | r \<Rightarrow> (let rest = dropWhile (\<lambda>c. c \<noteq> CHR ''/'') (dropWhile (\<lambda>c. c = CHR ''/'') r)
              in if dropWhile (\<lambda>c. c = CHR ''/'') r = [] then None
                 else if rest = [] then Some []
                 else if dropWhile (\<lambda>c. c = CHR ''/'') rest = [] then Some ''/''
                 else Some (rev (dropWhile (\<lambda>c. c = CHR ''/'') rest))))"

definition standard_plugin_dirs ::
  "string option \<Rightarrow> string option \<Rightarrow> string option \<Rightarrow> string \<Rightarrow> string list" where
  "standard_plugin_dirs exe xdg_data_home home subdir =
     (case Option.bind (Option.bind exe path_parent) path_parent of
        Some prefix \<Rightarrow> [path_join (path_join prefix ''share/waywallen'') subdir]
      | None \<Rightarrow> []) @
     [path_join (path_join
        (case xdg_data_home of Some d \<Rightarrow> d
         | None \<Rightarrow> path_join (case home of Some h \<Rightarrow> h | None \<Rightarrow> []) ''.local/share'')
        ''waywallen'') subdir]"

section \<open>Reconciling the stored settings\<close>

text \<open>The default a missing or bad value is replaced by.\<close>

definition default_string :: "printers \<Rightarrow> setting_def \<Rightarrow> string" where
  "default_string pr d =
     (case (sd_ty d, sd_default d) of
        (_, TStr s) \<Rightarrow> s
      | (U32, TInt i) \<Rightarrow> if 0 \<le> sint i then show_int (sint i) else show_toml pr (TInt i)
      | (F32, TFloat f) \<Rightarrow> show_f64 pr f
      | (F32, TInt i) \<Rightarrow> show_f32 pr (f32_round (of_int (sint i)))
      | (Bool, TBool b) \<Rightarrow> show_bool b
      | (_, other) \<Rightarrow> show_toml pr other)"

definition needs_default :: "printers \<Rightarrow> (string, string) hmap \<Rightarrow> string \<times> setting_def \<Rightarrow> bool" where
  "needs_default pr entry kd =
     (case hm_get entry (fst kd) of
        None \<Rightarrow> True
      | Some v \<Rightarrow> (case check_setting_bounds pr (fst kd) v (snd kd) of Inr _ \<Rightarrow> False | Inl _ \<Rightarrow> True))"

definition fill_step ::
  "printers \<Rightarrow> string \<times> setting_def \<Rightarrow> (string, string) hmap \<times> bool \<Rightarrow> (string, string) hmap \<times> bool" where
  "fill_step pr kd ec =
     (let (entry, changed) = ec; d = default_string pr (snd kd) in
      if needs_default pr entry kd \<and> hm_get entry (fst kd) \<noteq> Some d
      then (hm_insert (fst kd) d entry, True) else ec)"

definition drop_stale :: "schema \<Rightarrow> (string, string) hmap \<Rightarrow> (string, string) hmap \<times> bool" where
  "drop_stale s entry =
     (let stale = filter (\<lambda>k. hm_get s k = None) (hm_keys entry)
      in (fold hm_remove stale entry, stale \<noteq> []))"

text \<open>One plugin: \<open>entry(name).or_default()\<close>, then the stale keys, then the schema's keys.\<close>

definition reconcile_entry :: "printers \<Rightarrow> schema \<Rightarrow> (string, string) hmap \<Rightarrow> (string, string) hmap \<times> bool" where
  "reconcile_entry pr s entry =
     (let (entry1, c1) = drop_stale s entry;
          (entry2, c2) = fold (fill_step pr) s (entry1, False)
      in (entry2, c1 \<or> c2))"

definition reconcile_plugin ::
  "printers \<Rightarrow> string \<times> schema \<Rightarrow> (string, (string, string) hmap) hmap \<times> bool
     \<Rightarrow> (string, (string, string) hmap) hmap \<times> bool" where
  "reconcile_plugin pr ns pc =
     (let (name, s) = ns; (plugins, changed) = pc in
      if s = [] then pc
      else (let entry = (case hm_get plugins name of None \<Rightarrow> [] | Some e \<Rightarrow> e);
                (entry', c) = reconcile_entry pr s entry
            in (hm_insert name entry' plugins, changed \<or> c)))"

definition manifests_of :: "registry \<Rightarrow> (string, schema) hmap" where
  "manifests_of reg = map (\<lambda>d. (rd_name d, rd_settings d)) (all_renderers reg)"

text \<open>The store is marked dirty and its writer notified exactly when something changed.\<close>

definition reconcile :: "printers \<Rightarrow> registry \<Rightarrow> store \<Rightarrow> bool \<times> store" where
  "reconcile pr reg st =
     (let (plugins', changed) = fold (reconcile_plugin pr) (manifests_of reg) (set_plugins (st_inner st), False);
          st1 = st\<lparr>st_inner := (st_inner st)\<lparr>set_plugins := plugins'\<rparr>\<rparr>
      in (changed, if changed then st1\<lparr>st_dirty := True, st_permit := True\<rparr> else st1))"

section \<open>Validated settings\<close>

lemma f32_less_NaN [simp]: "\<not> f32_less NaN a" "\<not> f32_less a NaN"
  by (cases a; simp add: f32_less_def)+

lemma parse_u32_show: "parse_u32 (show_u32 v) = Some v"
  by (simp add: show_u32_def parse_show_u32)

text \<open>
  An accepted unsigned setting is stored in canonical form: it parses to the value of the raw
  text and lies between the declared bounds.
\<close>

theorem accepted_u32_in_bounds:
  assumes "coerce_and_validate pr k raw d = Inr s" and "sd_ty d = U32"
  shows "\<exists>v. parse_u32 raw = Some v \<and> parse_u32 s = Some v \<and>
    (\<forall>m \<in> set_option (Option.bind (sd_min d) toml_to_u32). m \<le> v) \<and>
    (\<forall>m \<in> set_option (Option.bind (sd_max d) toml_to_u32). v \<le> m)"
proof -
  obtain v where v: "parse_u32 raw = Some v"
    using assms by (cases "parse_u32 raw") (auto simp: coerce_and_validate_def coerce_setting_def)
  then have "s = show_u32 v" "check_setting_bounds pr k (show_u32 v) d = Inr ()"
    using assms by (auto simp: coerce_and_validate_def coerce_setting_def split: sum.splits)
  then show ?thesis using v assms(2)
    by (intro exI [of _ v])
      (auto simp: check_setting_bounds_def parse_u32_show not_less split: option.splits if_splits)
qed

theorem accepted_u32_in_bounds_witness:
  "\<exists>v. parse_u32 ''+30'' = Some v \<and> parse_u32 (show_u32 30) = Some v \<and> 10 \<le> v \<and> v \<le> 60"
proof -
  let ?d = "(setting_def_new U32 (TInt 30) False)\<lparr>sd_min := Some (TStr ''10''), sd_max := Some (TStr ''60'')\<rparr>"
  let ?pr = "\<lparr>show_f32 = \<lambda>_. [], show_f64 = \<lambda>_. [], show_toml = \<lambda>_. []\<rparr>"
  have p: "parse_u32 ''+30'' = Some 30" by (simp add: parse_u32_def digit_of_def)
  have lo: "Option.bind (sd_min ?d) toml_to_u32 = Some 10"
  proof -
    have "parse_u32 ''10'' = Some 10" by (simp add: parse_u32_def digit_of_def)
    then show ?thesis by (simp add: toml_to_u32_def)
  qed
  have hi: "Option.bind (sd_max ?d) toml_to_u32 = Some 60"
  proof -
    have "parse_u32 ''60'' = Some 60" by (simp add: parse_u32_def digit_of_def)
    then show ?thesis by (simp add: toml_to_u32_def)
  qed
  have ty: "sd_ty ?d = U32" by (simp add: setting_def_new_def)
  have "check_setting_bounds ?pr ''fps'' (show_u32 30) ?d = Inr ()"
    unfolding check_setting_bounds_def ty lo hi parse_u32_show by simp
  then have "coerce_and_validate ?pr ''fps'' ''+30'' ?d = Inr (show_u32 30)"
    unfolding coerce_and_validate_def coerce_setting_def ty p by simp
  from accepted_u32_in_bounds [OF this ty] show ?thesis
    unfolding lo hi p by simp
qed

text \<open>
  A float setting accepts \<open>nan\<close> whatever its bounds, as every comparison with it is false.
\<close>

theorem nan_passes_bounds:
  assumes "sd_ty d = F32" and "parse_f32 (show_f32 pr NaN) = Some NaN"
  shows "coerce_and_validate pr k ''nan'' d = Inr (show_f32 pr NaN)"
proof -
  have "parse_f32 ''nan'' = Some NaN" by code_simp
  then show ?thesis using assms
    by (simp add: coerce_and_validate_def coerce_setting_def check_setting_bounds_def split: option.split)
qed

theorem nan_passes_bounds_witness:
  "coerce_and_validate \<lparr>show_f32 = \<lambda>_. ''NaN'', show_f64 = \<lambda>_. [], show_toml = \<lambda>_. []\<rparr> ''volume'' ''nan''
     ((setting_def_new F32 (TInt 1) False)\<lparr>sd_min := Some (TInt 0), sd_max := Some (TInt 1)\<rparr>) = Inr ''NaN''"
proof -
  have "parse_f32 ''NaN'' = Some NaN" by code_simp
  then show ?thesis by (subst nan_passes_bounds) (simp_all add: setting_def_new_def)
qed

section \<open>Resolution by priority\<close>

lemma by_priority_snoc: "by_priority (by_priority xs @ [d]) = by_priority (xs @ [d])"
  unfolding by_priority_def
proof (rule properties_for_sort_key)
  fix k
  have stable: "filter (\<lambda>x. falling k = falling x) (sort_key falling ys) = filter (\<lambda>x. falling k = falling x) ys" for ys
    using sort_key_stable [of falling "falling k" ys] by (simp add: eq_commute)
  show "filter (\<lambda>x. falling k = falling x) (sort_key falling (xs @ [d])) =
      filter (\<lambda>x. falling k = falling x) (sort_key falling xs @ [d])"
    by (simp only: stable filter_append)
qed simp_all

text \<open>The definitions registered for a type, in order of registration.\<close>

definition registered :: "renderer_def list \<Rightarrow> string \<Rightarrow> renderer_def list" where
  "registered ds ty = concat (map (\<lambda>d. replicate (count_list (rd_types d) ty) d) ds)"

lemma replicate_snoc: "replicate n x @ [x] = x # replicate n x"
  by (induction n) simp_all

lemma hm_list_register:
  assumes "hm_list reg ty = by_priority xs"
  shows "hm_list (register d reg) ty = by_priority (xs @ replicate (count_list (rd_types d) ty) d)"
proof -
  have "hm_list (fold (\<lambda>t r. hm_insert t (by_priority (hm_list r t @ [d])) r) ts reg) ty =
      by_priority (xs @ replicate (count_list ts ty) d)" for ts
    using assms
  proof (induction ts arbitrary: reg xs)
    case (Cons t ts)
    show ?case
    proof (cases "t = ty")
      case True
      have "hm_list (hm_insert t (by_priority (hm_list reg t @ [d])) reg) ty = by_priority (xs @ [d])"
        using Cons.prems True by (simp add: by_priority_snoc)
      from Cons.IH [OF this] True show ?thesis by simp
    next
      case False
      then have "hm_list (hm_insert t (by_priority (hm_list reg t @ [d])) reg) ty = by_priority xs"
        using Cons.prems by simp
      from Cons.IH [OF this] False show ?thesis by simp
    qed
  qed simp
  then show ?thesis by (simp add: register_def)
qed

lemma hm_list_registered: "hm_list (fold register ds registry_new) ty = by_priority (registered ds ty)"
proof -
  have "hm_list reg ty = by_priority xs \<Longrightarrow> hm_list (fold register ds reg) ty = by_priority (xs @ registered ds ty)"
    for reg xs
  proof (induction ds arbitrary: reg xs)
    case (Cons d ds)
    from Cons.IH [OF hm_list_register [OF Cons.prems]] show ?case by (simp add: registered_def)
  qed (simp add: registered_def)
  from this [of registry_new "[]"] show ?thesis by (simp add: registry_new_def by_priority_def)
qed

lemma set_registered: "set (registered ds ty) = {d \<in> set ds. ty \<in> set (rd_types d)}"
proof -
  have "0 < count_list ts ty \<longleftrightarrow> ty \<in> set ts" for ts :: "string list"
    by (simp add: count_list_0_iff flip: neq0_conv)
  then show ?thesis by (auto simp: registered_def set_replicate_conv_if split: if_splits)
qed

lemma resolve_hd: "resolve reg ty = (case hm_list reg ty of [] \<Rightarrow> None | d # _ \<Rightarrow> Some d)"
  by (simp add: resolve_def hm_list_def split: option.split list.split)

text \<open>
  Whatever the order of registration, the renderer found for a type is one registered for it
  with the highest priority, the earliest registered of those, and none is found exactly when
  none is registered.
\<close>

theorem resolve_highest_priority:
  "case resolve (fold register ds registry_new) ty of
     None \<Rightarrow> registered ds ty = []
   | Some d \<Rightarrow> d \<in> set (registered ds ty) \<and>
       (\<forall>e \<in> set (registered ds ty). rd_priority e \<le> rd_priority d) \<and>
       find (\<lambda>e. rd_priority e = rd_priority d) (registered ds ty) = Some d"
proof (cases "by_priority (registered ds ty)")
  case Nil
  then have "registered ds ty = []" by (metis by_priority_def set_sort set_empty)
  then show ?thesis using Nil by (simp add: resolve_hd hm_list_registered)
next
  case (Cons d rest)
  let ?xs = "registered ds ty"
  have s: "set (by_priority ?xs) = set ?xs" "sorted (map falling (by_priority ?xs))" by (simp_all add: by_priority_def)
  have le: "falling d \<le> falling e \<longleftrightarrow> rd_priority e \<le> rd_priority d" for e
    by (simp add: falling_def word_le_nat_alt del: of_nat_unat)
  have "falling d \<le> falling e" if "e \<in> set ?xs" for e
    using s Cons that by auto
  then have d: "d \<in> set ?xs" "\<And>e. e \<in> set ?xs \<Longrightarrow> rd_priority e \<le> rd_priority d"
    using s(1) Cons le by auto
  have eq: "falling e = falling d \<longleftrightarrow> rd_priority e = rd_priority d" for e
    by (simp add: falling_def word_unat_eq_iff del: of_nat_unat)
  have "filter (\<lambda>e. rd_priority e = rd_priority d) ?xs = d # filter (\<lambda>e. rd_priority e = rd_priority d) rest"
    using Cons sort_key_stable [of falling "falling d" ?xs] by (simp add: by_priority_def eq)
  moreover have "filter P xs = d # ys \<Longrightarrow> find P xs = Some d" for P xs ys
    by (induction xs) (auto split: if_splits)
  ultimately show ?thesis using Cons d by (simp add: resolve_hd hm_list_registered)
qed

definition toy_renderer :: "string \<Rightarrow> u32 \<Rightarrow> renderer_def" where
  "toy_renderer name priority =
     \<lparr>rd_name = name, rd_plugin_id = [], rd_bin = [], rd_types = [''video'', ''scene''], rd_priority = priority,
      rd_spawn_version = None, rd_extras = [],
      rd_settings = [(''loop'', setting_def_new Bool (TBool True) False)], rd_events = []\<rparr>"

theorem resolve_highest_priority_witness:
  "resolve (fold register [toy_renderer ''a'' 50, toy_renderer ''b'' 100, toy_renderer ''c'' 100] registry_new) ''scene''
     = Some (toy_renderer ''b'' 100)"
proof -
  let ?ds = "[toy_renderer ''a'' 50, toy_renderer ''b'' 100, toy_renderer ''c'' 100]"
  have r: "registered ?ds ''scene'' = ?ds" by (simp add: registered_def toy_renderer_def)
  have "resolve (fold register ?ds registry_new) ''scene'' = Some d \<Longrightarrow> d = toy_renderer ''b'' 100" for d
    using resolve_highest_priority [of ?ds "''scene''"] unfolding r
    by (auto simp: toy_renderer_def split: if_splits)
  moreover have "resolve (fold register ?ds registry_new) ''scene'' \<noteq> None"
    using resolve_highest_priority [of ?ds "''scene''"] unfolding r by (auto split: option.splits)
  ultimately show ?thesis by blast
qed

section \<open>Reconciliation\<close>

lemma needs_default_cong: "hm_get e (fst kd) = hm_get e' (fst kd) \<Longrightarrow> needs_default pr e kd = needs_default pr e' kd"
  by (simp add: needs_default_def)

text \<open>The value a schema entry ends with.\<close>

definition settled :: "printers \<Rightarrow> (string, string) hmap \<Rightarrow> string \<Rightarrow> setting_def \<Rightarrow> string option" where
  "settled pr e k d = (if needs_default pr e (k, d) then Some (default_string pr d) else hm_get e k)"

lemma fill_step_get:
  "hm_get (fst (fill_step pr (k, d) (e, c))) j = (if j = k then settled pr e k d else hm_get e j)"
  by (auto simp: fill_step_def settled_def Let_def)

lemma fill_step_changed: "snd (fill_step pr (k, d) (e, c)) \<longleftrightarrow> c \<or> settled pr e k d \<noteq> hm_get e k"
  by (auto simp: fill_step_def settled_def Let_def)

lemma fill_fold:
  assumes "hm_ok s"
  shows "hm_get (fst (fold (fill_step pr) s (e, c))) k =
      (case hm_get s k of None \<Rightarrow> hm_get e k | Some d \<Rightarrow> settled pr e k d) \<and>
    (snd (fold (fill_step pr) s (e, c)) \<longleftrightarrow>
      c \<or> (\<exists>j d. hm_get s j = Some d \<and> settled pr e j d \<noteq> hm_get e j))"
  using assms
proof (induction s arbitrary: e c)
  case (Cons kd s)
  obtain j d where kd: "kd = (j, d)" by force
  obtain e1 c1 where s1: "fill_step pr (j, d) (e, c) = (e1, c1)" by force
  have e1: "hm_get e1 i = (if i = j then settled pr e j d else hm_get e i)" for i
    using fill_step_get [of pr j d e c i] s1 by simp
  have c1: "c1 \<longleftrightarrow> c \<or> settled pr e j d \<noteq> hm_get e j" using fill_step_changed [of pr j d e c] s1 by simp
  have j: "hm_get s j = None" and ok: "hm_ok s" using Cons.prems kd by (auto simp: map_of_eq_None_iff)
  have same: "settled pr e1 i d' = settled pr e i d'" if "i \<noteq> j" for i d'
    using that e1 needs_default_cong [of e1 "(i, d')" e pr] by (simp add: settled_def)
  have ne: "i \<noteq> j" if "hm_get s i = Some d'" for i d' using that j by auto
  note IH = Cons.IH [OF ok, of e1 c1]
  have "hm_get (fst (fold (fill_step pr) s (e1, c1))) k =
      (case hm_get (kd # s) k of None \<Rightarrow> hm_get e k | Some d \<Rightarrow> settled pr e k d)"
  proof (cases "k = j")
    case True
    then show ?thesis using IH j e1 kd by simp
  next
    case False
    then show ?thesis using IH e1 same unfolding kd by (simp split: option.split)
  qed
  moreover have "(\<exists>i d'. hm_get s i = Some d' \<and> settled pr e1 i d' \<noteq> hm_get e1 i) \<longleftrightarrow>
      (\<exists>i d'. hm_get s i = Some d' \<and> settled pr e i d' \<noteq> hm_get e i)"
    using ne same e1 by (metis (no_types, lifting))
  then have "snd (fold (fill_step pr) s (e1, c1)) \<longleftrightarrow>
      c \<or> (\<exists>i d'. hm_get (kd # s) i = Some d' \<and> settled pr e i d' \<noteq> hm_get e i)"
    using IH c1 ne unfolding kd by auto
  ultimately show ?case using s1 kd by simp
qed simp

lemma reconcile_entry_spec:
  assumes "hm_ok s"
  shows "hm_get (fst (reconcile_entry pr s e)) k = (case hm_get s k of None \<Rightarrow> None | Some d \<Rightarrow> settled pr e k d)"
    and "snd (reconcile_entry pr s e) \<longleftrightarrow>
      (\<exists>k. hm_get e k \<noteq> (case hm_get s k of None \<Rightarrow> None | Some d \<Rightarrow> settled pr e k d))"
proof -
  let ?e1 = "fst (drop_stale s e)"
  have dom: "i \<in> fst ` set e \<longleftrightarrow> hm_get e i \<noteq> None" for i by (rule hm_contains_iff)
  have e1: "hm_get ?e1 i = (if hm_get s i = None then None else hm_get e i)" for i
    using dom [of i] by (auto simp: drop_stale_def Let_def hm_get_fold_remove simp del: not_None_eq)
  have "snd (drop_stale s e) \<longleftrightarrow> (\<exists>i \<in> fst ` set e. hm_get s i = None)"
    unfolding drop_stale_def Let_def snd_conv filter_empty_conv set_map by (simp only: ball_simps bex_simps not_not)
  then have c1: "snd (drop_stale s e) \<longleftrightarrow> (\<exists>i. hm_get s i = None \<and> hm_get e i \<noteq> None)"
    using dom by blast
  have same: "settled pr ?e1 i d = settled pr e i d" if "hm_get s i = Some d" for i d
    using that e1 needs_default_cong [of ?e1 "(i, d)" e pr] by (simp add: settled_def)
  have r: "reconcile_entry pr s e = (fst (fold (fill_step pr) s (?e1, False)),
      snd (drop_stale s e) \<or> snd (fold (fill_step pr) s (?e1, False)))"
    by (simp add: reconcile_entry_def split_beta)
  show "hm_get (fst (reconcile_entry pr s e)) k = (case hm_get s k of None \<Rightarrow> None | Some d \<Rightarrow> settled pr e k d)"
    using fill_fold [OF assms, of pr ?e1 False k] e1 [of k] same by (simp add: r split: option.split)
  have "snd (fold (fill_step pr) s (?e1, False)) \<longleftrightarrow> (\<exists>i d. hm_get s i = Some d \<and> settled pr e i d \<noteq> hm_get e i)"
    using fill_fold [OF assms, of pr ?e1 False] e1 same by (metis (no_types, lifting) option.distinct(1))
  moreover have "hm_get e k \<noteq> (case hm_get s k of None \<Rightarrow> None | Some d \<Rightarrow> settled pr e k d) \<longleftrightarrow>
      (hm_get s k = None \<and> hm_get e k \<noteq> None) \<or> (\<exists>d. hm_get s k = Some d \<and> settled pr e k d \<noteq> hm_get e k)" for k
    by (cases "hm_get s k") auto
  ultimately show "snd (reconcile_entry pr s e) \<longleftrightarrow>
      (\<exists>k. hm_get e k \<noteq> (case hm_get s k of None \<Rightarrow> None | Some d \<Rightarrow> settled pr e k d))"
    unfolding r snd_conv c1 by blast
qed

lemma settled_idem:
  assumes "hm_get e' k = settled pr e k d"
  shows "settled pr e' k d = hm_get e' k"
proof (cases "needs_default pr e (k, d)")
  case True
  then show ?thesis using assms by (simp add: settled_def)
next
  case False
  then have "\<not> needs_default pr e' (k, d)"
    using assms needs_default_cong [of e' "(k, d)" e pr] by (simp add: settled_def)
  then show ?thesis by (simp add: settled_def)
qed

lemma reconcile_entry_idem:
  assumes "hm_ok s"
  shows "\<not> snd (reconcile_entry pr s (fst (reconcile_entry pr s e)))"
  unfolding reconcile_entry_spec(2) [OF assms] reconcile_entry_spec(1) [OF assms, of pr "fst (reconcile_entry pr s e)"]
  using settled_idem reconcile_entry_spec(1) [OF assms, of pr e] by (simp split: option.split)

lemma reconcile_entry_keeps:
  assumes "hm_ok s" and "\<not> snd (reconcile_entry pr s e)"
  shows "map_of (fst (reconcile_entry pr s e)) = map_of e"
  using assms(2) reconcile_entry_spec [OF assms(1), of pr e] by (auto simp: fun_eq_iff)

text \<open>The tables after a pass over the manifests.\<close>

definition table_of :: "(string, (string, string) hmap) hmap \<Rightarrow> string \<Rightarrow> (string, string) hmap" where
  "table_of plugins name = (case hm_get plugins name of None \<Rightarrow> [] | Some e \<Rightarrow> e)"

lemma reconcile_plugin_get:
  "hm_get (fst (reconcile_plugin pr (n, s) (P, c))) m =
     (if m = n \<and> s \<noteq> [] then Some (fst (reconcile_entry pr s (table_of P n))) else hm_get P m)"
  "snd (reconcile_plugin pr (n, s) (P, c)) \<longleftrightarrow> c \<or> s \<noteq> [] \<and> snd (reconcile_entry pr s (table_of P n))"
  by (auto simp: reconcile_plugin_def table_of_def split_beta Let_def)

lemma reconcile_fold:
  assumes "hm_ok ms"
  shows "hm_get (fst (fold (reconcile_plugin pr) ms (P, c))) n =
      (case hm_get ms n of
         None \<Rightarrow> hm_get P n
       | Some s \<Rightarrow> if s = [] then hm_get P n else Some (fst (reconcile_entry pr s (table_of P n)))) \<and>
    (snd (fold (reconcile_plugin pr) ms (P, c)) \<longleftrightarrow>
      c \<or> (\<exists>m s. hm_get ms m = Some s \<and> s \<noteq> [] \<and> snd (reconcile_entry pr s (table_of P m))))"
  using assms
proof (induction ms arbitrary: P c)
  case (Cons ns ms)
  obtain j s where ns: "ns = (j, s)" by force
  obtain P1 c1 where s1: "reconcile_plugin pr (j, s) (P, c) = (P1, c1)" by force
  have P1: "hm_get P1 m = (if m = j \<and> s \<noteq> [] then Some (fst (reconcile_entry pr s (table_of P j))) else hm_get P m)" for m
    using reconcile_plugin_get(1) [of pr j s P c m] s1 by simp
  have c1: "c1 \<longleftrightarrow> c \<or> s \<noteq> [] \<and> snd (reconcile_entry pr s (table_of P j))"
    using reconcile_plugin_get(2) [of pr j s P c] s1 by simp
  have j: "hm_get ms j = None" and ok: "hm_ok ms" using Cons.prems ns by (auto simp: map_of_eq_None_iff)
  have same: "table_of P1 m = table_of P m" if "m \<noteq> j" for m using that P1 by (simp add: table_of_def)
  have ne: "m \<noteq> j" if "hm_get ms m = Some t" for m t using that j by auto
  note IH = Cons.IH [OF ok, of P1 c1]
  have "hm_get (fst (fold (reconcile_plugin pr) ms (P1, c1))) n = (case hm_get (ns # ms) n of
         None \<Rightarrow> hm_get P n
       | Some s \<Rightarrow> if s = [] then hm_get P n else Some (fst (reconcile_entry pr s (table_of P n))))"
  proof (cases "n = j")
    case True
    then show ?thesis using IH j P1 ns by simp
  next
    case False
    then show ?thesis using IH P1 same unfolding ns by (simp split: option.split)
  qed
  moreover have "(\<exists>m t. hm_get ms m = Some t \<and> t \<noteq> [] \<and> snd (reconcile_entry pr t (table_of P1 m))) \<longleftrightarrow>
      (\<exists>m t. hm_get ms m = Some t \<and> t \<noteq> [] \<and> snd (reconcile_entry pr t (table_of P m)))"
    using ne same by (metis (no_types, lifting))
  then have "snd (fold (reconcile_plugin pr) ms (P1, c1)) \<longleftrightarrow>
      c \<or> (\<exists>m t. hm_get (ns # ms) m = Some t \<and> t \<noteq> [] \<and> snd (reconcile_entry pr t (table_of P m)))"
    using IH c1 ne unfolding ns by auto
  ultimately show ?case using s1 ns by simp
qed simp

lemma all_renderers_distinct: "distinct (map rd_name (all_renderers reg))"
proof -
  have "set (map rd_name (snd so)) \<subseteq> fst so \<Longrightarrow> distinct (map rd_name (snd so)) \<Longrightarrow>
    distinct (map rd_name (snd (fold dedup_step ds so)))" for ds so
  proof (induction ds arbitrary: so)
    case (Cons d ds)
    show ?case unfolding fold_simps
      by (rule Cons.IH) (use Cons.prems in \<open>auto simp: dedup_step_def\<close>)
  qed simp
  from this [of "({}, [])" "concat (map snd reg)"] show ?thesis by (simp add: all_renderers_def)
qed

definition schemas_ok :: "registry \<Rightarrow> bool" where
  "schemas_ok reg \<longleftrightarrow> (\<forall>d \<in> set (all_renderers reg). hm_ok (rd_settings d))"

lemma manifests_ok:
  "hm_ok (manifests_of reg)"
  "schemas_ok reg \<Longrightarrow> hm_get (manifests_of reg) n = Some s \<Longrightarrow> hm_ok s"
  using all_renderers_distinct [of reg]
  by (auto simp: manifests_of_def o_def schemas_ok_def dest!: map_of_SomeD)

text \<open>
  Reconciling the stored plugin settings settles them: every loaded plugin with a schema ends
  with exactly the schema's keys, each value accepted or the default, plugins without a loaded
  manifest are left alone, and a second pass changes nothing and leaves the store clean.
\<close>

theorem reconcile_settles:
  assumes "schemas_ok reg"
  shows "(\<forall>n. case hm_get (manifests_of reg) n of
      Some s \<Rightarrow> s = [] \<or> (\<forall>k. hm_get (table_of (set_plugins (st_inner (snd (reconcile pr reg st)))) n) k =
        (case hm_get s k of None \<Rightarrow> None
         | Some d \<Rightarrow> settled pr (table_of (set_plugins (st_inner st)) n) k d))
    | None \<Rightarrow> hm_get (set_plugins (st_inner (snd (reconcile pr reg st)))) n = hm_get (set_plugins (st_inner st)) n) \<and>
    \<not> fst (reconcile pr reg (snd (reconcile pr reg st)))"
proof -
  let ?ms = "manifests_of reg" and ?P = "set_plugins (st_inner st)"
  let ?r = "fold (reconcile_plugin pr) ?ms (?P, False)"
  have P': "set_plugins (st_inner (snd (reconcile pr reg st))) = fst ?r"
    by (simp add: reconcile_def split_beta Let_def)
  note F = reconcile_fold [OF manifests_ok(1) [of reg], of pr]
  have T: "table_of (fst ?r) n = fst (reconcile_entry pr s (table_of ?P n))"
    if "hm_get ?ms n = Some s" "s \<noteq> []" for n s
    using F [of ?P False n] that by (simp add: table_of_def)
  have "\<not> fst (reconcile pr reg (snd (reconcile pr reg st)))"
  proof -
    have "fst (reconcile pr reg (snd (reconcile pr reg st))) \<longleftrightarrow>
        snd (fold (reconcile_plugin pr) ?ms (fst ?r, False))"
      unfolding P' [symmetric] by (simp add: reconcile_def split_beta Let_def)
    also have "\<dots> \<longleftrightarrow> (\<exists>m s. hm_get ?ms m = Some s \<and> s \<noteq> [] \<and> snd (reconcile_entry pr s (table_of (fst ?r) m)))"
      using F [of "fst ?r" False] by simp
    finally show ?thesis using T reconcile_entry_idem [OF manifests_ok(2) [OF assms]] by metis
  qed
  moreover have "case hm_get ?ms n of
      Some s \<Rightarrow> s = [] \<or> (\<forall>k. hm_get (table_of (fst ?r) n) k =
        (case hm_get s k of None \<Rightarrow> None | Some d \<Rightarrow> settled pr (table_of ?P n) k d))
    | None \<Rightarrow> hm_get (fst ?r) n = hm_get ?P n" for n
    using F [of ?P False n] T [of n] reconcile_entry_spec(1) [OF manifests_ok(2) [OF assms]]
    by (auto split: option.split)
  ultimately show ?thesis unfolding P' by simp
qed

theorem reconcile_settles_witness:
  "\<forall>pr st. \<not> fst (reconcile pr (register \<lparr>rd_name = ''v'', rd_plugin_id = [], rd_bin = [], rd_types = [''video''],
       rd_priority = 100, rd_spawn_version = None, rd_extras = [],
       rd_settings = [(''loop'', setting_def_new Bool (TBool True) False)], rd_events = []\<rparr> registry_new)
     (snd (reconcile pr (register \<lparr>rd_name = ''v'', rd_plugin_id = [], rd_bin = [], rd_types = [''video''],
       rd_priority = 100, rd_spawn_version = None, rd_extras = [],
       rd_settings = [(''loop'', setting_def_new Bool (TBool True) False)], rd_events = []\<rparr> registry_new) st)))"
  by (intro allI, rule conjunct2 [OF reconcile_settles])
    (simp add: schemas_ok_def register_def registry_new_def all_renderers_def dedup_step_def by_priority_def)

end
