(* ===== verification/Routing_Table.thy ===== *)
theory Routing_Table
  imports F32
begin

text \<open>
  The routing table, \<open>src/routing/table.rs\<close>: renderer-to-display links with two indexes,
  and the rule that a display has at most one link. A renderer handle is opaque to the table
  but for its id, so its type is a parameter.
\<close>

section \<open>Links\<close>

type_synonym link_id = u64
type_synonym renderer_id = string
type_synonym display_id = u64

record link_rect =
  rect_x :: f32
  rect_y :: f32
  rect_w :: f32
  rect_h :: f32

text \<open>The derived \<open>PartialEq\<close>, field by field.\<close>

definition rect_eq :: "link_rect \<Rightarrow> link_rect \<Rightarrow> bool" where
  "rect_eq a b \<longleftrightarrow>
     f32_eq (rect_x a) (rect_x b) \<and> f32_eq (rect_y a) (rect_y b) \<and>
     f32_eq (rect_w a) (rect_w b) \<and> f32_eq (rect_h a) (rect_h b)"

text \<open>\<open>FULL_SRC\<close> and \<open>FULL_DST\<close>.\<close>

definition FULL_RECT :: link_rect where
  "FULL_RECT = \<lparr>rect_x = Fin 0, rect_y = Fin 0, rect_w = PInf, rect_h = PInf\<rparr>"

type_synonym rgba = "f32 \<times> f32 \<times> f32 \<times> f32"

fun rgba_eq :: "rgba \<Rightarrow> rgba \<Rightarrow> bool" where
  "rgba_eq (r, g, b, a) (r', g', b', a') \<longleftrightarrow>
     f32_eq r r' \<and> f32_eq g g' \<and> f32_eq b b' \<and> f32_eq a a'"

definition BLACK :: rgba where
  "BLACK = (Fin 0, Fin 0, Fin 0, Fin 1)"

record link =
  lk_id :: link_id
  lk_renderer :: renderer_id
  lk_display :: display_id
  lk_enabled :: bool
  lk_src :: link_rect
  lk_dst :: link_rect
  lk_transform :: u32
  lk_clear :: rgba
  lk_z_order :: i32

record 'h routing_table =
  next_link_id :: link_id
  rt_renderers :: "(renderer_id, 'h) hmap"
  rt_links :: "(link_id, link) hmap"
  by_display :: "(display_id, link_id list) hmap"
  by_renderer :: "(renderer_id, link_id list) hmap"

definition table_new :: "'h routing_table" where
  "table_new =
     \<lparr>next_link_id = 0, rt_renderers = [], rt_links = [], by_display = [], by_renderer = []\<rparr>"

section \<open>Operations\<close>

definition add_renderer :: "renderer_id \<Rightarrow> 'h \<Rightarrow> 'h routing_table \<Rightarrow> 'h routing_table" where
  "add_renderer rid h t = t\<lparr>rt_renderers := hm_insert rid h (rt_renderers t)\<rparr>"

text \<open>\<open>v.retain(|x| *x != lid)\<close> on the entry of an index, if there is one.\<close>

definition drop_id :: "link_id \<Rightarrow> 'k \<Rightarrow> ('k, link_id list) hmap \<Rightarrow> ('k, link_id list) hmap" where
  "drop_id lid k m = hm_modify k (filter (\<lambda>x. x \<noteq> lid)) m"

fun remove_renderer_links ::
  "link_id list \<Rightarrow> 'h routing_table \<Rightarrow> (link_id \<times> display_id) list \<times> 'h routing_table" where
  "remove_renderer_links [] t = ([], t)"
| "remove_renderer_links (lid # lids) t =
     (case hm_get (rt_links t) lid of
        None \<Rightarrow> remove_renderer_links lids t
      | Some l \<Rightarrow>
          (let t1 = t\<lparr>rt_links := hm_remove lid (rt_links t),
                      by_display := drop_id lid (lk_display l) (by_display t)\<rparr>;
               (out, t2) = remove_renderer_links lids t1
           in ((lid, lk_display l) # out, t2)))"

definition remove_renderer ::
  "renderer_id \<Rightarrow> 'h routing_table \<Rightarrow> (link_id \<times> display_id) list \<times> 'h routing_table" where
  "remove_renderer rid t =
     (let t1 = t\<lparr>rt_renderers := hm_remove rid (rt_renderers t)\<rparr>;
          lids = hm_list (by_renderer t1) rid
      in remove_renderer_links lids (t1\<lparr>by_renderer := hm_remove rid (by_renderer t1)\<rparr>))"

definition get_renderer :: "'h routing_table \<Rightarrow> renderer_id \<Rightarrow> 'h option" where
  "get_renderer t rid = hm_get (rt_renderers t) rid"

definition renderer_ids :: "'h routing_table \<Rightarrow> renderer_id list" where
  "renderer_ids t = hm_keys (rt_renderers t)"

text \<open>\<open>ids.sort()\<close> on strings is byte-wise lexicographic, as \<open>List_Lexorder\<close> orders them.\<close>

definition first_renderer :: "'h routing_table \<Rightarrow> renderer_id option" where
  "first_renderer t = (case sort (renderer_ids t) of [] \<Rightarrow> None | rid # _ \<Rightarrow> Some rid)"

definition remove_link :: "link_id \<Rightarrow> 'h routing_table \<Rightarrow> link option \<times> 'h routing_table" where
  "remove_link lid t =
     (case hm_get (rt_links t) lid of
        None \<Rightarrow> (None, t)
      | Some l \<Rightarrow>
          (Some l, t\<lparr>rt_links := hm_remove lid (rt_links t),
                     by_display := drop_id lid (lk_display l) (by_display t),
                     by_renderer := drop_id lid (lk_renderer l) (by_renderer t)\<rparr>))"

definition new_link :: "link_id \<Rightarrow> renderer_id \<Rightarrow> display_id \<Rightarrow> link" where
  "new_link lid rid did =
     \<lparr>lk_id = lid, lk_renderer = rid, lk_display = did, lk_enabled = True, lk_src = FULL_RECT,
      lk_dst = FULL_RECT, lk_transform = 0, lk_clear = BLACK, lk_z_order = 0\<rparr>"

definition add_link ::
  "renderer_id \<Rightarrow> display_id \<Rightarrow> 'h routing_table \<Rightarrow> link_id \<times> 'h routing_table" where
  "add_link rid did t =
     (let existing = hm_list (by_display t) did;
          t1 = fold (\<lambda>old u. snd (remove_link old u)) existing t;
          lid = next_link_id t1 + 1
      in (lid, t1\<lparr>next_link_id := lid,
                  rt_links := hm_insert lid (new_link lid rid did) (rt_links t1),
                  by_display := hm_push did lid (by_display t1),
                  by_renderer := hm_push rid lid (by_renderer t1)\<rparr>))"

text \<open>One \<open>if let Some(v) = field { if link.field != v { \<dots> } }\<close> block of the update.\<close>

definition set_if_changed ::
  "('v \<Rightarrow> 'v \<Rightarrow> bool) \<Rightarrow> (link \<Rightarrow> 'v) \<Rightarrow> ('v \<Rightarrow> link \<Rightarrow> link) \<Rightarrow> 'v option
     \<Rightarrow> link \<times> bool \<Rightarrow> link \<times> bool" where
  "set_if_changed eq get upd v lc =
     (case v of
        None \<Rightarrow> lc
      | Some x \<Rightarrow> if eq (get (fst lc)) x then lc else (upd x (fst lc), True))"

definition update_link_geometry ::
  "link_id \<Rightarrow> link_rect option \<Rightarrow> link_rect option \<Rightarrow> u32 option \<Rightarrow> rgba option \<Rightarrow> i32 option
     \<Rightarrow> 'h routing_table \<Rightarrow> bool \<times> 'h routing_table" where
  "update_link_geometry lid src dst transform clear z t =
     (case hm_get (rt_links t) lid of
        None \<Rightarrow> (False, t)
      | Some l \<Rightarrow>
          (let lc = set_if_changed (=) lk_z_order (\<lambda>v. lk_z_order_update (\<lambda>_. v)) z
                 (set_if_changed rgba_eq lk_clear (\<lambda>v. lk_clear_update (\<lambda>_. v)) clear
                   (set_if_changed (=) lk_transform (\<lambda>v. lk_transform_update (\<lambda>_. v)) transform
                     (set_if_changed rect_eq lk_dst (\<lambda>v. lk_dst_update (\<lambda>_. v)) dst
                       (set_if_changed rect_eq lk_src (\<lambda>v. lk_src_update (\<lambda>_. v)) src (l, False)))))
           in (snd lc, t\<lparr>rt_links := hm_modify lid (\<lambda>_. fst lc) (rt_links t)\<rparr>)))"

definition get_link :: "'h routing_table \<Rightarrow> link_id \<Rightarrow> link option" where
  "get_link t lid = hm_get (rt_links t) lid"

definition links_for_display :: "'h routing_table \<Rightarrow> display_id \<Rightarrow> link list" where
  "links_for_display t did = List.map_filter (hm_get (rt_links t)) (hm_list (by_display t) did)"

definition links_for_renderer :: "'h routing_table \<Rightarrow> renderer_id \<Rightarrow> link list" where
  "links_for_renderer t rid = List.map_filter (hm_get (rt_links t)) (hm_list (by_renderer t) rid)"

fun remove_display_links ::
  "link_id list \<Rightarrow> 'h routing_table \<Rightarrow> link list \<times> 'h routing_table" where
  "remove_display_links [] t = ([], t)"
| "remove_display_links (lid # lids) t =
     (case hm_get (rt_links t) lid of
        None \<Rightarrow> remove_display_links lids t
      | Some l \<Rightarrow>
          (let t1 = t\<lparr>rt_links := hm_remove lid (rt_links t),
                      by_renderer := drop_id lid (lk_renderer l) (by_renderer t)\<rparr>;
               (out, t2) = remove_display_links lids t1
           in (l # out, t2)))"

definition remove_display :: "display_id \<Rightarrow> 'h routing_table \<Rightarrow> link list \<times> 'h routing_table" where
  "remove_display did t =
     (let lids = hm_list (by_display t) did
      in remove_display_links lids (t\<lparr>by_display := hm_remove did (by_display t)\<rparr>))"

section \<open>The invariant\<close>

text \<open>
  An index \<open>m\<close> over the links \<open>L\<close> lists, without repetition, exactly the ids of the links
  whose key it is asked for.
\<close>

definition index_ok :: "(link \<Rightarrow> 'k) \<Rightarrow> ('k, link_id list) hmap \<Rightarrow> (link_id \<rightharpoonup> link) \<Rightarrow> bool" where
  "index_ok f m L \<longleftrightarrow>
     (\<forall>k. distinct (hm_list m k) \<and> set (hm_list m k) = {lid. \<exists>l. L lid = Some l \<and> f l = k})"

definition table_ok :: "'h routing_table \<Rightarrow> bool" where
  "table_ok t \<longleftrightarrow>
     hm_ok (rt_renderers t) \<and> hm_ok (rt_links t) \<and>
     (\<forall>lid l. hm_get (rt_links t) lid = Some l \<longrightarrow> lk_id l = lid \<and> lid \<le> next_link_id t) \<and>
     index_ok lk_display (by_display t) (hm_get (rt_links t)) \<and>
     index_ok lk_renderer (by_renderer t) (hm_get (rt_links t)) \<and>
     (\<forall>d. length (hm_list (by_display t) d) \<le> 1)"

lemma hm_list_drop_id [simp]:
  "hm_list (drop_id lid k m) k' =
     (if k' = k then filter (\<lambda>x. x \<noteq> lid) (hm_list m k) else hm_list m k')"
  by (simp add: drop_id_def)

lemma index_ok_remove:
  "index_ok f m L \<Longrightarrow> L lid = Some l \<Longrightarrow> index_ok f (drop_id lid (f l) m) (L(lid := None))"
  by (auto simp: index_ok_def)

lemma index_ok_insert:
  "index_ok f m L \<Longrightarrow> L lid = None \<Longrightarrow> index_ok f (hm_push (f l) lid m) (L(lid \<mapsto> l))"
  by (auto simp: index_ok_def)

lemma index_ok_update:
  "index_ok f m L \<Longrightarrow> L lid = Some l \<Longrightarrow> f l' = f l \<Longrightarrow> index_ok f m (L(lid \<mapsto> l'))"
  by (auto simp: index_ok_def)

lemma index_ok_remove_key:
  "index_ok f m L \<Longrightarrow> index_ok f (hm_remove k m) (\<lambda>lid. case L lid of None \<Rightarrow> None
     | Some l \<Rightarrow> if f l = k then None else Some l)"
  by (auto simp: index_ok_def split: option.splits if_splits)

lemma table_okD:
  assumes "table_ok t"
  shows "hm_ok (rt_links t)" "hm_ok (rt_renderers t)"
    "hm_get (rt_links t) lid = Some l \<Longrightarrow> lk_id l = lid"
    "hm_get (rt_links t) lid = Some l \<Longrightarrow> lid \<le> next_link_id t"
    "index_ok lk_display (by_display t) (hm_get (rt_links t))"
    "index_ok lk_renderer (by_renderer t) (hm_get (rt_links t))"
    "length (hm_list (by_display t) d) \<le> 1"
  using assms by (auto simp: table_ok_def)

lemma table_ok_new [inv_intro]: "table_ok table_new"
  by (simp add: table_ok_def table_new_def index_ok_def)

lemma table_ok_add_renderer [inv_intro]: "table_ok t \<Longrightarrow> table_ok (add_renderer rid h t)"
  by (simp add: table_ok_def add_renderer_def)

text \<open>Each operation is described by what it does to the map of links; the indexes follow.\<close>

abbreviation links_of :: "'h routing_table \<Rightarrow> link_id \<rightharpoonup> link" where
  "links_of t \<equiv> hm_get (rt_links t)"

lemma fun_upd_None_id: "m k = None \<Longrightarrow> m(k := None) = m"
  by (simp add: fun_eq_iff)

lemma hm_get_remove_fun: "hm_get (hm_remove k m) = (hm_get m)(k := None)"
  by (simp add: fun_eq_iff)

lemma hm_get_insert_fun: "hm_get (hm_insert k v m) = (hm_get m)(k \<mapsto> v)"
  by (simp add: fun_eq_iff)

lemma remove_link_ok:
  assumes "table_ok t"
  shows "table_ok (snd (remove_link lid t))"
    and "links_of (snd (remove_link lid t)) = (links_of t)(lid := None)"
    and "fst (remove_link lid t) = links_of t lid"
    and "next_link_id (snd (remove_link lid t)) = next_link_id t"
    and "rt_renderers (snd (remove_link lid t)) = rt_renderers t"
proof -
  have "table_ok (snd (remove_link lid t))" if l: "links_of t lid = Some l" for l
    using index_ok_remove [OF table_okD(5) [OF assms] l] index_ok_remove [OF table_okD(6) [OF assms] l] l assms
    by (auto simp: table_ok_def remove_link_def hm_get_remove_fun intro: order_trans [OF length_filter_le])
  then show "table_ok (snd (remove_link lid t))"
    using assms by (cases "links_of t lid") (auto simp: remove_link_def)
qed (auto simp: remove_link_def hm_get_remove_fun fun_upd_None_id split: option.split)

lemma fold_remove_link_ok:
  assumes "table_ok t"
  shows "table_ok (fold (\<lambda>old u. snd (remove_link old u)) lids t)"
    and "links_of (fold (\<lambda>old u. snd (remove_link old u)) lids t)
           = (\<lambda>k. if k \<in> set lids then None else links_of t k)"
    and "next_link_id (fold (\<lambda>old u. snd (remove_link old u)) lids t) = next_link_id t"
    and "rt_renderers (fold (\<lambda>old u. snd (remove_link old u)) lids t) = rt_renderers t"
  using assms by (induction lids arbitrary: t) (auto simp: remove_link_ok fun_eq_iff)

lemma add_link_ok:
  assumes ok: "table_ok t" and room: "next_link_id t \<noteq> - 1"
  shows "fst (add_link rid did t) = next_link_id t + 1"
    and "links_of t (fst (add_link rid did t)) = None"
    and "links_of (snd (add_link rid did t)) =
           (\<lambda>k. case links_of t k of None \<Rightarrow> None | Some l \<Rightarrow> if lk_display l = did then None else Some l)
             (next_link_id t + 1 \<mapsto> new_link (next_link_id t + 1) rid did)"
    and "table_ok (snd (add_link rid did t))"
    and "next_link_id (snd (add_link rid did t)) = next_link_id t + 1"
    and "rt_renderers (snd (add_link rid did t)) = rt_renderers t"
proof -
  define t1 where "t1 = fold (\<lambda>old u. snd (remove_link old u)) (hm_list (by_display t) did) t"
  define lid where "lid = next_link_id t + 1"
  note t1 = fold_remove_link_ok [OF ok, of "hm_list (by_display t) did", folded t1_def]
  have eq: "add_link rid did t = (lid, t1\<lparr>next_link_id := lid,
      rt_links := hm_insert lid (new_link lid rid did) (rt_links t1),
      by_display := hm_push did lid (by_display t1), by_renderer := hm_push rid lid (by_renderer t1)\<rparr>)"
    by (simp add: add_link_def Let_def t1_def [symmetric] t1(3) lid_def)
  have fresh: "links_of t lid = None"
  proof (rule ccontr)
    assume "links_of t lid \<noteq> None"
    then have "lid \<le> next_link_id t" using table_okD(4) [OF ok] by auto
    then show False using word_inc_greater [OF room] by (simp add: lid_def)
  qed
  then have fresh1: "links_of t1 lid = None" by (simp add: t1(2))
  have idx: "set (hm_list (by_display t) did) = {k. \<exists>l. links_of t k = Some l \<and> lk_display l = did}"
    using table_okD(5) [OF ok] by (auto simp: index_ok_def)
  have l1: "links_of t1 = (\<lambda>k. case links_of t k of None \<Rightarrow> None | Some l \<Rightarrow> if lk_display l = did then None else Some l)"
    by (auto simp: t1(2) idx fun_eq_iff split: option.split)
  have none: "hm_list (by_display t1) did = []"
  proof -
    have "set (hm_list (by_display t1) did) = {k. \<exists>l. links_of t1 k = Some l \<and> lk_display l = did}"
      using table_okD(5) [OF t1(1)] by (auto simp: index_ok_def)
    also have "\<dots> = {}" by (auto simp: l1 split: option.splits if_splits)
    finally show ?thesis by simp
  qed
  have le: "k \<le> lid" if "links_of t1 k = Some l" for k l
    using table_okD(4) [OF t1(1) that] word_inc_greater [OF room] t1(3) by (simp add: lid_def)
  show "fst (add_link rid did t) = next_link_id t + 1"
    "next_link_id (snd (add_link rid did t)) = next_link_id t + 1"
    "rt_renderers (snd (add_link rid did t)) = rt_renderers t"
    by (simp_all add: eq lid_def t1(4))
  show "links_of t (fst (add_link rid did t)) = None" using fresh by (simp add: eq)
  show "links_of (snd (add_link rid did t)) =
           (\<lambda>k. case links_of t k of None \<Rightarrow> None | Some l \<Rightarrow> if lk_display l = did then None else Some l)
             (next_link_id t + 1 \<mapsto> new_link (next_link_id t + 1) rid did)"
    by (simp add: eq hm_get_insert_fun l1 lid_def)
  have d: "index_ok lk_display (hm_push did lid (by_display t1)) ((links_of t1)(lid \<mapsto> new_link lid rid did))"
    using index_ok_insert [OF table_okD(5) [OF t1(1)] fresh1, of "new_link lid rid did"] by (simp add: new_link_def)
  have r: "index_ok lk_renderer (hm_push rid lid (by_renderer t1)) ((links_of t1)(lid \<mapsto> new_link lid rid did))"
    using index_ok_insert [OF table_okD(6) [OF t1(1)] fresh1, of "new_link lid rid did"] by (simp add: new_link_def)
  show "table_ok (snd (add_link rid did t))"
    using d r t1(1) le none
    by (auto simp: eq table_ok_def hm_get_insert_fun new_link_def intro: table_okD)
qed

lemma remove_renderer_links_ok:
  "hm_ok (rt_links t) \<Longrightarrow> remove_renderer_links lids t = (out, t') \<Longrightarrow>
     links_of t' = (\<lambda>k. if k \<in> set lids then None else links_of t k)
   \<and> (\<forall>d. hm_list (by_display t') d =
        filter (\<lambda>x. \<not> (x \<in> set lids \<and> (\<exists>l. links_of t x = Some l \<and> lk_display l = d))) (hm_list (by_display t) d))
   \<and> by_renderer t' = by_renderer t \<and> rt_renderers t' = rt_renderers t
   \<and> next_link_id t' = next_link_id t \<and> hm_ok (rt_links t')
   \<and> (distinct lids \<longrightarrow> out = List.map_filter (\<lambda>k. map_option (\<lambda>l. (k, lk_display l)) (links_of t k)) lids)"
proof (induction lids arbitrary: t out t')
  case Nil
  then show ?case by (auto simp: List.map_filter_def)
next
  case (Cons lid lids)
  show ?case
  proof (cases "links_of t lid")
    case None
    with Cons.prems have "remove_renderer_links lids t = (out, t')" by simp
    from Cons.IH [OF Cons.prems(1) this] None show ?thesis
      by (auto simp: fun_eq_iff List.map_filter_def intro!: filter_cong)
  next
    case (Some l)
    let ?t1 = "t\<lparr>rt_links := hm_remove lid (rt_links t), by_display := drop_id lid (lk_display l) (by_display t)\<rparr>"
    obtain out' where r: "remove_renderer_links lids ?t1 = (out', t')" and out: "out = (lid, lk_display l) # out'"
      using Cons.prems(2) Some by (auto split: prod.splits)
    have "hm_ok (rt_links ?t1)" using Cons.prems(1) by simp
    note ih = Cons.IH [OF this r]
    have "out' = List.map_filter (\<lambda>k. map_option (\<lambda>l. (k, lk_display l)) (links_of t k)) lids"
      if "distinct (lid # lids)"
    proof -
      have "List.map_filter (\<lambda>k. map_option (\<lambda>l. (k, lk_display l)) (links_of ?t1 k)) lids
          = List.map_filter (\<lambda>k. map_option (\<lambda>l. (k, lk_display l)) (links_of t k)) lids"
        using that by (intro map_filter_cong) auto
      with ih that show ?thesis by simp
    qed
    with ih Some out show ?thesis
      by (auto simp: fun_eq_iff List.map_filter_def intro!: filter_cong)
  qed
qed

lemma remove_renderer_ok:
  assumes ok: "table_ok t" and r: "remove_renderer rid t = (out, t')"
  shows "table_ok t'"
    and "links_of t' = (\<lambda>k. case links_of t k of None \<Rightarrow> None
           | Some l \<Rightarrow> if lk_renderer l = rid then None else Some l)"
    and "rt_renderers t' = hm_remove rid (rt_renderers t)"
    and "set out = {(k, d). \<exists>l. links_of t k = Some l \<and> lk_renderer l = rid \<and> lk_display l = d}"
    and "next_link_id t' = next_link_id t"
proof -
  let ?lids = "hm_list (by_renderer t) rid"
  let ?t1 = "t\<lparr>rt_renderers := hm_remove rid (rt_renderers t), by_renderer := hm_remove rid (by_renderer t)\<rparr>"
  have idx: "set ?lids = {k. \<exists>l. links_of t k = Some l \<and> lk_renderer l = rid}" "distinct ?lids"
    using table_okD(6) [OF ok] by (auto simp: index_ok_def)
  have "hm_ok (rt_links ?t1)" using table_okD(1) [OF ok] by simp
  moreover have "remove_renderer_links ?lids ?t1 = (out, t')"
    using r by (simp add: remove_renderer_def Let_def)
  ultimately have f: "links_of t' = (\<lambda>k. if k \<in> set ?lids then None else links_of t k)"
    "\<And>d. hm_list (by_display t') d =
        filter (\<lambda>x. \<not> (x \<in> set ?lids \<and> (\<exists>l. links_of t x = Some l \<and> lk_display l = d))) (hm_list (by_display t) d)"
    "by_renderer t' = hm_remove rid (by_renderer t)" "rt_renderers t' = hm_remove rid (rt_renderers t)"
    "next_link_id t' = next_link_id t" "hm_ok (rt_links t')"
    "out = List.map_filter (\<lambda>k. map_option (\<lambda>l. (k, lk_display l)) (links_of t k)) ?lids"
    using remove_renderer_links_ok [of ?t1 ?lids out t'] idx(2) by (simp_all cong: if_cong)
  show l: "links_of t' = (\<lambda>k. case links_of t k of None \<Rightarrow> None
           | Some l \<Rightarrow> if lk_renderer l = rid then None else Some l)"
    by (auto simp: f(1) idx(1) fun_eq_iff split: option.split)
  have d: "index_ok lk_display (by_display t') (links_of t')"
    using table_okD(5) [OF ok] by (auto simp: index_ok_def f(1,2) idx(1))
  have b: "index_ok lk_renderer (by_renderer t') (links_of t')"
    unfolding l f(3) using table_okD(6) [OF ok] by (rule index_ok_remove_key)
  have "length (hm_list (by_display t') k) \<le> 1" for k
    unfolding f(2) using table_okD(7) [OF ok, of k] order_trans [OF length_filter_le] by blast
  moreover have "hm_ok (rt_renderers t')" using table_okD(2) [OF ok] by (simp add: f(4))
  moreover have "lk_id k = j \<and> j \<le> next_link_id t'" if "links_of t' j = Some k" for j k
    using that table_okD(3,4) [OF ok] by (auto simp: f(1,5) split: if_splits)
  ultimately show "table_ok t'" using d b f(6) by (auto simp: table_ok_def)
  show "rt_renderers t' = hm_remove rid (rt_renderers t)" "next_link_id t' = next_link_id t"
    by (rule f(4), rule f(5))
  show "set out = {(k, d). \<exists>l. links_of t k = Some l \<and> lk_renderer l = rid \<and> lk_display l = d}"
    by (auto simp: f(7) set_map_filter idx(1))
qed

lemma remove_display_links_ok:
  "hm_ok (rt_links t) \<Longrightarrow> remove_display_links lids t = (out, t') \<Longrightarrow>
     links_of t' = (\<lambda>k. if k \<in> set lids then None else links_of t k)
   \<and> (\<forall>r. hm_list (by_renderer t') r =
        filter (\<lambda>x. \<not> (x \<in> set lids \<and> (\<exists>l. links_of t x = Some l \<and> lk_renderer l = r))) (hm_list (by_renderer t) r))
   \<and> by_display t' = by_display t \<and> rt_renderers t' = rt_renderers t
   \<and> next_link_id t' = next_link_id t \<and> hm_ok (rt_links t')
   \<and> (distinct lids \<longrightarrow> out = List.map_filter (links_of t) lids)"
proof (induction lids arbitrary: t out t')
  case Nil
  then show ?case by (auto simp: List.map_filter_def)
next
  case (Cons lid lids)
  show ?case
  proof (cases "links_of t lid")
    case None
    with Cons.prems have "remove_display_links lids t = (out, t')" by simp
    from Cons.IH [OF Cons.prems(1) this] None show ?thesis
      by (auto simp: fun_eq_iff List.map_filter_def intro!: filter_cong)
  next
    case (Some l)
    let ?t1 = "t\<lparr>rt_links := hm_remove lid (rt_links t), by_renderer := drop_id lid (lk_renderer l) (by_renderer t)\<rparr>"
    obtain out' where r: "remove_display_links lids ?t1 = (out', t')" and out: "out = l # out'"
      using Cons.prems(2) Some by (auto split: prod.splits)
    have "hm_ok (rt_links ?t1)" using Cons.prems(1) by simp
    note ih = Cons.IH [OF this r]
    have "out' = List.map_filter (links_of t) lids" if "distinct (lid # lids)"
    proof -
      have "distinct lids" using that by simp
      with ih have "out' = List.map_filter (links_of ?t1) lids" by blast
      also have "\<dots> = List.map_filter (links_of t) lids"
        using that by (intro map_filter_cong) auto
      finally show ?thesis .
    qed
    with ih Some out show ?thesis
      by (auto simp: fun_eq_iff List.map_filter_def intro!: filter_cong)
  qed
qed

lemma remove_display_ok:
  assumes ok: "table_ok t" and r: "remove_display did t = (out, t')"
  shows "table_ok t'"
    and "links_of t' = (\<lambda>k. case links_of t k of None \<Rightarrow> None
           | Some l \<Rightarrow> if lk_display l = did then None else Some l)"
    and "out = links_for_display t did"
    and "rt_renderers t' = rt_renderers t"
    and "next_link_id t' = next_link_id t"
proof -
  let ?lids = "hm_list (by_display t) did"
  let ?t1 = "t\<lparr>by_display := hm_remove did (by_display t)\<rparr>"
  have idx: "set ?lids = {k. \<exists>l. links_of t k = Some l \<and> lk_display l = did}" "distinct ?lids"
    using table_okD(5) [OF ok] by (auto simp: index_ok_def)
  have "hm_ok (rt_links ?t1)" using table_okD(1) [OF ok] by simp
  moreover have "remove_display_links ?lids ?t1 = (out, t')"
    using r by (simp add: remove_display_def Let_def)
  ultimately have f: "links_of t' = (\<lambda>k. if k \<in> set ?lids then None else links_of t k)"
    "\<And>q. hm_list (by_renderer t') q =
        filter (\<lambda>x. \<not> (x \<in> set ?lids \<and> (\<exists>l. links_of t x = Some l \<and> lk_renderer l = q))) (hm_list (by_renderer t) q)"
    "by_display t' = hm_remove did (by_display t)" "rt_renderers t' = rt_renderers t"
    "next_link_id t' = next_link_id t" "hm_ok (rt_links t')"
    "out = List.map_filter (links_of t) ?lids"
    using remove_display_links_ok [of ?t1 ?lids out t'] idx(2) by (simp_all cong: if_cong)
  show l: "links_of t' = (\<lambda>k. case links_of t k of None \<Rightarrow> None
           | Some l \<Rightarrow> if lk_display l = did then None else Some l)"
    by (auto simp: f(1) idx(1) fun_eq_iff split: option.split)
  have d: "index_ok lk_renderer (by_renderer t') (links_of t')"
    using table_okD(6) [OF ok] by (auto simp: index_ok_def f(1,2) idx(1))
  have b: "index_ok lk_display (by_display t') (links_of t')"
    unfolding l f(3) using table_okD(5) [OF ok] by (rule index_ok_remove_key)
  have "length (hm_list (by_display t') k) \<le> 1" for k
    using table_okD(7) [OF ok, of k] by (simp add: f(3))
  moreover have "hm_ok (rt_renderers t')" using table_okD(2) [OF ok] by (simp add: f(4))
  moreover have "lk_id k = j \<and> j \<le> next_link_id t'" if "links_of t' j = Some k" for j k
    using that table_okD(3,4) [OF ok] by (auto simp: f(1,5) split: if_splits)
  ultimately show "table_ok t'" using d b f(6) by (auto simp: table_ok_def)
  show "out = links_for_display t did" by (simp add: f(7) links_for_display_def)
  show "rt_renderers t' = rt_renderers t" "next_link_id t' = next_link_id t" by (rule f(4), rule f(5))
qed

lemma update_link_geometry_ok:
  assumes ok: "table_ok t"
  shows "table_ok (snd (update_link_geometry lid src dst tr cl z t))"
    and "rt_renderers (snd (update_link_geometry lid src dst tr cl z t)) = rt_renderers t"
    and "next_link_id (snd (update_link_geometry lid src dst tr cl z t)) = next_link_id t"
    and "map_option lk_renderer (links_of (snd (update_link_geometry lid src dst tr cl z t)) k)
           = map_option lk_renderer (links_of t k)"
    and "map_option lk_display (links_of (snd (update_link_geometry lid src dst tr cl z t)) k)
           = map_option lk_display (links_of t k)"
    and "map_option lk_enabled (links_of (snd (update_link_geometry lid src dst tr cl z t)) k)
           = map_option lk_enabled (links_of t k)"
proof -
  have "\<exists>l'. snd (update_link_geometry lid src dst tr cl z t) = t\<lparr>rt_links := hm_modify lid (\<lambda>_. l') (rt_links t)\<rparr>
     \<and> lk_id l' = lk_id l \<and> lk_renderer l' = lk_renderer l \<and> lk_display l' = lk_display l \<and> lk_enabled l' = lk_enabled l"
    if "links_of t lid = Some l" for l
    using that by (auto simp: update_link_geometry_def Let_def set_if_changed_def split: option.split)
  then have cases: "snd (update_link_geometry lid src dst tr cl z t) = t \<or>
      (\<exists>l l'. links_of t lid = Some l \<and>
         snd (update_link_geometry lid src dst tr cl z t) = t\<lparr>rt_links := hm_modify lid (\<lambda>_. l') (rt_links t)\<rparr>
         \<and> lk_id l' = lk_id l \<and> lk_renderer l' = lk_renderer l \<and> lk_display l' = lk_display l \<and> lk_enabled l' = lk_enabled l)"
    by (cases "links_of t lid") (auto simp: update_link_geometry_def)
  have "table_ok (t\<lparr>rt_links := hm_modify lid (\<lambda>_. l') (rt_links t)\<rparr>)"
    if l: "links_of t lid = Some l" and l': "lk_id l' = lk_id l" "lk_renderer l' = lk_renderer l" "lk_display l' = lk_display l" for l l'
  proof -
    have upd: "hm_get (hm_modify lid (\<lambda>_. l') (rt_links t)) = (links_of t)(lid \<mapsto> l')"
      using l by (auto simp: fun_eq_iff)
    show ?thesis
      using ok l l' index_ok_update [OF table_okD(5) [OF ok] l l'(3)] index_ok_update [OF table_okD(6) [OF ok] l l'(2)]
      by (auto simp: table_ok_def upd)
  qed
  with cases ok show "table_ok (snd (update_link_geometry lid src dst tr cl z t))" by auto
  show "rt_renderers (snd (update_link_geometry lid src dst tr cl z t)) = rt_renderers t"
    "next_link_id (snd (update_link_geometry lid src dst tr cl z t)) = next_link_id t"
    "map_option lk_renderer (links_of (snd (update_link_geometry lid src dst tr cl z t)) k) = map_option lk_renderer (links_of t k)"
    "map_option lk_display (links_of (snd (update_link_geometry lid src dst tr cl z t)) k) = map_option lk_display (links_of t k)"
    "map_option lk_enabled (links_of (snd (update_link_geometry lid src dst tr cl z t)) k) = map_option lk_enabled (links_of t k)"
    using cases by auto
qed

subsection \<open>The look-ups\<close>

lemma set_links_for_display:
  "table_ok t \<Longrightarrow> set (links_for_display t d) = {l. links_of t (lk_id l) = Some l \<and> lk_display l = d}"
  using table_okD(3,5) [of t] by (fastforce simp: links_for_display_def set_map_filter index_ok_def)

lemma set_links_for_renderer:
  "table_ok t \<Longrightarrow> set (links_for_renderer t r) = {l. links_of t (lk_id l) = Some l \<and> lk_renderer l = r}"
  using table_okD(3,6) [of t] by (fastforce simp: links_for_renderer_def set_map_filter index_ok_def)

lemma length_map_filter_le: "length (List.map_filter f xs) \<le> length xs"
  by (induction xs) (auto split: option.split)

lemma links_for_display_single: "table_ok t \<Longrightarrow> length (links_for_display t d) \<le> 1"
  unfolding links_for_display_def using table_okD(7) [of t d] length_map_filter_le by (meson order_trans)

lemma length_le_1_unique: "length xs \<le> 1 \<Longrightarrow> x \<in> set xs \<Longrightarrow> xs = [x]"
  by (cases xs) auto

text \<open>The two indexes agree: a link is in its display's list exactly when it is in its renderer's.\<close>

lemma links_indexes_agree:
  "table_ok t \<Longrightarrow> l \<in> set (links_for_display t (lk_display l)) \<longleftrightarrow> l \<in> set (links_for_renderer t (lk_renderer l))"
  by (simp add: set_links_for_display set_links_for_renderer)

section \<open>The contract: a map from displays to renderers\<close>

text \<open>
  What the table promises its clients: displays routed to renderers, one renderer at most for
  each. \<open>room\<close> is the number of link ids left. The lemma inside is the relink loop of the
  router, \<open>for did in ids { table.add_link(new, did) }\<close>, proved from the contract alone.
\<close>

locale route_table =
  fixes ok :: "'t \<Rightarrow> bool"
    and room :: "'t \<Rightarrow> nat"
    and route :: "'t \<Rightarrow> display_id \<Rightarrow> renderer_id option"
    and link_to :: "renderer_id \<Rightarrow> display_id \<Rightarrow> 't \<Rightarrow> 't"
    and drop_renderer :: "renderer_id \<Rightarrow> 't \<Rightarrow> 't"
    and drop_display :: "display_id \<Rightarrow> 't \<Rightarrow> 't"
  assumes ok_link: "ok t \<Longrightarrow> 0 < room t \<Longrightarrow> ok (link_to r d t)"
    and room_link: "ok t \<Longrightarrow> 0 < room t \<Longrightarrow> room (link_to r d t) = room t - 1"
    and route_link: "ok t \<Longrightarrow> 0 < room t \<Longrightarrow> route (link_to r d t) = (route t)(d \<mapsto> r)"
    and ok_drop_renderer: "ok t \<Longrightarrow> ok (drop_renderer r t)"
    and route_drop_renderer: "ok t \<Longrightarrow>
      route (drop_renderer r t) = (\<lambda>d. if route t d = Some r then None else route t d)"
    and ok_drop_display: "ok t \<Longrightarrow> ok (drop_display d t)"
    and route_drop_display: "ok t \<Longrightarrow> route (drop_display d t) = (route t)(d := None)"
begin

lemma relink_loop:
  assumes "ok t" and "length ds \<le> room t"
  shows "ok (fold (link_to r) ds t)"
    and "route (fold (link_to r) ds t) = (\<lambda>d. if d \<in> set ds then Some r else route t d)"
  using assms by (induction ds arbitrary: t) (auto simp: ok_link room_link route_link fun_eq_iff)

lemma drop_renderer_unrouted: "ok t \<Longrightarrow> route (drop_renderer r t) d \<noteq> Some r"
  by (simp add: route_drop_renderer)

lemma drop_display_commutes:
  "ok t \<Longrightarrow> route (drop_display d (drop_renderer r t)) = route (drop_renderer r (drop_display d t))"
  by (auto simp: route_drop_renderer route_drop_display ok_drop_renderer ok_drop_display fun_eq_iff)

end

definition route :: "'h routing_table \<Rightarrow> display_id \<Rightarrow> renderer_id option" where
  "route t did = (case links_for_display t did of [] \<Rightarrow> None | l # _ \<Rightarrow> Some (lk_renderer l))"

definition link_room :: "'h routing_table \<Rightarrow> nat" where
  "link_room t = unat (- 1 - next_link_id t)"

lemma route_Some_iff:
  assumes "table_ok t"
  shows "route t d = Some r \<longleftrightarrow> (\<exists>k l. links_of t k = Some l \<and> lk_display l = d \<and> lk_renderer l = r)"
proof -
  have "links_of t k = Some l \<Longrightarrow> lk_id l = k" for k l using table_okD(3) [OF assms] .
  then have "(\<exists>k l. links_of t k = Some l \<and> lk_display l = d \<and> lk_renderer l = r)
      \<longleftrightarrow> (\<exists>l\<in>set (links_for_display t d). lk_renderer l = r)"
    by (auto simp: set_links_for_display [OF assms])
  also have "\<dots> \<longleftrightarrow> route t d = Some r"
    using links_for_display_single [OF assms, of d]
    by (cases "links_for_display t d") (auto simp: route_def)
  finally show ?thesis ..
qed

lemma route_eqI:
  assumes "\<And>d r. route t d = Some r \<longleftrightarrow> f d = Some r"
  shows "route t = f"
proof
  fix d
  show "route t d = f d" using assms [of d] by (cases "f d"; cases "route t d") auto
qed

lemma link_room_pos: "0 < link_room t \<longleftrightarrow> next_link_id t \<noteq> - 1"
  by (auto simp: link_room_def unat_gt_0)

lemma route_add_link:
  assumes ok: "table_ok t" and room: "next_link_id t \<noteq> - 1"
  shows "route (snd (add_link rid did t)) = (route t)(did \<mapsto> rid)"
proof (rule route_eqI)
  fix d r
  have "links_of t (next_link_id t + 1) = None" using add_link_ok(1,2) [OF ok room, of rid did] by simp
  then show "route (snd (add_link rid did t)) d = Some r \<longleftrightarrow> ((route t)(did \<mapsto> rid)) d = Some r"
    by (auto simp: route_Some_iff [OF add_link_ok(4) [OF ok room]] route_Some_iff [OF ok]
        add_link_ok(3) [OF ok room] new_link_def split: option.split if_splits)
qed

lemma route_remove_renderer:
  assumes ok: "table_ok t"
  shows "route (snd (remove_renderer rid t)) = (\<lambda>d. if route t d = Some rid then None else route t d)"
proof (rule route_eqI)
  fix d r
  obtain out t' where e: "remove_renderer rid t = (out, t')" by force
  have "route t' d = Some r \<longleftrightarrow> route t d = Some r \<and> r \<noteq> rid"
    by (auto simp: route_Some_iff [OF remove_renderer_ok(1) [OF ok e]] route_Some_iff [OF ok]
        remove_renderer_ok(2) [OF ok e] split: option.splits if_splits)
  then show "route (snd (remove_renderer rid t)) d = Some r
      \<longleftrightarrow> (if route t d = Some rid then None else route t d) = Some r"
    by (auto simp: e)
qed

lemma route_remove_display:
  assumes ok: "table_ok t"
  shows "route (snd (remove_display did t)) = (route t)(did := None)"
proof (rule route_eqI)
  fix d r
  obtain out t' where e: "remove_display did t = (out, t')" by force
  show "route (snd (remove_display did t)) d = Some r \<longleftrightarrow> ((route t)(did := None)) d = Some r"
    by (auto simp: e route_Some_iff [OF remove_display_ok(1) [OF ok e]] route_Some_iff [OF ok]
        remove_display_ok(2) [OF ok e] split: option.splits if_splits)
qed

lemma link_room_add:
  assumes "table_ok t" and "0 < link_room t"
  shows "link_room (snd (add_link rid did t)) = link_room t - 1"
proof -
  have n: "next_link_id t \<noteq> - 1" using assms(2) by (simp add: link_room_pos)
  define x where "x = - 1 - next_link_id t"
  have "x \<noteq> 0" using n by (simp add: x_def)
  then have "unat (x - 1) = unat x - 1" by (rule unat_minus_one)
  moreover have "- 1 - (next_link_id t + 1) = x - 1" by (simp add: x_def)
  ultimately show ?thesis by (simp only: link_room_def add_link_ok(5) [OF assms(1) n] x_def)
qed

interpretation rt: route_table table_ok link_room route
  "\<lambda>r d t. snd (add_link r d t)" "\<lambda>r t. snd (remove_renderer r t)" "\<lambda>d t. snd (remove_display d t)"
proof unfold_locales
  fix t :: "'h routing_table" and r d
  assume ok: "table_ok t"
  show "table_ok (snd (remove_renderer r t))" by (rule remove_renderer_ok(1) [OF ok]) (rule prod.collapse [symmetric])
  show "table_ok (snd (remove_display d t))" by (rule remove_display_ok(1) [OF ok]) (rule prod.collapse [symmetric])
qed (auto simp: link_room_pos link_room_add route_add_link route_remove_renderer route_remove_display intro: add_link_ok(4))

section \<open>Reachable tables\<close>

text \<open>The states any sequence of calls leads to, as long as link ids are left.\<close>

inductive table_reachable :: "'h routing_table \<Rightarrow> bool" where
  new: "table_reachable table_new"
| add_renderer: "table_reachable t \<Longrightarrow> table_reachable (add_renderer rid h t)"
| remove_renderer: "table_reachable t \<Longrightarrow> table_reachable (snd (remove_renderer rid t))"
| add_link: "table_reachable t \<Longrightarrow> next_link_id t \<noteq> - 1 \<Longrightarrow> table_reachable (snd (add_link rid did t))"
| remove_link: "table_reachable t \<Longrightarrow> table_reachable (snd (remove_link lid t))"
| update: "table_reachable t \<Longrightarrow>
    table_reachable (snd (update_link_geometry lid src dst tr cl z t))"
| remove_display: "table_reachable t \<Longrightarrow> table_reachable (snd (remove_display did t))"

lemma table_reachable_ok: "table_reachable t \<Longrightarrow> table_ok t"
proof (induction rule: table_reachable.induct)
  case (remove_renderer t rid)
  then show ?case by (blast intro: rt.ok_drop_renderer)
next
  case (remove_display t did)
  then show ?case by (blast intro: rt.ok_drop_display)
qed (auto intro: inv_intro add_link_ok(4) remove_link_ok(1) update_link_geometry_ok(1))

section \<open>Properties\<close>

text \<open>
  whatever sequence of calls built the table, a display has at most one link, and the two
  indexes never drift apart: a link is found from its display exactly when it is found from
  its renderer.
\<close>

theorem reachable_table_consistent:
  assumes "table_reachable t"
  shows "length (links_for_display t d) \<le> 1 \<and>
    (l \<in> set (links_for_display t (lk_display l)) \<longleftrightarrow> l \<in> set (links_for_renderer t (lk_renderer l)))"
  using links_for_display_single [OF table_reachable_ok [OF assms]]
    links_indexes_agree [OF table_reachable_ok [OF assms]] by blast

theorem reachable_table_consistent_witness:
  "length (links_for_display (snd (add_link ''r1'' 7 (snd (add_link ''r0'' 7 (table_new :: nat routing_table))))) 7) \<le> 1"
proof (rule reachable_table_consistent [THEN conjunct1], rule table_reachable.add_link)
  have n: "next_link_id (table_new :: nat routing_table) \<noteq> - 1" by (simp add: table_new_def)
  show "table_reachable (snd (add_link ''r0'' 7 (table_new :: nat routing_table)))"
    by (rule table_reachable.add_link [OF table_reachable.new n])
  show "next_link_id (snd (add_link ''r0'' 7 (table_new :: nat routing_table))) \<noteq> - 1"
    using add_link_ok(5) [OF table_ok_new n] by (simp add: table_new_def)
qed

text \<open>
  C5: the table implements a partial map from displays to renderers: \<open>add_link\<close> points the
  display at the new renderer and leaves every other display alone, \<open>remove_renderer\<close>
  unroutes exactly the displays of that renderer, \<open>remove_display\<close> exactly that display; and
  each keeps the invariant.
\<close>

theorem table_refines_route:
  assumes "table_ok t" and "next_link_id t \<noteq> - 1"
  shows "route (snd (add_link rid did t)) = (route t)(did \<mapsto> rid)
    \<and> route (snd (remove_renderer rid t)) = (\<lambda>d. if route t d = Some rid then None else route t d)
    \<and> route (snd (remove_display did t)) = (route t)(did := None)
    \<and> table_ok (snd (add_link rid did t)) \<and> table_ok (snd (remove_renderer rid t))
    \<and> table_ok (snd (remove_display did t))"
  using assms
  by (simp add: link_room_pos rt.route_link rt.route_drop_renderer rt.route_drop_display rt.ok_link
      rt.ok_drop_renderer rt.ok_drop_display)

theorem table_refines_route_witness:
  "route (snd (add_link ''r'' 3 (table_new :: nat routing_table))) = [3 \<mapsto> ''r'']"
proof -
  have "route (snd (add_link ''r'' 3 (table_new :: nat routing_table))) = (route (table_new :: nat routing_table))(3 \<mapsto> ''r'')"
    by (rule table_refines_route [OF table_ok_new, THEN conjunct1]) (simp add: table_new_def)
  then show ?thesis by (simp add: route_def links_for_display_def table_new_def fun_eq_iff)
qed

text \<open>
  removing a renderer reports exactly the links that pointed at it, each with its display,
  so that the caller can resynchronise those displays and no others.
\<close>

theorem remove_renderer_reports:
  assumes "table_ok t"
  shows "set (fst (remove_renderer rid t))
    = {(k, d). \<exists>l. get_link t k = Some l \<and> lk_renderer l = rid \<and> lk_display l = d}"
  using remove_renderer_ok(4) [OF assms prod.collapse [symmetric]] by (simp add: get_link_def)

theorem remove_renderer_reports_witness:
  "(1, 7) \<in> set (fst (remove_renderer ''r'' (snd (add_link ''r'' 7 (table_new :: nat routing_table)))))"
proof -
  have "table_ok (snd (add_link ''r'' 7 (table_new :: nat routing_table)))"
    by (rule rt.ok_link [OF table_ok_new]) (simp add: link_room_pos table_new_def)
  then show ?thesis
    by (subst remove_renderer_reports)
      (simp_all add: get_link_def add_link_def table_new_def new_link_def Let_def)
qed

end
