(* ===== verification/Renderer.thy ===== *)
theory Renderer
  imports Registry Negotiate Routing_Table
begin

text \<open>
  Renderer processes, \<open>src/renderer_manager.rs\<close>: the state behind a renderer handle, the reader
  thread that fills it from the renderer's events, and the manager's map of live renderers with
  the control messages it sends.

  Ids are fresh UUIDs and a handle is made once per id, so a shared \<open>Arc<RendererHandle>\<close> is
  named by its id; handles outlive their removal from the manager's map, as an \<open>Arc\<close> does.
  A file descriptor is a number. A socket either takes a write or fails with a codec error.
  The mutexes of a handle are never poisoned (no modelled code panics while holding one).
\<close>

section \<open>The handle\<close>

record bind_snapshot =
  bs_generation :: u64
  bs_flags :: u32
  bs_count :: u32
  bs_fourcc :: u32
  bs_width :: u32
  bs_height :: u32
  bs_modifier :: u64
  bs_planes_per_buffer :: u32
  bs_stride :: "u32 list"
  bs_plane_offset :: "u32 list"
  bs_size :: "u64 list"
  bs_fds :: "nat list"

record frame_snapshot =
  fs_generation :: u64
  fs_index :: u32
  fs_seq :: u64
  fs_release_point :: u64

datatype codec_error = PeerClosed | EPIPE | ECONNRESET | ENOTCONN | OtherCodecError

record renderer_handle =
  rh_id :: renderer_id
  rh_wp_type :: string
  rh_extras :: "(string, string) hmap"
  rh_name :: string
  rh_pid :: "u32 option"
  rh_gpu :: drm_node
  rh_sock :: "codec_error option"
  rh_bind :: "bind_snapshot option"
  rh_pending_configure :: "u32 option"
  rh_sync_fds :: "(u64 \<times> nat) list"
  rh_latest :: "frame_snapshot option"
  rh_release_syncobj :: "nat option"
  rh_format_caps :: "peer_caps option"
  rh_last_scheme :: "negotiated_scheme option"
  rh_has_reaper :: bool
  rh_child :: bool
  rh_events :: "string list"
  rh_clear :: rgba

definition frame_ready_seen :: "renderer_handle \<Rightarrow> bool" where
  "frame_ready_seen h \<longleftrightarrow> rh_sync_fds h \<noteq> []"

definition latest_frame :: "renderer_handle \<Rightarrow> frame_snapshot option" where
  "latest_frame h =
     (case rh_latest h of
        None \<Rightarrow> None
      | Some f \<Rightarrow> if \<exists>e \<in> set (rh_sync_fds h). fst e = fs_seq f then Some f else None)"

definition texture_size :: "renderer_handle \<Rightarrow> u32 \<times> u32" where
  "texture_size h = (case rh_bind h of Some s \<Rightarrow> (bs_width s, bs_height s) | None \<Rightarrow> (0, 0))"

definition current_flags :: "renderer_handle \<Rightarrow> u32" where
  "current_flags h = (case rh_bind h of Some s \<Rightarrow> bs_flags s | None \<Rightarrow> 0)"

text \<open>\<open>dup\<close> makes a new descriptor of the same fence or syncobj; it is the same one here.\<close>

definition clone_sync_fd :: "u64 \<Rightarrow> renderer_handle \<Rightarrow> nat option" where
  "clone_sync_fd seq h = map_option snd (find (\<lambda>(s, _). s = seq) (rh_sync_fds h))"

definition clone_release_syncobj_fd :: "renderer_handle \<Rightarrow> nat option" where
  "clone_release_syncobj_fd h = rh_release_syncobj h"

definition blacklist_format :: "u32 \<Rightarrow> u64 \<Rightarrow> renderer_handle \<Rightarrow> bool \<times> renderer_handle" where
  "blacklist_format fourcc modifier h =
     (case rh_format_caps h of
        None \<Rightarrow> (False, h)
      | Some caps \<Rightarrow>
          ((fourcc, modifier) \<notin> caps_blacklist caps,
           h\<lparr>rh_format_caps := Some (caps\<lparr>caps_blacklist := insert (fourcc, modifier) (caps_blacklist caps)\<rparr>)\<rparr>))"

definition scheme_satisfied :: "renderer_handle \<Rightarrow> bool" where
  "scheme_satisfied h =
     (case rh_last_scheme h of
        None \<Rightarrow> False
      | Some scheme \<Rightarrow>
          (case rh_bind h of
             Some s \<Rightarrow> bs_fourcc s = ns_fourcc scheme \<and> bs_modifier s = ns_modifier scheme
           | None \<Rightarrow> False))"

section \<open>The reader thread\<close>

record bind_msg =
  bm_generation :: u64
  bm_flags :: u32
  bm_count :: u32
  bm_fourcc :: u32
  bm_width :: u32
  bm_height :: u32
  bm_modifier :: u64
  bm_planes_per_buffer :: u32
  bm_stride :: "u32 list"
  bm_plane_offset :: "u32 list"
  bm_size :: "u64 list"

record format_caps_msg =
  fm_fourccs :: "u32 list"
  fm_mod_counts :: "u32 list"
  fm_modifiers :: "u64 list"
  fm_plane_counts :: "u32 list"
  fm_device_uuid :: "u32 list"
  fm_driver_uuid :: "u32 list"
  fm_major :: u32
  fm_minor :: u32
  fm_mem_hints :: u32
  fm_sync_caps :: u32
  fm_color_caps :: u32
  fm_extent_max :: "u32 \<times> u32"

datatype event_msg =
    BindBuffers bind_msg
  | FrameReady (fr_image_index: u32) (fr_seq: u64) (fr_release_point: u64)
  | ReleaseSyncobj
  | FormatCaps format_caps_msg
  | BindFailed (bf_fourcc: u32) (bf_modifier: u64) (bf_reason: u32) (bf_message: string)
  | ReportState "(string \<times> string) list"
  | Ready u32 u32
  | InitNack u32 u32 string
  | OtherEvent

definition SYNC_FD_RETENTION :: nat where "SYNC_FD_RETENTION = 16"

text \<open>\<open>clamp(0.0, 1.0)\<close> of a finite value.\<close>

definition clamp01 :: "f32 \<Rightarrow> f32" where
  "clamp01 v = (case v of Fin q \<Rightarrow> Fin (if q < 0 then 0 else if 1 < q then 1 else q) | _ \<Rightarrow> v)"

definition parse_component :: "string \<Rightarrow> f32 option" where
  "parse_component p =
     (case parse_f32 p of
        Some (Fin q) \<Rightarrow> Some (clamp01 (Fin q))
      | _ \<Rightarrow> None)"

definition parse_clear_color :: "string \<Rightarrow> rgba option" where
  "parse_clear_color s =
     (case map parse_component (map str_trim (split_on (CHR '','') s)) of
        [Some r, Some g, Some b, Some a] \<Rightarrow> Some (r, g, b, a)
      | _ \<Rightarrow> None)"

definition bind_ok :: "bind_msg \<Rightarrow> nat list \<Rightarrow> bool" where
  "bind_ok m fds \<longleftrightarrow>
     (let expected = unat (bm_count m) * unat (bm_planes_per_buffer m) in
      length (bm_stride m) = expected \<and> length (bm_plane_offset m) = expected \<and>
      length (bm_size m) = expected \<and> length fds = expected \<and> fds \<noteq> [])"

definition on_bind_buffers :: "bind_msg \<Rightarrow> nat list \<Rightarrow> renderer_handle \<Rightarrow> renderer_handle" where
  "on_bind_buffers m fds h =
     (if bind_ok m fds then
        h\<lparr>rh_bind := Some
            \<lparr>bs_generation = bm_generation m, bs_flags = bm_flags m, bs_count = bm_count m,
             bs_fourcc = bm_fourcc m, bs_width = bm_width m, bs_height = bm_height m,
             bs_modifier = bm_modifier m, bs_planes_per_buffer = bm_planes_per_buffer m,
             bs_stride = bm_stride m, bs_plane_offset = bm_plane_offset m, bs_size = bm_size m, bs_fds = fds\<rparr>,
          rh_sync_fds := [], rh_latest := None, rh_pending_configure := None\<rparr>
      else h)"

text \<open>The loop \<open>while len >= RETENTION { pop_front }\<close>.\<close>

definition evict_oldest :: "'a list \<Rightarrow> 'a list" where
  "evict_oldest q = drop (length q - (SYNC_FD_RETENTION - 1)) q"

text \<open>The codec delivers exactly one descriptor with these events; an empty list would panic.\<close>

definition on_frame_ready :: "u32 \<Rightarrow> u64 \<Rightarrow> u64 \<Rightarrow> nat list \<Rightarrow> renderer_handle \<Rightarrow> renderer_handle option" where
  "on_frame_ready index seq point fds h =
     (case fds of
        [] \<Rightarrow> None
      | fd # _ \<Rightarrow> Some
          (h\<lparr>rh_sync_fds := evict_oldest (rh_sync_fds h) @ [(seq, fd)],
             rh_latest := (case rh_bind h of
                Some s \<Rightarrow> Some \<lparr>fs_generation = bs_generation s, fs_index = index, fs_seq = seq, fs_release_point = point\<rparr>
              | None \<Rightarrow> rh_latest h)\<rparr>))"

definition on_release_syncobj :: "nat list \<Rightarrow> renderer_handle \<Rightarrow> renderer_handle option" where
  "on_release_syncobj fds h = (case fds of [] \<Rightarrow> None | fd # _ \<Rightarrow> Some (h\<lparr>rh_release_syncobj := Some fd\<rparr>))"

definition on_format_caps :: "format_caps_msg \<Rightarrow> renderer_handle \<Rightarrow> renderer_handle option" where
  "on_format_caps m h =
     (case unflatten_caps (fm_fourccs m) (fm_mod_counts m) (fm_modifiers m) (fm_plane_counts m)
             (fm_device_uuid m) (fm_driver_uuid m) \<lparr>drm_major = fm_major m, drm_minor = fm_minor m\<rparr>
             (fm_sync_caps m) (fm_color_caps m) (fm_mem_hints m) (fm_extent_max m) of
        None \<Rightarrow> None
      | Some (Inl _) \<Rightarrow> Some h
      | Some (Inr caps) \<Rightarrow> Some (h\<lparr>rh_format_caps := Some caps\<rparr>))"

definition report_step :: "string \<times> string \<Rightarrow> renderer_handle \<Rightarrow> renderer_handle" where
  "report_step kv h =
     (if fst kv = ''clear_color'' then
        (case parse_clear_color (snd kv) of Some c \<Rightarrow> h\<lparr>rh_clear := c\<rparr> | None \<Rightarrow> h)
      else h)"

text \<open>One round of the reader loop on a received message; \<open>None\<close> is a panic of the thread.\<close>

fun reader_step :: "event_msg \<Rightarrow> nat list \<Rightarrow> renderer_handle \<Rightarrow> renderer_handle option" where
  "reader_step (BindBuffers m) fds h = Some (on_bind_buffers m fds h)"
| "reader_step (FrameReady index seq point) fds h = on_frame_ready index seq point fds h"
| "reader_step ReleaseSyncobj fds h = on_release_syncobj fds h"
| "reader_step (FormatCaps m) fds h = on_format_caps m h"
| "reader_step (ReportState kvs) fds h = Some (fold report_step kvs h)"
| "reader_step _ fds h = Some h"

definition expected_fds :: "event_msg \<Rightarrow> nat list \<Rightarrow> bool" where
  "expected_fds ev fds \<longleftrightarrow>
     (case ev of FrameReady _ _ _ \<Rightarrow> length fds = 1 | ReleaseSyncobj \<Rightarrow> length fds = 1 | _ \<Rightarrow> True)"

section \<open>The manager\<close>

datatype control_msg =
    Init u32 "(string \<times> string) list" string
  | Play
  | Pause
  | Shutdown
  | NegotiateBuffers u32 u64 u32 u32 u32 u32 u32 u32 u32
  | SettingChanged "(string \<times> string) list"
  | PointerMotion f32 f32 u64 u32
  | PointerButton f32 f32 u32 u32 u64 u32
  | PointerAxis f32 f32 f32 f32 u32 u64 u32

datatype renderer_error =
    RendererNotFound renderer_id
  | NoRendererForType string
  | RendererSpawnFailed string
  | RendererControlFailed codec_error

text \<open>
  The manager: its map of live renderers (an id stands for its handle), the queue of renderers to
  evict, and, standing for the processes and their sockets, the handles themselves with
  everything written to them.
\<close>

record manager =
  mg_handles :: "(renderer_id, renderer_handle) hmap"
  mg_live :: "renderer_id list"
  mg_registry :: registry
  mg_reap :: "renderer_id list"
  mg_wire :: "(renderer_id \<times> control_msg) list"

definition manager_new :: "registry \<Rightarrow> manager" where
  "manager_new reg = \<lparr>mg_handles = [], mg_live = [], mg_registry = reg, mg_reap = [], mg_wire = []\<rparr>"

definition mgr_get :: "manager \<Rightarrow> renderer_id \<Rightarrow> renderer_handle option" where
  "mgr_get m rid = (if rid \<in> set (mg_live m) then hm_get (mg_handles m) rid else None)"

text \<open>The end of \<open>spawn\<close>: the new handle enters the map.\<close>

definition insert_handle :: "renderer_handle \<Rightarrow> manager \<Rightarrow> manager" where
  "insert_handle h m =
     m\<lparr>mg_handles := hm_insert (rh_id h) h (mg_handles m), mg_live := mg_live m @ [rh_id h]\<rparr>"

definition update_handle :: "renderer_id \<Rightarrow> (renderer_handle \<Rightarrow> renderer_handle) \<Rightarrow> manager \<Rightarrow> manager" where
  "update_handle rid f m = m\<lparr>mg_handles := hm_modify rid f (mg_handles m)\<rparr>"

definition mgr_list :: "manager \<Rightarrow> renderer_id list" where
  "mgr_list m = mg_live m"

definition find_by_resource :: "string \<Rightarrow> manager \<Rightarrow> renderer_handle option" where
  "find_by_resource resource m =
     find (\<lambda>h. hm_get (rh_extras h) ''path'' = Some resource)
       (List.map_filter (hm_get (mg_handles m)) (mg_live m))"

record spawn_request =
  sp_wp_type :: string
  sp_extras :: "(string, string) hmap"
  sp_settings :: "(string, string) hmap"
  sp_test_pattern :: bool
  sp_renderer_name :: "string option"
  sp_user_properties :: "string option"

definition find_reusable :: "spawn_request \<Rightarrow> manager \<Rightarrow> renderer_id option" where
  "find_reusable req m =
     (case (case sp_renderer_name req of
              Some name \<Rightarrow> resolve_by_name (mg_registry m) name
            | None \<Rightarrow> resolve (mg_registry m) (sp_wp_type req)) of
        None \<Rightarrow> None
      | Some d \<Rightarrow>
          map_option rh_id (find (\<lambda>h. rh_wp_type h = sp_wp_type req \<and> rh_name h = rd_name d \<and>
              hm_eq (=) (rh_extras h) (sp_extras req))
            (List.map_filter (hm_get (mg_handles m)) (mg_live m))))"

definition is_peer_gone :: "codec_error \<Rightarrow> bool" where
  "is_peer_gone e \<longleftrightarrow> e \<in> {PeerClosed, EPIPE, ECONNRESET, ENOTCONN}"

definition mark_dead :: "renderer_id \<Rightarrow> manager \<Rightarrow> manager" where
  "mark_dead rid m = m\<lparr>mg_reap := mg_reap m @ [rid]\<rparr>"

definition mgr_send_control :: "renderer_id \<Rightarrow> control_msg \<Rightarrow> manager \<Rightarrow> (renderer_error + unit) \<times> manager" where
  "mgr_send_control rid msg m =
     (case mgr_get m rid of
        None \<Rightarrow> (Inl (RendererNotFound rid), m)
      | Some h \<Rightarrow>
          (case rh_sock h of
             None \<Rightarrow> (Inr (), m\<lparr>mg_wire := mg_wire m @ [(rid, msg)]\<rparr>)
           | Some e \<Rightarrow> (Inl (RendererControlFailed e), if is_peer_gone e then mark_dead rid m else m)))"

definition negotiate_msg :: "negotiated_scheme \<Rightarrow> control_msg" where
  "negotiate_msg s =
     NegotiateBuffers (ns_fourcc s) (ns_modifier s) (ns_plane_count s) (ns_sync_mode s) (ns_color s)
       (ns_mem_hint s) (ns_count s) (path_as_u32 (ns_path s)) (mem_source_as_u32 (ns_mem_source s))"

definition send_negotiate_buffers ::
  "renderer_id \<Rightarrow> negotiated_scheme \<Rightarrow> manager \<Rightarrow> (renderer_error + unit) \<times> manager" where
  "send_negotiate_buffers rid scheme m =
     (case mgr_get m rid of
        None \<Rightarrow> (Inl (RendererNotFound rid), m)
      | Some h \<Rightarrow>
          if rh_last_scheme h = Some scheme then (Inr (), m)
          else (case mgr_send_control rid (negotiate_msg scheme) m of
                  (Inl e, m1) \<Rightarrow> (Inl e, m1)
                | (Inr _, m1) \<Rightarrow> (Inr (), update_handle rid (\<lambda>h. h\<lparr>rh_last_scheme := Some scheme\<rparr>) m1)))"

definition send_setting_changed ::
  "renderer_id \<Rightarrow> (string \<times> string) list \<Rightarrow> u32 option \<Rightarrow> manager \<Rightarrow> (renderer_error + unit) \<times> manager" where
  "send_setting_changed rid kvs fps m =
     (case mgr_get m rid of
        None \<Rightarrow> (Inl (RendererNotFound rid), m)
      | Some _ \<Rightarrow>
          (let kvs' = (case fps of
                 Some f \<Rightarrow> if f \<noteq> 0 then filter (\<lambda>(k, _). k \<noteq> ''fps'') kvs @ [(''fps'', show_u32 f)] else kvs
               | None \<Rightarrow> kvs)
           in mgr_send_control rid (SettingChanged kvs') m))"

definition subscribed_to :: "renderer_id \<Rightarrow> string \<Rightarrow> manager \<Rightarrow> bool" where
  "subscribed_to rid kind m = (case mgr_get m rid of Some h \<Rightarrow> kind \<in> set (rh_events h) | None \<Rightarrow> False)"

text \<open>The three pointer senders: nothing is sent to a renderer that did not subscribe.\<close>

definition send_pointer :: "renderer_id \<Rightarrow> control_msg \<Rightarrow> manager \<Rightarrow> (renderer_error + unit) \<times> manager" where
  "send_pointer rid msg m =
     (if subscribed_to rid ''pointer'' m then mgr_send_control rid msg m else (Inr (), m))"

definition send_pointer_motion where
  "send_pointer_motion rid x y t mods m = send_pointer rid (PointerMotion x y t mods) m"

definition send_pointer_button where
  "send_pointer_button rid x y button state t mods m = send_pointer rid (PointerButton x y button state t mods) m"

definition send_pointer_axis where
  "send_pointer_axis rid x y dx dy source t mods m = send_pointer rid (PointerAxis x y dx dy source t mods) m"

text \<open>\<open>kill\<close>: out of the map, a Shutdown if the socket takes it, and the child is waited for.\<close>

definition mgr_kill :: "renderer_id \<Rightarrow> manager \<Rightarrow> (renderer_error + unit) \<times> manager" where
  "mgr_kill rid m =
     (case mgr_get m rid of
        None \<Rightarrow> (Inl (RendererNotFound rid), m)
      | Some h \<Rightarrow>
          (Inr (), update_handle rid (\<lambda>h. h\<lparr>rh_child := False\<rparr>)
             (m\<lparr>mg_live := removeAll rid (mg_live m),
                mg_wire := (if rh_sock h = None then mg_wire m @ [(rid, Shutdown)] else mg_wire m)\<rparr>)))"

definition build_init_msg :: "u32 \<Rightarrow> spawn_request \<Rightarrow> renderer_def \<Rightarrow> control_msg" where
  "build_init_msg default_version req d =
     (let kv = (if hm_get (rd_settings d) ''test_pattern'' \<noteq> None \<and> sp_test_pattern req
                then hm_insert ''test_pattern'' ''1'' (sp_settings req) else sp_settings req)
      in Init (case rd_spawn_version d of Some v \<Rightarrow> v | None \<Rightarrow> default_version) (sort_key fst kv)
           (case sp_user_properties req of Some p \<Rightarrow> p | None \<Rightarrow> []))"

text \<open>The answer to Init: the event received, or a receive error.\<close>

definition init_handshake :: "(codec_error + event_msg) \<Rightarrow> renderer_error + drm_node" where
  "init_handshake answer =
     (case answer of
        Inl e \<Rightarrow> Inl (RendererSpawnFailed ''recv Ready'')
      | Inr (Ready major minor) \<Rightarrow> Inr \<lparr>drm_major = major, drm_minor = minor\<rparr>
      | Inr (InitNack got supported reason) \<Rightarrow> Inl (RendererSpawnFailed reason)
      | Inr other \<Rightarrow> Inl (RendererSpawnFailed ''unexpected event before Ready''))"

section \<open>What the reader keeps\<close>

text \<open>The handle that \<open>spawn\<close> makes, for the values given.\<close>

definition fresh_handle :: "renderer_id \<Rightarrow> spawn_request \<Rightarrow> renderer_def \<Rightarrow> u32 option \<Rightarrow> drm_node \<Rightarrow> bool \<Rightarrow> renderer_handle" where
  "fresh_handle rid req d pid gpu reaper =
     \<lparr>rh_id = rid, rh_wp_type = sp_wp_type req, rh_extras = sp_extras req, rh_name = rd_name d, rh_pid = pid,
      rh_gpu = gpu, rh_sock = None, rh_bind = None, rh_pending_configure = None, rh_sync_fds = [],
      rh_latest = None, rh_release_syncobj = None, rh_format_caps = None, rh_last_scheme = None,
      rh_has_reaper = reaper, rh_child = True, rh_events = rd_events d, rh_clear = BLACK\<rparr>"

fun reader_run :: "(event_msg \<times> nat list) list \<Rightarrow> renderer_handle \<Rightarrow> renderer_handle option" where
  "reader_run [] h = Some h"
| "reader_run ((ev, fds) # evs) h =
     (case reader_step ev fds h of None \<Rightarrow> None | Some h' \<Rightarrow> reader_run evs h')"

definition snapshot_aligned :: "bind_snapshot \<Rightarrow> bool" where
  "snapshot_aligned s \<longleftrightarrow>
     (let n = unat (bs_count s) * unat (bs_planes_per_buffer s) in
      0 < n \<and> length (bs_stride s) = n \<and> length (bs_plane_offset s) = n \<and> length (bs_size s) = n \<and>
      length (bs_fds s) = n)"

definition handle_ok :: "renderer_handle \<Rightarrow> bool" where
  "handle_ok h \<longleftrightarrow>
     length (rh_sync_fds h) \<le> SYNC_FD_RETENTION \<and>
     (\<forall>s. rh_bind h = Some s \<longrightarrow> snapshot_aligned s) \<and>
     (\<forall>f. rh_latest h = Some f \<longrightarrow>
        (\<exists>s. rh_bind h = Some s \<and> bs_generation s = fs_generation f) \<and>
        (\<exists>q fd. rh_sync_fds h = q @ [(fs_seq f, fd)])) \<and>
     (\<forall>c. rh_format_caps h = Some c \<longrightarrow> caps_ok c)"

lemma unflatten_caps_ok:
  assumes "unflatten_caps fs ns ms ps dev drv drm sync color hint ext = Some (Inr c)"
  shows "caps_ok c"
proof -
  have "length fs = length ns" "length ms = sum_list (map unat ns)" "length ps = sum_list (map unat ns)"
    using assms unfolding unflatten_caps_def Let_def by (auto split: if_splits)
  moreover have "sum_list (map (unat \<circ> snd) (zip fs ns)) = sum_list (map unat ns)"
    using \<open>length fs = length ns\<close> by (simp flip: map_map)
  ultimately obtain m where "unflatten_loop (zip fs ns) 0 ms ps [] = Some m" "bt_ok m"
    using unflatten_loop_eq [of 0 "zip fs ns" ms ps "[]"] by auto
  then show ?thesis using assms unfolding unflatten_caps_def Let_def caps_ok_def by (auto split: if_splits)
qed

lemma unflatten_caps_total': "unflatten_caps fs ns ms ps dev drv drm sync color hint ext \<noteq> None"
proof (cases "length fs = length ns \<and> length ms = sum_list (map unat ns) \<and> length ps = sum_list (map unat ns)")
  case True
  then have "sum_list (map (unat \<circ> snd) (zip fs ns)) = sum_list (map unat ns)" by (simp flip: map_map)
  then obtain m where "unflatten_loop (zip fs ns) 0 ms ps [] = Some m"
    using unflatten_loop_eq [of 0 "zip fs ns" ms ps "[]"] True by auto
  then show ?thesis by (simp add: unflatten_caps_def Let_def)
next
  case False
  then show ?thesis by (auto simp: unflatten_caps_def Let_def)
qed

lemma handle_ok_clear [simp]: "handle_ok (h\<lparr>rh_clear := c\<rparr>) = handle_ok h"
  by (simp add: handle_ok_def)

lemma report_step_ok: "handle_ok h \<Longrightarrow> handle_ok (fold report_step kvs h)"
proof (induction kvs arbitrary: h)
  case (Cons kv kvs)
  have "handle_ok (report_step kv h)"
    using Cons.prems by (simp add: report_step_def split: option.split)
  then show ?case using Cons.IH by simp
qed simp

lemma bind_ok_aligned:
  "bind_ok m fds \<Longrightarrow> snapshot_aligned
     \<lparr>bs_generation = g, bs_flags = fl, bs_count = bm_count m, bs_fourcc = f, bs_width = w, bs_height = h,
      bs_modifier = md, bs_planes_per_buffer = bm_planes_per_buffer m, bs_stride = bm_stride m,
      bs_plane_offset = bm_plane_offset m, bs_size = bm_size m, bs_fds = fds\<rparr>"
  using length_greater_0_conv [of fds] by (auto simp: bind_ok_def snapshot_aligned_def Let_def)

lemma reader_step_ok:
  assumes "handle_ok h" and "expected_fds ev fds"
  shows "\<exists>h'. reader_step ev fds h = Some h' \<and> handle_ok h'"
proof (cases ev)
  case (BindBuffers m)
  then show ?thesis using assms(1) bind_ok_aligned [of m fds]
    by (auto simp: on_bind_buffers_def handle_ok_def)
next
  case (FrameReady index seq point)
  then obtain fd where fds: "fds = [fd]" using assms(2) by (auto simp: expected_fds_def length_Suc_conv)
  have "length (evict_oldest (rh_sync_fds h)) \<le> 15" by (simp add: evict_oldest_def SYNC_FD_RETENTION_def)
  then show ?thesis using assms(1) FrameReady fds
    by (auto simp: on_frame_ready_def handle_ok_def SYNC_FD_RETENTION_def split: option.splits)
next
  case ReleaseSyncobj
  then obtain fd where fds: "fds = [fd]" using assms(2) by (auto simp: expected_fds_def length_Suc_conv)
  then show ?thesis using assms(1) ReleaseSyncobj by (simp add: on_release_syncobj_def handle_ok_def)
next
  case (FormatCaps m)
  then show ?thesis using assms(1)
    by (auto simp: on_format_caps_def handle_ok_def unflatten_caps_total' unflatten_caps_ok
        split: option.splits sum.splits)
next
  case (ReportState kvs)
  then show ?thesis using assms(1) report_step_ok by simp
qed (use assms(1) in simp_all)

lemma handle_ok_fresh: "handle_ok (fresh_handle rid req d pid gpu reaper)"
  by (simp add: handle_ok_def fresh_handle_def)

text \<open>
  C21: Whatever events a renderer sends, with the descriptors the codec delivers, its reader thread
  does not panic, holds at most 16 fences, keeps the planes of the buffer pool aligned with
  their descriptors, and its latest frame is always one of the current pool generation whose
  fence is still held.
\<close>

theorem reader_keeps_handle:
  assumes "\<forall>(ev, fds) \<in> set evs. expected_fds ev fds"
  shows "\<exists>h. reader_run evs (fresh_handle rid req d pid gpu reaper) = Some h \<and>
    length (rh_sync_fds h) \<le> 16 \<and>
    (\<forall>s. rh_bind h = Some s \<longrightarrow> snapshot_aligned s) \<and>
    latest_frame h = rh_latest h \<and>
    (\<forall>f. latest_frame h = Some f \<longrightarrow>
      clone_sync_fd (fs_seq f) h \<noteq> None \<and> (\<exists>s. rh_bind h = Some s \<and> bs_generation s = fs_generation f))"
proof -
  have "\<exists>h'. reader_run evs h = Some h' \<and> handle_ok h'" if "handle_ok h" for h
    using assms that
  proof (induction evs arbitrary: h)
    case (Cons e evs)
    obtain ev fds where e: "e = (ev, fds)" by force
    then obtain h1 where "reader_step ev fds h = Some h1" "handle_ok h1"
      using reader_step_ok Cons.prems by (metis case_prodD list.set_intros(1))
    then show ?case using Cons.IH Cons.prems(1) e by simp
  qed simp
  then obtain h where h: "reader_run evs (fresh_handle rid req d pid gpu reaper) = Some h" "handle_ok h"
    using handle_ok_fresh by blast
  have "latest_frame h = rh_latest h"
    using h(2) by (auto simp: latest_frame_def handle_ok_def split: option.splits)
  moreover have "clone_sync_fd (fs_seq f) h \<noteq> None" if "rh_latest h = Some f" for f
  proof -
    have "\<exists>fd. (fs_seq f, fd) \<in> set (rh_sync_fds h)" using h(2) that by (auto simp: handle_ok_def)
    then show ?thesis by (auto simp: clone_sync_fd_def find_None_iff)
  qed
  ultimately show ?thesis using h
    by (intro exI [of _ h]) (auto simp: handle_ok_def SYNC_FD_RETENTION_def split: option.splits)
qed

text \<open>
  A scheme is sent once: negotiating the same scheme again writes nothing to the renderer, and
  a scheme counts as dispatched only when the write succeeded.
\<close>

theorem negotiate_idempotent:
  assumes "send_negotiate_buffers rid s m = (r, m1)"
  shows "(case r of
      Inr _ \<Rightarrow> send_negotiate_buffers rid s m1 = (Inr (), m1) \<and>
        map_option rh_last_scheme (mgr_get m1 rid) = Some (Some s)
    | Inl _ \<Rightarrow> mg_handles m1 = mg_handles m \<and> mg_wire m1 = mg_wire m)"
  using assms
  by (auto simp: send_negotiate_buffers_def mgr_send_control_def mgr_get_def update_handle_def mark_dead_def
      split: option.splits if_splits sum.splits prod.splits)

text \<open>A renderer that binds one buffer and sends two frames.\<close>

definition toy_request :: spawn_request where
  "toy_request = \<lparr>sp_wp_type = ''image'', sp_extras = [], sp_settings = [], sp_test_pattern = False,
     sp_renderer_name = None, sp_user_properties = None\<rparr>"

definition toy_handle :: "renderer_id \<Rightarrow> renderer_handle" where
  "toy_handle rid = fresh_handle rid toy_request (toy_renderer ''r'' 1) None DRM_UNKNOWN False"

definition toy_bind :: "u64 \<Rightarrow> bind_msg" where
  "toy_bind gen = \<lparr>bm_generation = gen, bm_flags = 0, bm_count = 1, bm_fourcc = 7, bm_width = 64, bm_height = 32,
     bm_modifier = 0, bm_planes_per_buffer = 1, bm_stride = [256], bm_plane_offset = [0], bm_size = [8192]\<rparr>"

theorem reader_keeps_handle_witness:
  "\<exists>h. reader_run [(BindBuffers (toy_bind 1), [5]), (FrameReady 0 1 10, [6]), (FrameReady 0 2 11, [7])] (toy_handle ''r'') = Some h \<and>
     length (rh_sync_fds h) = 2 \<and> latest_frame h \<noteq> None"
proof -
  let ?evs = "[(BindBuffers (toy_bind 1), [5]), (FrameReady 0 1 10, [6]), (FrameReady 0 2 11, [7])]"
  obtain h where h: "reader_run ?evs (toy_handle ''r'') = Some h" "latest_frame h = rh_latest h"
    using reader_keeps_handle [of ?evs "''r''" toy_request "toy_renderer ''r'' 1" None DRM_UNKNOWN False]
    by (auto simp: expected_fds_def toy_handle_def)
  have "length (rh_sync_fds h) = 2 \<and> rh_latest h \<noteq> None"
    using h(1) by (auto simp: toy_handle_def fresh_handle_def toy_bind_def on_bind_buffers_def bind_ok_def
        on_frame_ready_def evict_oldest_def SYNC_FD_RETENTION_def)
  then show ?thesis using h by auto
qed

definition toy_scheme :: negotiated_scheme where
  "toy_scheme = \<lparr>ns_fourcc = 7, ns_modifier = 0, ns_plane_count = 1, ns_sync_mode = 4, ns_color = 193,
     ns_mem_hint = 0, ns_count = 3, ns_path = CompatLinear, ns_mem_source = GpuLinear\<rparr>"

theorem negotiate_idempotent_witness:
  "send_negotiate_buffers ''r'' toy_scheme
     (snd (send_negotiate_buffers ''r'' toy_scheme (insert_handle (toy_handle ''r'') (manager_new registry_new)))) =
   (Inr (), snd (send_negotiate_buffers ''r'' toy_scheme (insert_handle (toy_handle ''r'') (manager_new registry_new))))"
proof -
  let ?m = "insert_handle (toy_handle ''r'') (manager_new registry_new)"
  obtain r m1 where s: "send_negotiate_buffers ''r'' toy_scheme ?m = (r, m1)" by force
  have "r = Inr ()"
    using s by (simp add: send_negotiate_buffers_def mgr_send_control_def mgr_get_def insert_handle_def
        manager_new_def toy_handle_def fresh_handle_def)
  then show ?thesis using negotiate_idempotent [OF s] s by simp
qed

end
