(* ===== verification/Router.thy ===== *)
theory Router
  imports Renderer
begin

text \<open>
  The router, \<open>src/routing/router.rs\<close>, with the autopause rules of \<open>src/routing/autopause.rs\<close>:
  which renderer each display shows, what is sent to displays and renderers when that changes,
  and which renderers are paused or reaped.

  The router's state is guarded by one lock. Each definition below whose comment says
  \<open>section\<close> is one critical section of it; a method is the composition of its sections in
  program order, and \<open>router_step\<close> in the theory on executions interleaves the methods of all
  tasks. What the router sends is kept in its state: \<open>r_sent\<close> on the channels of the displays,
  \<open>r_emitted\<close> to the event subscribers, \<open>mg_wire\<close> of the manager to the renderers.
\<close>

section \<open>Autopause\<close>

definition FLAG_NON_MINIMIZED :: u32 where "FLAG_NON_MINIMIZED = 1"
definition FLAG_ACTIVE :: u32 where "FLAG_ACTIVE = 2"
definition FLAG_MAXIMIZED :: u32 where "FLAG_MAXIMIZED = 4"
definition FLAG_FULLSCREEN :: u32 where "FLAG_FULLSCREEN = 8"

definition FLAGS_KNOWN :: u32 where
  "FLAGS_KNOWN = ((FLAG_NON_MINIMIZED OR FLAG_ACTIVE) OR FLAG_MAXIMIZED) OR FLAG_FULLSCREEN"

definition has_flag :: "u32 \<Rightarrow> u32 \<Rightarrow> bool" where
  "has_flag flags b \<longleftrightarrow> flags AND b \<noteq> 0"

fun decide :: "autopause_mode \<Rightarrow> u32 \<Rightarrow> bool" where
  "decide Never flags = False"
| "decide Any flags = has_flag flags FLAG_NON_MINIMIZED"
| "decide Focus flags = has_flag flags FLAG_ACTIVE"
| "decide Max flags = (has_flag flags FLAG_MAXIMIZED \<or> has_flag flags FLAG_FULLSCREEN)"
| "decide FocusOrMax flags =
     (has_flag flags FLAG_ACTIVE \<or> has_flag flags FLAG_MAXIMIZED \<or> has_flag flags FLAG_FULLSCREEN)"
| "decide FullScreen flags = has_flag flags FLAG_FULLSCREEN"

record ap_state =
  ap_last_flags :: u32
  ap_raw :: bool
  ap_requested :: bool
  ap_gen :: u64

definition ap_new :: ap_state where
  "ap_new = \<lparr>ap_last_flags = 0, ap_raw = False, ap_requested = False, ap_gen = 0\<rparr>"

section \<open>State\<close>

datatype out_event =
    Bind renderer_id
  | Unbind u64
  | SetConfig projected_config
  | Frame (fe_renderer: renderer_id) (fe_generation: u64) (fe_index: u32) (fe_seq: u64)
      (fe_release_point: u64) (fe_expected: u32)

record display_registration =
  dr_name :: string
  dr_instance_id :: "string option"
  dr_width :: u32
  dr_height :: u32
  dr_refresh_mhz :: u32
  dr_gpu :: drm_node
  dr_properties :: "(string \<times> string) list"
  dr_caps :: "peer_caps option"

datatype layout_source = LayoutGlobal | LayoutDisplay | LayoutWallpaper

record link_snapshot =
  ls_renderer :: renderer_id
  ls_z_order :: i32

record display_snapshot =
  dn_id :: display_id
  dn_name :: string
  dn_instance_id :: "string option"
  dn_width :: u32
  dn_height :: u32
  dn_refresh_mhz :: u32
  dn_links :: "link_snapshot list"
  dn_gpu :: drm_node
  dn_display_layout :: resolved_layout
  dn_effective_layout :: resolved_layout
  dn_layout_source :: layout_source

datatype renderer_status = Playing | Paused

fun status_as_str :: "renderer_status \<Rightarrow> string" where
  "status_as_str Playing = ''playing''"
| "status_as_str Paused = ''paused''"

record renderer_snapshot =
  rn_id :: renderer_id
  rn_wp_type :: string
  rn_name :: string
  rn_status :: renderer_status
  rn_pid :: u32
  rn_gpu :: drm_node
  rn_texture :: "u32 \<times> u32"

record library_snapshot =
  lb_id :: i64
  lb_path :: string
  lb_plugin_name :: string

datatype router_event =
    DisplayUpsert display_snapshot
  | DisplayRemoved display_id
  | DisplaysReplace "display_snapshot list"
  | RendererUpsert renderer_snapshot
  | RendererRemoved renderer_id
  | RenderersReplace "renderer_snapshot list"
  | LibraryUpsert library_snapshot
  | LibraryRemoved i64
  | LibrariesReplace "library_snapshot list"

record display_state =
  ds_info :: display_info
  ds_gpu :: drm_node
  ds_last_renderer :: "renderer_id option"
  ds_last_gen :: "u64 option"
  ds_caps :: "peer_caps option"
  ds_autopause :: ap_state

text \<open>
  \<open>Inner\<close>, then what the router shares (manager, settings) and what its tasks have done or are
  sleeping on: resume timers per display and for the session, and orphan timers, each a task
  with a number of its own that aborting it removes.
\<close>

record router =
  r_table :: "renderer_id routing_table"
  r_displays :: "(display_id, display_state) hmap"
  r_tasks :: "renderer_id set"
  r_paused :: "renderer_id set"
  r_locked :: bool
  r_inactive :: bool
  r_manual :: bool
  r_session_gen :: u64
  r_orphan_timers :: "(renderer_id, nat) hmap"
  r_acks :: "(renderer_id, (display_id \<times> u64) set) hmap"
  r_overrides :: "(renderer_id, layout_override) hmap"
  r_next_display :: u64
  r_next_config :: u64
  r_mgr :: manager
  r_settings :: "store option"
  r_sent :: "(display_id \<times> out_event) list"
  r_emitted :: "router_event list"
  r_records :: "(renderer_id \<times> u64) list"
  r_resume :: "(display_id \<times> u64) set"
  r_session_resume :: "u64 set"
  r_sleeping :: "(nat \<times> renderer_id) set"
  r_next_timer :: nat

definition router_new :: "manager \<Rightarrow> router" where
  "router_new m =
     \<lparr>r_table = table_new, r_displays = [], r_tasks = {}, r_paused = {}, r_locked = False, r_inactive = False,
      r_manual = False, r_session_gen = 0, r_orphan_timers = [], r_acks = [], r_overrides = [],
      r_next_display = 0, r_next_config = 0, r_mgr = m, r_settings = None, r_sent = [], r_emitted = [],
      r_records = [], r_resume = {}, r_session_resume = {}, r_sleeping = {}, r_next_timer = 0\<rparr>"

text \<open>The settings are attached once; a second call is ignored.\<close>

definition attach_settings :: "store \<Rightarrow> router \<Rightarrow> router" where
  "attach_settings st r = (case r_settings r of None \<Rightarrow> r\<lparr>r_settings := Some st\<rparr> | Some _ \<Rightarrow> r)"

definition send :: "display_id \<Rightarrow> out_event \<Rightarrow> router \<Rightarrow> router" where
  "send did ev r = r\<lparr>r_sent := r_sent r @ [(did, ev)]\<rparr>"

definition emit :: "router_event \<Rightarrow> router \<Rightarrow> router" where
  "emit ev r = r\<lparr>r_emitted := r_emitted r @ [ev]\<rparr>"

text \<open>The handle the routing table holds for an id.\<close>

definition table_handle :: "router \<Rightarrow> renderer_id \<Rightarrow> renderer_handle option" where
  "table_handle r rid = Option.bind (get_renderer (r_table r) rid) (hm_get (mg_handles (r_mgr r)))"

section \<open>Settings\<close>

definition identity_layout :: resolved_layout where
  "identity_layout = \<lparr>rl_fillmode = PreserveAspectCrop, rl_location = location_default, rl_rotation = Normal\<rparr>"

definition resolved_layout_for :: "store option \<Rightarrow> display_info \<Rightarrow> resolved_layout" where
  "resolved_layout_for st info =
     (case st of
        None \<Rightarrow> identity_layout
      | Some s \<Rightarrow>
          (case di_instance_id info of
             Some iid \<Rightarrow>
               if display_prefs_of (st_inner s) iid \<noteq> None then resolved_layout_of (st_inner s) iid
               else resolved_layout_of (st_inner s) (di_name info)
           | None \<Rightarrow> resolved_layout_of (st_inner s) (di_name info)))"

definition resolved_layout_for_renderer :: "router \<Rightarrow> display_info \<Rightarrow> renderer_id \<Rightarrow> resolved_layout" where
  "resolved_layout_for_renderer r info rid =
     apply_to (case hm_get (r_overrides r) rid of Some o' \<Rightarrow> o' | None \<Rightarrow> override_default)
       (resolved_layout_for (r_settings r) info)"

definition display_layout_source :: "store option \<Rightarrow> display_info \<Rightarrow> layout_source" where
  "display_layout_source st info =
     (case st of
        None \<Rightarrow> LayoutGlobal
      | Some s \<Rightarrow>
          (let prefs = (case di_instance_id info of
                 Some iid \<Rightarrow>
                   (case display_prefs_of (st_inner s) iid of
                      Some p \<Rightarrow> Some p | None \<Rightarrow> display_prefs_of (st_inner s) (di_name info))
               | None \<Rightarrow> display_prefs_of (st_inner s) (di_name info))
           in case prefs of
                Some p \<Rightarrow>
                  if dp_fillmode p \<noteq> None \<or> dp_location p \<noteq> None \<or> dp_align p \<noteq> None \<or> dp_rotation p \<noteq> None
                  then LayoutDisplay else LayoutGlobal
              | None \<Rightarrow> LayoutGlobal))"

definition settings_key_for :: "display_info \<Rightarrow> string" where
  "settings_key_for info = (case di_instance_id info of Some iid \<Rightarrow> iid | None \<Rightarrow> di_name info)"

definition resolved_autopause_for :: "store option \<Rightarrow> display_info \<Rightarrow> resolved_autopause" where
  "resolved_autopause_for st info =
     (case st of
        None \<Rightarrow> \<lparr>ra_mode = Never, ra_resume_ms = 500\<rparr>
      | Some s \<Rightarrow>
          (case di_instance_id info of
             Some iid \<Rightarrow>
               if display_prefs_of (st_inner s) iid \<noteq> None then resolved_autopause_of (st_inner s) iid
               else resolved_autopause_of (st_inner s) (di_name info)
           | None \<Rightarrow> resolved_autopause_of (st_inner s) (di_name info)))"

text \<open>\<open>SettingsStore::update\<close>, both parts.\<close>

definition settings_update :: "(settings \<Rightarrow> settings) \<Rightarrow> store \<Rightarrow> store" where
  "settings_update f st =
     (let st1 = update_inner f st in if st_marks st < st_marks st1 then update_mark st1 else st1)"

section \<open>Projection\<close>

text \<open>A width or height of infinity stands for the whole texture or display.\<close>

definition resolve_rect :: "link_rect \<Rightarrow> u32 \<Rightarrow> u32 \<Rightarrow> f32_quad" where
  "resolve_rect rc w h =
     (rect_x rc, rect_y rc, if is_infinite (rect_w rc) then f32_of_u32 w else rect_w rc,
      if is_infinite (rect_h rc) then f32_of_u32 h else rect_h rc)"

definition project_link ::
  "link \<Rightarrow> renderer_handle \<Rightarrow> display_info \<Rightarrow> u64 \<Rightarrow> resolved_layout \<Rightarrow> projected_config" where
  "project_link l h info gen layout =
     (let (tex_w, tex_h) = texture_size h in
      if rect_eq (lk_src l) FULL_RECT \<and> rect_eq (lk_dst l) FULL_RECT then
        (let (disp_w, disp_h) = (if rl_rotation layout = Cw90 \<or> rl_rotation layout = Cw270
                then (f32_of_u32 (di_height info), f32_of_u32 (di_width info))
                else (f32_of_u32 (di_width info), f32_of_u32 (di_height info)));
             out = compute \<lparr>tex_w = f32_of_u32 tex_w, tex_h = f32_of_u32 tex_h, disp_w = disp_w, disp_h = disp_h,
                     li_fillmode = rl_fillmode layout, li_location = rl_location layout, li_clear = lk_clear l\<rparr>;
             (sx, sy, sw, sh) = lo_source out; (dx, dy, dw, dh) = lo_dest out
         in \<lparr>config_generation = gen, source_x = sx, source_y = sy, source_w = sw, source_h = sh,
             dest_x = dx, dest_y = dy, dest_w = dw, dest_h = dh,
             cfg_transform = to_wl_transform (rl_rotation layout), cfg_clear = lo_clear out\<rparr>)
      else
        (let (sx, sy, sw, sh) = resolve_rect (lk_src l) tex_w tex_h;
             (dx, dy, dw, dh) = resolve_rect (lk_dst l) (di_width info) (di_height info)
         in \<lparr>config_generation = gen, source_x = sx, source_y = sy, source_w = sw, source_h = sh,
             dest_x = dx, dest_y = dy, dest_w = dw, dest_h = dh,
             cfg_transform = to_wl_transform (rl_rotation layout), cfg_clear = lk_clear l\<rparr>))"

section \<open>Snapshots\<close>

definition enabled_links :: "router \<Rightarrow> display_id \<Rightarrow> link list" where
  "enabled_links r did = filter lk_enabled (links_for_display (r_table r) did)"

definition display_snapshot_of :: "router \<Rightarrow> display_id \<Rightarrow> display_state \<Rightarrow> display_snapshot" where
  "display_snapshot_of r did s =
     (let rows = enabled_links r did;
          display_layout = resolved_layout_for (r_settings r) (ds_info s);
          source = display_layout_source (r_settings r) (ds_info s);
          override = (case rows of
             [] \<Rightarrow> None
           | l # _ \<Rightarrow> (case hm_get (r_overrides r) (lk_renderer l) of
                        Some o' \<Rightarrow> if override_is_empty o' then None else Some o' | None \<Rightarrow> None));
          (effective, effective_source) = (case override of
             Some o' \<Rightarrow> (apply_to o' display_layout, LayoutWallpaper)
           | None \<Rightarrow> (display_layout, source))
      in \<lparr>dn_id = did, dn_name = di_name (ds_info s), dn_instance_id = di_instance_id (ds_info s),
          dn_width = di_width (ds_info s), dn_height = di_height (ds_info s),
          dn_refresh_mhz = di_refresh_mhz (ds_info s),
          dn_links = map (\<lambda>l. \<lparr>ls_renderer = lk_renderer l, ls_z_order = lk_z_order l\<rparr>) rows,
          dn_gpu = ds_gpu s, dn_display_layout = display_layout, dn_effective_layout = effective,
          dn_layout_source = effective_source\<rparr>)"

definition snapshot_display :: "router \<Rightarrow> display_id \<Rightarrow> display_snapshot option" where
  "snapshot_display r did = map_option (display_snapshot_of r did) (hm_get (r_displays r) did)"

definition snapshot_displays :: "router \<Rightarrow> display_snapshot list" where
  "snapshot_displays r = List.map_filter (snapshot_display r) (sort (hm_keys (r_displays r)))"

definition snapshot_renderer :: "router \<Rightarrow> renderer_id \<Rightarrow> renderer_snapshot option" where
  "snapshot_renderer r rid =
     map_option (\<lambda>h.
       \<lparr>rn_id = rh_id h, rn_wp_type = rh_wp_type h, rn_name = rh_name h,
        rn_status = (if rid \<in> r_paused r then Paused else Playing),
        rn_pid = (case rh_pid h of Some p \<Rightarrow> p | None \<Rightarrow> 0), rn_gpu = rh_gpu h, rn_texture = texture_size h\<rparr>)
       (table_handle r rid)"

definition snapshot_renderers :: "router \<Rightarrow> renderer_snapshot list" where
  "snapshot_renderers r = List.map_filter (snapshot_renderer r) (sort (renderer_ids (r_table r)))"

definition emit_display :: "display_id \<Rightarrow> router \<Rightarrow> router" where
  "emit_display did r = (case snapshot_display r did of Some sn \<Rightarrow> emit (DisplayUpsert sn) r | None \<Rightarrow> r)"

definition emit_renderer :: "renderer_id \<Rightarrow> router \<Rightarrow> router" where
  "emit_renderer rid r = (case snapshot_renderer r rid of Some sn \<Rightarrow> emit (RendererUpsert sn) r | None \<Rightarrow> r)"

definition is_paused :: "router \<Rightarrow> renderer_id \<Rightarrow> bool" where
  "is_paused r rid \<longleftrightarrow> rid \<in> r_paused r"

definition display_count :: "router \<Rightarrow> nat" where
  "display_count r = length (r_displays r)"

definition display_settings_keys :: "router \<Rightarrow> display_id list \<Rightarrow> (display_id \<times> string) list" where
  "display_settings_keys r ids =
     List.map_filter (\<lambda>did. map_option (\<lambda>s. (did, settings_key_for (ds_info s))) (hm_get (r_displays r) did)) ids"

definition upsert_library :: "library_snapshot \<Rightarrow> router \<Rightarrow> router" where
  "upsert_library sn r = emit (LibraryUpsert sn) r"

definition remove_library :: "i64 \<Rightarrow> router \<Rightarrow> router" where
  "remove_library i r = emit (LibraryRemoved i) r"

definition emit_displays_replace_for_settings_change :: "display_snapshot list \<Rightarrow> router \<Rightarrow> router" where
  "emit_displays_replace_for_settings_change sns r = emit (DisplaysReplace sns) r"

section \<open>Bringing displays up to date\<close>

text \<open>The first enabled link, its handle and the generation it has bound, if it has.\<close>

definition bound_target :: "router \<Rightarrow> display_id \<Rightarrow> (link \<times> renderer_handle \<times> u64) option" where
  "bound_target r did =
     (case enabled_links r did of
        [] \<Rightarrow> None
      | l # _ \<Rightarrow>
          (case table_handle r (lk_renderer l) of
             None \<Rightarrow> None
           | Some h \<Rightarrow> map_option (\<lambda>s. (l, h, bs_generation s)) (rh_bind h)))"

text \<open>Section: \<open>resync_display_set_config\<close>.\<close>

definition resync_display_set_config :: "display_id \<Rightarrow> router \<Rightarrow> router" where
  "resync_display_set_config did r =
     (case hm_get (r_displays r) did of
        None \<Rightarrow> r
      | Some s \<Rightarrow>
          (case bound_target r did of
             None \<Rightarrow> r
           | Some (l, h, _) \<Rightarrow>
               (let gen = r_next_config r + 1; r1 = r\<lparr>r_next_config := gen\<rparr>;
                    layout = resolved_layout_for_renderer r1 (ds_info s) (lk_renderer l)
                in send did (SetConfig (project_link l h (ds_info s) gen layout)) r1)))"

definition resync_all_set_configs :: "router \<Rightarrow> router" where
  "resync_all_set_configs r = fold resync_display_set_config (hm_keys (r_displays r)) r"

text \<open>
  Section: \<open>sync_display\<close>, in the parts of its body. A display is gated when both sides
  negotiate and the pool bound does not match the scheme last dispatched.
\<close>

definition gated :: "display_state \<Rightarrow> renderer_handle \<Rightarrow> bool" where
  "gated s h \<longleftrightarrow> rh_format_caps h \<noteq> None \<and> ds_caps s \<noteq> None \<and> \<not> scheme_satisfied h"

definition needs_update :: "display_state \<Rightarrow> (link \<times> renderer_handle \<times> u64) option \<Rightarrow> bool" where
  "needs_update s target =
     (case (ds_last_renderer s, ds_last_gen s, target) of
        (Some old, Some og, Some (l, _, ng)) \<Rightarrow> old \<noteq> lk_renderer l \<or> og \<noteq> ng
      | (None, None, None) \<Rightarrow> False
      | _ \<Rightarrow> True)"

definition retire :: "display_id \<Rightarrow> display_state \<Rightarrow> router \<Rightarrow> router" where
  "retire did s r =
     (case ds_last_gen s of
        None \<Rightarrow> r
      | Some og \<Rightarrow>
          (let r1 = send did (Unbind og) r in
           case ds_last_renderer s of
             None \<Rightarrow> r1
           | Some old \<Rightarrow> r1\<lparr>r_acks := hm_modify old (insert (did, og)) (r_acks r1)\<rparr>))"

definition replay_frame :: "renderer_handle \<Rightarrow> u64 \<Rightarrow> frame_snapshot option" where
  "replay_frame h gen =
     (if eq_ignore_ascii_case (rh_wp_type h) ''image'' then
        (case latest_frame h of
           Some f \<Rightarrow> if fs_generation f = gen then Some f else None
         | None \<Rightarrow> None)
      else None)"

definition set_last :: "display_id \<Rightarrow> renderer_id option \<Rightarrow> u64 option \<Rightarrow> router \<Rightarrow> router" where
  "set_last did rid gen r =
     r\<lparr>r_displays := hm_modify did (\<lambda>s. s\<lparr>ds_last_renderer := rid, ds_last_gen := gen\<rparr>) (r_displays r)\<rparr>"

definition bind_new ::
  "display_id \<Rightarrow> display_state \<Rightarrow> (link \<times> renderer_handle \<times> u64) option \<Rightarrow> router \<Rightarrow> router" where
  "bind_new did s target r =
     (case target of
        None \<Rightarrow> set_last did None None r
      | Some (l, h, ng) \<Rightarrow>
          (let gen = r_next_config r + 1; r1 = r\<lparr>r_next_config := gen\<rparr>;
               layout = resolved_layout_for_renderer r1 (ds_info s) (lk_renderer l);
               r2 = send did (SetConfig (project_link l h (ds_info s) gen layout)) (send did (Bind (rh_id h)) r1);
               r3 = (case replay_frame h ng of
                       Some f \<Rightarrow> send did (Frame (rh_id h) (fs_generation f) (fs_index f) (fs_seq f) (fs_release_point f) 1) r2
                     | None \<Rightarrow> r2)
           in set_last did (Some (lk_renderer l)) (Some ng) r3))"

definition sync_display :: "display_id \<Rightarrow> router \<Rightarrow> router" where
  "sync_display did r =
     (case hm_get (r_displays r) did of
        None \<Rightarrow> r
      | Some s \<Rightarrow>
          (let target = bound_target r did in
           if (case target of Some (_, h, _) \<Rightarrow> gated s h | None \<Rightarrow> False) then r
           else if \<not> needs_update s target then r
           else bind_new did s target (retire did s r)))"

section \<open>Pausing renderers\<close>

definition active_links :: "router \<Rightarrow> renderer_id \<Rightarrow> link list" where
  "active_links r rid = filter lk_enabled (links_for_renderer (r_table r) rid)"

definition any_autopaused :: "router \<Rightarrow> renderer_id \<Rightarrow> bool" where
  "any_autopaused r rid \<longleftrightarrow>
     (\<exists>l \<in> set (active_links r rid).
        case hm_get (r_displays r) (lk_display l) of Some s \<Rightarrow> ap_requested (ds_autopause s) | None \<Rightarrow> False)"

definition session_paused :: "router \<Rightarrow> bool" where
  "session_paused r \<longleftrightarrow>
     (let ap = (case r_settings r of Some st \<Rightarrow> gs_autopause (set_global (st_inner st)) | None \<Rightarrow> autopause_defaults_default)
      in (pause_on_lock ap \<and> r_locked r) \<or> (pause_on_user_switch ap \<and> r_inactive r))"

definition should_pause :: "router \<Rightarrow> renderer_id \<Rightarrow> bool" where
  "should_pause r rid \<longleftrightarrow>
     r_manual r \<or> active_links r rid = [] \<or> (active_links r rid \<noteq> [] \<and> any_autopaused r rid) \<or> session_paused r"

definition lifecycle_step :: "renderer_id \<Rightarrow> (renderer_id \<times> control_msg) list \<times> router \<Rightarrow> (renderer_id \<times> control_msg) list \<times> router" where
  "lifecycle_step rid ar =
     (let (out, r) = ar; was_paused = (rid \<in> r_paused r) in
      if \<not> should_pause r rid \<and> was_paused
      then (out @ [(rid, Play)], r\<lparr>r_paused := r_paused r - {rid}\<rparr>)
      else if should_pause r rid \<and> \<not> was_paused
      then (out @ [(rid, Pause)], r\<lparr>r_paused := insert rid (r_paused r)\<rparr>)
      else ar)"

text \<open>Section: the difference is computed and recorded; the messages are sent after it.\<close>

definition lifecycle_diff :: "router \<Rightarrow> (renderer_id \<times> control_msg) list \<times> router" where
  "lifecycle_diff r = fold lifecycle_step (renderer_ids (r_table r)) ([], r)"

definition control :: "renderer_id \<times> control_msg \<Rightarrow> router \<Rightarrow> router" where
  "control a r = r\<lparr>r_mgr := snd (mgr_send_control (fst a) (snd a) (r_mgr r))\<rparr>"

definition reconcile_lifecycle :: "router \<Rightarrow> router" where
  "reconcile_lifecycle r =
     (let (actions, r1) = lifecycle_diff r; r2 = fold control actions r1
      in fold (\<lambda>a. emit_renderer (fst a)) actions r2)"

section \<open>Negotiation\<close>

text \<open>Section: the pairs of capabilities along every enabled link.\<close>

definition negotiation_pairs :: "router \<Rightarrow> (renderer_id \<times> display_id \<times> peer_caps \<times> peer_caps) list" where
  "negotiation_pairs r =
     concat (map (\<lambda>rid.
       case table_handle r rid of
         None \<Rightarrow> []
       | Some h \<Rightarrow>
           (case rh_format_caps h of
              None \<Rightarrow> []
            | Some producer \<Rightarrow>
                List.map_filter (\<lambda>l.
                  if \<not> lk_enabled l then None
                  else (case hm_get (r_displays r) (lk_display l) of
                          None \<Rightarrow> None
                        | Some s \<Rightarrow> map_option (\<lambda>c. (rid, lk_display l, producer, c)) (ds_caps s)))
                  (links_for_renderer (r_table r) rid)))
       (renderer_ids (r_table r)))"

definition pick_step ::
  "renderer_id \<times> display_id \<times> peer_caps \<times> peer_caps \<Rightarrow> (renderer_id, negotiated_scheme) hmap
     \<Rightarrow> (renderer_id, negotiated_scheme) hmap" where
  "pick_step p m =
     (case p of (rid, did, producer, consumer) \<Rightarrow>
        (case pick producer consumer of Inr scheme \<Rightarrow> hm_insert rid scheme m | Inl _ \<Rightarrow> m))"

definition dispatch :: "renderer_id \<times> negotiated_scheme \<Rightarrow> router \<Rightarrow> router" where
  "dispatch rs r = r\<lparr>r_mgr := snd (send_negotiate_buffers (fst rs) (snd rs) (r_mgr r))\<rparr>"

definition reconcile_buffer_flags :: "router \<Rightarrow> router" where
  "reconcile_buffer_flags r = fold dispatch (fold pick_step (negotiation_pairs r) []) r"

section \<open>Renderers come and go\<close>

text \<open>\<open>register_renderer\<close>: the handle enters the table and its event task starts.\<close>

definition register_renderer :: "renderer_id \<Rightarrow> router \<Rightarrow> router" where
  "register_renderer rid r =
     reconcile_lifecycle (r\<lparr>r_table := add_renderer rid rid (r_table r), r_tasks := insert rid (r_tasks r)\<rparr>)"

text \<open>Aborting the timer task a renderer has, if any.\<close>

definition abort_timer :: "renderer_id \<Rightarrow> router \<Rightarrow> router" where
  "abort_timer rid r =
     (case hm_get (r_orphan_timers r) rid of
        None \<Rightarrow> r
      | Some t \<Rightarrow> r\<lparr>r_orphan_timers := hm_remove rid (r_orphan_timers r), r_sleeping := r_sleeping r - {(t, rid)}\<rparr>)"

text \<open>Section: the renderer and everything kept for it is dropped.\<close>

definition drop_renderer :: "renderer_id \<Rightarrow> router \<Rightarrow> display_id list \<times> router" where
  "drop_renderer rid r =
     (let (removed, t) = remove_renderer rid (r_table r);
          r1 = r\<lparr>r_table := t, r_overrides := hm_remove rid (r_overrides r), r_tasks := r_tasks r - {rid}\<rparr>;
          r2 = abort_timer rid r1
      in (map snd removed, r2\<lparr>r_paused := r_paused r2 - {rid}\<rparr>))"

definition unregister_renderer :: "renderer_id \<Rightarrow> router \<Rightarrow> router" where
  "unregister_renderer rid r =
     (let (affected, r1) = drop_renderer rid r;
          r2 = emit (RendererRemoved rid) r1;
          r3 = fold sync_display affected r2;
          r4 = reconcile_lifecycle r3
      in if affected \<noteq> [] then emit (DisplaysReplace (snapshot_displays r4)) r4 else r4)"

text \<open>Section: the override is stored, or removed when it says nothing.\<close>

definition store_override :: "renderer_id \<Rightarrow> layout_override \<Rightarrow> router \<Rightarrow> router" where
  "store_override rid layout r =
     (if override_is_empty layout then r\<lparr>r_overrides := hm_remove rid (r_overrides r)\<rparr>
      else r\<lparr>r_overrides := hm_insert rid layout (r_overrides r)\<rparr>)"

definition set_renderer_wallpaper_layout_override ::
  "renderer_id \<Rightarrow> layout_override \<Rightarrow> router \<Rightarrow> bool \<times> router" where
  "set_renderer_wallpaper_layout_override rid layout r =
     (if get_renderer (r_table r) rid = None then (False, r)
      else
        (let r1 = store_override rid layout r;
             dids = map lk_display (active_links r1 rid);
             r2 = fold resync_display_set_config dids r1
         in (True, if dids \<noteq> [] then emit (DisplaysReplace (snapshot_displays r2)) r2 else r2)))"

section \<open>Acknowledged unbinds\<close>

definition begin_unbind_ack_tracking :: "renderer_id \<Rightarrow> router \<Rightarrow> router" where
  "begin_unbind_ack_tracking rid r =
     (case hm_get (r_acks r) rid of
        Some _ \<Rightarrow> r
      | None \<Rightarrow> r\<lparr>r_acks := hm_insert rid {} (r_acks r)\<rparr>)"

definition record_unbind_done :: "display_id \<times> u64 \<Rightarrow> router \<Rightarrow> router" where
  "record_unbind_done a r = r\<lparr>r_acks := hm_map_values (\<lambda>pending. pending - {a}) (r_acks r)\<rparr>"

text \<open>The wait loop's exit test, and what follows the loop, whether it ended or timed out.\<close>

definition unbinds_acked :: "router \<Rightarrow> renderer_id \<Rightarrow> bool" where
  "unbinds_acked r rid \<longleftrightarrow> (case hm_get (r_acks r) rid of None \<Rightarrow> True | Some pending \<Rightarrow> pending = {})"

definition finish_unbind_acks :: "renderer_id \<Rightarrow> router \<Rightarrow> router" where
  "finish_unbind_acks rid r = r\<lparr>r_acks := hm_remove rid (r_acks r)\<rparr>"

text \<open>
  The wait itself, over what it sees: acknowledgements, each of which makes the loop look again,
  and the deadline. The loop is polled before the deadline is looked at. \<open>None\<close>: still waiting;
  otherwise whether the wait ended in time, and the router after it.
\<close>

datatype wait_input = AckArrives "display_id \<times> u64" | DeadlinePasses

fun await_unbind_acks_for :: "renderer_id \<Rightarrow> wait_input list \<Rightarrow> router \<Rightarrow> (bool \<times> router) option" where
  "await_unbind_acks_for rid [] r = (if unbinds_acked r rid then Some (True, finish_unbind_acks rid r) else None)"
| "await_unbind_acks_for rid (x # xs) r =
     (if unbinds_acked r rid then Some (True, finish_unbind_acks rid r)
      else (case x of
              DeadlinePasses \<Rightarrow> Some (False, finish_unbind_acks rid r)
            | AckArrives a \<Rightarrow> await_unbind_acks_for rid xs (record_unbind_done a r)))"

definition kill_renderer :: "renderer_id \<Rightarrow> router \<Rightarrow> router" where
  "kill_renderer rid r = r\<lparr>r_mgr := snd (mgr_kill rid (r_mgr r))\<rparr>"

definition stop_renderers :: "renderer_id list \<Rightarrow> router \<Rightarrow> router" where
  "stop_renderers ids r = fold (\<lambda>rid r. kill_renderer rid (unregister_renderer rid r)) ids r"

text \<open>
  \<open>acks\<close> are the acknowledgements that arrive while the method waits for the renderers one after
  the other, up to the end of the last wait; a wait that times out goes on like one that does not.
\<close>

definition stop_renderers_orderly :: "renderer_id list \<Rightarrow> (display_id \<times> u64) list \<Rightarrow> router \<Rightarrow> router" where
  "stop_renderers_orderly ids acks r =
     (let r1 = fold begin_unbind_ack_tracking ids r;
          r2 = fold unregister_renderer ids r1;
          r3 = fold record_unbind_done acks r2;
          r4 = fold finish_unbind_acks ids r3
      in fold kill_renderer ids r4)"

section \<open>Orphans\<close>

text \<open>A task is spawned, then its handle stored; a timer already there is aborted.\<close>

definition schedule_orphan_grace :: "renderer_id \<Rightarrow> router \<Rightarrow> router" where
  "schedule_orphan_grace rid r =
     (let t = r_next_timer r;
          prev = hm_get (r_orphan_timers r) rid;
          r1 = r\<lparr>r_next_timer := Suc t, r_sleeping := insert (t, rid) (r_sleeping r),
                 r_orphan_timers := hm_insert rid t (r_orphan_timers r)\<rparr>
      in case prev of None \<Rightarrow> r1 | Some u \<Rightarrow> r1\<lparr>r_sleeping := r_sleeping r1 - {(u, rid)}\<rparr>)"

definition kill_orphan_now :: "renderer_id \<Rightarrow> router \<Rightarrow> router" where
  "kill_orphan_now rid r = kill_renderer rid (unregister_renderer rid r)"

definition cancel_orphan_timer :: "renderer_id \<Rightarrow> router \<Rightarrow> router" where
  "cancel_orphan_timer rid r = abort_timer rid r"

definition lone_without_displays :: "router \<Rightarrow> bool" where
  "lone_without_displays r \<longleftrightarrow> r_displays r = [] \<and> length (renderer_ids (r_table r)) = 1"

definition orphan_candidates :: "renderer_id option \<Rightarrow> router \<Rightarrow> renderer_id list" where
  "orphan_candidates keep r =
     filter (\<lambda>rid. Some rid \<noteq> keep \<and> (\<forall>l \<in> set (links_for_renderer (r_table r) rid). \<not> lk_enabled l))
       (renderer_ids (r_table r))"

definition mark_orphans :: "renderer_id option \<Rightarrow> router \<Rightarrow> renderer_id list \<times> router" where
  "mark_orphans keep r =
     (let candidates = orphan_candidates keep r; lone = lone_without_displays r;
          r1 = fold (\<lambda>rid. if lone then schedule_orphan_grace rid else kill_orphan_now rid) candidates r
      in (candidates, case keep of Some k \<Rightarrow> cancel_orphan_timer k r1 | None \<Rightarrow> r1))"

definition mark_orphan :: "renderer_id \<Rightarrow> router \<Rightarrow> router" where
  "mark_orphan rid r = (if lone_without_displays r then schedule_orphan_grace rid r else kill_orphan_now rid r)"

text \<open>Section: the timer drops its own entry and looks again whether the renderer is an orphan.\<close>

definition orphan_check :: "renderer_id \<Rightarrow> router \<Rightarrow> bool \<times> router" where
  "orphan_check rid r =
     (let r1 = r\<lparr>r_orphan_timers := hm_remove rid (r_orphan_timers r)\<rparr> in
      (rid \<in> set (renderer_ids (r_table r1)) \<and>
         (\<forall>l \<in> set (links_for_renderer (r_table r1) rid). \<not> lk_enabled l), r1))"

definition fire_orphan_reap :: "nat \<Rightarrow> renderer_id \<Rightarrow> router \<Rightarrow> router" where
  "fire_orphan_reap t rid r =
     (let (still_orphan, r1) = orphan_check rid (r\<lparr>r_sleeping := r_sleeping r - {(t, rid)}\<rparr>) in
      if still_orphan then kill_renderer rid (unregister_renderer rid r1) else r1)"

section \<open>Displays come and go\<close>

text \<open>The settings of a display that now has an instance id are copied from its name once.\<close>

definition migrate_settings :: "display_registration \<Rightarrow> router \<Rightarrow> router" where
  "migrate_settings reg r =
     (case (dr_instance_id reg, r_settings r) of
        (Some iid, Some st) \<Rightarrow>
          (if display_prefs_of (st_inner st) iid = None then
             (case display_prefs_of (st_inner st) (dr_name reg) of
                Some legacy \<Rightarrow>
                  r\<lparr>r_settings := Some (settings_update (\<lambda>s.
                      s\<lparr>set_displays := (case hm_get (set_displays s) iid of
                          None \<Rightarrow> hm_insert iid legacy (set_displays s) | Some _ \<Rightarrow> set_displays s)\<rparr>) st)\<rparr>
              | None \<Rightarrow> r)
           else r)
      | _ \<Rightarrow> r)"

text \<open>Section: the display enters the map, linked to the first renderer if there is one.\<close>

definition add_display :: "display_registration \<Rightarrow> router \<Rightarrow> display_id \<times> renderer_id option \<times> router" where
  "add_display reg r =
     (let did = r_next_display r + 1;
          info = \<lparr>di_id = did, di_name = dr_name reg, di_instance_id = dr_instance_id reg, di_width = dr_width reg,
                  di_height = dr_height reg, di_refresh_mhz = dr_refresh_mhz reg,
                  di_properties = dr_properties reg, di_bound = False\<rparr>;
          s = \<lparr>ds_info = info, ds_gpu = dr_gpu reg, ds_last_renderer = None, ds_last_gen = None,
               ds_caps = dr_caps reg, ds_autopause = ap_new\<rparr>;
          r1 = r\<lparr>r_next_display := did, r_displays := hm_insert did s (r_displays r)\<rparr>
      in case first_renderer (r_table r1) of
           None \<Rightarrow> (did, None, r1)
         | Some rid \<Rightarrow> (did, Some rid, r1\<lparr>r_table := snd (add_link rid did (r_table r1))\<rparr>))"

definition router_register_display :: "display_registration \<Rightarrow> router \<Rightarrow> display_id \<times> router" where
  "router_register_display reg r =
     (let (did, auto_linked, r1) = add_display reg (migrate_settings reg r);
          r2 = (case auto_linked of Some rid \<Rightarrow> cancel_orphan_timer rid r1 | None \<Rightarrow> r1);
          r3 = sync_display did r2;
          r4 = reconcile_buffer_flags (reconcile_lifecycle r3)
      in (did, emit_display did r4))"

text \<open>Section: the display leaves the map, with its links.\<close>

definition drop_display :: "display_id \<Rightarrow> router \<Rightarrow> router" where
  "drop_display did r =
     r\<lparr>r_displays := hm_remove did (r_displays r), r_table := snd (remove_display did (r_table r))\<rparr>"

definition router_unregister_display :: "display_id \<Rightarrow> router \<Rightarrow> router" where
  "router_unregister_display did r =
     (let r1 = snd (mark_orphans None (drop_display did r));
          r2 = reconcile_buffer_flags (reconcile_lifecycle r1)
      in emit (DisplayRemoved did) r2)"

definition modify_display :: "display_id \<Rightarrow> (display_state \<Rightarrow> display_state) \<Rightarrow> router \<Rightarrow> router" where
  "modify_display did f r = r\<lparr>r_displays := hm_modify did f (r_displays r)\<rparr>"

definition set_consumer_caps :: "display_id \<Rightarrow> peer_caps \<Rightarrow> router \<Rightarrow> router" where
  "set_consumer_caps did caps r =
     (if hm_get (r_displays r) did = None then r
      else reconcile_buffer_flags (modify_display did (\<lambda>s. s\<lparr>ds_caps := Some caps\<rparr>) r))"

definition on_consumer_bind_failed :: "display_id \<Rightarrow> u32 \<Rightarrow> u64 \<Rightarrow> router \<Rightarrow> router" where
  "on_consumer_bind_failed did fourcc modifier r =
     (case hm_get (r_displays r) did of
        None \<Rightarrow> r
      | Some s \<Rightarrow>
          (case ds_caps s of
             None \<Rightarrow> r
           | Some caps \<Rightarrow>
               reconcile_buffer_flags (modify_display did (\<lambda>s. s\<lparr>ds_caps := Some
                 (caps\<lparr>caps_blacklist := insert (fourcc, modifier) (caps_blacklist caps)\<rparr>)\<rparr>) r)))"

definition on_renderer_bind_failed :: "renderer_id \<Rightarrow> u32 \<Rightarrow> u64 \<Rightarrow> router \<Rightarrow> router" where
  "on_renderer_bind_failed rid fourcc modifier r =
     (if table_handle r rid = None then r
      else reconcile_buffer_flags
        (r\<lparr>r_mgr := update_handle rid (\<lambda>h. snd (blacklist_format fourcc modifier h)) (r_mgr r)\<rparr>))"

section \<open>Changes of a display\<close>

text \<open>\<open>on_renderer_state_changed\<close>: the colour is read in one section, the links updated in the next.\<close>

definition recolor_step :: "rgba \<Rightarrow> link_id \<Rightarrow> display_id list \<times> router \<Rightarrow> display_id list \<times> router" where
  "recolor_step c lid ar =
     (let (affected, r) = ar;
          (changed, t) = update_link_geometry lid None None None (Some c) None (r_table r);
          r1 = r\<lparr>r_table := t\<rparr>
      in (if changed then (case get_link t lid of Some l \<Rightarrow> affected @ [lk_display l] | None \<Rightarrow> affected)
          else affected, r1))"

definition on_renderer_state_changed :: "renderer_id \<Rightarrow> router \<Rightarrow> router" where
  "on_renderer_state_changed rid r =
     (case table_handle r rid of
        None \<Rightarrow> r
      | Some h \<Rightarrow>
          (let (affected, r1) = fold (recolor_step (rh_clear h)) (map lk_id (links_for_renderer (r_table r) rid)) ([], r)
           in fold resync_display_set_config affected r1))"

definition update_display_size :: "display_id \<Rightarrow> u32 \<Rightarrow> u32 \<Rightarrow> router \<Rightarrow> router" where
  "update_display_size did w h r =
     (if w = 0 \<or> h = 0 then r
      else (case hm_get (r_displays r) did of
        None \<Rightarrow> r
      | Some s \<Rightarrow>
          (let changed = (di_width (ds_info s) \<noteq> w \<or> di_height (ds_info s) \<noteq> h);
               r1 = modify_display did (\<lambda>s. s\<lparr>ds_info := (ds_info s)\<lparr>di_width := w, di_height := h\<rparr>\<rparr>) r;
               r2 = (if changed then resync_display_set_config did r1 else r1)
           in emit_display did r2)))"

datatype pause_action = ScheduleResume u64 u32 | Reconcile | Noop

text \<open>Section: the autopause machine of one display takes the reported flags.\<close>

definition window_state_decision :: "resolved_autopause \<Rightarrow> u32 \<Rightarrow> ap_state \<Rightarrow> pause_action \<times> ap_state" where
  "window_state_decision ra flags a =
     (let new_raw = decide (ra_mode ra) flags;
          same = (ap_last_flags a = flags);
          a1 = a\<lparr>ap_last_flags := flags\<rparr>
      in if same \<and> new_raw = ap_raw a then (Noop, a1)
         else if new_raw then
           (if ap_requested a then Noop else Reconcile,
            a1\<lparr>ap_raw := new_raw, ap_requested := True, ap_gen := ap_gen a1 + 1\<rparr>)
         else if ap_requested a then
           (ScheduleResume (ap_gen a + 1) (ra_resume_ms ra), a1\<lparr>ap_raw := new_raw, ap_gen := ap_gen a1 + 1\<rparr>)
         else (Noop, a1\<lparr>ap_raw := new_raw\<rparr>))"

definition window_state_section :: "display_id \<Rightarrow> u32 \<Rightarrow> router \<Rightarrow> pause_action \<times> router" where
  "window_state_section did flags r =
     (case hm_get (r_displays r) did of
        None \<Rightarrow> (Noop, r)
      | Some s \<Rightarrow>
          (let (act, a) = window_state_decision (resolved_autopause_for (r_settings r) (ds_info s)) flags (ds_autopause s)
           in (act, modify_display did (\<lambda>s. s\<lparr>ds_autopause := a\<rparr>) r)))"

definition update_display_window_state :: "display_id \<Rightarrow> u32 \<Rightarrow> router \<Rightarrow> router" where
  "update_display_window_state did flags r =
     (let (act, r1) = window_state_section did flags r in
      case act of
        Noop \<Rightarrow> r1
      | Reconcile \<Rightarrow> reconcile_lifecycle r1
      | ScheduleResume gen _ \<Rightarrow> r1\<lparr>r_resume := insert (did, gen) (r_resume r1)\<rparr>)"

text \<open>Section of the resume task, once it has slept: does it still apply?\<close>

definition resume_section :: "display_id \<Rightarrow> u64 \<Rightarrow> router \<Rightarrow> bool \<times> router" where
  "resume_section did gen r =
     (case hm_get (r_displays r) did of
        None \<Rightarrow> (False, r)
      | Some s \<Rightarrow>
          if ap_gen (ds_autopause s) \<noteq> gen then (False, r)
          else if ap_raw (ds_autopause s) then (False, r)
          else if ap_requested (ds_autopause s)
          then (True, modify_display did (\<lambda>s. s\<lparr>ds_autopause := (ds_autopause s)\<lparr>ap_requested := False\<rparr>\<rparr>) r)
          else (False, r))"

definition fire_resume :: "display_id \<Rightarrow> u64 \<Rightarrow> router \<Rightarrow> router" where
  "fire_resume did gen r =
     (let (need, r1) = resume_section did gen (r\<lparr>r_resume := r_resume r - {(did, gen)}\<rparr>)
      in if need then reconcile_lifecycle r1 else r1)"

text \<open>Section: the session flags change.\<close>

definition session_section :: "bool option \<Rightarrow> bool option \<Rightarrow> router \<Rightarrow> pause_action \<times> router" where
  "session_section locked inactive r =
     (let l = (case locked of Some v \<Rightarrow> v | None \<Rightarrow> r_locked r);
          i = (case inactive of Some v \<Rightarrow> v | None \<Rightarrow> r_inactive r);
          changed = (l \<noteq> r_locked r \<or> i \<noteq> r_inactive r);
          r1 = r\<lparr>r_locked := l, r_inactive := i\<rparr>
      in if \<not> changed then (Noop, r1)
         else (let gen = r_session_gen r + 1; r2 = r1\<lparr>r_session_gen := gen\<rparr> in
               if l \<or> i then (Reconcile, r2)
               else (ScheduleResume gen (case r_settings r of
                       Some st \<Rightarrow> ad_resume_ms (gs_autopause (set_global (st_inner st))) | None \<Rightarrow> 500), r2)))"

definition update_session_state :: "bool option \<Rightarrow> bool option \<Rightarrow> router \<Rightarrow> router" where
  "update_session_state locked inactive r =
     (let (act, r1) = session_section locked inactive r in
      case act of
        Noop \<Rightarrow> r1
      | Reconcile \<Rightarrow> reconcile_lifecycle r1
      | ScheduleResume gen _ \<Rightarrow> r1\<lparr>r_session_resume := insert gen (r_session_resume r1)\<rparr>)"

definition fire_session_resume :: "u64 \<Rightarrow> router \<Rightarrow> router" where
  "fire_session_resume gen r =
     (let r1 = r\<lparr>r_session_resume := r_session_resume r - {gen}\<rparr> in
      if r_session_gen r1 = gen \<and> \<not> r_locked r1 \<and> \<not> r_inactive r1 then reconcile_lifecycle r1 else r1)"

definition set_manual_pause :: "bool \<Rightarrow> router \<Rightarrow> router" where
  "set_manual_pause p r = (if r_manual r = p then r else reconcile_lifecycle (r\<lparr>r_manual := p\<rparr>))"

section \<open>Per-display settings\<close>

definition resolve_display_mutation_target :: "display_id option \<Rightarrow> router \<Rightarrow> (display_id \<times> string) option" where
  "resolve_display_mutation_target did r =
     (case did of
        None \<Rightarrow> None
      | Some d \<Rightarrow> map_option (\<lambda>s. (d, settings_key_for (ds_info s))) (hm_get (r_displays r) d))"

record layout_change =
  lc_fillmode :: "fill_mode option"
  lc_location :: "location option"
  lc_align :: "align option"
  lc_rotation :: "rotation option"
  lc_clear_fillmode :: bool
  lc_clear_align :: bool
  lc_clear_rotation :: bool

definition change_prefs :: "layout_change \<Rightarrow> display_prefs \<Rightarrow> display_prefs" where
  "change_prefs c p0 =
     (let p1 = (if lc_clear_fillmode c then p0\<lparr>dp_fillmode := None\<rparr> else p0);
          p2 = (case lc_fillmode c of Some v \<Rightarrow> p1\<lparr>dp_fillmode := Some v\<rparr> | None \<Rightarrow> p1);
          p3 = (if lc_clear_align c then p2\<lparr>dp_location := None, dp_align := None\<rparr> else p2);
          p4 = (case lc_location c of Some v \<Rightarrow> p3\<lparr>dp_location := Some v, dp_align := None\<rparr> | None \<Rightarrow> p3);
          p5 = (case lc_align c of
                  Some v \<Rightarrow> if lc_location c = None then p4\<lparr>dp_align := Some v, dp_location := None\<rparr> else p4
                | None \<Rightarrow> p4);
          p6 = (if lc_clear_rotation c then p5\<lparr>dp_rotation := None\<rparr> else p5)
      in case lc_rotation c of Some v \<Rightarrow> p6\<lparr>dp_rotation := Some v\<rparr> | None \<Rightarrow> p6)"

text \<open>The entry is created when missing, changed, and removed again when it says nothing.\<close>

definition edit_prefs :: "string \<Rightarrow> (display_prefs \<Rightarrow> display_prefs) \<Rightarrow> settings \<Rightarrow> settings" where
  "edit_prefs key f s =
     (let entry = f (case hm_get (set_displays s) key of Some p \<Rightarrow> p | None \<Rightarrow> display_prefs_default) in
      if is_empty entry then s\<lparr>set_displays := hm_remove key (hm_insert key entry (set_displays s))\<rparr>
      else s\<lparr>set_displays := hm_insert key entry (set_displays s)\<rparr>)"

definition set_display_layout ::
  "display_id option \<Rightarrow> layout_change \<Rightarrow> router \<Rightarrow> display_id option \<times> router" where
  "set_display_layout did c r =
     (case (r_settings r, resolve_display_mutation_target did r) of
        (Some st, Some (target, key)) \<Rightarrow>
          (let r1 = r\<lparr>r_settings := Some (settings_update (edit_prefs key (change_prefs c)) st)\<rparr>;
               r2 = resync_display_set_config target r1
           in (Some target, emit_display target r2))
      | _ \<Rightarrow> (None, r))"

definition change_alias :: "bool \<Rightarrow> string option \<Rightarrow> display_prefs \<Rightarrow> display_prefs" where
  "change_alias clear new p0 =
     (let p1 = (if clear then p0\<lparr>dp_alias := None\<rparr> else p0) in
      case new of
        None \<Rightarrow> p1
      | Some v \<Rightarrow> p1\<lparr>dp_alias := (if str_trim v = [] then None else Some (str_trim v))\<rparr>)"

definition set_display_alias ::
  "display_id option \<Rightarrow> string option \<Rightarrow> bool \<Rightarrow> router \<Rightarrow> display_id option \<times> router" where
  "set_display_alias did new clear r =
     (case (r_settings r, resolve_display_mutation_target did r) of
        (Some st, Some (target, key)) \<Rightarrow>
          (let r1 = r\<lparr>r_settings := Some (settings_update (edit_prefs key (change_alias clear new)) st)\<rparr>
           in (Some target, emit_display target r1))
      | _ \<Rightarrow> (None, r))"

section \<open>Routing policy\<close>

definition renderers_fully_replaced_by :: "display_id list option \<Rightarrow> router \<Rightarrow> renderer_id list" where
  "renderers_fully_replaced_by target r =
     filter (\<lambda>rid.
       active_links r rid = [] \<or>
       (case target of None \<Rightarrow> True | Some ts \<Rightarrow> \<forall>l \<in> set (active_links r rid). lk_display l \<in> set ts))
     (renderer_ids (r_table r))"

definition relink_one :: "renderer_id \<Rightarrow> display_id \<Rightarrow> renderer_id routing_table \<Rightarrow> renderer_id routing_table" where
  "relink_one rid did t =
     snd (add_link rid did (fold (\<lambda>l u. snd (remove_link (lk_id l) u)) (links_for_display t did) t))"

text \<open>Section: the links of the displays that are registered are replaced.\<close>

definition relink_section :: "display_id list \<Rightarrow> renderer_id \<Rightarrow> router \<Rightarrow> display_id list \<times> router" where
  "relink_section dids rid r =
     (let applied = filter (\<lambda>did. hm_get (r_displays r) did \<noteq> None) dids
      in (applied, r\<lparr>r_table := fold (relink_one rid) applied (r_table r)\<rparr>))"

definition after_relink :: "display_id list \<Rightarrow> renderer_id \<Rightarrow> router \<Rightarrow> router" where
  "after_relink applied rid r =
     (let r1 = fold sync_display applied r;
          r2 = reconcile_lifecycle r1;
          r3 = snd (mark_orphans (Some rid) r2);
          r4 = reconcile_buffer_flags r3
      in if applied \<noteq> [] then emit (DisplaysReplace (snapshot_displays r4)) r4 else r4)"

definition relink_displays_to :: "display_id list \<Rightarrow> renderer_id \<Rightarrow> router \<Rightarrow> router" where
  "relink_displays_to dids rid r =
     (let (applied, r1) = relink_section dids rid r in after_relink applied rid r1)"

definition relink_all_displays_to :: "renderer_id \<Rightarrow> router \<Rightarrow> router" where
  "relink_all_displays_to rid r =
     (let ids = hm_keys (r_displays r) in
      after_relink ids rid (r\<lparr>r_table := fold (relink_one rid) ids (r_table r)\<rparr>))"

text \<open>Section: the link changes; a configuration follows only for a display bound to its renderer.\<close>

definition geometry_section ::
  "link_id \<Rightarrow> link_rect option \<Rightarrow> link_rect option \<Rightarrow> u32 option \<Rightarrow> rgba option \<Rightarrow> i32 option \<Rightarrow> router
     \<Rightarrow> bool \<times> (display_id \<times> projected_config) option \<times> router" where
  "geometry_section lid src dst transform clear z r =
     (let (changed, t) = update_link_geometry lid src dst transform clear z (r_table r); r1 = r\<lparr>r_table := t\<rparr> in
      if \<not> changed then (False, None, r1)
      else (case get_link t lid of
        None \<Rightarrow> (False, None, r1)
      | Some l \<Rightarrow>
          (case table_handle r1 (lk_renderer l) of
             None \<Rightarrow> (False, None, r1)
           | Some h \<Rightarrow>
               (case hm_get (r_displays r1) (lk_display l) of
                  None \<Rightarrow> (False, None, r1)
                | Some s \<Rightarrow>
                    if ds_last_renderer s \<noteq> Some (lk_renderer l) then (True, None, r1)
                    else (let gen = r_next_config r1 + 1; r2 = r1\<lparr>r_next_config := gen\<rparr>;
                              layout = resolved_layout_for_renderer r2 (ds_info s) (lk_renderer l)
                          in (True, Some (lk_display l, project_link l h (ds_info s) gen layout), r2))))))"

text \<open>Section: the configuration is sent if the display is still there.\<close>

definition send_config :: "display_id \<times> projected_config \<Rightarrow> router \<Rightarrow> router" where
  "send_config dc r = (if hm_get (r_displays r) (fst dc) = None then r else send (fst dc) (SetConfig (snd dc)) r)"

definition set_link_geometry ::
  "link_id \<Rightarrow> link_rect option \<Rightarrow> link_rect option \<Rightarrow> u32 option \<Rightarrow> rgba option \<Rightarrow> i32 option \<Rightarrow> router
     \<Rightarrow> bool \<times> router" where
  "set_link_geometry lid src dst transform clear z r =
     (case geometry_section lid src dst transform clear z r of
        (ok, None, r1) \<Rightarrow> (ok, r1)
      | (ok, Some (did, cfg), r1) \<Rightarrow> (ok, emit_display did (send_config (did, cfg) r1)))"

section \<open>Events of a renderer\<close>

definition on_renderer_bind :: "renderer_id \<Rightarrow> router \<Rightarrow> router" where
  "on_renderer_bind rid r =
     (let dids = map lk_display (active_links r rid);
          r1 = fold sync_display dids r
      in emit_renderer rid (reconcile_buffer_flags r1))"

definition frame_recipients :: "router \<Rightarrow> renderer_id \<Rightarrow> u64 \<Rightarrow> display_id list" where
  "frame_recipients r rid gen =
     filter (\<lambda>did. case hm_get (r_displays r) did of
         Some s \<Rightarrow> ds_last_gen s = Some gen \<and> ds_last_renderer s = Some rid
       | None \<Rightarrow> False) (map lk_display (active_links r rid))"

text \<open>Section: the whole method. A frame nobody gets is recorded for the reaper.\<close>

definition on_renderer_frame :: "renderer_id \<Rightarrow> u32 \<Rightarrow> u64 \<Rightarrow> u64 \<Rightarrow> router \<Rightarrow> router" where
  "on_renderer_frame rid index seq point r =
     (case table_handle r rid of
        None \<Rightarrow> r
      | Some h \<Rightarrow>
          (case rh_bind h of
             None \<Rightarrow> r
           | Some b \<Rightarrow>
               (let gen = bs_generation b; recipients = frame_recipients r rid gen;
                    n = of_nat (length recipients) :: u32
                in if n = 0 then
                     (if rh_has_reaper h then r\<lparr>r_records := r_records r @ [(rid, point)]\<rparr> else r)
                   else fold (\<lambda>did. send did (Frame rid gen index seq point n)) recipients r)))"

text \<open>The event task of a renderer: what it does with each event it receives.\<close>

fun on_event :: "renderer_id \<Rightarrow> event_msg \<Rightarrow> router \<Rightarrow> router" where
  "on_event rid (BindBuffers _) r = on_renderer_bind rid r"
| "on_event rid (FrameReady index seq point) r = on_renderer_frame rid index seq point r"
| "on_event rid (FormatCaps _) r = reconcile_buffer_flags r"
| "on_event rid (BindFailed fourcc modifier _ _) r = on_renderer_bind_failed rid fourcc modifier r"
| "on_event rid (ReportState _) r = on_renderer_state_changed rid r"
| "on_event rid _ r = r"

text \<open>\<open>RendererManager::evict\<close>, which the manager's reaper task runs for an id of its queue.\<close>

definition evict :: "renderer_id \<Rightarrow> router \<Rightarrow> router" where
  "evict rid r =
     (if rid \<notin> set (mg_live (r_mgr r)) then r
      else
        (let r1 = r\<lparr>r_mgr := (r_mgr r)\<lparr>mg_live := removeAll rid (mg_live (r_mgr r))\<rparr>\<rparr>;
             r2 = unregister_renderer rid r1
         in r2\<lparr>r_mgr := update_handle rid (\<lambda>h. h\<lparr>rh_child := False\<rparr>) (r_mgr r2)\<rparr>))"

end
