(* ===== verification/Router_Sync.thy ===== *)
theory Router_Sync
  imports Router
begin

text \<open>
  What single methods of the router do: pausing and playing (\<open>reconcile_lifecycle\<close>), bringing a
  display up to date (\<open>sync_display\<close>), relinking, the frame fan-out and the orderly stop. The
  interleaving of methods is the subject of the next theory.
\<close>

section \<open>Pausing and playing\<close>

lemma should_pause_paused [simp]: "should_pause (r\<lparr>r_paused := S\<rparr>) rid = should_pause r rid"
  by (simp add: should_pause_def active_links_def any_autopaused_def session_paused_def)

lemma should_pause_mgr [simp]: "should_pause (r\<lparr>r_mgr := m\<rparr>) rid = should_pause r rid"
  by (simp add: should_pause_def active_links_def any_autopaused_def session_paused_def)

lemma should_pause_emitted [simp]: "should_pause (r\<lparr>r_emitted := e\<rparr>) rid = should_pause r rid"
  by (simp add: should_pause_def active_links_def any_autopaused_def session_paused_def)

definition action_of :: "router \<Rightarrow> renderer_id \<Rightarrow> (renderer_id \<times> control_msg) option" where
  "action_of r rid =
     (if should_pause r rid = (rid \<in> r_paused r) then None
      else Some (rid, if should_pause r rid then Pause else Play))"

definition paused_after :: "renderer_id set \<Rightarrow> router \<Rightarrow> renderer_id set" where
  "paused_after rids r = {x. if x \<in> rids then should_pause r x else x \<in> r_paused r}"

lemma lifecycle_step_eq:
  "lifecycle_step rid (out, r) =
     (out @ (case action_of r rid of None \<Rightarrow> [] | Some a \<Rightarrow> [a]), r\<lparr>r_paused := paused_after {rid} r\<rparr>)"
proof -
  have "paused_after {rid} r = (if should_pause r rid then insert rid (r_paused r) else r_paused r - {rid})"
    by (auto simp: paused_after_def)
  then show ?thesis
    by (auto simp: lifecycle_step_def action_of_def Let_def insert_absorb)
qed

lemma lifecycle_fold:
  "distinct rids \<Longrightarrow> fold lifecycle_step rids (out, r) =
     (out @ List.map_filter (action_of r) rids, r\<lparr>r_paused := paused_after (set rids) r\<rparr>)"
proof (induction rids arbitrary: out r)
  case (Cons rid rids)
  let ?r = "r\<lparr>r_paused := paused_after {rid} r\<rparr>"
  have "action_of ?r x = action_of r x" if "x \<in> set rids" for x
    using that Cons.prems by (auto simp: action_of_def paused_after_def)
  then have m: "List.map_filter (action_of ?r) rids = List.map_filter (action_of r) rids"
    by (rule map_filter_cong)
  have p: "paused_after (set rids) ?r = paused_after (set (rid # rids)) r"
    by (auto simp: paused_after_def)
  have "fold lifecycle_step (rid # rids) (out, r) =
      (out @ (case action_of r rid of None \<Rightarrow> [] | Some a \<Rightarrow> [a]) @ List.map_filter (action_of r) rids,
       ?r\<lparr>r_paused := paused_after (set (rid # rids)) r\<rparr>)"
    using Cons by (simp add: lifecycle_step_eq m p)
  then show ?case by (simp split: option.split)
qed (simp add: paused_after_def)

lemma lifecycle_diff_eq:
  assumes "table_ok (r_table r)"
  shows "lifecycle_diff r =
     (List.map_filter (action_of r) (renderer_ids (r_table r)),
      r\<lparr>r_paused := paused_after (set (renderer_ids (r_table r))) r\<rparr>)"
  using table_okD(2) [OF assms] by (simp add: lifecycle_diff_def lifecycle_fold renderer_ids_def)

text \<open>Sending a control message touches the manager's wire and its queue only.\<close>

lemma mgr_send_control_eq:
  "snd (mgr_send_control rid msg m) =
     (case mgr_get m rid of
        None \<Rightarrow> m
      | Some h \<Rightarrow> (case rh_sock h of
          None \<Rightarrow> m\<lparr>mg_wire := mg_wire m @ [(rid, msg)]\<rparr>
        | Some e \<Rightarrow> if is_peer_gone e then m\<lparr>mg_reap := mg_reap m @ [rid]\<rparr> else m))"
  by (simp add: mgr_send_control_def mark_dead_def split: option.split)

lemma mgr_get_control [simp]: "mgr_get (snd (mgr_send_control rid msg m)) x = mgr_get m x"
  by (simp add: mgr_send_control_eq mgr_get_def split: option.split)

definition delivered :: "manager \<Rightarrow> (renderer_id \<times> control_msg) list \<Rightarrow> (renderer_id \<times> control_msg) list" where
  "delivered m acts = filter (\<lambda>a. \<exists>h. mgr_get m (fst a) = Some h \<and> rh_sock h = None) acts"

lemma delivered_cong: "(\<And>x. mgr_get m x = mgr_get m' x) \<Longrightarrow> delivered m acts = delivered m' acts"
  by (simp add: delivered_def)

lemma control_eq:
  "\<exists>p. control a r =
     r\<lparr>r_mgr := (r_mgr r)\<lparr>mg_wire := mg_wire (r_mgr r) @ delivered (r_mgr r) [a], mg_reap := p\<rparr>\<rparr>"
proof -
  let ?m = "r_mgr r"
  have keep: "\<exists>p. ?m = ?m\<lparr>mg_wire := mg_wire ?m @ [], mg_reap := p\<rparr>"
    by (rule exI [of _ "mg_reap ?m"]) simp
  have "\<exists>p. snd (mgr_send_control (fst a) (snd a) ?m) = ?m\<lparr>mg_wire := mg_wire ?m @ delivered ?m [a], mg_reap := p\<rparr>"
  proof (cases "mgr_get ?m (fst a)")
    case None
    then show ?thesis using keep by (simp add: mgr_send_control_eq delivered_def)
  next
    case (Some h)
    show ?thesis
    proof (cases "rh_sock h")
      case None
      then show ?thesis using Some
        by (intro exI [of _ "mg_reap ?m"]) (simp add: mgr_send_control_eq delivered_def)
    next
      case (Some e)
      then have "snd (mgr_send_control (fst a) (snd a) ?m) =
          ?m\<lparr>mg_wire := mg_wire ?m @ [], mg_reap := (if is_peer_gone e then mg_reap ?m @ [fst a] else mg_reap ?m)\<rparr>"
        using \<open>mgr_get ?m (fst a) = Some h\<close> by (simp add: mgr_send_control_eq)
      moreover have "delivered ?m [a] = []"
        using Some \<open>mgr_get ?m (fst a) = Some h\<close> by (simp add: delivered_def)
      ultimately show ?thesis by (intro exI) simp
    qed
  qed
  then obtain p where p: "snd (mgr_send_control (fst a) (snd a) ?m) = ?m\<lparr>mg_wire := mg_wire ?m @ delivered ?m [a], mg_reap := p\<rparr>"
    by blast
  show ?thesis unfolding control_def by (rule exI [of _ p]) (simp only: p)
qed

lemma fold_control:
  "\<exists>q. fold control acts r =
     r\<lparr>r_mgr := (r_mgr r)\<lparr>mg_wire := mg_wire (r_mgr r) @ delivered (r_mgr r) acts, mg_reap := q\<rparr>\<rparr>"
proof (induction acts arbitrary: r)
  case Nil
  show ?case by (rule exI [of _ "mg_reap (r_mgr r)"]) (simp add: delivered_def)
next
  case (Cons a acts)
  obtain p where p: "control a r = r\<lparr>r_mgr := (r_mgr r)\<lparr>mg_wire := mg_wire (r_mgr r) @ delivered (r_mgr r) [a], mg_reap := p\<rparr>\<rparr>"
    using control_eq by blast
  let ?r = "r\<lparr>r_mgr := (r_mgr r)\<lparr>mg_wire := mg_wire (r_mgr r) @ delivered (r_mgr r) [a], mg_reap := p\<rparr>\<rparr>"
  obtain q where q: "fold control acts ?r = ?r\<lparr>r_mgr := (r_mgr ?r)\<lparr>mg_wire := mg_wire (r_mgr ?r) @ delivered (r_mgr ?r) acts, mg_reap := q\<rparr>\<rparr>"
    using Cons.IH by blast
  have d: "delivered (r_mgr ?r) acts = delivered (r_mgr r) acts"
    by (rule delivered_cong) (simp add: mgr_get_def)
  have "delivered (r_mgr r) (a # acts) = delivered (r_mgr r) [a] @ delivered (r_mgr r) acts"
    by (simp add: delivered_def)
  moreover have "fold control (a # acts) r = fold control acts ?r" by (simp only: fold.simps comp_apply p)
  ultimately show ?case
    by (intro exI [of _ q]) (simp only: q d, simp)
qed

lemma emit_renderer_eq: "\<exists>em. emit_renderer rid r = r\<lparr>r_emitted := em\<rparr>"
proof (cases "snapshot_renderer r rid")
  case None
  then show ?thesis by (intro exI [of _ "r_emitted r"]) (simp add: emit_renderer_def)
next
  case (Some sn)
  then show ?thesis by (intro exI) (simp add: emit_renderer_def emit_def)
qed

lemma fold_emit_renderer: "\<exists>em. fold (\<lambda>a. emit_renderer (fst a)) acts r = r\<lparr>r_emitted := em\<rparr>"
proof (induction acts arbitrary: r)
  case Nil
  show ?case by (rule exI [of _ "r_emitted r"]) simp
next
  case (Cons a acts)
  obtain em where "emit_renderer (fst a) r = r\<lparr>r_emitted := em\<rparr>" using emit_renderer_eq by blast
  moreover obtain em' where "fold (\<lambda>a. emit_renderer (fst a)) acts (r\<lparr>r_emitted := em\<rparr>) = r\<lparr>r_emitted := em, r_emitted := em'\<rparr>"
    using Cons.IH by blast
  ultimately show ?case by (intro exI [of _ em']) simp
qed

definition lifecycle_actions :: "router \<Rightarrow> (renderer_id \<times> control_msg) list" where
  "lifecycle_actions r = List.map_filter (action_of r) (renderer_ids (r_table r))"

text \<open>What the method changes: the paused set, the wire and the queue of the manager, and the events.\<close>

lemma reconcile_lifecycle_eq:
  assumes "table_ok (r_table r)"
  shows "\<exists>q em. reconcile_lifecycle r =
    r\<lparr>r_paused := paused_after (set (renderer_ids (r_table r))) r,
      r_mgr := (r_mgr r)\<lparr>mg_wire := mg_wire (r_mgr r) @ delivered (r_mgr r) (lifecycle_actions r), mg_reap := q\<rparr>,
      r_emitted := em\<rparr>"
proof -
  let ?p = "paused_after (set (renderer_ids (r_table r))) r"
  obtain q where q: "fold control (lifecycle_actions r) (r\<lparr>r_paused := ?p\<rparr>) =
      r\<lparr>r_paused := ?p, r_mgr := (r_mgr r)\<lparr>mg_wire := mg_wire (r_mgr r) @ delivered (r_mgr r) (lifecycle_actions r), mg_reap := q\<rparr>\<rparr>"
    using fold_control [of "lifecycle_actions r" "r\<lparr>r_paused := ?p\<rparr>"] by auto
  obtain em where em: "fold (\<lambda>a. emit_renderer (fst a)) (lifecycle_actions r)
      (r\<lparr>r_paused := ?p, r_mgr := (r_mgr r)\<lparr>mg_wire := mg_wire (r_mgr r) @ delivered (r_mgr r) (lifecycle_actions r), mg_reap := q\<rparr>\<rparr>) =
      r\<lparr>r_paused := ?p, r_mgr := (r_mgr r)\<lparr>mg_wire := mg_wire (r_mgr r) @ delivered (r_mgr r) (lifecycle_actions r), mg_reap := q\<rparr>, r_emitted := em\<rparr>"
    using fold_emit_renderer by blast
  show ?thesis
    by (rule exI [of _ q], rule exI [of _ em])
      (simp add: reconcile_lifecycle_def lifecycle_diff_eq [OF assms] lifecycle_actions_def [symmetric] Let_def q em)
qed

text \<open>
  C9: after \<open>reconcile_lifecycle\<close> exactly the renderers of the table that should be paused are
  recorded as paused; each renderer whose state changed is sent one message, Pause or Play as
  it should be, if it is alive and its socket takes it; and running the method again changes
  nothing and sends nothing.
\<close>

theorem reconcile_lifecycle_exact:
  assumes "table_ok (r_table r)"
  shows "(rid \<in> set (renderer_ids (r_table r)) \<longrightarrow> (rid \<in> r_paused (reconcile_lifecycle r) \<longleftrightarrow> should_pause r rid)) \<and>
    mg_wire (r_mgr (reconcile_lifecycle r)) =
      mg_wire (r_mgr r) @ delivered (r_mgr r) (lifecycle_actions r) \<and>
    (a \<in> set (lifecycle_actions r) \<longleftrightarrow>
       fst a \<in> set (renderer_ids (r_table r)) \<and> (should_pause r (fst a) \<longleftrightarrow> fst a \<notin> r_paused r) \<and>
       snd a = (if should_pause r (fst a) then Pause else Play)) \<and>
    reconcile_lifecycle (reconcile_lifecycle r) = reconcile_lifecycle r"
proof -
  let ?ids = "set (renderer_ids (r_table r))"
  let ?r = "reconcile_lifecycle r"
  obtain q em where eq: "?r = r\<lparr>r_paused := paused_after ?ids r,
      r_mgr := (r_mgr r)\<lparr>mg_wire := mg_wire (r_mgr r) @ delivered (r_mgr r) (lifecycle_actions r), mg_reap := q\<rparr>,
      r_emitted := em\<rparr>"
    using reconcile_lifecycle_eq [OF assms] by blast
  have s: "should_pause ?r = should_pause r" by (simp add: eq fun_eq_iff)
  have p: "paused_after ?ids ?r = r_paused ?r"
    by (auto simp: paused_after_def s) (auto simp: eq paused_after_def)
  have t: "r_table ?r = r_table r" by (simp add: eq)
  have "action_of ?r x = None" if "x \<in> ?ids" for x
    using that by (simp add: action_of_def s) (simp add: eq paused_after_def)
  then have "lifecycle_actions ?r = []"
    unfolding lifecycle_actions_def t by (induction "renderer_ids (r_table r)") (auto simp: List.map_filter_def filter_empty_conv)
  then have "lifecycle_diff ?r = ([], ?r)"
    using assms lifecycle_diff_eq [of ?r] by (simp add: t lifecycle_actions_def p)
  then have again: "reconcile_lifecycle ?r = ?r"
    by (simp add: reconcile_lifecycle_def [of ?r])
  have acts: "a \<in> set (lifecycle_actions r) \<longleftrightarrow>
       fst a \<in> ?ids \<and> (should_pause r (fst a) \<longleftrightarrow> fst a \<notin> r_paused r) \<and>
       snd a = (if should_pause r (fst a) then Pause else Play)"
    by (cases a) (auto simp: lifecycle_actions_def set_map_filter action_of_def)
  show ?thesis using again acts by (simp add: eq paused_after_def)
qed

section \<open>Bringing a display up to date\<close>

text \<open>The parts of \<open>sync_display\<close> in closed form: what each sends, and which fields it changes.\<close>

lemma send_simps [simp]:
  "r_table (send did ev r) = r_table r" "r_mgr (send did ev r) = r_mgr r"
  "r_displays (send did ev r) = r_displays r" "r_sent (send did ev r) = r_sent r @ [(did, ev)]"
  "r_next_config (send did ev r) = r_next_config r" "r_settings (send did ev r) = r_settings r"
  "r_overrides (send did ev r) = r_overrides r" "r_acks (send did ev r) = r_acks r"
  by (simp_all add: send_def)

definition retire_events :: "display_state \<Rightarrow> out_event list" where
  "retire_events s = (case ds_last_gen s of None \<Rightarrow> [] | Some og \<Rightarrow> [Unbind og])"

definition retire_acks ::
  "display_id \<Rightarrow> display_state \<Rightarrow> (renderer_id, (display_id \<times> u64) set) hmap \<Rightarrow> (renderer_id, (display_id \<times> u64) set) hmap" where
  "retire_acks did s acks =
     (case (ds_last_gen s, ds_last_renderer s) of
        (Some og, Some old) \<Rightarrow> hm_modify old (insert (did, og)) acks | _ \<Rightarrow> acks)"

lemma retire_eq:
  "retire did s r = r\<lparr>r_sent := r_sent r @ map (Pair did) (retire_events s), r_acks := retire_acks did s (r_acks r)\<rparr>"
  by (simp add: retire_def retire_events_def retire_acks_def send_def split: option.split)

definition replay_events :: "renderer_handle \<Rightarrow> u64 \<Rightarrow> out_event list" where
  "replay_events h gen =
     (case replay_frame h gen of
        None \<Rightarrow> []
      | Some f \<Rightarrow> [Frame (rh_id h) (fs_generation f) (fs_index f) (fs_seq f) (fs_release_point f) 1])"

definition bind_config :: "display_state \<Rightarrow> link \<Rightarrow> renderer_handle \<Rightarrow> router \<Rightarrow> projected_config" where
  "bind_config s l h r =
     project_link l h (ds_info s) (r_next_config r + 1) (resolved_layout_for_renderer r (ds_info s) (lk_renderer l))"

lemma resolved_layout_cong [simp]:
  "resolved_layout_for_renderer (r\<lparr>r_next_config := n\<rparr>) info rid = resolved_layout_for_renderer r info rid"
  "resolved_layout_for_renderer (r\<lparr>r_sent := e\<rparr>) info rid = resolved_layout_for_renderer r info rid"
  "resolved_layout_for_renderer (r\<lparr>r_acks := k\<rparr>) info rid = resolved_layout_for_renderer r info rid"
  by (simp_all add: resolved_layout_for_renderer_def)

lemma bind_new_Some_eq:
  "bind_new did s (Some (l, h, ng)) r =
     r\<lparr>r_next_config := r_next_config r + 1,
       r_sent := r_sent r @ map (Pair did) ([Bind (rh_id h), SetConfig (bind_config s l h r)] @ replay_events h ng),
       r_displays := hm_modify did (\<lambda>s. s\<lparr>ds_last_renderer := Some (lk_renderer l), ds_last_gen := Some ng\<rparr>) (r_displays r)\<rparr>"
  by (simp add: bind_new_def set_last_def send_def replay_events_def bind_config_def Let_def split: option.split)

lemma bind_new_None_eq:
  "bind_new did s None r =
     r\<lparr>r_displays := hm_modify did (\<lambda>s. s\<lparr>ds_last_renderer := None, ds_last_gen := None\<rparr>) (r_displays r)\<rparr>"
  by (simp add: bind_new_def set_last_def)

text \<open>What one call sends to the display, and the state it leaves it in.\<close>

definition sync_needed :: "display_id \<Rightarrow> router \<Rightarrow> bool" where
  "sync_needed did r \<longleftrightarrow>
     (\<exists>s. hm_get (r_displays r) did = Some s \<and>
        \<not> (\<exists>l h g. bound_target r did = Some (l, h, g) \<and> gated s h) \<and> needs_update s (bound_target r did))"

lemma sync_display_needed:
  assumes "hm_get (r_displays r) did = Some s" and "sync_needed did r"
  shows "sync_display did r = bind_new did s (bound_target r did) (retire did s r)"
  using assms by (auto simp: sync_needed_def sync_display_def Let_def split: option.split)

lemma sync_display_not_needed: "\<not> sync_needed did r \<Longrightarrow> sync_display did r = r"
  by (auto simp: sync_needed_def sync_display_def Let_def split: option.split)

lemma sync_display_Some_eq:
  assumes "hm_get (r_displays r) did = Some s" "sync_needed did r" "bound_target r did = Some (l, h, ng)"
  shows "sync_display did r =
     r\<lparr>r_next_config := r_next_config r + 1, r_acks := retire_acks did s (r_acks r),
       r_sent := r_sent r @ map (Pair did)
         (retire_events s @ [Bind (rh_id h), SetConfig (bind_config s l h r)] @ replay_events h ng),
       r_displays := hm_modify did (\<lambda>s. s\<lparr>ds_last_renderer := Some (lk_renderer l), ds_last_gen := Some ng\<rparr>) (r_displays r)\<rparr>"
proof -
  have "bind_config s l h (r\<lparr>r_sent := e, r_acks := k\<rparr>) = bind_config s l h r" for e k
    by (simp add: bind_config_def)
  then show ?thesis
    by (simp add: sync_display_needed [OF assms(1,2)] assms(3) bind_new_Some_eq retire_eq)
qed

lemma sync_display_None_eq:
  assumes "hm_get (r_displays r) did = Some s" "sync_needed did r" "bound_target r did = None"
  shows "sync_display did r =
     r\<lparr>r_acks := retire_acks did s (r_acks r), r_sent := r_sent r @ map (Pair did) (retire_events s),
       r_displays := hm_modify did (\<lambda>s. s\<lparr>ds_last_renderer := None, ds_last_gen := None\<rparr>) (r_displays r)\<rparr>"
  by (simp add: sync_display_needed [OF assms(1,2)] assms(3) bind_new_None_eq retire_eq)

lemma sync_display_cases:
  obtains (same) "sync_display did r = r" "\<not> sync_needed did r"
  | (bind) s l h ng where "hm_get (r_displays r) did = Some s" "sync_needed did r" "bound_target r did = Some (l, h, ng)"
  | (unbind) s where "hm_get (r_displays r) did = Some s" "sync_needed did r" "bound_target r did = None"
  using sync_display_not_needed by (cases "bound_target r did") (auto simp: sync_needed_def, blast+)

text \<open>The fields no call changes.\<close>

lemma sync_display_keeps [simp]:
  "r_table (sync_display did r) = r_table r" "r_mgr (sync_display did r) = r_mgr r"
  "r_paused (sync_display did r) = r_paused r" "r_settings (sync_display did r) = r_settings r"
  "r_overrides (sync_display did r) = r_overrides r" "r_orphan_timers (sync_display did r) = r_orphan_timers r"
  "r_sleeping (sync_display did r) = r_sleeping r" "r_next_timer (sync_display did r) = r_next_timer r"
  "r_resume (sync_display did r) = r_resume r" "r_next_display (sync_display did r) = r_next_display r"
  "hm_keys (r_displays (sync_display did r)) = hm_keys (r_displays r)"
  by (cases rule: sync_display_cases [of did r]; simp add: sync_display_Some_eq sync_display_None_eq)+

lemma table_handle_sync [simp]: "table_handle (sync_display did r) = table_handle r"
  by (simp add: table_handle_def fun_eq_iff)

lemma bound_target_sync [simp]: "bound_target (sync_display did r) x = bound_target r x"
  by (simp add: bound_target_def enabled_links_def split: list.split option.split)

lemma sync_display_settles:
  assumes "hm_get (r_displays r) did = Some s" and "sync_needed did r"
  shows "hm_get (r_displays (sync_display did r)) did =
    Some (s\<lparr>ds_last_renderer := map_option (\<lambda>(l, _, _). lk_renderer l) (bound_target r did),
             ds_last_gen := map_option (\<lambda>(_, _, g). g) (bound_target r did)\<rparr>)"
  using assms by (cases "bound_target r did") (auto simp: sync_display_Some_eq sync_display_None_eq)

lemma sync_display_not_needed_again: "\<not> sync_needed did (sync_display did r)"
proof (cases "sync_needed did r")
  case True
  then obtain s where s: "hm_get (r_displays r) did = Some s" by (auto simp: sync_needed_def)
  show ?thesis
    using sync_display_settles [OF s True]
    by (cases "bound_target r did") (auto simp: sync_needed_def needs_update_def)
qed (simp add: sync_display_not_needed)

lemma sync_display_result:
  assumes "hm_get (r_displays r) did = Some s" and "sync_needed did r"
  shows "sync_display did (sync_display did r) = sync_display did r \<and>
    r_sent (sync_display did r) = r_sent r @ map (Pair did) (retire_events s @
      (case bound_target r did of
         None \<Rightarrow> []
       | Some (l, h, g) \<Rightarrow> [Bind (rh_id h), SetConfig (bind_config s l h r)] @ replay_events h g)) \<and>
    hm_get (r_displays (sync_display did r)) did =
      Some (s\<lparr>ds_last_renderer := map_option (\<lambda>(l, _, _). lk_renderer l) (bound_target r did),
               ds_last_gen := map_option (\<lambda>(_, _, g). g) (bound_target r did)\<rparr>) \<and>
    (other \<noteq> did \<longrightarrow> hm_get (r_displays (sync_display did r)) other = hm_get (r_displays r) other)"
proof -
  have "sync_display did (sync_display did r) = sync_display did r"
    by (rule sync_display_not_needed) (rule sync_display_not_needed_again)
  moreover have "r_sent (sync_display did r) = r_sent r @ map (Pair did) (retire_events s @
      (case bound_target r did of
         None \<Rightarrow> []
       | Some (l, h, g) \<Rightarrow> [Bind (rh_id h), SetConfig (bind_config s l h r)] @ replay_events h g))"
    using assms by (cases "bound_target r did") (auto simp: sync_display_Some_eq sync_display_None_eq)
  moreover have "other \<noteq> did \<Longrightarrow> hm_get (r_displays (sync_display did r)) other = hm_get (r_displays r) other"
    using assms by (cases "bound_target r did") (auto simp: sync_display_Some_eq sync_display_None_eq)
  ultimately show ?thesis using sync_display_settles [OF assms] by blast
qed

text \<open>
  C6: \<open>sync_display\<close> is idempotent, as its comment says. A call that has something to do retires
  the pool the display had, then binds the pool of the renderer it is linked to with one
  configuration, and remembers exactly that; it leaves every other display alone.
\<close>

theorem sync_display_exact:
  assumes "hm_get (r_displays r) did = Some s" and "sync_needed did r"
  shows "sync_display did (sync_display did r) = sync_display did r \<and>
    r_sent (sync_display did r) = r_sent r @ map (Pair did) (retire_events s @
      (case bound_target r did of
         None \<Rightarrow> []
       | Some (l, h, g) \<Rightarrow> [Bind (rh_id h), SetConfig (bind_config s l h r)] @ replay_events h g)) \<and>
    hm_get (r_displays (sync_display did r)) did =
      Some (s\<lparr>ds_last_renderer := map_option (\<lambda>(l, _, _). lk_renderer l) (bound_target r did),
               ds_last_gen := map_option (\<lambda>(_, _, g). g) (bound_target r did)\<rparr>) \<and>
    (other \<noteq> did \<longrightarrow> hm_get (r_displays (sync_display did r)) other = hm_get (r_displays r) other)"
  by (rule sync_display_result [OF assms])

section \<open>What the other methods leave alone\<close>

lemma fold_keeps: "(\<And>x r. g (f x r) = g r) \<Longrightarrow> g (fold f xs r) = g r"
  by (induction xs arbitrary: r) auto

lemma lifecycle_fold_shape: "\<exists>out' S. fold lifecycle_step rids (out, r) = (out', r\<lparr>r_paused := S\<rparr>)"
proof (induction rids arbitrary: out r)
  case Nil
  show ?case by (rule exI [of _ out], rule exI [of _ "r_paused r"]) simp
next
  case (Cons rid rids)
  obtain out1 where "lifecycle_step rid (out, r) = (out1, r\<lparr>r_paused := paused_after {rid} r\<rparr>)"
    by (simp add: lifecycle_step_eq)
  moreover obtain out2 S where "fold lifecycle_step rids (out1, r\<lparr>r_paused := paused_after {rid} r\<rparr>) = (out2, r\<lparr>r_paused := S\<rparr>)"
    using Cons.IH [of out1 "r\<lparr>r_paused := paused_after {rid} r\<rparr>"] by auto
  ultimately show ?case by auto
qed

text \<open>The shape holds whether or not the table is consistent.\<close>

lemma reconcile_lifecycle_shape:
  "\<exists>S w q em. reconcile_lifecycle r =
     r\<lparr>r_paused := S, r_mgr := (r_mgr r)\<lparr>mg_wire := w, mg_reap := q\<rparr>, r_emitted := em\<rparr>"
proof -
  obtain acts S where d: "lifecycle_diff r = (acts, r\<lparr>r_paused := S\<rparr>)"
    using lifecycle_fold_shape unfolding lifecycle_diff_def by blast
  let ?w = "mg_wire (r_mgr r) @ delivered (r_mgr r) acts"
  obtain q where q: "fold control acts (r\<lparr>r_paused := S\<rparr>) =
      r\<lparr>r_paused := S, r_mgr := (r_mgr r)\<lparr>mg_wire := ?w, mg_reap := q\<rparr>\<rparr>"
    using fold_control [of acts "r\<lparr>r_paused := S\<rparr>"] by auto
  obtain em where em: "fold (\<lambda>a. emit_renderer (fst a)) acts (r\<lparr>r_paused := S, r_mgr := (r_mgr r)\<lparr>mg_wire := ?w, mg_reap := q\<rparr>\<rparr>) =
      r\<lparr>r_paused := S, r_mgr := (r_mgr r)\<lparr>mg_wire := ?w, mg_reap := q\<rparr>, r_emitted := em\<rparr>"
    using fold_emit_renderer by blast
  show ?thesis
    by (intro exI [of _ S] exI [of _ ?w] exI [of _ q] exI [of _ em]) (simp add: reconcile_lifecycle_def d q em Let_def)
qed

lemma reconcile_lifecycle_keeps [simp]:
  "r_table (reconcile_lifecycle r) = r_table r" "r_displays (reconcile_lifecycle r) = r_displays r"
  "r_sent (reconcile_lifecycle r) = r_sent r" "r_acks (reconcile_lifecycle r) = r_acks r"
  "mg_live (r_mgr (reconcile_lifecycle r)) = mg_live (r_mgr r)"
  "mg_handles (r_mgr (reconcile_lifecycle r)) = mg_handles (r_mgr r)"
  "r_orphan_timers (reconcile_lifecycle r) = r_orphan_timers r" "r_sleeping (reconcile_lifecycle r) = r_sleeping r"
  "r_settings (reconcile_lifecycle r) = r_settings r" "r_overrides (reconcile_lifecycle r) = r_overrides r"
  "r_next_config (reconcile_lifecycle r) = r_next_config r" "r_resume (reconcile_lifecycle r) = r_resume r"
  "r_manual (reconcile_lifecycle r) = r_manual r" "r_locked (reconcile_lifecycle r) = r_locked r"
  "r_inactive (reconcile_lifecycle r) = r_inactive r"
  using reconcile_lifecycle_shape [of r] by auto

lemma dispatch_keeps [simp]:
  "r_table (dispatch p r) = r_table r" "r_displays (dispatch p r) = r_displays r"
  "r_sent (dispatch p r) = r_sent r" "r_acks (dispatch p r) = r_acks r"
  by (simp_all add: dispatch_def)

lemma mg_live_send_control [simp]: "mg_live (snd (mgr_send_control rid msg m)) = mg_live m"
  by (simp add: mgr_send_control_eq split: option.split)

lemma mg_live_send_negotiate [simp]: "mg_live (snd (send_negotiate_buffers rid scheme m)) = mg_live m"
proof -
  obtain res m1 where e: "mgr_send_control rid (negotiate_msg scheme) m = (res, m1)" by force
  then have "mg_live m1 = mg_live m" using mg_live_send_control [of rid "negotiate_msg scheme" m] by simp
  with e show ?thesis
    by (simp add: send_negotiate_buffers_def update_handle_def split: option.split sum.split)
qed

lemma mg_live_dispatch [simp]: "mg_live (r_mgr (dispatch p r)) = mg_live (r_mgr r)"
  by (simp add: dispatch_def)

lemma reconcile_buffer_flags_keeps [simp]:
  "r_table (reconcile_buffer_flags r) = r_table r" "r_displays (reconcile_buffer_flags r) = r_displays r"
  "r_sent (reconcile_buffer_flags r) = r_sent r" "r_acks (reconcile_buffer_flags r) = r_acks r"
  "mg_live (r_mgr (reconcile_buffer_flags r)) = mg_live (r_mgr r)"
  by (simp_all add: reconcile_buffer_flags_def fold_keeps [where f = dispatch]
      fold_keeps [where f = dispatch and g = "\<lambda>r. mg_live (r_mgr r)"])

lemma emit_keeps [simp]:
  "r_table (emit ev r) = r_table r" "r_displays (emit ev r) = r_displays r" "r_mgr (emit ev r) = r_mgr r"
  "r_sent (emit ev r) = r_sent r" "r_acks (emit ev r) = r_acks r" "r_paused (emit ev r) = r_paused r"
  by (simp_all add: emit_def)

lemma fold_sync_keeps [simp]:
  "r_table (fold sync_display dids r) = r_table r" "r_mgr (fold sync_display dids r) = r_mgr r"
  "r_paused (fold sync_display dids r) = r_paused r"
  "hm_keys (r_displays (fold sync_display dids r)) = hm_keys (r_displays r)"
  by (simp_all add: fold_keeps [where f = sync_display]
      fold_keeps [where f = sync_display and g = "\<lambda>r. hm_keys (r_displays r)"])

lemma fold_sync_dom [simp]: "fst ` set (r_displays (fold sync_display dids r)) = fst ` set (r_displays r)"
  using fold_sync_keeps(4) [of dids r] by (metis set_map)

lemma drop_renderer_keeps [simp]:
  "r_table (snd (drop_renderer rid r)) = snd (remove_renderer rid (r_table r))"
  "r_displays (snd (drop_renderer rid r)) = r_displays r" "r_mgr (snd (drop_renderer rid r)) = r_mgr r"
  "r_sent (snd (drop_renderer rid r)) = r_sent r" "r_acks (snd (drop_renderer rid r)) = r_acks r"
  by (simp_all add: drop_renderer_def abort_timer_def Let_def split: prod.split option.split)

lemma unregister_renderer_keeps [simp]:
  "r_table (unregister_renderer rid r) = snd (remove_renderer rid (r_table r))"
  "hm_keys (r_displays (unregister_renderer rid r)) = hm_keys (r_displays r)"
  "mg_live (r_mgr (unregister_renderer rid r)) = mg_live (r_mgr r)"
  using drop_renderer_keeps [of rid r]
  by (auto simp: unregister_renderer_def Let_def simp del: drop_renderer_keeps split: prod.split)

lemma unregister_renderer_handles [simp]: "mg_handles (r_mgr (unregister_renderer rid r)) = mg_handles (r_mgr r)"
  using drop_renderer_keeps [of rid r]
  by (auto simp: unregister_renderer_def Let_def simp del: drop_renderer_keeps split: prod.split)

lemma kill_renderer_keeps [simp]:
  "r_table (kill_renderer rid r) = r_table r" "r_displays (kill_renderer rid r) = r_displays r"
  "r_acks (kill_renderer rid r) = r_acks r" "r_sent (kill_renderer rid r) = r_sent r"
  by (simp_all add: kill_renderer_def)

lemma abort_timer_keeps [simp]:
  "r_table (abort_timer rid r) = r_table r" "r_displays (abort_timer rid r) = r_displays r"
  "r_mgr (abort_timer rid r) = r_mgr r" "r_acks (abort_timer rid r) = r_acks r" "r_sent (abort_timer rid r) = r_sent r"
  by (simp_all add: abort_timer_def split: option.split)

text \<open>The renderers of the manager's map have handles.\<close>

definition live_ok :: "router \<Rightarrow> bool" where
  "live_ok r \<longleftrightarrow> (\<forall>rid \<in> set (mg_live (r_mgr r)). hm_get (mg_handles (r_mgr r)) rid \<noteq> None)"

lemma kill_renderer_live:
  assumes "live_ok r"
  shows "mg_live (r_mgr (kill_renderer rid r)) = removeAll rid (mg_live (r_mgr r))" "live_ok (kill_renderer rid r)"
proof -
  have *: "mgr_get (r_mgr r) rid = None \<longleftrightarrow> rid \<notin> set (mg_live (r_mgr r))"
    using assms by (auto simp: live_ok_def mgr_get_def)
  show "mg_live (r_mgr (kill_renderer rid r)) = removeAll rid (mg_live (r_mgr r))"
    using * by (auto simp: kill_renderer_def mgr_kill_def update_handle_def split: option.split)
  show "live_ok (kill_renderer rid r)"
    using assms by (auto simp: kill_renderer_def mgr_kill_def update_handle_def live_ok_def split: option.split)
qed

section \<open>Relinking\<close>

text \<open>\<open>relink_one\<close> keeps the table's contract, so the loop lemma of the contract applies to it.\<close>

lemma relink_one_ok:
  assumes ok: "table_ok t" and room: "next_link_id t \<noteq> - 1"
  shows "table_ok (relink_one rid did t)"
    and "links_of (relink_one rid did t) =
           (\<lambda>k. case links_of t k of None \<Rightarrow> None | Some l \<Rightarrow> if lk_display l = did then None else Some l)
             (next_link_id t + 1 \<mapsto> new_link (next_link_id t + 1) rid did)"
    and "next_link_id (relink_one rid did t) = next_link_id t + 1"
    and "rt_renderers (relink_one rid did t) = rt_renderers t"
    and "route (relink_one rid did t) = (route t)(did \<mapsto> rid)"
proof -
  define ids where "ids = map lk_id (links_for_display t did)"
  define t1 where "t1 = fold (\<lambda>old u. snd (remove_link old u)) ids t"
  have f: "fold (\<lambda>l u. snd (remove_link (lk_id l) u)) ls u = fold (\<lambda>old u. snd (remove_link old u)) (map lk_id ls) u"
    for ls and u :: "'a routing_table"
    by (induction ls arbitrary: u) auto
  have eq: "relink_one rid did t = snd (add_link rid did t1)"
    by (simp add: relink_one_def f t1_def ids_def)
  note t1 = fold_remove_link_ok [OF ok, of ids, folded t1_def]
  have ids: "k \<in> set ids \<longleftrightarrow> (\<exists>l. links_of t k = Some l \<and> lk_display l = did)" for k
    using table_okD(3) [OF ok] by (auto simp: ids_def set_links_for_display [OF ok])
  have l1: "links_of t1 = (\<lambda>k. case links_of t k of None \<Rightarrow> None | Some l \<Rightarrow> if lk_display l = did then None else Some l)"
    by (auto simp: t1(2) ids fun_eq_iff split: option.split)
  have room1: "next_link_id t1 \<noteq> - 1" using room by (simp add: t1(3))
  note a = add_link_ok [OF t1(1) room1, of rid did]
  show "table_ok (relink_one rid did t)" "next_link_id (relink_one rid did t) = next_link_id t + 1"
    "rt_renderers (relink_one rid did t) = rt_renderers t"
    by (simp_all add: eq a(4,5,6) t1(3,4))
  show "links_of (relink_one rid did t) =
           (\<lambda>k. case links_of t k of None \<Rightarrow> None | Some l \<Rightarrow> if lk_display l = did then None else Some l)
             (next_link_id t + 1 \<mapsto> new_link (next_link_id t + 1) rid did)"
    unfolding eq a(3) t1(3) by (auto simp: l1 fun_eq_iff split: option.split)
  have "route t1 = (route t)(did := None)"
    by (rule route_eqI) (auto simp: route_Some_iff [OF t1(1)] route_Some_iff [OF ok] l1 split: option.splits if_splits)
  then show "route (relink_one rid did t) = (route t)(did \<mapsto> rid)"
    by (simp add: eq route_add_link [OF t1(1) room1])
qed

lemma link_room_relink:
  assumes ok: "table_ok t" and room: "0 < link_room t"
  shows "link_room (relink_one rid did t) = link_room t - 1"
proof -
  have n: "next_link_id t \<noteq> - 1" using room by (simp add: link_room_pos)
  then have "next_link_id (relink_one rid did t) = next_link_id (snd (add_link rid did t))"
    by (simp add: relink_one_ok(3) [OF ok n] add_link_ok(5) [OF ok n])
  then show ?thesis using link_room_add [OF ok room] by (simp add: link_room_def)
qed

interpretation relink: route_table table_ok link_room route relink_one
  "\<lambda>r t. snd (remove_renderer r t)" "\<lambda>d t. snd (remove_display d t)"
  by unfold_locales
    (auto simp: link_room_pos link_room_relink relink_one_ok rt.ok_drop_renderer rt.ok_drop_display
      rt.route_drop_renderer rt.route_drop_display)

text \<open>Links are enabled and lead to registered displays.\<close>

definition links_lead :: "(display_id \<Rightarrow> bool) \<Rightarrow> 'h routing_table \<Rightarrow> bool" where
  "links_lead D t \<longleftrightarrow> (\<forall>k l. links_of t k = Some l \<longrightarrow> lk_enabled l \<and> D (lk_display l))"

definition links_ok :: "router \<Rightarrow> bool" where
  "links_ok r \<longleftrightarrow> table_ok (r_table r) \<and> links_lead (\<lambda>d. hm_get (r_displays r) d \<noteq> None) (r_table r)"

lemma links_ok_table: "links_ok r \<Longrightarrow> table_ok (r_table r)"
  by (simp add: links_ok_def)

lemma links_ok_enabled:
  assumes "links_ok r"
  shows "enabled_links r did = links_for_display (r_table r) did" "active_links r rid = links_for_renderer (r_table r) rid"
  using assms
  by (auto simp: links_ok_def links_lead_def enabled_links_def active_links_def filter_id_conv set_links_for_display set_links_for_renderer)

lemma no_links_iff:
  assumes "table_ok t"
  shows "links_for_renderer t rid = [] \<longleftrightarrow> (\<forall>d. route t d \<noteq> Some rid)"
proof -
  have "links_for_renderer t rid = [] \<longleftrightarrow> \<not> (\<exists>l. l \<in> set (links_for_renderer t rid))" by (auto simp: neq_Nil_conv)
  also have "\<dots> \<longleftrightarrow> (\<forall>d. route t d \<noteq> Some rid)"
    using table_okD(3) [OF assms] by (auto simp: set_links_for_renderer [OF assms] route_Some_iff [OF assms])
  finally show ?thesis .
qed

lemma links_ok_route:
  assumes "links_ok r" and "hm_get (r_displays r) d = None"
  shows "route (r_table r) d = None"
proof (rule ccontr)
  assume "route (r_table r) d \<noteq> None"
  then obtain x where "route (r_table r) d = Some x" by blast
  then obtain k l where "links_of (r_table r) k = Some l" "lk_display l = d"
    using route_Some_iff [OF links_ok_table [OF assms(1)]] by blast
  then show False using assms by (fastforce simp: links_ok_def links_lead_def)
qed

lemma set_orphan_candidates:
  assumes "links_ok r"
  shows "set (orphan_candidates keep r) =
    {x \<in> set (renderer_ids (r_table r)). Some x \<noteq> keep \<and> (\<forall>d. route (r_table r) d \<noteq> Some x)}"
proof -
  have "(\<forall>l \<in> set (links_for_renderer (r_table r) x). \<not> lk_enabled l) \<longleftrightarrow> links_for_renderer (r_table r) x = []" for x
    using links_ok_enabled(2) [OF assms, of x]
    by (auto simp: active_links_def)
  then show ?thesis
    by (auto simp: orphan_candidates_def no_links_iff [OF links_ok_table [OF assms]])
qed

text \<open>Killing renderers nothing is routed to.\<close>

lemma renderer_ids_remove: "table_ok t \<Longrightarrow> set (renderer_ids (snd (remove_renderer x t))) = set (renderer_ids t) - {x}"
  using remove_renderer_ok(3) [of t x] by (cases "remove_renderer x t") (simp add: renderer_ids_def)

lemma kill_orphan_now_table [simp]: "r_table (kill_orphan_now x r) = snd (remove_renderer x (r_table r))"
  by (simp add: kill_orphan_now_def)

lemma kill_orphan_now_live:
  assumes "live_ok r"
  shows "mg_live (r_mgr (kill_orphan_now x r)) = removeAll x (mg_live (r_mgr r))" "live_ok (kill_orphan_now x r)"
proof -
  have "live_ok (unregister_renderer x r)" using assms by (simp add: live_ok_def)
  then show "mg_live (r_mgr (kill_orphan_now x r)) = removeAll x (mg_live (r_mgr r))" "live_ok (kill_orphan_now x r)"
    by (simp_all add: kill_orphan_now_def kill_renderer_live)
qed

lemma fold_kill_orphans:
  "table_ok (r_table r) \<Longrightarrow> live_ok r \<Longrightarrow> \<forall>d. route (r_table r) d \<notin> Some ` set xs \<Longrightarrow>
    set (renderer_ids (r_table (fold kill_orphan_now xs r))) = set (renderer_ids (r_table r)) - set xs \<and>
    route (r_table (fold kill_orphan_now xs r)) = route (r_table r) \<and>
    set (mg_live (r_mgr (fold kill_orphan_now xs r))) = set (mg_live (r_mgr r)) - set xs"
proof (induction xs arbitrary: r)
  case (Cons x xs)
  let ?r = "kill_orphan_now x r"
  have route: "route (r_table ?r) = route (r_table r)"
    using Cons.prems(3) by (auto simp: rt.route_drop_renderer [OF Cons.prems(1)] fun_eq_iff)
  have ok: "table_ok (r_table ?r)" by (simp add: rt.ok_drop_renderer [OF Cons.prems(1)])
  have live: "live_ok ?r" by (rule kill_orphan_now_live(2) [OF Cons.prems(2)])
  have no: "\<forall>d. route (r_table ?r) d \<notin> Some ` set xs" unfolding route using Cons.prems(3) by simp
  have "set (renderer_ids (r_table ?r)) = set (renderer_ids (r_table r)) - {x}"
    by (simp add: renderer_ids_remove [OF Cons.prems(1)])
  moreover have "set (mg_live (r_mgr ?r)) = set (mg_live (r_mgr r)) - {x}"
    by (auto simp: kill_orphan_now_live(1) [OF Cons.prems(2)])
  ultimately show ?case using Cons.IH [OF ok live no] route by auto
qed simp

lemma links_lead_relink:
  assumes "table_ok t" "next_link_id t \<noteq> - 1" "links_lead D t" "D did"
  shows "links_lead D (relink_one rid did t)"
  using assms(3,4)
  by (auto simp: links_lead_def relink_one_ok(2) [OF assms(1,2)] new_link_def split: option.splits if_splits)

lemma fold_relink_links:
  "table_ok t \<Longrightarrow> length ds \<le> link_room t \<Longrightarrow> links_lead D t \<Longrightarrow> \<forall>d \<in> set ds. D d \<Longrightarrow>
    links_lead D (fold (relink_one rid) ds t) \<and> rt_renderers (fold (relink_one rid) ds t) = rt_renderers t"
proof (induction ds arbitrary: t)
  case (Cons d ds)
  have room: "0 < link_room t" using Cons.prems(2) by simp
  then have n: "next_link_id t \<noteq> - 1" unfolding link_room_pos .
  note one = relink_one_ok [OF Cons.prems(1) n, of rid d]
  have "length ds \<le> link_room (relink_one rid d t)"
    using Cons.prems(2) by (simp add: link_room_relink [OF Cons.prems(1) room])
  from Cons.IH [OF one(1) this links_lead_relink [OF Cons.prems(1) n Cons.prems(3)]] Cons.prems(4)
  show ?case by (simp add: one(4))
qed simp

lemma after_relink_parts:
  fixes r rid ds
  defines "r2 \<equiv> reconcile_lifecycle (fold sync_display ds r)"
  defines "r3 \<equiv> fold (\<lambda>x. if lone_without_displays r2 then schedule_orphan_grace x else kill_orphan_now x)
      (orphan_candidates (Some rid) r2) r2"
  shows "r_table (after_relink ds rid r) = r_table r3" "r_mgr (after_relink ds rid r) = r_mgr (reconcile_buffer_flags (abort_timer rid r3))"
  by (simp_all add: after_relink_def mark_orphans_def cancel_orphan_timer_def Let_def r2_def r3_def)

text \<open>
  Relinking some displays: those go to the renderer, the others keep theirs, and the renderers
  nothing is routed to any more are gone, from the table and from the manager.
\<close>

lemma after_relink_result:
  assumes "links_ok r" and "live_ok r" and "rid \<in> set (renderer_ids (r_table r))"
    and ds: "\<forall>d \<in> set ds. hm_get (r_displays r) d \<noteq> None" and room: "length ds \<le> link_room (r_table r)"
  defines "r' \<equiv> after_relink ds rid (r\<lparr>r_table := fold (relink_one rid) ds (r_table r)\<rparr>)"
    and "routes \<equiv> \<lambda>d. if d \<in> set ds then Some rid else route (r_table r) d"
  shows "route (r_table r') = routes"
    and "set (renderer_ids (r_table r')) = {x \<in> set (renderer_ids (r_table r)). x = rid \<or> (\<exists>d. routes d = Some x)}"
    and "set (mg_live (r_mgr r')) = set (mg_live (r_mgr r)) - (set (renderer_ids (r_table r)) - set (renderer_ids (r_table r')))"
proof -
  let ?t = "fold (relink_one rid) ds (r_table r)"
  let ?r2 = "reconcile_lifecycle (fold sync_display ds (r\<lparr>r_table := ?t\<rparr>))"
  have t: "table_ok ?t" "route ?t = routes"
    using relink.relink_loop [OF links_ok_table [OF assms(1)] room, of rid] by (simp_all add: routes_def)
  have "links_lead (\<lambda>d. hm_get (r_displays r) d \<noteq> None) (r_table r)" using assms(1) by (simp add: links_ok_def)
  from fold_relink_links [OF links_ok_table [OF assms(1)] room this ds, of rid]
  have fl: "links_lead (\<lambda>d. hm_get (r_displays r) d \<noteq> None) ?t" "renderer_ids ?t = renderer_ids (r_table r)"
    by (simp_all add: renderer_ids_def)
  have "(hm_get (r_displays ?r2) d \<noteq> None) = (hm_get (r_displays r) d \<noteq> None)" for d
    by (simp add: map_of_eq_None_iff)
  then have ok2: "links_ok ?r2" using fl(1) t(1) by (simp add: links_ok_def)
  have live2: "live_ok ?r2" using assms(2) by (simp add: live_ok_def)
  let ?cs = "orphan_candidates (Some rid) ?r2" and ?S = "set (renderer_ids (r_table r))"
  have cs: "set ?cs = {x \<in> ?S. x \<noteq> rid \<and> (\<forall>d. routes d \<noteq> Some x)}"
    by (auto simp: set_orphan_candidates [OF ok2] t(2) fl(2))
  have lone: "?cs = []" if "lone_without_displays ?r2"
  proof -
    have "renderer_ids (r_table r) = [rid]"
      using that assms(3) by (auto simp: lone_without_displays_def fl(2) length_Suc_conv)
    moreover have "set ?cs \<subseteq> ?S - {rid}" using cs by blast
    ultimately show ?thesis by simp
  qed
  have kills: "fold (\<lambda>x. if lone_without_displays ?r2 then schedule_orphan_grace x else kill_orphan_now x) ?cs ?r2
      = fold kill_orphan_now ?cs ?r2"
    using lone by (cases "lone_without_displays ?r2") simp_all
  have after: "r_table r' = r_table (fold kill_orphan_now ?cs ?r2)"
    "mg_live (r_mgr r') = mg_live (r_mgr (fold kill_orphan_now ?cs ?r2))"
    by (simp_all only: r'_def after_relink_parts kills reconcile_buffer_flags_keeps abort_timer_keeps)
  have "\<forall>d. route (r_table ?r2) d \<notin> Some ` set ?cs" by (auto simp: t(2) cs)
  note k = fold_kill_orphans [OF links_ok_table [OF ok2] live2 this]
  show "route (r_table r') = routes" using k by (simp add: after t(2))
  show ids: "set (renderer_ids (r_table r')) = {x \<in> ?S. x = rid \<or> (\<exists>d. routes d = Some x)}"
    using k assms(3) by (auto simp: after cs fl(2))
  show "set (mg_live (r_mgr r')) = set (mg_live (r_mgr r)) - (?S - set (renderer_ids (r_table r')))"
    unfolding ids using k by (auto simp: after cs)
qed

text \<open>
  C3: relinking everything leaves one renderer. When the new renderer is registered, every
  registered display is routed to it afterwards, no other renderer stays in the table, and the
  manager keeps no other of the table's renderers alive.
\<close>

theorem relink_all_one_renderer:
  assumes "links_ok r" and "live_ok r" and "rid \<in> set (renderer_ids (r_table r))"
    and "length (r_displays r) \<le> link_room (r_table r)"
  shows "set (renderer_ids (r_table (relink_all_displays_to rid r))) = {rid} \<and>
    route (r_table (relink_all_displays_to rid r)) =
      (\<lambda>d. if hm_get (r_displays r) d = None then None else Some rid) \<and>
    set (mg_live (r_mgr (relink_all_displays_to rid r))) =
      set (mg_live (r_mgr r)) - (set (renderer_ids (r_table r)) - {rid})"
proof -
  let ?ids = "hm_keys (r_displays r)"
  have keys: "hm_get (r_displays r) d = None \<longleftrightarrow> d \<notin> set ?ids" for d by (simp add: map_of_eq_None_iff)
  then have routes: "(\<lambda>d. if d \<in> set ?ids then Some rid else route (r_table r) d) =
      (\<lambda>d. if hm_get (r_displays r) d = None then None else Some rid)"
    using links_ok_route [OF assms(1)] by (auto simp: fun_eq_iff)
  have only: "(if d \<in> set ?ids then Some rid else route (r_table r) d) = Some x \<Longrightarrow> x = rid" for d x
    using keys links_ok_route [OF assms(1)] by (cases "d \<in> set ?ids") auto
  have "length ?ids \<le> link_room (r_table r)" "\<forall>d \<in> set ?ids. hm_get (r_displays r) d \<noteq> None"
    using assms(4) keys by auto
  note R = after_relink_result [OF assms(1-3) this(2,1), unfolded routes]
  have ids: "set (renderer_ids (r_table (relink_all_displays_to rid r))) = {rid}"
    unfolding relink_all_displays_to_def Let_def R(2) using assms(3) only by blast
  show ?thesis
    using ids R(1) R(3) by (simp add: relink_all_displays_to_def Let_def)
qed

section \<open>Unbinding the displays of a renderer that goes\<close>

definition unbound :: "display_state \<Rightarrow> display_state" where
  "unbound s = s\<lparr>ds_last_renderer := None, ds_last_gen := None\<rparr>"

text \<open>A display without a renderer to show: whether or not the call has work, this is what it does.\<close>

lemma sync_unlinked:
  assumes "bound_target r did = None"
  shows "r_sent (sync_display did r) = r_sent r @
      (case hm_get (r_displays r) did of None \<Rightarrow> [] | Some s \<Rightarrow> map (Pair did) (retire_events s))"
    and "r_acks (sync_display did r) =
      (case hm_get (r_displays r) did of None \<Rightarrow> r_acks r | Some s \<Rightarrow> retire_acks did s (r_acks r))"
    and "hm_get (r_displays (sync_display did r)) d =
      (if d = did then map_option unbound (hm_get (r_displays r) did) else hm_get (r_displays r) d)"
proof -
  have "r_sent (sync_display did r) = r_sent r @
      (case hm_get (r_displays r) did of None \<Rightarrow> [] | Some s \<Rightarrow> map (Pair did) (retire_events s)) \<and>
    r_acks (sync_display did r) =
      (case hm_get (r_displays r) did of None \<Rightarrow> r_acks r | Some s \<Rightarrow> retire_acks did s (r_acks r)) \<and>
    hm_get (r_displays (sync_display did r)) d =
      (if d = did then map_option unbound (hm_get (r_displays r) did) else hm_get (r_displays r) d)"
  proof (cases "hm_get (r_displays r) did")
    case None
    then have "\<not> sync_needed did r" by (simp add: sync_needed_def)
    with None show ?thesis by (simp add: sync_display_not_needed)
  next
    case (Some s)
    show ?thesis
    proof (cases "sync_needed did r")
      case True
      then show ?thesis using Some assms by (simp add: sync_display_None_eq unbound_def)
    next
      case False
      then have "\<not> needs_update s None" using Some assms by (simp add: sync_needed_def)
      then have "ds_last_renderer s = None" "ds_last_gen s = None"
        by (auto simp: needs_update_def split: option.splits)
      then have "retire_events s = []" "retire_acks did s (r_acks r) = r_acks r" "unbound s = s"
        by (simp_all add: retire_events_def retire_acks_def unbound_def)
      then show ?thesis using Some by (simp add: sync_display_not_needed [OF False])
    qed
  qed
  then show "r_sent (sync_display did r) = r_sent r @
      (case hm_get (r_displays r) did of None \<Rightarrow> [] | Some s \<Rightarrow> map (Pair did) (retire_events s))"
    "r_acks (sync_display did r) =
      (case hm_get (r_displays r) did of None \<Rightarrow> r_acks r | Some s \<Rightarrow> retire_acks did s (r_acks r))"
    "hm_get (r_displays (sync_display did r)) d =
      (if d = did then map_option unbound (hm_get (r_displays r) did) else hm_get (r_displays r) d)"
    by blast+
qed

text \<open>The pairs of display and pool that are bound to a renderer, among some displays.\<close>

definition bound_pairs :: "router \<Rightarrow> display_id set \<Rightarrow> renderer_id \<Rightarrow> (display_id \<times> u64) set" where
  "bound_pairs r D rid =
     {(d, g). d \<in> D \<and> (\<exists>s. hm_get (r_displays r) d = Some s \<and> ds_last_renderer s = Some rid \<and> ds_last_gen s = Some g)}"

lemma retire_acks_get:
  "hm_get (retire_acks did s acks) rid =
     map_option (\<lambda>P. P \<union> {(d, g). d = did \<and> ds_last_renderer s = Some rid \<and> ds_last_gen s = Some g}) (hm_get acks rid)"
  by (cases "ds_last_gen s"; cases "ds_last_renderer s"; cases "hm_get acks rid") (auto simp: retire_acks_def)

lemma bound_target_unlinked: "enabled_links r d = [] \<Longrightarrow> bound_target r d = None"
  by (simp add: bound_target_def)

lemma enabled_links_sync [simp]: "enabled_links (sync_display did r) = enabled_links r"
  by (simp add: enabled_links_def fun_eq_iff)

lemma fold_sync_unlinked:
  assumes "distinct ds" and "\<forall>d \<in> set ds. enabled_links r d = []"
  shows "hm_get (r_displays (fold sync_display ds r)) d =
      (if d \<in> set ds then map_option unbound (hm_get (r_displays r) d) else hm_get (r_displays r) d) \<and>
    hm_get (r_acks (fold sync_display ds r)) rid =
      map_option (\<lambda>P. P \<union> bound_pairs r (set ds) rid) (hm_get (r_acks r) rid) \<and>
    r_sent (fold sync_display ds r) = r_sent r @ concat (map (\<lambda>d.
      case hm_get (r_displays r) d of None \<Rightarrow> [] | Some s \<Rightarrow> map (Pair d) (retire_events s)) ds)"
  using assms
proof (induction ds arbitrary: r d)
  case Nil
  show ?case by (cases "hm_get (r_acks r) rid") (simp_all add: bound_pairs_def)
next
  case (Cons x xs)
  let ?r = "sync_display x r"
  have u: "bound_target r x = None" using Cons.prems by (simp add: bound_target_unlinked)
  have ih: "hm_get (r_displays (fold sync_display xs ?r)) d =
      (if d \<in> set xs then map_option unbound (hm_get (r_displays ?r) d) else hm_get (r_displays ?r) d) \<and>
    hm_get (r_acks (fold sync_display xs ?r)) rid =
      map_option (\<lambda>P. P \<union> bound_pairs ?r (set xs) rid) (hm_get (r_acks ?r) rid) \<and>
    r_sent (fold sync_display xs ?r) = r_sent ?r @ concat (map (\<lambda>d.
      case hm_get (r_displays ?r) d of None \<Rightarrow> [] | Some s \<Rightarrow> map (Pair d) (retire_events s)) xs)" for d
    using Cons.prems by (intro Cons.IH) auto
  have same: "hm_get (r_displays ?r) y = hm_get (r_displays r) y" if "y \<in> set xs" for y
    using that Cons.prems by (auto simp: sync_unlinked(3) [OF u])
  have pairs: "bound_pairs ?r (set xs) rid = bound_pairs r (set xs) rid"
    by (auto simp: bound_pairs_def same)
  have split: "bound_pairs r (insert x (set xs)) rid = bound_pairs r {x} rid \<union> bound_pairs r (set xs) rid"
    by (auto simp: bound_pairs_def)
  have "hm_get (r_acks ?r) rid = map_option (\<lambda>P. P \<union> bound_pairs r {x} rid) (hm_get (r_acks r) rid)"
    by (cases "hm_get (r_displays r) x"; cases "hm_get (r_acks r) rid")
      (auto simp: sync_unlinked(2) [OF u] retire_acks_get bound_pairs_def)
  then have acks: "hm_get (r_acks (fold sync_display (x # xs) r)) rid =
      map_option (\<lambda>P. P \<union> bound_pairs r (set (x # xs)) rid) (hm_get (r_acks r) rid)"
    using ih [of d] by (cases "hm_get (r_acks r) rid") (simp_all add: pairs split Un_assoc)
  have m: "map (\<lambda>d. case hm_get (r_displays ?r) d of None \<Rightarrow> [] | Some s \<Rightarrow> map (Pair d) (retire_events s)) xs =
      map (\<lambda>d. case hm_get (r_displays r) d of None \<Rightarrow> [] | Some s \<Rightarrow> map (Pair d) (retire_events s)) xs"
    by (rule map_cong [OF refl]) (simp add: same)
  have sent: "r_sent (fold sync_display (x # xs) r) = r_sent r @ concat (map (\<lambda>d.
      case hm_get (r_displays r) d of None \<Rightarrow> [] | Some s \<Rightarrow> map (Pair d) (retire_events s)) (x # xs))"
    using ih [of d] unfolding m by (simp add: sync_unlinked(1) [OF u])
  have "hm_get (r_displays (fold sync_display (x # xs) r)) d =
      (if d \<in> set (x # xs) then map_option unbound (hm_get (r_displays r) d) else hm_get (r_displays r) d)"
    using ih [of d] Cons.prems(1) by (auto simp: sync_unlinked(3) [OF u])
  with acks sent show ?case by blast
qed

lemma enabled_links_drop:
  assumes "table_ok (r_table r)" and "route (r_table r) d = Some rid"
  shows "enabled_links (snd (drop_renderer rid r)) d = []"
proof -
  let ?t = "snd (remove_renderer rid (r_table r))"
  have ok: "table_ok ?t" by (rule rt.ok_drop_renderer [OF assms(1)])
  have "route ?t d = None" using assms by (simp add: rt.route_drop_renderer)
  then have "links_for_display ?t d = []" by (simp add: route_def split: list.splits)
  then show ?thesis by (simp add: enabled_links_def)
qed

lemma distinct_map_map_filter:
  assumes "distinct xs"
    and "\<And>x y a b. x \<in> set xs \<Longrightarrow> y \<in> set xs \<Longrightarrow> f x = Some a \<Longrightarrow> f y = Some b \<Longrightarrow> g a = g b \<Longrightarrow> x = y"
  shows "distinct (map g (List.map_filter f xs))"
  using assms
proof (induction xs)
  case (Cons x xs)
  have "distinct (map g (List.map_filter f xs))" using Cons by simp
  moreover have "g a \<notin> g ` set (List.map_filter f xs)" if a: "f x = Some a" for a
  proof
    assume "g a \<in> g ` set (List.map_filter f xs)"
    then obtain y b where "y \<in> set xs" "f y = Some b" "g a = g b" by (auto simp: set_map_filter)
    then have "x = y" using Cons.prems(2) a by (meson list.set_intros)
    with \<open>y \<in> set xs\<close> Cons.prems(1) show False by simp
  qed
  ultimately show ?case by (cases "f x") simp_all
qed simp

text \<open>Links with the same display have the same id, since a display has one link at most.\<close>

lemma same_display_same_link:
  assumes "table_ok t" "links_of t x = Some a" "links_of t y = Some b" "lk_display a = lk_display b"
  shows "x = y"
proof -
  have "x \<in> set (hm_list (by_display t) (lk_display a))" "y \<in> set (hm_list (by_display t) (lk_display a))"
    using assms(2-4) table_okD(5) [OF assms(1)] by (auto simp: index_ok_def)
  with table_okD(7) [OF assms(1), of "lk_display a"] show ?thesis
    by (cases "hm_list (by_display t) (lk_display a)") auto
qed

lemma distinct_links_displays:
  assumes "table_ok t"
  shows "distinct (map lk_display (links_for_renderer t rid))"
  unfolding links_for_renderer_def
  using table_okD(6) [OF assms] same_display_same_link [OF assms]
  by (intro distinct_map_map_filter) (auto simp: index_ok_def)

text \<open>The displays a dropped renderer leaves behind are those routed to it, each once.\<close>

lemma fst_drop_renderer: "fst (drop_renderer rid r) = map snd (fst (remove_renderer rid (r_table r)))"
  by (cases "remove_renderer rid (r_table r)") (simp add: drop_renderer_def Let_def)

lemma drop_renderer_affected:
  assumes "table_ok (r_table r)"
  shows "set (fst (drop_renderer rid r)) = {d. route (r_table r) d = Some rid}" "distinct (fst (drop_renderer rid r))"
proof -
  let ?t = "r_table r"
  obtain out t where e: "remove_renderer rid ?t = (out, t)" by force
  show "set (fst (drop_renderer rid r)) = {d. route ?t d = Some rid}"
    by (force simp: fst_drop_renderer e remove_renderer_ok(4) [OF assms e] route_Some_iff [OF assms] image_iff)
  let ?lids = "hm_list (by_renderer ?t) rid"
  have idx: "distinct ?lids" using table_okD(6) [OF assms] by (simp add: index_ok_def)
  have "out = List.map_filter (\<lambda>k. map_option (\<lambda>l. (k, lk_display l)) (links_of ?t k)) ?lids"
    using remove_renderer_links_ok [of "?t\<lparr>rt_renderers := hm_remove rid (rt_renderers ?t), by_renderer := hm_remove rid (by_renderer ?t)\<rparr>" ?lids out t]
      e table_okD(1) [OF assms] idx by (simp add: remove_renderer_def Let_def)
  moreover have "distinct (map snd (List.map_filter (\<lambda>k. map_option (\<lambda>l. (k, lk_display l)) (links_of ?t k)) ?lids))"
    using idx same_display_same_link [OF assms] by (intro distinct_map_map_filter) auto
  ultimately show "distinct (fst (drop_renderer rid r))" by (simp add: fst_drop_renderer e)
qed

lemma unregister_result:
  assumes "table_ok (r_table r)" and "hm_get (r_acks r) rid = Some {}"
  shows "hm_get (r_acks (unregister_renderer rid r)) rid =
      Some {(d, g). route (r_table r) d = Some rid \<and>
        (\<exists>s. hm_get (r_displays r) d = Some s \<and> ds_last_renderer s = Some rid \<and> ds_last_gen s = Some g)} \<and>
    (\<exists>sent. r_sent (unregister_renderer rid r) = r_sent r @ sent \<and>
      set sent = {(d, Unbind g) |d g. route (r_table r) d = Some rid \<and>
        (\<exists>s. hm_get (r_displays r) d = Some s \<and> ds_last_gen s = Some g)}) \<and>
    hm_get (r_displays (unregister_renderer rid r)) d =
      (if route (r_table r) d = Some rid then map_option unbound (hm_get (r_displays r) d) else hm_get (r_displays r) d)"
proof -
  let ?ds = "fst (drop_renderer rid r)" and ?r1 = "emit (RendererRemoved rid) (snd (drop_renderer rid r))"
  note aff = drop_renderer_affected [OF assms(1), of rid]
  have "enabled_links ?r1 d = enabled_links (snd (drop_renderer rid r)) d" for d
    by (simp add: enabled_links_def)
  then have no: "\<forall>d \<in> set ?ds. enabled_links ?r1 d = []"
    using enabled_links_drop [OF assms(1)] by (simp add: aff(1))
  have same: "r_displays (unregister_renderer rid r) = r_displays (fold sync_display ?ds ?r1)"
    "r_acks (unregister_renderer rid r) = r_acks (fold sync_display ?ds ?r1)"
    "r_sent (unregister_renderer rid r) = r_sent (fold sync_display ?ds ?r1)"
    by (simp_all add: unregister_renderer_def Let_def case_prod_beta)
  note f = fold_sync_unlinked [OF aff(2) no]
  let ?sent = "concat (map (\<lambda>d. case hm_get (r_displays r) d of None \<Rightarrow> [] | Some s \<Rightarrow> map (Pair d) (retire_events s)) ?ds)"
  have "r_sent (unregister_renderer rid r) = r_sent r @ ?sent" using f [of d rid] by (simp add: same)
  moreover have one: "set (case hm_get (r_displays r) d of None \<Rightarrow> [] | Some s \<Rightarrow> map (Pair d) (retire_events s)) =
      {(d, Unbind g) |g. \<exists>s. hm_get (r_displays r) d = Some s \<and> ds_last_gen s = Some g}" for d
    by (cases "hm_get (r_displays r) d") (auto simp: retire_events_def split: option.split)
  moreover have "set ?sent = {(d, Unbind g) |d g. route (r_table r) d = Some rid \<and>
        (\<exists>s. hm_get (r_displays r) d = Some s \<and> ds_last_gen s = Some g)}"
    by (auto simp: aff(1) one)
  moreover have "hm_get (r_acks (unregister_renderer rid r)) rid =
      Some {(d, g). route (r_table r) d = Some rid \<and>
        (\<exists>s. hm_get (r_displays r) d = Some s \<and> ds_last_renderer s = Some rid \<and> ds_last_gen s = Some g)}"
    using f [of d rid] assms(2) by (simp add: same bound_pairs_def aff(1))
  moreover have "hm_get (r_displays (unregister_renderer rid r)) d =
      (if route (r_table r) d = Some rid then map_option unbound (hm_get (r_displays r) d) else hm_get (r_displays r) d)"
    using f [of d rid] by (simp add: same aff(1))
  ultimately show ?thesis by blast
qed

text \<open>
  C15: when a renderer is unregistered, every display routed to it is told to unbind the pool it
  had bound, and is left unbound; with the acknowledgements of that renderer tracked, exactly
  the pools it provided are recorded as pending.
\<close>

theorem unregister_unbinds:
  assumes "table_ok (r_table r)" and "hm_get (r_acks r) rid = Some {}"
  shows "hm_get (r_acks (unregister_renderer rid r)) rid =
      Some {(d, g). route (r_table r) d = Some rid \<and>
        (\<exists>s. hm_get (r_displays r) d = Some s \<and> ds_last_renderer s = Some rid \<and> ds_last_gen s = Some g)} \<and>
    (\<exists>sent. r_sent (unregister_renderer rid r) = r_sent r @ sent \<and>
      set sent = {(d, Unbind g) |d g. route (r_table r) d = Some rid \<and>
        (\<exists>s. hm_get (r_displays r) d = Some s \<and> ds_last_gen s = Some g)}) \<and>
    hm_get (r_displays (unregister_renderer rid r)) d =
      (if route (r_table r) d = Some rid then map_option unbound (hm_get (r_displays r) d) else hm_get (r_displays r) d)"
  by (rule unregister_result [OF assms])

text \<open>What the wait does when only its own acknowledgements and the deadline come.\<close>

definition acks_before_deadline :: "wait_input list \<Rightarrow> (display_id \<times> u64) set" where
  "acks_before_deadline xs = {a. AckArrives a \<in> set (takeWhile (\<lambda>x. x \<noteq> DeadlinePasses) xs)}"

lemma acks_before_simps [simp]:
  "acks_before_deadline [] = {}" "acks_before_deadline (DeadlinePasses # xs) = {}"
  "acks_before_deadline (AckArrives a # xs) = insert a (acks_before_deadline xs)"
  by (auto simp: acks_before_deadline_def)

lemma await_result:
  assumes "hm_get (r_acks r) rid = Some pending"
  shows "map_option fst (await_unbind_acks_for rid xs r) =
      (if pending \<subseteq> acks_before_deadline xs then Some True else if DeadlinePasses \<in> set xs then Some False else None) \<and>
    (\<forall>timely r'. await_unbind_acks_for rid xs r = Some (timely, r') \<longrightarrow> hm_get (r_acks r') rid = None)"
  using assms
proof (induction xs arbitrary: r pending)
  case Nil
  then show ?case by (auto simp: unbinds_acked_def finish_unbind_acks_def)
next
  case (Cons x xs)
  show ?case
  proof (cases "pending = {}")
    case True
    then show ?thesis using Cons.prems by (simp add: unbinds_acked_def finish_unbind_acks_def)
  next
    case False
    then have still: "\<not> unbinds_acked r rid" using Cons.prems by (simp add: unbinds_acked_def)
    show ?thesis
    proof (cases x)
      case (AckArrives a)
      have "hm_get (r_acks (record_unbind_done a r)) rid = Some (pending - {a})"
        using Cons.prems by (simp add: record_unbind_done_def)
      from Cons.IH [OF this] show ?thesis using still by (simp add: AckArrives Diff_subset_conv)
    next
      case DeadlinePasses
      then show ?thesis using still False by (simp add: finish_unbind_acks_def)
    qed
  qed
qed

text \<open>
  C14: the wait of an orderly stop for its acknowledgements, when nothing but they and the deadline
  come in between: it ends in time exactly when every pool the renderer had on display is
  acknowledged before the deadline, times out exactly when the deadline comes first, and goes on
  otherwise; and however it ends, nothing is tracked for the renderer any more.
\<close>

theorem orderly_stop_waits_for_acks:
  fixes r :: router
  assumes "table_ok (r_table r)" and "hm_get (r_acks r) rid = None"
  defines "on_display \<equiv> {(d, g). route (r_table r) d = Some rid \<and>
      (\<exists>s. hm_get (r_displays r) d = Some s \<and> ds_last_renderer s = Some rid \<and> ds_last_gen s = Some g)}"
    and "waiting \<equiv> unregister_renderer rid (begin_unbind_ack_tracking rid r)"
  shows "map_option fst (await_unbind_acks_for rid xs waiting) =
      (if on_display \<subseteq> acks_before_deadline xs then Some True else if DeadlinePasses \<in> set xs then Some False else None) \<and>
    (\<forall>timely r'. await_unbind_acks_for rid xs waiting = Some (timely, r') \<longrightarrow> hm_get (r_acks r') rid = None)"
proof -
  let ?r = "r\<lparr>r_acks := hm_insert rid {} (r_acks r)\<rparr>"
  have "begin_unbind_ack_tracking rid r = ?r" using assms(2) by (simp add: begin_unbind_ack_tracking_def)
  with unregister_result [of ?r rid] assms(1) have "hm_get (r_acks waiting) rid = Some on_display"
    by (simp add: waiting_def on_display_def)
  then show ?thesis by (rule await_result)
qed

section \<open>Frames\<close>

lemma fold_send: "fold (\<lambda>did. send did (f did)) ds r = r\<lparr>r_sent := r_sent r @ map (\<lambda>did. (did, f did)) ds\<rparr>"
  by (induction ds arbitrary: r) (simp_all add: send_def)

lemma active_displays:
  assumes "links_ok r"
  shows "d \<in> lk_display ` set (active_links r rid) \<longleftrightarrow> route (r_table r) d = Some rid"
proof -
  note ok = links_ok_table [OF assms]
  show ?thesis
    using table_okD(3) [OF ok]
    by (force simp: links_ok_enabled(2) [OF assms] set_links_for_renderer [OF ok] route_Some_iff [OF ok] image_iff)
qed

lemma set_frame_recipients:
  assumes "links_ok r"
  shows "d \<in> set (frame_recipients r rid gen) \<longleftrightarrow> route (r_table r) d = Some rid \<and>
    (\<exists>s. hm_get (r_displays r) d = Some s \<and> ds_last_renderer s = Some rid \<and> ds_last_gen s = Some gen)"
  using active_displays [OF assms] by (auto simp: frame_recipients_def split: option.splits)

lemma distinct_frame_recipients: "links_ok r \<Longrightarrow> distinct (frame_recipients r rid gen)"
  using distinct_links_displays [OF links_ok_table]
  by (simp add: frame_recipients_def links_ok_enabled(2))

lemma of_nat_u32_0: "n < 2 ^ 32 \<Longrightarrow> (of_nat n :: u32) = 0 \<longleftrightarrow> n = 0"
  by (auto simp: word_of_nat_eq_0_iff dest: nat_dvd_not_less)

text \<open>
  C8: a frame goes to exactly the displays routed to its renderer that have its pool bound, once
  to each, and every copy carries the number of copies sent; when there is none, the release
  point is recorded for the renderer's reaper instead, so the producer is not left waiting.
\<close>

theorem frame_fan_out:
  assumes "links_ok r" and "table_handle r rid = Some h" and "rh_bind h = Some b"
    and "length (frame_recipients r rid (bs_generation b)) < 2 ^ 32"
  shows "\<exists>ds. distinct ds \<and>
    (\<forall>d. d \<in> set ds \<longleftrightarrow> route (r_table r) d = Some rid \<and>
      (\<exists>s. hm_get (r_displays r) d = Some s \<and> ds_last_renderer s = Some rid \<and> ds_last_gen s = Some (bs_generation b))) \<and>
    r_sent (on_renderer_frame rid index seq point r) =
      r_sent r @ map (\<lambda>d. (d, Frame rid (bs_generation b) index seq point (of_nat (length ds)))) ds \<and>
    r_records (on_renderer_frame rid index seq point r) =
      r_records r @ (if ds = [] \<and> rh_has_reaper h then [(rid, point)] else [])"
proof -
  let ?ds = "frame_recipients r rid (bs_generation b)"
  have "on_renderer_frame rid index seq point r =
      (if ?ds = [] then (if rh_has_reaper h then r\<lparr>r_records := r_records r @ [(rid, point)]\<rparr> else r)
       else r\<lparr>r_sent := r_sent r @ map (\<lambda>d. (d, Frame rid (bs_generation b) index seq point (of_nat (length ?ds)))) ?ds\<rparr>)"
    using assms(2-4) by (simp add: on_renderer_frame_def Let_def of_nat_u32_0 fold_send)
  then show ?thesis
    using set_frame_recipients [OF assms(1)] distinct_frame_recipients [OF assms(1)]
    by (intro exI [of _ ?ds]) auto
qed

end
