(* ===== verification/Router_Runs.thy ===== *)
theory Router_Runs
  imports Router_Sync
begin

text \<open>
  Executions of the router. A step is one critical section of the router's lock, or one effect
  outside it (a message to a renderer, the reader thread of a renderer, a task that wakes up),
  in any order: the methods of all tasks run interleaved. The invariant of the reachable states
  gives the properties at the end; the methods, run without interruption, are sequences of steps.
\<close>

section \<open>Steps\<close>

text \<open>
  A critical section that decides to schedule a resume, with the spawn of the resume task that
  follows it: the spawned task does nothing to the router's state before it has slept.
\<close>

definition window_step :: "display_id \<Rightarrow> u32 \<Rightarrow> router \<Rightarrow> router" where
  "window_step did flags r =
     (let (act, r1) = window_state_section did flags r in
      case act of
        ScheduleResume gen _ \<Rightarrow> r1\<lparr>r_resume := insert (did, gen) (r_resume r1)\<rparr>
      | _ \<Rightarrow> r1)"

definition session_step :: "bool option \<Rightarrow> bool option \<Rightarrow> router \<Rightarrow> router" where
  "session_step locked inactive r =
     (let (act, r1) = session_section locked inactive r in
      case act of
        ScheduleResume gen _ \<Rightarrow> r1\<lparr>r_session_resume := insert gen (r_session_resume r1)\<rparr>
      | _ \<Rightarrow> r1)"

inductive router_step :: "router \<Rightarrow> router \<Rightarrow> bool" where
  reader: "hm_get (mg_handles (r_mgr r)) rid = Some h \<Longrightarrow> reader_step ev fds h = Some h' \<Longrightarrow>
    router_step r (r\<lparr>r_mgr := update_handle rid (\<lambda>_. h') (r_mgr r)\<rparr>)"
| socket: "router_step r (r\<lparr>r_mgr := update_handle rid (\<lambda>h. h\<lparr>rh_sock := e\<rparr>) (r_mgr r)\<rparr>)"
| reaped: "router_step r (r\<lparr>r_mgr := update_handle rid (\<lambda>h. h\<lparr>rh_child := False\<rparr>) (r_mgr r)\<rparr>)"
| dead: "router_step r (r\<lparr>r_mgr := mark_dead rid (r_mgr r)\<rparr>)"
| spawn: "hm_get (mg_handles (r_mgr r)) (rh_id h) = None \<Longrightarrow>
    router_step r (r\<lparr>r_mgr := insert_handle h (r_mgr r)\<rparr>)"
| evict: "router_step r (r\<lparr>r_mgr := (r_mgr r)\<lparr>mg_live := removeAll rid (mg_live (r_mgr r))\<rparr>\<rparr>)"
| kill: "router_step r (kill_renderer rid r)"
| blacklist: "router_step r (r\<lparr>r_mgr := update_handle rid (\<lambda>h. snd (blacklist_format fourcc modifier h)) (r_mgr r)\<rparr>)"
| control: "router_step r (control a r)"
| dispatch: "router_step r (dispatch p r)"
| settings: "router_step r (r\<lparr>r_settings := st\<rparr>)"
| override: "router_step r (store_override rid layout r)"
| emit: "router_step r (emit ev r)"
| register: "hm_get (mg_handles (r_mgr r)) rid \<noteq> None \<Longrightarrow>
    router_step r (r\<lparr>r_table := add_renderer rid rid (r_table r), r_tasks := insert rid (r_tasks r)\<rparr>)"
| drop: "router_step r (snd (drop_renderer rid r))"
| diff: "router_step r (snd (lifecycle_diff r))"
| sync: "router_step r (sync_display did r)"
| resync: "router_step r (resync_display_set_config did r)"
| frame: "router_step r (on_renderer_frame rid index seq point r)"
| geometry: "router_step r (snd (snd (geometry_section lid src dst transform clear z r)))"
| send_config: "router_step r (send_config dc r)"
| recolor: "router_step r (snd (recolor_step c lid (ds, r)))"
| relink: "length dids \<le> link_room (r_table r) \<Longrightarrow> router_step r (snd (relink_section dids rid r))"
| arrive: "r_next_display r \<noteq> - 1 \<Longrightarrow> 0 < link_room (r_table r) \<Longrightarrow>
    router_step r (snd (snd (add_display reg r)))"
| leave: "router_step r (drop_display did r)"
| caps: "router_step r (modify_display did (\<lambda>s. s\<lparr>ds_caps := c\<rparr>) r)"
| size: "router_step r (modify_display did (\<lambda>s. s\<lparr>ds_info := (ds_info s)\<lparr>di_width := w, di_height := h\<rparr>\<rparr>) r)"
| window: "router_step r (window_step did flags r)"
| resume: "(did, gen) \<in> r_resume r \<Longrightarrow>
    router_step r (snd (resume_section did gen (r\<lparr>r_resume := r_resume r - {(did, gen)}\<rparr>)))"
| session: "router_step r (session_step locked inactive r)"
| session_resume: "gen \<in> r_session_resume r \<Longrightarrow>
    router_step r (r\<lparr>r_session_resume := r_session_resume r - {gen}\<rparr>)"
| manual: "router_step r (r\<lparr>r_manual := p\<rparr>)"
| begin_acks: "router_step r (begin_unbind_ack_tracking rid r)"
| ack: "router_step r (record_unbind_done a r)"
| finish_acks: "router_step r (finish_unbind_acks rid r)"
| orphan: "router_step r (schedule_orphan_grace rid r)"
| cancel: "router_step r (cancel_orphan_timer rid r)"
| reap: "(t, rid) \<in> r_sleeping r \<Longrightarrow>
    router_step r (snd (orphan_check rid (r\<lparr>r_sleeping := r_sleeping r - {(t, rid)}\<rparr>)))"

inductive router_reachable :: "manager \<Rightarrow> router \<Rightarrow> bool" for m where
  init: "router_reachable m (router_new m)"
| step: "router_reachable m r \<Longrightarrow> router_step r r' \<Longrightarrow> router_reachable m r'"

section \<open>What each section changes\<close>

lemma fields_drop [simp]:
  "r_next_display (snd (drop_renderer rid r)) = r_next_display r" "r_resume (snd (drop_renderer rid r)) = r_resume r"
  "r_next_timer (snd (drop_renderer rid r)) = r_next_timer r"
  "r_paused (snd (drop_renderer rid r)) = r_paused r - {rid}"
  "r_orphan_timers (snd (drop_renderer rid r)) = r_orphan_timers (abort_timer rid r)"
  "r_sleeping (snd (drop_renderer rid r)) = r_sleeping (abort_timer rid r)"
  by (simp_all add: drop_renderer_def abort_timer_def Let_def split: prod.split option.split)

lemma fields_abort [simp]:
  "r_next_display (abort_timer rid r) = r_next_display r" "r_resume (abort_timer rid r) = r_resume r"
  "r_next_timer (abort_timer rid r) = r_next_timer r" "r_paused (abort_timer rid r) = r_paused r"
  by (simp_all add: abort_timer_def split: option.split)

lemma fields_modify [simp]:
  "r_table (modify_display did f r) = r_table r" "r_mgr (modify_display did f r) = r_mgr r"
  "r_sent (modify_display did f r) = r_sent r" "r_resume (modify_display did f r) = r_resume r"
  "r_paused (modify_display did f r) = r_paused r" "r_orphan_timers (modify_display did f r) = r_orphan_timers r"
  "r_sleeping (modify_display did f r) = r_sleeping r" "r_next_timer (modify_display did f r) = r_next_timer r"
  "r_next_display (modify_display did f r) = r_next_display r"
  "r_displays (modify_display did f r) = hm_modify did f (r_displays r)"
  by (simp_all add: modify_display_def)

lemma diff_shape: "\<exists>S. snd (lifecycle_diff r) = r\<lparr>r_paused := S\<rparr>"
  using lifecycle_fold_shape unfolding lifecycle_diff_def by (metis snd_conv)

lemma dispatch_shape: "\<exists>w q. dispatch p r = r\<lparr>r_mgr := (r_mgr (dispatch p r))\<rparr>"
  by (simp add: dispatch_def)

lemma resync_shape:
  "resync_display_set_config did r = r \<or>
   (\<exists>c. hm_get (r_displays r) did \<noteq> None \<and>
     resync_display_set_config did r = r\<lparr>r_next_config := r_next_config r + 1, r_sent := r_sent r @ [(did, SetConfig c)]\<rparr>)"
  by (auto simp: resync_display_set_config_def send_def Let_def split: option.split)

lemma frame_cases:
  obtains (none) recs where "on_renderer_frame rid index seq point r = r\<lparr>r_records := recs\<rparr>"
  | (sent) g n where "on_renderer_frame rid index seq point r =
      r\<lparr>r_sent := r_sent r @ map (\<lambda>d. (d, Frame rid g index seq point n)) (frame_recipients r rid g)\<rparr>"
proof (cases "Option.bind (table_handle r rid) (\<lambda>h. map_option (Pair h) (rh_bind h))")
  case None
  then have "on_renderer_frame rid index seq point r = r\<lparr>r_records := r_records r\<rparr>"
    by (auto simp: on_renderer_frame_def split: option.split)
  then show ?thesis by (rule none)
next
  case (Some hb)
  obtain h b where hb: "table_handle r rid = Some h" "rh_bind h = Some b" using Some by (auto simp: bind_eq_Some_conv)
  let ?n = "of_nat (length (frame_recipients r rid (bs_generation b))) :: u32"
  show ?thesis
  proof (cases "?n = 0")
    case True
    then have "on_renderer_frame rid index seq point r =
        r\<lparr>r_records := (if rh_has_reaper h then r_records r @ [(rid, point)] else r_records r)\<rparr>"
      by (simp add: on_renderer_frame_def hb Let_def)
    then show ?thesis by (rule none)
  next
    case False
    then show ?thesis by (intro sent) (simp add: on_renderer_frame_def hb Let_def fold_send)
  qed
qed

lemma geometry_shape:
  "\<exists>n. snd (snd (geometry_section lid src dst tr cl z r)) =
     r\<lparr>r_table := snd (update_link_geometry lid src dst tr cl z (r_table r)), r_next_config := n\<rparr>"
proof -
  have "\<exists>n. r\<lparr>r_table := t\<rparr> = r\<lparr>r_table := t, r_next_config := n\<rparr>" for t
    by (rule exI [of _ "r_next_config r"]) simp
  then show ?thesis
    unfolding geometry_section_def Let_def by (auto split: prod.split option.split)
qed

lemma recolor_shape:
  "snd (recolor_step c lid (ds, r)) = r\<lparr>r_table := snd (update_link_geometry lid None None None (Some c) None (r_table r))\<rparr>"
  by (simp add: recolor_step_def Let_def split: prod.split)

section \<open>Invariant: the links\<close>

lemma links_ok_alt:
  "links_ok r \<longleftrightarrow> table_ok (r_table r) \<and> links_lead (\<lambda>d. d \<in> fst ` set (r_displays r)) (r_table r)"
  by (simp add: links_ok_def map_of_eq_None_iff)

lemma links_lead_mono: "links_lead D t \<Longrightarrow> (\<And>d. D d \<Longrightarrow> D' d) \<Longrightarrow> links_lead D' t"
  by (auto simp: links_lead_def)

lemma links_lead_sub:
  "links_lead D t \<Longrightarrow> (\<And>k l. links_of t' k = Some l \<Longrightarrow> links_of t k = Some l) \<Longrightarrow> links_lead D t'"
  by (auto simp: links_lead_def)

lemma links_lead_geometry:
  assumes "table_ok t" and "links_lead D t"
  shows "links_lead D (snd (update_link_geometry lid src dst tr cl z t))"
proof (unfold links_lead_def, intro allI impI)
  fix k l assume l: "links_of (snd (update_link_geometry lid src dst tr cl z t)) k = Some l"
  note u = update_link_geometry_ok(5,6) [OF assms(1), of lid src dst tr cl z k]
  obtain l0 where l0: "links_of t k = Some l0" using u(1) l by (cases "links_of t k") auto
  with u l have "lk_display l = lk_display l0" "lk_enabled l = lk_enabled l0" by simp_all
  with l0 assms(2) show "lk_enabled l \<and> D (lk_display l)" by (auto simp: links_lead_def)
qed

lemma links_ok_drop:
  assumes "links_ok r"
  shows "links_ok (snd (drop_renderer rid r))"
proof -
  note ok = links_ok_table [OF assms]
  obtain out t where e: "remove_renderer rid (r_table r) = (out, t)" by force
  have "links_lead D (r_table r) \<Longrightarrow> links_lead D t" for D
    by (erule links_lead_sub) (simp add: remove_renderer_ok(2) [OF ok e] split: option.splits if_splits)
  with assms show ?thesis by (simp add: links_ok_alt e remove_renderer_ok(1) [OF ok e])
qed

lemma links_ok_leave:
  assumes "links_ok r"
  shows "links_ok (drop_display did r)"
proof -
  note ok = links_ok_table [OF assms]
  obtain out t where e: "remove_display did (r_table r) = (out, t)" by force
  have "links_lead (\<lambda>d. d \<in> fst ` set (r_displays r) - {did}) t"
    using assms by (auto simp: links_ok_alt links_lead_def remove_display_ok(2) [OF ok e] split: option.splits if_splits)
  then show ?thesis by (simp add: links_ok_alt drop_display_def e remove_display_ok(1) [OF ok e])
qed

lemma links_ok_arrive:
  assumes "links_ok r" and "0 < link_room (r_table r)"
  shows "links_ok (snd (snd (add_display reg r)))"
proof -
  note ok = links_ok_table [OF assms(1)]
  have n: "next_link_id (r_table r) \<noteq> - 1" using assms(2) unfolding link_room_pos .
  let ?D = "\<lambda>d. d = r_next_display r + 1 \<or> d \<in> fst ` set (r_displays r)"
  have lead: "links_lead ?D (r_table r)"
    using assms(1) by (auto simp: links_ok_alt intro: links_lead_mono)
  have "links_lead ?D (snd (add_link rid (r_next_display r + 1) (r_table r)))" for rid
    using lead by (auto simp: links_lead_def add_link_ok(3) [OF ok n] new_link_def split: option.splits if_splits)
  with lead show ?thesis
    by (auto simp: add_display_def links_ok_alt Let_def add_link_ok(4) [OF ok n] ok split: option.split)
qed

lemma links_ok_relink:
  assumes "links_ok r" and "length dids \<le> link_room (r_table r)"
  shows "links_ok (snd (relink_section dids rid r))"
proof -
  let ?ds = "filter (\<lambda>did. hm_get (r_displays r) did \<noteq> None) dids"
  have room: "length ?ds \<le> link_room (r_table r)" using assms(2) length_filter_le order_trans by blast
  have "links_lead (\<lambda>d. hm_get (r_displays r) d \<noteq> None) (r_table r)" using assms(1) by (simp add: links_ok_def)
  from fold_relink_links [OF links_ok_table [OF assms(1)] room this, of rid]
    relink.relink_loop(1) [OF links_ok_table [OF assms(1)] room, of rid]
  show ?thesis by (simp add: relink_section_def links_ok_def Let_def)
qed

lemma step_links_ok:
  assumes "router_step r r'" and "links_ok r"
  shows "links_ok r'"
  using assms
proof (cases rule: router_step.cases)
  case (register rid)
  have "links_of (add_renderer rid rid (r_table r)) = links_of (r_table r)" by (simp add: add_renderer_def)
  then show ?thesis using assms(2) register by (simp add: links_ok_alt links_lead_def table_ok_add_renderer)
next
  case (geometry lid src dst transform clear z)
  then show ?thesis
    using geometry_shape [of lid src dst transform clear z r] assms(2)
    by (auto simp: links_ok_alt update_link_geometry_ok(1) links_lead_geometry)
next
  case (recolor c lid ds)
  then show ?thesis using assms(2) by (simp add: recolor_shape links_ok_alt update_link_geometry_ok(1) links_lead_geometry)
next
  case (diff)
  then show ?thesis using diff_shape [of r] assms(2) by (auto simp: links_ok_alt)
next
  case (sync did)
  have "fst ` set (r_displays (sync_display did r)) = fst ` set (r_displays r)"
    using sync_display_keeps(11) [of did r] by (metis set_map)
  then show ?thesis using assms(2) sync by (simp add: links_ok_alt)
next
  case (resync did)
  then show ?thesis using resync_shape [of did r] assms(2) by (auto simp: links_ok_alt)
next
  case (frame rid index seq point)
  then show ?thesis using assms(2) by (cases rule: frame_cases [of rid index seq point r]) (auto simp: links_ok_alt)
next
  case (window did flags)
  then show ?thesis using assms(2)
    by (auto simp: window_step_def window_state_section_def Let_def links_ok_alt split: option.split pause_action.split prod.split)
next
  case (session locked inactive)
  then show ?thesis using assms(2)
    by (auto simp: session_step_def session_section_def Let_def links_ok_alt split: pause_action.split)
next
  case (resume did gen)
  then show ?thesis using assms(2) by (auto simp: resume_section_def links_ok_alt split: option.split)
next
  case (drop rid)
  then show ?thesis using links_ok_drop [OF assms(2)] by simp
next
  case (relink dids rid)
  then show ?thesis using links_ok_relink [OF assms(2)] by simp
next
  case (arrive reg)
  then show ?thesis using links_ok_arrive [OF assms(2)] by simp
next
  case (leave did)
  then show ?thesis using links_ok_leave [OF assms(2)] by simp
qed (auto simp: links_ok_alt kill_renderer_def control_def dispatch_def
  store_override_def emit_def send_config_def send_def begin_unbind_ack_tracking_def record_unbind_done_def
  finish_unbind_acks_def schedule_orphan_grace_def cancel_orphan_timer_def orphan_check_def Let_def split: option.split)

section \<open>Invariant: the renderers\<close>

text \<open>
  A handle is filed under its own id and never forgotten, the table's entries name handles, the
  manager's live renderers have one, and only renderers of the table are recorded as paused.
\<close>

definition heap_ok :: "router \<Rightarrow> bool" where
  "heap_ok r \<longleftrightarrow>
     (\<forall>rid h. hm_get (mg_handles (r_mgr r)) rid = Some h \<longrightarrow> rh_id h = rid) \<and>
     (\<forall>rid p. get_renderer (r_table r) rid = Some p \<longrightarrow> p = rid \<and> hm_get (mg_handles (r_mgr r)) rid \<noteq> None) \<and>
     live_ok r \<and> r_paused r \<subseteq> set (renderer_ids (r_table r))"

lemma set_renderer_ids: "rid \<in> set (renderer_ids t) \<longleftrightarrow> get_renderer t rid \<noteq> None"
  by (simp add: renderer_ids_def get_renderer_def map_of_eq_None_iff)

lemma fold_report_id [simp]: "rh_id (fold report_step kvs h) = rh_id h"
  by (induction kvs arbitrary: h) (auto simp: report_step_def split: option.split)

lemma reader_keeps_id: "reader_step ev fds h = Some h' \<Longrightarrow> rh_id h' = rh_id h"
  by (cases ev) (auto simp: on_bind_buffers_def on_frame_ready_def on_release_syncobj_def on_format_caps_def
      split: list.splits option.splits sum.splits)

text \<open>What a step may do to the manager: handles keep their ids, live renderers only leave.\<close>

definition heap_kept :: "manager \<Rightarrow> manager \<Rightarrow> bool" where
  "heap_kept m m' \<longleftrightarrow>
     (\<forall>rid. map_option rh_id (hm_get (mg_handles m') rid) = map_option rh_id (hm_get (mg_handles m) rid)) \<and>
     set (mg_live m') \<subseteq> set (mg_live m)"

lemma heap_keptD:
  assumes "heap_kept m m'"
  shows "hm_get (mg_handles m') rid = None \<longleftrightarrow> hm_get (mg_handles m) rid = None"
    and "hm_get (mg_handles m') rid = Some h' \<Longrightarrow> \<exists>h. hm_get (mg_handles m) rid = Some h \<and> rh_id h' = rh_id h"
    and "rid \<in> set (mg_live m') \<Longrightarrow> rid \<in> set (mg_live m)"
proof -
  have *: "map_option rh_id (hm_get (mg_handles m') rid) = map_option rh_id (hm_get (mg_handles m) rid)"
    using assms by (simp add: heap_kept_def)
  show "hm_get (mg_handles m') rid = None \<longleftrightarrow> hm_get (mg_handles m) rid = None"
    using * by (cases "hm_get (mg_handles m) rid"; cases "hm_get (mg_handles m') rid") simp_all
  show "hm_get (mg_handles m') rid = Some h' \<Longrightarrow> \<exists>h. hm_get (mg_handles m) rid = Some h \<and> rh_id h' = rh_id h"
    using * by (cases "hm_get (mg_handles m) rid") simp_all
  show "rid \<in> set (mg_live m') \<Longrightarrow> rid \<in> set (mg_live m)" using assms by (auto simp: heap_kept_def)
qed

lemma heap_kept_ok:
  assumes kept: "heap_kept (r_mgr r) (r_mgr r')" and table: "r_table r' = r_table r" and paused: "r_paused r' = r_paused r"
    and ok: "heap_ok r"
  shows "heap_ok r'"
  unfolding heap_ok_def table paused live_ok_def heap_keptD(1) [OF kept]
proof (intro conjI)
  show "\<forall>rid h. hm_get (mg_handles (r_mgr r')) rid = Some h \<longrightarrow> rh_id h = rid"
  proof (intro allI impI)
    fix rid h assume "hm_get (mg_handles (r_mgr r')) rid = Some h"
    from heap_keptD(2) [OF kept this] ok show "rh_id h = rid" by (auto simp: heap_ok_def)
  qed
  show "\<forall>rid\<in>set (mg_live (r_mgr r')). hm_get (mg_handles (r_mgr r)) rid \<noteq> None"
    using ok heap_keptD(3) [OF kept] by (auto simp: heap_ok_def live_ok_def)
qed (use ok in \<open>simp_all add: heap_ok_def\<close>)

lemma heap_ok_mgr: "heap_ok r \<Longrightarrow> heap_kept (r_mgr r) m \<Longrightarrow> heap_ok (r\<lparr>r_mgr := m\<rparr>)"
  by (rule heap_kept_ok) simp_all

lemma heap_kept_refl [simp]: "heap_kept m m"
  by (simp add: heap_kept_def)

lemma heap_kept_wire [simp]:
  "heap_kept m (m\<lparr>mg_wire := w\<rparr>)" "heap_kept m (m\<lparr>mg_reap := q\<rparr>)" "heap_kept m (m\<lparr>mg_wire := w, mg_reap := q\<rparr>)"
  "heap_kept m (m\<lparr>mg_live := removeAll rid (mg_live m)\<rparr>)"
  by (auto simp: heap_kept_def)

lemma heap_kept_update:
  "(\<And>h. hm_get (mg_handles m) rid = Some h \<Longrightarrow> rh_id (f h) = rh_id h) \<Longrightarrow> heap_kept m (update_handle rid f m)"
  by (cases "hm_get (mg_handles m) rid") (auto simp: heap_kept_def update_handle_def)

lemma heap_kept_trans: "heap_kept m m' \<Longrightarrow> heap_kept m' m'' \<Longrightarrow> heap_kept m m''"
  by (auto simp: heap_kept_def)

lemma heap_kept_control: "heap_kept m (snd (mgr_send_control rid msg m))"
  by (auto simp: mgr_send_control_eq split: option.split)

lemma heap_kept_negotiate: "heap_kept m (snd (send_negotiate_buffers rid s m))"
proof -
  obtain res m1 where e: "mgr_send_control rid (negotiate_msg s) m = (res, m1)" by force
  then have "heap_kept m m1" using heap_kept_control [of m rid "negotiate_msg s"] by simp
  moreover have "heap_kept m1 (update_handle rid (\<lambda>h. h\<lparr>rh_last_scheme := Some s\<rparr>) m1)"
    by (rule heap_kept_update) simp
  ultimately show ?thesis
    using e heap_kept_trans by (auto simp: send_negotiate_buffers_def split: option.split sum.split)
qed

lemma heap_kept_kill: "heap_kept m (snd (mgr_kill rid m))"
proof -
  have "heap_kept m (update_handle rid (\<lambda>h. h\<lparr>rh_child := False\<rparr>) (m\<lparr>mg_live := removeAll rid (mg_live m), mg_wire := w\<rparr>))" for w
  proof (rule heap_kept_trans)
    show "heap_kept m (m\<lparr>mg_live := removeAll rid (mg_live m), mg_wire := w\<rparr>)" by (auto simp: heap_kept_def)
  qed (rule heap_kept_update, simp)
  then show ?thesis by (simp add: mgr_kill_def split: option.split)
qed

lemma heap_ok_table:
  assumes "rt_renderers (r_table r') = rt_renderers (r_table r)" "r_mgr r' = r_mgr r" "r_paused r' = r_paused r" "heap_ok r"
  shows "heap_ok r'"
  using assms(4) by (simp add: heap_ok_def get_renderer_def renderer_ids_def live_ok_def assms(1-3))

lemma heap_ok_drop:
  assumes "table_ok (r_table r)" and "heap_ok r"
  shows "heap_ok (snd (drop_renderer rid r))"
proof -
  have g: "get_renderer (snd (remove_renderer rid (r_table r))) x = (if x = rid then None else get_renderer (r_table r) x)" for x
    using remove_renderer_ok(3) [OF assms(1) prod.collapse [symmetric]] by (simp add: get_renderer_def)
  show ?thesis
    using assms(2) by (auto simp: heap_ok_def g live_ok_def renderer_ids_remove [OF assms(1)] split: if_splits)
qed

lemma heap_ok_register:
  assumes "heap_ok r" and "hm_get (mg_handles (r_mgr r)) rid \<noteq> None"
  shows "heap_ok (r\<lparr>r_table := add_renderer rid rid (r_table r), r_tasks := T\<rparr>)"
  using assms
  by (auto simp: heap_ok_def add_renderer_def get_renderer_def live_ok_def set_renderer_ids)

lemma heap_ok_spawn:
  assumes "heap_ok r"
  shows "heap_ok (r\<lparr>r_mgr := insert_handle h (r_mgr r)\<rparr>)"
  using assms by (auto simp: heap_ok_def insert_handle_def live_ok_def)

lemma step_heap_ok:
  assumes "router_step r r'" and "links_ok r" and "heap_ok r"
  shows "heap_ok r'"
  using assms(1)
proof (cases rule: router_step.cases)
  case (reader rid h ev fds h')
  then show ?thesis using assms(3)
    by (auto intro!: heap_ok_mgr heap_kept_update simp: reader_keeps_id)
next
  case (blacklist rid fourcc modifier)
  then show ?thesis using assms(3)
    by (auto intro!: heap_ok_mgr heap_kept_update simp: blacklist_format_def split: option.split)
next
  case (spawn h)
  then show ?thesis using heap_ok_spawn [OF assms(3)] by simp
next
  case (kill rid)
  then show ?thesis using assms(3) heap_kept_kill by (auto intro!: heap_ok_mgr simp: kill_renderer_def)
next
  case (control a)
  then show ?thesis using assms(3) heap_kept_control by (auto intro!: heap_ok_mgr simp: control_def)
next
  case (dispatch p)
  then show ?thesis using assms(3) heap_kept_negotiate by (auto intro!: heap_ok_mgr simp: dispatch_def)
next
  case (register rid)
  then show ?thesis using heap_ok_register [OF assms(3)] by simp
next
  case (drop rid)
  then show ?thesis using heap_ok_drop [OF links_ok_table [OF assms(2)] assms(3)] by simp
next
  case (diff)
  then show ?thesis
    using assms(3) lifecycle_diff_eq [OF links_ok_table [OF assms(2)]]
    by (auto simp: heap_ok_def live_ok_def paused_after_def split: if_splits)
next
  case (resync did)
  then show ?thesis using resync_shape [of did r] assms(3) by (auto intro: heap_ok_table)
next
  case (frame rid index seq point)
  then show ?thesis using assms(3)
    by (cases rule: frame_cases [of rid index seq point r]) (auto intro: heap_ok_table)
next
  case (geometry lid src dst transform clear z)
  then show ?thesis
    using geometry_shape [of lid src dst transform clear z r] update_link_geometry_ok(2) [OF links_ok_table [OF assms(2)]]
    by (auto intro!: heap_ok_table [OF _ _ _ assms(3)])
next
  case (recolor c lid ds)
  then show ?thesis using update_link_geometry_ok(2) [OF links_ok_table [OF assms(2)]]
    by (auto simp: recolor_shape intro!: heap_ok_table [OF _ _ _ assms(3)])
next
  case (relink dids rid)
  let ?ds = "filter (\<lambda>did. hm_get (r_displays r) did \<noteq> None) dids"
  have room: "length ?ds \<le> link_room (r_table r)" using relink(2) length_filter_le order_trans by blast
  have "links_lead (\<lambda>d. hm_get (r_displays r) d \<noteq> None) (r_table r)" using assms(2) by (simp add: links_ok_def)
  from fold_relink_links [OF links_ok_table [OF assms(2)] room this, of rid]
  show ?thesis using relink(1) by (intro heap_ok_table [OF _ _ _ assms(3)]) (simp_all add: relink_section_def Let_def)
next
  case (arrive reg)
  have "next_link_id (r_table r) \<noteq> - 1" using arrive(3) unfolding link_room_pos .
  note add = add_link_ok(6) [OF links_ok_table [OF assms(2)] this]
  show ?thesis using arrive(1)
    by (intro heap_ok_table [OF _ _ _ assms(3)]) (simp_all add: add_display_def Let_def add split: option.split)
next
  case (leave did)
  obtain out t where e: "remove_display did (r_table r) = (out, t)" by force
  show ?thesis using leave remove_display_ok(4) [OF links_ok_table [OF assms(2)] e]
    by (intro heap_ok_table [OF _ _ _ assms(3)]) (simp_all add: drop_display_def e)
next
  case (window did flags)
  then show ?thesis
    by (intro heap_ok_table [OF _ _ _ assms(3)])
      (auto simp: window_step_def window_state_section_def Let_def split: option.split pause_action.split prod.split)
next
  case (session locked inactive)
  then show ?thesis
    by (intro heap_ok_table [OF _ _ _ assms(3)])
      (auto simp: session_step_def session_section_def Let_def split: pause_action.split)
next
  case (resume did gen)
  then show ?thesis by (intro heap_ok_table [OF _ _ _ assms(3)]) (auto simp: resume_section_def split: option.split)
qed (use assms(3) in \<open>auto intro!: heap_ok_mgr heap_kept_update intro: heap_ok_table
    simp: mark_dead_def store_override_def emit_def send_config_def send_def begin_unbind_ack_tracking_def record_unbind_done_def
      finish_unbind_acks_def schedule_orphan_grace_def cancel_orphan_timer_def orphan_check_def Let_def split: option.split\<close>)

section \<open>Invariant: the displays and their autopause machines\<close>

text \<open>
  Ids are given out in order; a display that wants no pause now but is still held paused has a
  resume task under way that carries its current generation.
\<close>

definition display_ok :: "router \<Rightarrow> display_id \<Rightarrow> display_state \<Rightarrow> bool" where
  "display_ok r did s \<longleftrightarrow> did \<le> r_next_display r \<and> di_id (ds_info s) = did \<and>
     (ap_raw (ds_autopause s) \<longrightarrow> ap_requested (ds_autopause s)) \<and>
     (ap_requested (ds_autopause s) \<and> \<not> ap_raw (ds_autopause s) \<longrightarrow> (did, ap_gen (ds_autopause s)) \<in> r_resume r)"

definition displays_ok :: "router \<Rightarrow> bool" where
  "displays_ok r \<longleftrightarrow> (\<forall>did s. hm_get (r_displays r) did = Some s \<longrightarrow> display_ok r did s)"

text \<open>Most steps keep what is known of every display, or drop a display.\<close>

definition same_display :: "display_state \<Rightarrow> display_state \<Rightarrow> bool" where
  "same_display s s' \<longleftrightarrow> di_id (ds_info s') = di_id (ds_info s) \<and> ds_autopause s' = ds_autopause s \<and>
     ds_last_renderer s' = ds_last_renderer s \<and> ds_last_gen s' = ds_last_gen s"

definition displays_kept :: "router \<Rightarrow> router \<Rightarrow> bool" where
  "displays_kept r r' \<longleftrightarrow> r_next_display r' = r_next_display r \<and> r_resume r' = r_resume r \<and>
     (\<forall>did s'. hm_get (r_displays r') did = Some s' \<longrightarrow>
        (\<exists>s. hm_get (r_displays r) did = Some s \<and> same_display s s'))"

lemma same_display_refl [simp]: "same_display s s"
  by (simp add: same_display_def)

lemma displays_kept_same:
  "r_displays r' = r_displays r \<Longrightarrow> r_next_display r' = r_next_display r \<Longrightarrow> r_resume r' = r_resume r \<Longrightarrow> displays_kept r r'"
  by (simp add: displays_kept_def)

lemma displays_kept_modify:
  "(\<And>s. same_display s (f s)) \<Longrightarrow> displays_kept r (modify_display did f r)"
  by (auto simp: displays_kept_def)

lemma step_displays_kept:
  assumes "router_step r r'"
  shows "displays_kept r r' \<or> (\<exists>did. r' = sync_display did r) \<or>
    (\<exists>reg. r' = snd (snd (add_display reg r)) \<and> r_next_display r \<noteq> - 1) \<or>
    (\<exists>did flags. r' = window_step did flags r) \<or>
    (\<exists>did gen. r' = snd (resume_section did gen (r\<lparr>r_resume := r_resume r - {(did, gen)}\<rparr>)))"
    (is "_ \<or> ?rest")
proof -
  have *: "\<not> ?rest \<Longrightarrow> displays_kept r r'"
    using assms
  proof (cases rule: router_step.cases)
    case (diff)
    then show ?thesis using diff_shape [of r] by (auto intro: displays_kept_same)
  next
    case (resync did)
    then show ?thesis using resync_shape [of did r] by (auto intro: displays_kept_same)
  next
    case (frame rid index seq point)
    then show ?thesis
      by (cases rule: frame_cases [of rid index seq point r]) (auto intro: displays_kept_same)
  next
    case (geometry lid src dst transform clear z)
    then show ?thesis
      using geometry_shape [of lid src dst transform clear z r] by (auto intro: displays_kept_same)
  next
    case (session locked inactive)
    then show ?thesis
      by (intro displays_kept_same) (auto simp: session_step_def session_section_def Let_def split: pause_action.split)
  next
    case (leave did)
    then show ?thesis by (auto simp: displays_kept_def drop_display_def split: if_splits)
  next
    case (caps did c)
    then show ?thesis by (auto intro!: displays_kept_modify simp: same_display_def)
  next
    case (size did w h)
    then show ?thesis by (auto intro!: displays_kept_modify simp: same_display_def)
  next
    case (sync did)
    then show "\<not> ?rest \<Longrightarrow> displays_kept r r'" by blast
  next
    case (arrive reg)
    then show "\<not> ?rest \<Longrightarrow> displays_kept r r'" by blast
  next
    case (window did flags)
    then show "\<not> ?rest \<Longrightarrow> displays_kept r r'" by blast
  next
    case (resume did gen)
    then show "\<not> ?rest \<Longrightarrow> displays_kept r r'" by blast
  qed (simp_all add: displays_kept_same recolor_shape relink_section_def kill_renderer_def control_def dispatch_def
      store_override_def emit_def send_config_def send_def begin_unbind_ack_tracking_def record_unbind_done_def
      finish_unbind_acks_def schedule_orphan_grace_def cancel_orphan_timer_def orphan_check_def Let_def split: option.split)
  then show ?thesis by blast
qed

lemma step_displays:
  assumes "router_step r r'"
  obtains (kept) "displays_kept r r'"
  | (sync) did where "r' = sync_display did r"
  | (arrive) reg where "r' = snd (snd (add_display reg r))" "r_next_display r \<noteq> - 1"
  | (window) did flags where "r' = window_step did flags r"
  | (resume) did gen where "r' = snd (resume_section did gen (r\<lparr>r_resume := r_resume r - {(did, gen)}\<rparr>))"
  using step_displays_kept [OF assms] by blast

text \<open>The two critical sections of the autopause machine keep its invariant.\<close>

lemma decision_ok:
  assumes "window_state_decision ra flags a = (act, a')"
    and "ap_raw a \<longrightarrow> ap_requested a" and "ap_requested a \<and> \<not> ap_raw a \<longrightarrow> (did, ap_gen a) \<in> R"
  shows "(ap_raw a' \<longrightarrow> ap_requested a') \<and>
    (ap_requested a' \<and> \<not> ap_raw a' \<longrightarrow>
       (did, ap_gen a') \<in> (case act of ScheduleResume gen _ \<Rightarrow> insert (did, gen) R | _ \<Rightarrow> R))"
  using assms by (auto simp: window_state_decision_def Let_def split: if_splits)

lemma displays_ok_window:
  assumes "displays_ok r"
  shows "displays_ok (window_step did flags r)"
proof (cases "hm_get (r_displays r) did")
  case None
  then show ?thesis using assms by (simp add: window_step_def window_state_section_def)
next
  case (Some s)
  obtain act a where d: "window_state_decision (resolved_autopause_for (r_settings r) (ds_info s)) flags (ds_autopause s) = (act, a)"
    by force
  let ?r1 = "modify_display did (\<lambda>s. s\<lparr>ds_autopause := a\<rparr>) r"
  let ?R = "case act of ScheduleResume gen _ \<Rightarrow> insert (did, gen) (r_resume r) | _ \<Rightarrow> r_resume r"
  have eq: "window_step did flags r = ?r1\<lparr>r_resume := ?R\<rparr>"
    by (cases act) (simp_all add: window_step_def window_state_section_def Some d modify_display_def)
  have sub: "r_resume r \<subseteq> ?R" by (cases act) auto
  have "display_ok r did s" using assms Some by (simp add: displays_ok_def)
  then have "display_ok (?r1\<lparr>r_resume := ?R\<rparr>) did (s\<lparr>ds_autopause := a\<rparr>)"
    using decision_ok [OF d, of did "r_resume r"] by (simp add: display_ok_def)
  moreover have "display_ok (?r1\<lparr>r_resume := ?R\<rparr>) d s'" if "hm_get (r_displays r) d = Some s'" for d s'
    using assms that sub by (auto simp: displays_ok_def display_ok_def)
  ultimately show ?thesis
    unfolding eq using Some by (auto simp: displays_ok_def split: if_splits)
qed

lemma displays_ok_resume:
  assumes "displays_ok r"
  shows "displays_ok (snd (resume_section did gen (r\<lparr>r_resume := r_resume r - {(did, gen)}\<rparr>)))"
proof -
  have other: "display_ok r d s" if "hm_get (r_displays r) d = Some s" for d s
    using assms that by (simp add: displays_ok_def)
  show ?thesis
    using other by (auto simp: resume_section_def displays_ok_def display_ok_def split: option.split if_splits)
qed

lemma step_displays_ok:
  assumes "router_step r r'" and "displays_ok r"
  shows "displays_ok r'"
  using assms(1)
proof (cases rule: step_displays)
  case kept
  then show ?thesis using assms(2)
    by (fastforce simp: displays_kept_def displays_ok_def display_ok_def same_display_def)
next
  case (sync did)
  have "displays_ok (sync_display did r)"
    by (cases rule: sync_display_cases [of did r])
      (use assms(2) in \<open>auto simp: sync_display_Some_eq sync_display_None_eq displays_ok_def display_ok_def\<close>)
  then show ?thesis using sync by simp
next
  case (arrive reg)
  have "d \<le> r_next_display r + 1" if "d \<le> r_next_display r" for d
    using word_le_inc [OF that arrive(2)] by simp
  then show ?thesis using assms(2) unfolding arrive(1)
    by (auto simp: add_display_def displays_ok_def display_ok_def ap_new_def Let_def split: option.split if_splits)
next
  case (window did flags)
  then show ?thesis using displays_ok_window [OF assms(2)] by simp
next
  case (resume did gen)
  then show ?thesis using displays_ok_resume [OF assms(2)] by simp
qed

section \<open>Invariant: the orphan timers\<close>

text \<open>A timer task sleeps exactly when the router holds its handle; timer numbers are not reused.\<close>

definition timers_ok :: "router \<Rightarrow> bool" where
  "timers_ok r \<longleftrightarrow> (\<forall>t rid. (t, rid) \<in> r_sleeping r \<longleftrightarrow> hm_get (r_orphan_timers r) rid = Some t) \<and>
     (\<forall>t rid. (t, rid) \<in> r_sleeping r \<longrightarrow> t < r_next_timer r)"

lemma timers_ok_same:
  "r_sleeping r' = r_sleeping r \<Longrightarrow> r_orphan_timers r' = r_orphan_timers r \<Longrightarrow> r_next_timer r' = r_next_timer r \<Longrightarrow>
    timers_ok r \<Longrightarrow> timers_ok r'"
  by (simp add: timers_ok_def)

lemma timers_ok_abort: "timers_ok r \<Longrightarrow> timers_ok (abort_timer rid r)"
  by (auto simp: timers_ok_def abort_timer_def split: option.split)

lemma timers_ok_drop: "timers_ok r \<Longrightarrow> timers_ok (snd (drop_renderer rid r))"
  using timers_ok_abort [of r rid] by (rule timers_ok_same [rotated -1]) simp_all

lemma timers_ok_schedule: "timers_ok r \<Longrightarrow> timers_ok (schedule_orphan_grace rid r)"
  by (auto simp: timers_ok_def schedule_orphan_grace_def Let_def less_Suc_eq split: option.split)

lemma step_timers_ok:
  assumes "router_step r r'" and "timers_ok r"
  shows "timers_ok r'"
  using assms(1)
proof (cases rule: router_step.cases)
  case (diff)
  then show ?thesis using diff_shape [of r] assms(2) by (auto intro: timers_ok_same)
next
  case (resync did)
  then show ?thesis using resync_shape [of did r] assms(2) by (auto intro: timers_ok_same)
next
  case (frame rid index seq point)
  then show ?thesis using assms(2)
    by (cases rule: frame_cases [of rid index seq point r]) (auto intro: timers_ok_same)
next
  case (geometry lid src dst transform clear z)
  then show ?thesis
    using geometry_shape [of lid src dst transform clear z r] assms(2) by (auto intro: timers_ok_same)
next
  case (session locked inactive)
  then show ?thesis using assms(2)
    by (auto intro!: timers_ok_same [OF _ _ _ assms(2)] simp: session_step_def session_section_def Let_def split: pause_action.split)
next
  case (window did flags)
  then show ?thesis
    by (intro timers_ok_same [OF _ _ _ assms(2)])
      (auto simp: window_step_def window_state_section_def Let_def split: option.split pause_action.split prod.split)
next
  case (resume did gen)
  then show ?thesis by (intro timers_ok_same [OF _ _ _ assms(2)]) (auto simp: resume_section_def split: option.split)
next
  case (arrive reg)
  then show ?thesis
    by (intro timers_ok_same [OF _ _ _ assms(2)]) (simp_all add: add_display_def Let_def split: option.split)
next
  case (orphan rid)
  then show ?thesis using timers_ok_schedule [OF assms(2)] by simp
next
  case (cancel rid)
  then show ?thesis using timers_ok_abort [OF assms(2)] by (simp add: cancel_orphan_timer_def)
next
  case (drop rid)
  then show ?thesis using timers_ok_drop [OF assms(2)] by simp
next
  case (reap t rid)
  then show ?thesis using assms(2) by (auto simp: orphan_check_def timers_ok_def)
qed (use assms(2) in \<open>auto intro!: timers_ok_same [OF _ _ _ assms(2)]
    simp: recolor_shape relink_section_def kill_renderer_def control_def dispatch_def store_override_def emit_def
      send_config_def send_def begin_unbind_ack_tracking_def record_unbind_done_def finish_unbind_acks_def
      drop_display_def modify_display_def Let_def split: option.split\<close>)

section \<open>Invariant: the channels to the displays\<close>

text \<open>
  The protocol a display endpoint expects: a pool is bound once, its configuration follows
  before any frame, frames name the renderer and one pool only, and Unbind retires that pool
  before another Bind. \<open>None\<close> is a violation.
\<close>

datatype chan = Unbound | AwaitsConfig renderer_id | Bound renderer_id "u64 option"

fun chan_step :: "out_event \<Rightarrow> chan option \<Rightarrow> chan option" where
  "chan_step (Bind rid) (Some Unbound) = Some (AwaitsConfig rid)"
| "chan_step (SetConfig c) (Some Unbound) = Some Unbound"
| "chan_step (SetConfig c) (Some (AwaitsConfig rid)) = Some (Bound rid None)"
| "chan_step (SetConfig c) (Some (Bound rid g)) = Some (Bound rid g)"
| "chan_step (Frame rid g index seq point n) (Some (Bound rid' g')) =
     (if rid' = rid \<and> (g' = None \<or> g' = Some g) then Some (Bound rid (Some g)) else None)"
| "chan_step (Unbind g) (Some (Bound rid g')) = (if g' = None \<or> g' = Some g then Some Unbound else None)"
| "chan_step _ _ = None"

definition chan_run :: "out_event list \<Rightarrow> chan option" where
  "chan_run evs = fold chan_step evs (Some Unbound)"

definition events_to :: "display_id \<Rightarrow> router \<Rightarrow> out_event list" where
  "events_to did r = map snd (filter (\<lambda>e. fst e = did) (r_sent r))"

text \<open>What the router remembers of a display agrees with its channel.\<close>

fun chan_matches :: "chan \<Rightarrow> display_state \<Rightarrow> bool" where
  "chan_matches Unbound s \<longleftrightarrow> ds_last_renderer s = None \<and> ds_last_gen s = None"
| "chan_matches (AwaitsConfig rid) s \<longleftrightarrow> False"
| "chan_matches (Bound rid g) s \<longleftrightarrow> ds_last_renderer s = Some rid \<and> ds_last_gen s \<noteq> None \<and> (g = None \<or> g = ds_last_gen s)"

definition chan_ok :: "router \<Rightarrow> display_id \<Rightarrow> bool" where
  "chan_ok r did \<longleftrightarrow> (r_next_display r < did \<longrightarrow> events_to did r = []) \<and>
     (\<exists>c. chan_run (events_to did r) = Some c \<and> (\<forall>s. hm_get (r_displays r) did = Some s \<longrightarrow> chan_matches c s))"

lemma chan_run_append: "chan_run (evs @ evs') = fold chan_step evs' (chan_run evs)"
  by (simp add: chan_run_def)

lemma events_to_append: "r_sent r' = r_sent r @ sent \<Longrightarrow> events_to did r' = events_to did r @ map snd (filter (\<lambda>e. fst e = did) sent)"
  by (simp add: events_to_def)

lemma events_to_self [simp]: "map snd (filter (\<lambda>e. fst e = did) (map (Pair x) evs)) = (if x = did then evs else [])"
  by (induction evs) auto

lemma map_snd_Pair [simp]: "map (snd \<circ> Pair x) evs = evs"
  by (induction evs) auto

definition chans_kept :: "router \<Rightarrow> router \<Rightarrow> bool" where
  "chans_kept r r' \<longleftrightarrow> r_next_display r' = r_next_display r \<and>
     (\<forall>did s'. hm_get (r_displays r') did = Some s' \<longrightarrow>
        (\<exists>s. hm_get (r_displays r) did = Some s \<and> ds_last_renderer s' = ds_last_renderer s \<and> ds_last_gen s' = ds_last_gen s))"

lemma displays_kept_chans: "displays_kept r r' \<Longrightarrow> chans_kept r r'"
  by (fastforce simp: displays_kept_def chans_kept_def same_display_def)

lemma chans_kept_window: "chans_kept r (window_step did flags r)"
  by (auto simp: chans_kept_def window_step_def window_state_section_def Let_def
      split: option.split pause_action.split prod.split if_splits)

lemma chans_kept_resume:
  "chans_kept r (snd (resume_section did gen (r\<lparr>r_resume := r_resume r - {(did, gen)}\<rparr>)))"
  by (auto simp: chans_kept_def resume_section_def split: option.split if_splits)

lemma chan_matches_same:
  "ds_last_renderer s' = ds_last_renderer s \<Longrightarrow> ds_last_gen s' = ds_last_gen s \<Longrightarrow> chan_matches c s \<Longrightarrow> chan_matches c s'"
  by (cases c) auto

text \<open>A step that sends the display nothing, or only a configuration, keeps its channel in order.\<close>

lemma chan_config: "chan_step (SetConfig k) (Some (Bound rid g)) = Some (Bound rid g)"
  "chan_step (SetConfig k) (Some Unbound) = Some Unbound"
  by simp_all

lemma chan_ok_kept:
  assumes "chan_ok r did" and "chans_kept r r'"
    and "events_to did r' = events_to did r \<or>
      (\<exists>k. events_to did r' = events_to did r @ [SetConfig k] \<and> hm_get (r_displays r) did \<noteq> None \<and> did \<le> r_next_display r)"
  shows "chan_ok r' did"
proof -
  obtain c where c: "chan_run (events_to did r) = Some c" "\<And>s. hm_get (r_displays r) did = Some s \<Longrightarrow> chan_matches c s"
    using assms(1) by (auto simp: chan_ok_def)
  have m: "chan_matches c s'" if "hm_get (r_displays r') did = Some s'" for s'
    using assms(2) that c(2) chan_matches_same unfolding chans_kept_def by blast
  have n: "r_next_display r' = r_next_display r" using assms(2) by (simp add: chans_kept_def)
  from assms(3) show ?thesis
  proof
    assume "events_to did r' = events_to did r"
    with assms(1) c(1) m show ?thesis by (auto simp: chan_ok_def n)
  next
    assume "\<exists>k. events_to did r' = events_to did r @ [SetConfig k] \<and> hm_get (r_displays r) did \<noteq> None \<and> did \<le> r_next_display r"
    then obtain k s where k: "events_to did r' = events_to did r @ [SetConfig k]" "hm_get (r_displays r) did = Some s"
      "did \<le> r_next_display r"
      by auto
    have "chan_matches c s" by (rule c(2) [OF k(2)])
    then have "chan_run (events_to did r') = Some c"
      by (cases c) (simp_all add: k(1) chan_run_append c(1))
    with k(3) m show ?thesis by (auto simp: chan_ok_def n)
  qed
qed

lemma step_sent:
  assumes "router_step r r'"
  shows "r_sent r' = r_sent r \<or> (\<exists>did. r' = sync_display did r) \<or>
    (\<exists>did k. r_sent r' = r_sent r @ [(did, SetConfig k)] \<and> displays_kept r r' \<and> hm_get (r_displays r) did \<noteq> None) \<or>
    (\<exists>rid index seq point. r' = on_renderer_frame rid index seq point r)"
  using assms
proof (cases rule: router_step.cases)
  case (diff)
  then show ?thesis using diff_shape [of r] by auto
next
  case (resync did)
  then show ?thesis using resync_shape [of did r] by (auto intro!: displays_kept_same)
next
  case (send_config dc)
  then have "r' = r \<or> (hm_get (r_displays r) (fst dc) \<noteq> None \<and> r' = r\<lparr>r_sent := r_sent r @ [(fst dc, SetConfig (snd dc))]\<rparr>)"
    by (simp add: send_config_def send_def)
  then show ?thesis by (auto intro!: displays_kept_same)
next
  case (geometry lid src dst transform clear z)
  then show ?thesis using geometry_shape [of lid src dst transform clear z r] by auto
next
  case (session locked inactive)
  then have "r_sent r' = r_sent r" by (auto simp: session_step_def session_section_def Let_def split: pause_action.split)
  then show ?thesis by blast
next
  case (window did flags)
  then have "r_sent r' = r_sent r"
    by (auto simp: window_step_def window_state_section_def Let_def split: option.split pause_action.split prod.split)
  then show ?thesis by blast
next
  case (resume did gen)
  then have "r_sent r' = r_sent r" by (auto simp: resume_section_def split: option.split)
  then show ?thesis by blast
next
  case (arrive reg)
  then have "r_sent r' = r_sent r" by (auto simp: add_display_def Let_def split: option.split)
  then show ?thesis by blast
next
  case (sync did)
  then show ?thesis by blast
next
  case (frame rid index seq point)
  then show ?thesis by blast
qed (simp_all add: recolor_shape relink_section_def control_def dispatch_def store_override_def
      begin_unbind_ack_tracking_def record_unbind_done_def finish_unbind_acks_def schedule_orphan_grace_def
      cancel_orphan_timer_def orphan_check_def drop_display_def Let_def split: option.split)

lemma bound_target_id:
  assumes "heap_ok r" and "bound_target r did = Some (l, h, g)"
  shows "rh_id h = lk_renderer l"
proof -
  have "table_handle r (lk_renderer l) = Some h"
    using assms(2) by (auto simp: bound_target_def split: list.splits option.splits)
  then obtain p where "get_renderer (r_table r) (lk_renderer l) = Some p" "hm_get (mg_handles (r_mgr r)) p = Some h"
    by (auto simp: table_handle_def bind_eq_Some_conv)
  then show ?thesis using assms(1) by (auto simp: heap_ok_def)
qed

lemma chan_retire:
  assumes "chan_run evs = Some c" and "chan_matches c s"
  shows "chan_run (evs @ retire_events s) = Some Unbound"
  using assms by (cases c) (auto simp: chan_run_append retire_events_def)

lemma chan_bind:
  "fold chan_step ([Bind rid, SetConfig k] @ (case f of None \<Rightarrow> [] | Some f \<Rightarrow> [Frame rid g (fs_index f) (fs_seq f) (fs_release_point f) 1]))
     (Some Unbound) = Some (Bound rid (if f = None then None else Some g))"
  by (cases f) simp_all

lemma replay_events_gen:
  "replay_events h g =
     (case replay_frame h g of None \<Rightarrow> [] | Some f \<Rightarrow> [Frame (rh_id h) g (fs_index f) (fs_seq f) (fs_release_point f) 1])"
  by (auto simp: replay_events_def replay_frame_def split: option.split if_splits)

lemma sync_chan_ok:
  assumes "\<And>d. chan_ok r d" and "displays_ok r" and "heap_ok r"
  shows "chan_ok (sync_display did r) d"
proof (cases "sync_needed did r")
  case False
  then show ?thesis using assms(1) by (simp add: sync_display_not_needed)
next
  case True
  then obtain s where s: "hm_get (r_displays r) did = Some s" by (auto simp: sync_needed_def)
  note ex = sync_display_result [OF s True]
  show ?thesis
  proof (cases "d = did")
    case False
    have "events_to d (sync_display did r) = events_to d r"
      using ex False by (simp add: events_to_append)
    then show ?thesis using ex False assms(1) [of d] by (simp add: chan_ok_def)
  next
    case True
    obtain c where c: "chan_run (events_to did r) = Some c" "chan_matches c s"
      using assms(1) [of did] s by (auto simp: chan_ok_def)
    note un = chan_retire [OF c]
    have old: "did \<le> r_next_display r" using assms(2) s by (auto simp: displays_ok_def display_ok_def)
    show ?thesis
    proof (cases "bound_target r did")
      case None
      have "events_to did (sync_display did r) = events_to did r @ retire_events s"
        using ex None by (simp add: events_to_append)
      then show ?thesis using ex un old None True by (auto simp: chan_ok_def)
    next
      case (Some t)
      obtain l h g where t: "t = (l, h, g)" by (cases t)
      have "events_to did (sync_display did r) = (events_to did r @ retire_events s) @
          ([Bind (rh_id h), SetConfig (bind_config s l h r)] @ replay_events h g)"
        using ex Some by (simp add: events_to_append t)
      then have "chan_run (events_to did (sync_display did r)) =
          Some (Bound (rh_id h) (if replay_frame h g = None then None else Some g))"
        by (simp only: chan_run_append [of "events_to did r @ retire_events s"] un replay_events_gen chan_bind)
      moreover have "rh_id h = lk_renderer l" using bound_target_id [OF assms(3)] Some t by simp
      ultimately show ?thesis using ex old Some t True by (auto simp: chan_ok_def)
    qed
  qed
qed

lemma fold_frames:
  "g' = None \<or> g' = Some g \<Longrightarrow>
    \<exists>g''. fold chan_step (replicate k (Frame rid g index seq point n)) (Some (Bound rid g')) = Some (Bound rid g'') \<and>
      (g'' = None \<or> g'' = Some g)"
  by (induction k arbitrary: g') auto

lemma frames_to: "map snd (filter (\<lambda>e. fst e = did) (map (\<lambda>d. (d, F)) ds)) = replicate (length (filter (\<lambda>d. d = did) ds)) F"
  by (induction ds) auto

lemma frame_chan_ok:
  assumes "chan_ok r d" and "displays_ok r"
  shows "chan_ok (on_renderer_frame rid index seq point r) d"
proof (cases rule: frame_cases [of rid index seq point r])
  case (none recs)
  then show ?thesis using assms(1) by (simp add: chan_ok_def events_to_def)
next
  case (sent g n)
  let ?F = "Frame rid g index seq point n" and ?ds = "frame_recipients r rid g"
  let ?k = "length (filter (\<lambda>x. x = d) ?ds)"
  have e: "events_to d (on_renderer_frame rid index seq point r) = events_to d r @ replicate ?k ?F"
    using frames_to [of d ?F ?ds] by (simp add: sent events_to_append)
  show ?thesis
  proof (cases "d \<in> set ?ds")
    case False
    then have "?k = 0" by (auto simp: filter_empty_conv)
    then show ?thesis using assms(1) e by (simp add: sent chan_ok_def)
  next
    case True
    then obtain s where s: "hm_get (r_displays r) d = Some s" "ds_last_gen s = Some g" "ds_last_renderer s = Some rid"
      by (auto simp: frame_recipients_def split: option.splits)
    obtain c where c: "chan_run (events_to d r) = Some c" "chan_matches c s"
      using assms(1) s(1) by (auto simp: chan_ok_def)
    obtain g' where g': "c = Bound rid g'" "g' = None \<or> g' = Some g" using c(2) s(2,3) by (cases c) auto
    obtain g'' where "chan_run (events_to d (on_renderer_frame rid index seq point r)) = Some (Bound rid g'')"
      "g'' = None \<or> g'' = Some g"
      using fold_frames [OF g'(2), of ?k rid index seq point n] c(1) g'(1) by (auto simp: e chan_run_append)
    moreover have "d \<le> r_next_display r" using assms(2) s(1) by (auto simp: displays_ok_def display_ok_def)
    ultimately show ?thesis using s by (auto simp: chan_ok_def sent)
  qed
qed

lemma step_chans_ok:
  assumes "router_step r r'" and "\<And>d. chan_ok r d" and "displays_ok r" and "heap_ok r"
  shows "chan_ok r' did"
proof -
  consider (same) "r_sent r' = r_sent r" | (sync) x where "r' = sync_display x r"
    | (config) x k where "r_sent r' = r_sent r @ [(x, SetConfig k)]" "displays_kept r r'" "hm_get (r_displays r) x \<noteq> None"
    | (frame) rid index seq point where "r' = on_renderer_frame rid index seq point r"
    using step_sent [OF assms(1)] by blast
  then show ?thesis
  proof cases
    case sync
    then show ?thesis using sync_chan_ok [OF assms(2-4)] by simp
  next
    case frame
    then show ?thesis using frame_chan_ok [OF assms(2,3)] by simp
  next
    case (config x k)
    have "did \<le> r_next_display r" if "x = did"
      using config(3) assms(3) that by (auto simp: displays_ok_def display_ok_def)
    moreover have "events_to did r' = events_to did r @ (if x = did then [SetConfig k] else [])"
      by (simp add: events_to_append [OF config(1)])
    ultimately show ?thesis
      using config(3) by (intro chan_ok_kept [OF assms(2) displays_kept_chans [OF config(2)]]) auto
  next
    case same
    then have e: "events_to did r' = events_to did r" by (simp add: events_to_def)
    from assms(1) show ?thesis
    proof (cases rule: step_displays)
      case kept
      then show ?thesis using e by (intro chan_ok_kept [OF assms(2) displays_kept_chans]) auto
    next
      case (sync x)
      then show ?thesis using sync_chan_ok [OF assms(2-4)] by simp
    next
      case (window x flags)
      then show ?thesis using e chans_kept_window by (intro chan_ok_kept [OF assms(2)]) auto
    next
      case (resume x gen)
      then show ?thesis using e chans_kept_resume by (intro chan_ok_kept [OF assms(2)]) auto
    next
      case (arrive reg)
      let ?d = "r_next_display r + 1"
      have less: "r_next_display r < ?d" by (rule word_inc_greater [OF arrive(2)])
      have n: "r_next_display r' = ?d" by (simp add: arrive(1) add_display_def Let_def split: option.split)
      have g: "did \<noteq> ?d \<Longrightarrow> hm_get (r_displays r') did = hm_get (r_displays r) did"
        "hm_get (r_displays r') ?d = Some s \<Longrightarrow> ds_last_renderer s = None \<and> ds_last_gen s = None" for s
        by (auto simp: arrive(1) add_display_def Let_def split: option.splits)
      show ?thesis
      proof (cases "did = ?d")
        case True
        then have "events_to did r = []" using assms(2) [of did] less by (simp add: chan_ok_def)
        then show ?thesis using g(2) True e by (auto simp: chan_ok_def chan_run_def n)
      next
        case False
        then show ?thesis using assms(2) [of did] g(1) less by (auto simp: chan_ok_def e n)
      qed
    qed
  qed
qed

section \<open>Reachable states\<close>

definition router_ok :: "router \<Rightarrow> bool" where
  "router_ok r \<longleftrightarrow> links_ok r \<and> heap_ok r \<and> displays_ok r \<and> timers_ok r \<and> (\<forall>did. chan_ok r did)"

lemma router_ok_new: "router_ok (router_new (manager_new reg))"
  by (simp add: router_ok_def router_new_def links_ok_def table_ok_new heap_ok_def displays_ok_def timers_ok_def
      chan_ok_def events_to_def chan_run_def live_ok_def manager_new_def table_new_def get_renderer_def links_lead_def)
    (simp add: table_ok_new [unfolded table_new_def])

lemma step_router_ok: "router_step r r' \<Longrightarrow> router_ok r \<Longrightarrow> router_ok r'"
  by (simp add: router_ok_def step_links_ok step_heap_ok step_displays_ok step_timers_ok step_chans_ok)

lemma reachable_ok: "router_reachable (manager_new reg) r \<Longrightarrow> router_ok r"
  by (induction rule: router_reachable.induct) (auto intro: router_ok_new step_router_ok)

section \<open>The methods are sequences of steps\<close>

abbreviation runs :: "router \<Rightarrow> router \<Rightarrow> bool" where
  "runs \<equiv> router_step\<^sup>*\<^sup>*"

lemma runs_step: "router_step r r' \<Longrightarrow> runs r r'" by (rule r_into_rtranclp)

lemma runs_fold: "(\<And>x r. runs r (f x r)) \<Longrightarrow> runs r (fold f xs r)"
proof (induction xs arbitrary: r)
  case (Cons x xs)
  then show ?case using rtranclp_trans [of router_step r "f x r"] by simp
qed simp

lemma runs_trans: "runs r r1 \<Longrightarrow> runs r1 r2 \<Longrightarrow> runs r r2"
  by (rule rtranclp_trans)

lemma runs_emit: "runs r (emit ev r)" by (rule runs_step) (rule router_step.emit)

lemma runs_emit_display: "runs r (emit_display did r)"
  by (simp add: emit_display_def runs_emit split: option.split)

lemma runs_emit_renderer: "runs r (emit_renderer rid r)"
  by (simp add: emit_renderer_def runs_emit split: option.split)

lemma runs_sync: "runs r (sync_display did r)" by (rule runs_step) (rule router_step.sync)

lemma runs_resync: "runs r (resync_display_set_config did r)" by (rule runs_step) (rule router_step.resync)

lemma runs_reconcile_lifecycle: "runs r (reconcile_lifecycle r)"
proof -
  obtain acts r1 where d: "lifecycle_diff r = (acts, r1)" by force
  then have "runs r r1" using runs_step [OF router_step.diff [of r]] by simp
  also have "runs r1 (fold control acts r1)" by (rule runs_fold) (rule runs_step, rule router_step.control)
  also have "runs (fold control acts r1) (fold (\<lambda>a. emit_renderer (fst a)) acts (fold control acts r1))"
    by (rule runs_fold) (rule runs_emit_renderer)
  finally show ?thesis by (simp add: reconcile_lifecycle_def d)
qed

lemma runs_reconcile_buffer_flags: "runs r (reconcile_buffer_flags r)"
  unfolding reconcile_buffer_flags_def by (rule runs_fold) (rule runs_step, rule router_step.dispatch)

lemma runs_emit_if: "runs r (if b then emit ev r else r)"
  by (simp add: runs_emit)

lemma runs_unregister_renderer: "runs r (unregister_renderer rid r)"
proof -
  obtain ds r1 where d: "drop_renderer rid r = (ds, r1)" by force
  let ?r3 = "fold sync_display ds (emit (RendererRemoved rid) r1)"
  have "runs r r1" using runs_step [OF router_step.drop [of r rid]] d by simp
  also have "runs r1 (emit (RendererRemoved rid) r1)" by (rule runs_emit)
  also have "runs (emit (RendererRemoved rid) r1) ?r3" by (rule runs_fold) (rule runs_sync)
  also have "runs ?r3 (reconcile_lifecycle ?r3)" by (rule runs_reconcile_lifecycle)
  finally show ?thesis
    using runs_emit [of "reconcile_lifecycle ?r3"] by (auto simp: unregister_renderer_def d Let_def intro: runs_trans)
qed

lemma runs_kill: "runs r (kill_renderer rid r)" by (rule runs_step) (rule router_step.kill)

lemma runs_kill_orphan_now: "runs r (kill_orphan_now rid r)"
  unfolding kill_orphan_now_def by (rule runs_trans [OF runs_unregister_renderer runs_kill])

lemma runs_cancel: "runs r (cancel_orphan_timer rid r)" by (rule runs_step) (rule router_step.cancel)

lemma runs_mark_orphans: "runs r (snd (mark_orphans keep r))"
proof -
  let ?r1 = "fold (\<lambda>rid. if lone_without_displays r then schedule_orphan_grace rid else kill_orphan_now rid) (orphan_candidates keep r) r"
  have "runs r ?r1"
  proof (rule runs_fold)
    show "runs q ((if lone_without_displays r then schedule_orphan_grace x else kill_orphan_now x) q)" for x q
      using runs_kill_orphan_now [of q x] runs_step [OF router_step.orphan [of q x]] by simp
  qed
  then show ?thesis
    using runs_cancel [of ?r1] by (auto simp: mark_orphans_def Let_def intro: runs_trans split: option.split)
qed

lemma runs_resync_all: "runs r (fold resync_display_set_config ds r)"
  by (rule runs_fold) (rule runs_resync)

lemma runs_after_relink: "runs r (after_relink ds rid r)"
proof -
  let ?r1 = "fold sync_display ds r" let ?r2 = "reconcile_lifecycle ?r1"
  let ?r3 = "snd (mark_orphans (Some rid) ?r2)" let ?r4 = "reconcile_buffer_flags ?r3"
  have "runs r ?r1" by (rule runs_fold) (rule runs_sync)
  also have "runs ?r1 ?r2" by (rule runs_reconcile_lifecycle)
  also have "runs ?r2 ?r3" by (rule runs_mark_orphans)
  also have "runs ?r3 ?r4" by (rule runs_reconcile_buffer_flags)
  finally show ?thesis using runs_emit [of ?r4] by (auto simp: after_relink_def Let_def intro: runs_trans)
qed

lemma runs_relink: "length dids \<le> link_room (r_table r) \<Longrightarrow> runs r (relink_displays_to dids rid r)"
  using runs_step [OF router_step.relink [of dids r rid]] runs_after_relink
  by (auto simp: relink_displays_to_def split: prod.split intro: runs_trans)

lemma runs_relink_all:
  assumes "length (r_displays r) \<le> link_room (r_table r)"
  shows "runs r (relink_all_displays_to rid r)"
proof -
  let ?ids = "hm_keys (r_displays r)"
  have "relink_section ?ids rid r = (?ids, r\<lparr>r_table := fold (relink_one rid) ?ids (r_table r)\<rparr>)"
  proof -
    have "filter (\<lambda>did. hm_get (r_displays r) did \<noteq> None) ?ids = ?ids"
      by (auto simp: filter_id_conv map_of_eq_None_iff)
    then show ?thesis by (simp add: relink_section_def Let_def)
  qed
  then show ?thesis
    using runs_relink [of ?ids r rid] assms by (simp add: relink_displays_to_def relink_all_displays_to_def Let_def)
qed

end
