(* ===== verification/Router_Service.thy ===== *)
theory Router_Service
  imports Router_Runs
begin

text \<open>
  The router as a service. Every public method, every event of a renderer and every task that
  wakes up is a request; serving one without interruption is a sequence of steps, so whatever
  holds of the reachable states holds after any requests, served in any order and interleaved
  in any way. The properties of the whole follow.
\<close>

section \<open>Requests\<close>

datatype request =
    Spawned renderer_handle
  | ReaderEvent renderer_id event_msg "nat list"
  | ReaderEnds renderer_id
  | SettingsChange "store option"
  | RegisterRenderer renderer_id
  | UnregisterRenderer renderer_id
  | RendererEvent renderer_id event_msg
  | StopRenderers "renderer_id list"
  | StopOrderly "renderer_id list" "(display_id \<times> u64) list"
  | Evict renderer_id
  | RegisterDisplay display_registration
  | UnregisterDisplay display_id
  | ConsumerCaps display_id peer_caps
  | ConsumerBindFailed display_id u32 u64
  | DisplaySize display_id u32 u32
  | WindowState display_id u32
  | SessionState "bool option" "bool option"
  | ManualPause bool
  | ResumeFires display_id u64
  | SessionResumeFires u64
  | OrphanFires nat renderer_id
  | MarkOrphan renderer_id
  | Relink "display_id list" renderer_id
  | RelinkAll renderer_id
  | LinkGeometry link_id "link_rect option" "link_rect option" "u32 option" "rgba option" "i32 option"
  | WallpaperLayout renderer_id layout_override
  | DisplayLayout "display_id option" layout_change
  | DisplayAlias "display_id option" "string option" bool
  | ResyncAll

fun serve :: "request \<Rightarrow> router \<Rightarrow> router" where
  "serve (Spawned h) r = r\<lparr>r_mgr := insert_handle h (r_mgr r)\<rparr>"
| "serve (ReaderEvent rid ev fds) r =
     (case Option.bind (hm_get (mg_handles (r_mgr r)) rid) (reader_step ev fds) of
        Some h \<Rightarrow> r\<lparr>r_mgr := update_handle rid (\<lambda>_. h) (r_mgr r)\<rparr> | None \<Rightarrow> r)"
| "serve (ReaderEnds rid) r = r\<lparr>r_mgr := mark_dead rid (r_mgr r)\<rparr>"
| "serve (SettingsChange st) r = r\<lparr>r_settings := st\<rparr>"
| "serve (RegisterRenderer rid) r = register_renderer rid r"
| "serve (UnregisterRenderer rid) r = unregister_renderer rid r"
| "serve (RendererEvent rid ev) r = on_event rid ev r"
| "serve (StopRenderers ids) r = stop_renderers ids r"
| "serve (StopOrderly ids acks) r = stop_renderers_orderly ids acks r"
| "serve (Evict rid) r = evict rid r"
| "serve (RegisterDisplay reg) r = snd (router_register_display reg r)"
| "serve (UnregisterDisplay did) r = router_unregister_display did r"
| "serve (ConsumerCaps did caps) r = set_consumer_caps did caps r"
| "serve (ConsumerBindFailed did fourcc modifier) r = on_consumer_bind_failed did fourcc modifier r"
| "serve (DisplaySize did w h) r = update_display_size did w h r"
| "serve (WindowState did flags) r = update_display_window_state did flags r"
| "serve (SessionState locked inactive) r = update_session_state locked inactive r"
| "serve (ManualPause p) r = set_manual_pause p r"
| "serve (ResumeFires did gen) r = fire_resume did gen r"
| "serve (SessionResumeFires gen) r = fire_session_resume gen r"
| "serve (OrphanFires t rid) r = fire_orphan_reap t rid r"
| "serve (MarkOrphan rid) r = mark_orphan rid r"
| "serve (Relink dids rid) r = relink_displays_to dids rid r"
| "serve (RelinkAll rid) r = relink_all_displays_to rid r"
| "serve (LinkGeometry lid src dst transform clear z) r = snd (set_link_geometry lid src dst transform clear z r)"
| "serve (WallpaperLayout rid layout) r = snd (set_renderer_wallpaper_layout_override rid layout r)"
| "serve (DisplayLayout did c) r = snd (set_display_layout did c r)"
| "serve (DisplayAlias did new clear) r = snd (set_display_alias did new clear r)"
| "serve ResyncAll r = resync_all_set_configs r"

text \<open>
  When a request can be made: a renderer is registered with the handle the manager made, ids are
  left for a new display and the links it takes, and a task fires only once, when it was scheduled.
\<close>

fun servable :: "request \<Rightarrow> router \<Rightarrow> bool" where
  "servable (Spawned h) r \<longleftrightarrow> hm_get (mg_handles (r_mgr r)) (rh_id h) = None"
| "servable (RegisterRenderer rid) r \<longleftrightarrow> hm_get (mg_handles (r_mgr r)) rid \<noteq> None"
| "servable (RegisterDisplay reg) r \<longleftrightarrow> r_next_display r \<noteq> - 1 \<and> 0 < link_room (r_table r)"
| "servable (Relink dids rid) r \<longleftrightarrow> length dids \<le> link_room (r_table r)"
| "servable (RelinkAll rid) r \<longleftrightarrow> length (r_displays r) \<le> link_room (r_table r)"
| "servable (ResumeFires did gen) r \<longleftrightarrow> (did, gen) \<in> r_resume r"
| "servable (SessionResumeFires gen) r \<longleftrightarrow> gen \<in> r_session_resume r"
| "servable (OrphanFires t rid) r \<longleftrightarrow> (t, rid) \<in> r_sleeping r"
| "servable _ r \<longleftrightarrow> True"

lemma runs_register_renderer:
  assumes "hm_get (mg_handles (r_mgr r)) rid \<noteq> None"
  shows "runs r (register_renderer rid r)"
  unfolding register_renderer_def
  by (rule runs_trans [OF runs_step [OF router_step.register [OF assms]] runs_reconcile_lifecycle])

lemma runs_set_mgr: "router_step r r' \<Longrightarrow> runs r (reconcile_buffer_flags r')"
  by (rule runs_trans [OF runs_step runs_reconcile_buffer_flags])

lemma runs_on_renderer_bind: "runs r (on_renderer_bind rid r)"
proof -
  let ?r1 = "fold sync_display (map lk_display (active_links r rid)) r"
  have "runs r ?r1" by (rule runs_fold) (rule runs_sync)
  also have "runs ?r1 (reconcile_buffer_flags ?r1)" by (rule runs_reconcile_buffer_flags)
  also have "runs (reconcile_buffer_flags ?r1) (emit_renderer rid (reconcile_buffer_flags ?r1))" by (rule runs_emit_renderer)
  finally show ?thesis by (simp add: on_renderer_bind_def Let_def)
qed

lemma runs_recolor: "runs r (snd (fold (recolor_step c) lids (ds, r)))"
proof (induction lids arbitrary: ds r)
  case (Cons lid lids)
  obtain ds' r' where e: "recolor_step c lid (ds, r) = (ds', r')" by force
  then have "router_step r r'" using router_step.recolor [of r c lid ds] by simp
  then show ?case using Cons.IH [of r' ds'] e by (auto intro: runs_trans)
qed simp

lemma runs_state_changed: "runs r (on_renderer_state_changed rid r)"
proof (cases "table_handle r rid")
  case (Some h)
  let ?p = "fold (recolor_step (rh_clear h)) (map lk_id (links_for_renderer (r_table r) rid)) ([], r)"
  have "runs r (fold resync_display_set_config (fst ?p) (snd ?p))"
    by (rule runs_trans [OF runs_recolor runs_resync_all])
  then show ?thesis by (simp add: on_renderer_state_changed_def Some case_prod_beta)
qed (simp add: on_renderer_state_changed_def)

lemma runs_on_event: "runs r (on_event rid ev r)"
proof (cases ev)
  case (BindFailed fourcc modifier a b)
  show ?thesis
    using runs_set_mgr [OF router_step.blacklist [of r rid fourcc modifier]]
    by (simp add: BindFailed on_renderer_bind_failed_def)
qed (simp_all add: runs_on_renderer_bind runs_step [OF router_step.frame] runs_reconcile_buffer_flags runs_state_changed)

lemma runs_stop_renderers: "runs r (stop_renderers ids r)"
  unfolding stop_renderers_def
  by (rule runs_fold) (rule runs_trans [OF runs_unregister_renderer runs_kill])

lemma runs_stop_orderly: "runs r (stop_renderers_orderly ids acks r)"
proof -
  let ?r1 = "fold begin_unbind_ack_tracking ids r" let ?r2 = "fold unregister_renderer ids ?r1"
  let ?r3 = "fold record_unbind_done acks ?r2" let ?r4 = "fold finish_unbind_acks ids ?r3"
  have 1: "runs r ?r1" by (rule runs_fold) (rule runs_step, rule router_step.begin_acks)
  have 2: "runs ?r1 ?r2" by (rule runs_fold) (rule runs_unregister_renderer)
  have 3: "runs ?r2 ?r3" by (rule runs_fold) (rule runs_step, rule router_step.ack)
  have 4: "runs ?r3 ?r4" by (rule runs_fold) (rule runs_step, rule router_step.finish_acks)
  have 5: "runs ?r4 (fold kill_renderer ids ?r4)" by (rule runs_fold) (rule runs_kill)
  show ?thesis
    unfolding stop_renderers_orderly_def Let_def
    by (rule runs_trans [OF 1 runs_trans [OF 2 runs_trans [OF 3 runs_trans [OF 4 5]]]])
qed

lemma runs_evict: "runs r (Router.evict rid r)"
proof -
  let ?r1 = "r\<lparr>r_mgr := (r_mgr r)\<lparr>mg_live := removeAll rid (mg_live (r_mgr r))\<rparr>\<rparr>"
  let ?r2 = "unregister_renderer rid ?r1"
  have 1: "runs r ?r1" by (rule runs_step) (rule router_step.evict)
  have 2: "runs ?r2 (?r2\<lparr>r_mgr := update_handle rid (\<lambda>h. h\<lparr>rh_child := False\<rparr>) (r_mgr ?r2)\<rparr>)"
    by (rule runs_step) (rule router_step.reaped)
  show ?thesis
    using runs_trans [OF runs_trans [OF 1 runs_unregister_renderer] 2] by (simp add: evict_def Let_def)
qed

lemma runs_add_display:
  assumes "servable (RegisterDisplay reg) r"
  shows "runs r (snd (router_register_display reg r))"
proof -
  let ?r0 = "migrate_settings reg r"
  obtain did auto r1 where a: "add_display reg ?r0 = (did, auto, r1)" by (cases "add_display reg ?r0")
  let ?r2 = "case auto of Some rid \<Rightarrow> cancel_orphan_timer rid r1 | None \<Rightarrow> r1"
  have "\<exists>st. ?r0 = r\<lparr>r_settings := st\<rparr>"
  proof -
    have "\<exists>st. r = r\<lparr>r_settings := st\<rparr>" by (rule exI [of _ "r_settings r"]) simp
    then show ?thesis by (auto simp: migrate_settings_def split: option.split)
  qed
  then obtain st where r0: "?r0 = r\<lparr>r_settings := st\<rparr>" ..
  have 0: "runs r ?r0" unfolding r0 by (rule runs_step) (rule router_step.settings)
  have "router_step ?r0 (snd (snd (add_display reg ?r0)))"
    using assms by (intro router_step.arrive) (simp_all add: r0)
  then have 1: "runs ?r0 r1" using a by (simp add: runs_step)
  have 2: "runs r1 ?r2" by (simp add: runs_cancel split: option.split)
  have 3: "runs ?r2 (emit_display did (reconcile_buffer_flags (reconcile_lifecycle (sync_display did ?r2))))"
    by (rule runs_trans [OF runs_sync runs_trans [OF runs_reconcile_lifecycle runs_trans [OF runs_reconcile_buffer_flags runs_emit_display]]])
  show ?thesis
    using runs_trans [OF runs_trans [OF 0 1] runs_trans [OF 2 3]]
    by (simp add: router_register_display_def a Let_def)
qed

lemma runs_remove_display: "runs r (router_unregister_display did r)"
proof -
  let ?r1 = "snd (mark_orphans None (drop_display did r))"
  have 1: "runs r (drop_display did r)" by (rule runs_step) (rule router_step.leave)
  have 2: "runs (drop_display did r) ?r1" by (rule runs_mark_orphans)
  have 3: "runs ?r1 (emit (DisplayRemoved did) (reconcile_buffer_flags (reconcile_lifecycle ?r1)))"
    by (rule runs_trans [OF runs_reconcile_lifecycle runs_trans [OF runs_reconcile_buffer_flags runs_emit]])
  show ?thesis
    using runs_trans [OF 1 runs_trans [OF 2 3]] by (simp add: router_unregister_display_def Let_def)
qed

lemma runs_size: "runs r (update_display_size did w h r)"
proof (cases "w = 0 \<or> h = 0 \<or> hm_get (r_displays r) did = None")
  case False
  let ?r1 = "modify_display did (\<lambda>s. s\<lparr>ds_info := (ds_info s)\<lparr>di_width := w, di_height := h\<rparr>\<rparr>) r"
  have 1: "runs r ?r1" by (rule runs_step) (rule router_step.size)
  then have "runs r (emit_display did ?r1)" "runs r (emit_display did (resync_display_set_config did ?r1))"
    by (rule runs_trans [OF _ runs_emit_display], rule runs_trans [OF _ runs_trans [OF runs_resync runs_emit_display]])
  with False show ?thesis by (auto simp: update_display_size_def Let_def split: option.split)
qed (auto simp: update_display_size_def)

lemma runs_window: "runs r (update_display_window_state did flags r)"
proof -
  obtain act r1 where e: "window_state_section did flags r = (act, r1)" by force
  have "router_step r (window_step did flags r)" by (rule router_step.window)
  then have "runs r (window_step did flags r)" by (rule runs_step)
  then show ?thesis
    using runs_reconcile_lifecycle [of r1]
    by (cases act) (auto simp: window_step_def update_display_window_state_def e intro: runs_trans)
qed

lemma runs_session: "runs r (update_session_state locked inactive r)"
proof -
  obtain act r1 where e: "session_section locked inactive r = (act, r1)" by force
  have "router_step r (session_step locked inactive r)" by (rule router_step.session)
  then have "runs r (session_step locked inactive r)" by (rule runs_step)
  then show ?thesis
    using runs_reconcile_lifecycle [of r1]
    by (cases act) (auto simp: session_step_def update_session_state_def e intro: runs_trans)
qed

lemma runs_manual: "runs r (set_manual_pause p r)"
  using runs_trans [OF runs_step [OF router_step.manual [of r p]] runs_reconcile_lifecycle]
  by (simp add: set_manual_pause_def)

lemma runs_fire_resume: "(did, gen) \<in> r_resume r \<Longrightarrow> runs r (fire_resume did gen r)"
  using runs_step [OF router_step.resume [of did gen r]] runs_reconcile_lifecycle
  by (auto simp: fire_resume_def Let_def split: prod.split intro: runs_trans)

lemma runs_fire_session: "gen \<in> r_session_resume r \<Longrightarrow> runs r (fire_session_resume gen r)"
  using runs_step [OF router_step.session_resume [of gen r]] runs_reconcile_lifecycle
  by (auto simp: fire_session_resume_def Let_def intro: runs_trans)

lemma runs_fire_orphan: "(t, rid) \<in> r_sleeping r \<Longrightarrow> runs r (fire_orphan_reap t rid r)"
proof -
  assume t: "(t, rid) \<in> r_sleeping r"
  obtain b r1 where e: "orphan_check rid (r\<lparr>r_sleeping := r_sleeping r - {(t, rid)}\<rparr>) = (b, r1)" by force
  have "runs r r1" using runs_step [OF router_step.reap [OF t]] e by simp
  then have "runs r (kill_renderer rid (unregister_renderer rid r1))"
    by (rule runs_trans [OF _ runs_trans [OF runs_unregister_renderer runs_kill]])
  with \<open>runs r r1\<close> show ?thesis by (simp add: fire_orphan_reap_def e)
qed

lemma runs_geometry: "runs r (snd (set_link_geometry lid src dst transform clear z r))"
proof -
  obtain ok p r1 where e: "geometry_section lid src dst transform clear z r = (ok, p, r1)"
    by (cases "geometry_section lid src dst transform clear z r")
  have 1: "runs r r1" using runs_step [OF router_step.geometry [of r lid src dst transform clear z]] e by simp
  show ?thesis
  proof (cases p)
    case (Some dc)
    have "runs r1 (send_config dc r1)" by (rule runs_step) (rule router_step.send_config)
    with 1 have "runs r (emit_display (fst dc) (send_config dc r1))"
      by (rule runs_trans [OF _ runs_trans [OF _ runs_emit_display]])
    then show ?thesis using Some e by (cases dc) (simp add: set_link_geometry_def)
  qed (use 1 e in \<open>simp add: set_link_geometry_def\<close>)
qed

lemma runs_override: "runs r (snd (set_renderer_wallpaper_layout_override rid layout r))"
proof -
  let ?r1 = "store_override rid layout r"
  let ?r2 = "fold resync_display_set_config (map lk_display (active_links ?r1 rid)) ?r1"
  have 1: "runs r ?r1" by (rule runs_step) (rule router_step.override)
  have 2: "runs r ?r2" by (rule runs_trans [OF 1 runs_resync_all])
  show ?thesis
    using 1 2 runs_trans [OF 2 runs_emit] by (simp add: set_renderer_wallpaper_layout_override_def Let_def)
qed

lemma runs_settings: "runs r (r\<lparr>r_settings := st\<rparr>)" by (rule runs_step) (rule router_step.settings)

lemma runs_layout: "runs r (snd (set_display_layout did c r))"
  using runs_trans [OF runs_settings runs_trans [OF runs_resync runs_emit_display]]
  by (simp add: set_display_layout_def Let_def split: option.split prod.split)

lemma runs_alias: "runs r (snd (set_display_alias did new clear r))"
  using runs_trans [OF runs_settings runs_emit_display]
  by (simp add: set_display_alias_def Let_def split: option.split prod.split)

lemma runs_reader: "runs r (serve (ReaderEvent rid ev fds) r)"
  by (auto simp: Option.bind_eq_Some_conv split: option.split intro!: runs_step router_step.reader)

lemma serve_runs: "servable q r \<Longrightarrow> runs r (serve q r)"
proof (cases q)
  case (ConsumerCaps did caps)
  have "runs r (reconcile_buffer_flags (modify_display did (\<lambda>s. s\<lparr>ds_caps := Some caps\<rparr>) r))"
    by (rule runs_set_mgr) (rule router_step.caps)
  then show ?thesis by (simp add: ConsumerCaps set_consumer_caps_def)
next
  case (ConsumerBindFailed did fourcc modifier)
  have "runs r (reconcile_buffer_flags (modify_display did (\<lambda>s. s\<lparr>ds_caps := Some c\<rparr>) r))" for c
    by (rule runs_set_mgr) (rule router_step.caps)
  then show ?thesis by (simp add: ConsumerBindFailed on_consumer_bind_failed_def split: option.split)
next
  case (MarkOrphan rid)
  then show ?thesis
    using runs_kill_orphan_now [of r rid] runs_step [OF router_step.orphan [of r rid]] by (simp add: mark_orphan_def)
next
  case (ReaderEvent rid ev fds)
  then show ?thesis using runs_reader by blast
qed (simp_all add: runs_settings runs_step [OF router_step.spawn] runs_step [OF router_step.dead] runs_register_renderer runs_unregister_renderer runs_on_event runs_stop_renderers runs_stop_orderly
  runs_evict runs_add_display runs_remove_display runs_size runs_window runs_session runs_manual runs_fire_resume
  runs_fire_session runs_fire_orphan runs_relink runs_relink_all runs_geometry runs_override runs_layout runs_alias
  runs_resync_all resync_all_set_configs_def)

primrec serve_all :: "request list \<Rightarrow> router \<Rightarrow> router option" where
  "serve_all [] r = Some r"
| "serve_all (q # qs) r = (if servable q r then serve_all qs (serve q r) else None)"

lemma reachable_runs: "router_reachable m r \<Longrightarrow> runs r r' \<Longrightarrow> router_reachable m r'"
  by (rotate_tac, induction rule: rtranclp_induct) (auto intro: router_reachable.step)

lemma reachable_serve: "router_reachable m r \<Longrightarrow> servable q r \<Longrightarrow> router_reachable m (serve q r)"
  by (rule reachable_runs [OF _ serve_runs])

lemma reachable_serve_all: "router_reachable m r \<Longrightarrow> serve_all qs r = Some r' \<Longrightarrow> router_reachable m r'"
proof (induction qs arbitrary: r)
  case (Cons q qs)
  then show ?case by (metis serve_all.simps(2) reachable_serve option.distinct(1))
qed simp

end
