(* ===== verification/Channels.thy ===== *)
theory Channels
  imports Router_Runs
begin

text \<open>
  What is in the channels from the router (\<open>src/routing/router.rs\<close>) to the displays beyond their
  order: the numbers of the configurations, with those that \<open>set_link_geometry\<close> has numbered and
  not yet sent kept apart, and the generation of the pool a display is bound to.
\<close>

section \<open>Numbered configurations\<close>

text \<open>
  A refinement of \<open>router_step\<close>: \<open>P\<close> holds the configurations that were numbered in one critical
  section and are to be sent in another. The other ones are numbered and sent under one lock. With
  \<open>one\<close> nothing is numbered while one of them is under way, as if \<open>set_link_geometry\<close> kept the
  lock. The counter does not run over.
\<close>

inductive numbered_step ::
  "bool \<Rightarrow> router \<times> (display_id \<times> projected_config) list \<Rightarrow> router \<times> (display_id \<times> projected_config) list \<Rightarrow> bool"
  for one where
  geometry: "r_next_config r \<noteq> - 1 \<Longrightarrow> (one \<longrightarrow> P = []) \<Longrightarrow>
    geometry_section lid src dst transform clear z r = (ok, dc, r') \<Longrightarrow>
    numbered_step one (r, P) (r', P @ (case dc of None \<Rightarrow> [] | Some x \<Rightarrow> [x]))"
| deferred: "x \<in> set P \<Longrightarrow> numbered_step one (r, P) (send_config x r, remove1 x P)"
| sync: "r_next_config r \<noteq> - 1 \<Longrightarrow> (one \<longrightarrow> P = []) \<Longrightarrow> numbered_step one (r, P) (sync_display did r, P)"
| resync: "r_next_config r \<noteq> - 1 \<Longrightarrow> (one \<longrightarrow> P = []) \<Longrightarrow>
    numbered_step one (r, P) (resync_display_set_config did r, P)"
| frame: "numbered_step one (r, P) (on_renderer_frame rid index seq point r, P)"
| silent: "router_step r r' \<Longrightarrow> r_sent r' = r_sent r \<Longrightarrow> r_next_config r' = r_next_config r \<Longrightarrow>
    numbered_step one (r, P) (r', P)"

inductive numbered_reachable ::
  "bool \<Rightarrow> manager \<Rightarrow> router \<times> (display_id \<times> projected_config) list \<Rightarrow> bool" for one m where
  init: "numbered_reachable one m (router_new m, [])"
| step: "numbered_reachable one m s \<Longrightarrow> numbered_step one s s' \<Longrightarrow> numbered_reachable one m s'"

lemma geometry_router_step: "geometry_section lid src dst tr cl z r = (ok, dc, r') \<Longrightarrow> router_step r r'"
  using router_step.geometry [of r lid src dst tr cl z] by simp

lemma numbered_router_step: "numbered_step one s s' \<Longrightarrow> router_step (fst s) (fst s')"
  by (induction rule: numbered_step.induct) (auto intro: router_step.intros geometry_router_step)

lemma numbered_router_reachable: "numbered_reachable one m s \<Longrightarrow> router_reachable m (fst s)"
  by (induction rule: numbered_reachable.induct) (auto intro: router_reachable.intros dest: numbered_router_step)

text \<open>Nothing is left out but configurations nobody numbered.\<close>

lemma numbered_complete:
  assumes "router_step r r'" and "r_next_config r \<noteq> - 1"
  shows "(\<exists>dc. r' = send_config dc r) \<or> (\<exists>P'. numbered_step False (r, P) (r', P'))"
proof -
  from assms(1) show ?thesis
  proof (cases rule: router_step.cases)
    case (geometry lid src dst transform clear z)
    then show ?thesis
      using numbered_step.geometry [OF assms(2), of False P lid src dst transform clear z]
      by (cases "geometry_section lid src dst transform clear z r") auto
  next
    case (send_config dc)
    then show ?thesis by blast
  next
    case (sync did)
    then show ?thesis using numbered_step.sync [OF assms(2), of False P did] by auto
  next
    case (resync did)
    then show ?thesis using numbered_step.resync [OF assms(2), of False P did] by auto
  next
    case (frame rid index seq point)
    then show ?thesis using numbered_step.frame [of False r P rid index seq point] by auto
  next
    case (diff)
    have "r_sent r' = r_sent r" "r_next_config r' = r_next_config r" using diff diff_shape [of r] by auto
    then show ?thesis using numbered_step.silent [OF assms(1)] by blast
  next
    case (window did flags)
    have "r_sent r' = r_sent r" "r_next_config r' = r_next_config r"
      by (auto simp: window window_step_def window_state_section_def modify_display_def Let_def split: option.split pause_action.split prod.split)
    then show ?thesis using numbered_step.silent [OF assms(1)] by blast
  next
    case (session locked inactive)
    have "r_sent r' = r_sent r" "r_next_config r' = r_next_config r"
      by (auto simp: session session_step_def session_section_def Let_def split: pause_action.split)
    then show ?thesis using numbered_step.silent [OF assms(1)] by blast
  next
    case (resume did gen)
    have "r_sent r' = r_sent r" "r_next_config r' = r_next_config r"
      by (auto simp: resume resume_section_def modify_display_def split: option.split)
    then show ?thesis using numbered_step.silent [OF assms(1)] by blast
  next
    case (arrive reg)
    have "r_sent r' = r_sent r" "r_next_config r' = r_next_config r"
      by (auto simp: arrive add_display_def Let_def split: option.split)
    then show ?thesis using numbered_step.silent [OF assms(1)] by blast
  next
    case (recolor c lid ds)
    have "r_sent r' = r_sent r" "r_next_config r' = r_next_config r" by (simp_all add: recolor recolor_shape)
    then show ?thesis using numbered_step.silent [OF assms(1)] by blast
  next
    case (drop rid)
    have "r_sent r' = r_sent r" "r_next_config r' = r_next_config r"
      by (simp_all add: drop drop_renderer_def abort_timer_def Let_def split: prod.split option.split)
    then show ?thesis using numbered_step.silent [OF assms(1)] by blast
  next
    case (dispatch p)
    then show ?thesis using numbered_step.silent [OF assms(1), of False P] by (auto simp: dispatch_def)
  qed (use numbered_step.silent [OF assms(1), of False P] in \<open>auto simp: relink_section_def kill_renderer_def control_def
      store_override_def emit_def begin_unbind_ack_tracking_def record_unbind_done_def finish_unbind_acks_def
      schedule_orphan_grace_def cancel_orphan_timer_def abort_timer_def orphan_check_def drop_display_def
      modify_display_def Let_def split: option.splits prod.splits\<close>)
qed

fun config_number :: "out_event \<Rightarrow> u64 list" where
  "config_number (SetConfig c) = [config_generation c]"
| "config_number _ = []"

definition config_numbers :: "out_event list \<Rightarrow> u64 list" where
  "config_numbers evs = concat (map config_number evs)"

lemma config_numbers_simps [simp]:
  "config_numbers [] = []" "config_numbers (xs @ ys) = config_numbers xs @ config_numbers ys"
  "config_numbers (Bind rid # xs) = config_numbers xs" "config_numbers (Unbind g # xs) = config_numbers xs"
  "config_numbers (Frame rid g index seq point n # xs) = config_numbers xs"
  "config_numbers (SetConfig c # xs) = config_generation c # config_numbers xs"
  by (simp_all add: config_numbers_def)

lemma project_generation [simp]: "config_generation (project_link l h i g lay) = g"
  by (simp add: project_link_def Let_def split: prod.split)

text \<open>The numbers used, in the order they were sent, and then those still to be sent.\<close>

definition used_numbers :: "router \<times> (display_id \<times> projected_config) list \<Rightarrow> u64 list" where
  "used_numbers s = config_numbers (map snd (r_sent (fst s))) @ map (config_generation \<circ> snd) (snd s)"

definition numbers_ok :: "bool \<Rightarrow> router \<times> (display_id \<times> projected_config) list \<Rightarrow> bool" where
  "numbers_ok one s \<longleftrightarrow> distinct (used_numbers s) \<and> (\<forall>g \<in> set (used_numbers s). g \<le> r_next_config (fst s)) \<and>
     (one \<longrightarrow> sorted_wrt (<) (used_numbers s) \<and> length (snd s) \<le> 1)"

text \<open>A new number is sent at once, or kept, at the end of the numbers used.\<close>

lemma numbers_ok_snoc:
  assumes "numbers_ok one (r, P)" and "r_next_config r \<noteq> - 1" and "r_next_config r' = r_next_config r + 1"
    and "set (used_numbers (r', P')) = insert (r_next_config r + 1) (set (used_numbers (r, P)))"
    and "length (used_numbers (r', P')) = Suc (length (used_numbers (r, P)))"
    and "one \<Longrightarrow> used_numbers (r', P') = used_numbers (r, P) @ [r_next_config r + 1] \<and> length P' \<le> 1"
  shows "numbers_ok one (r', P')"
proof -
  have less: "r_next_config r < r_next_config r + 1" by (rule word_inc_greater [OF assms(2)])
  have old: "\<forall>g \<in> set (used_numbers (r, P)). g < r_next_config r + 1"
    using assms(1) less by (auto simp: numbers_ok_def)
  have "card (set (used_numbers (r', P'))) = Suc (card (set (used_numbers (r, P))))"
    using old by (simp add: assms(4)) (metis card_insert_disjoint List.finite_set order_less_irrefl)
  then have "distinct (used_numbers (r', P'))"
    using assms(1,5) by (simp add: numbers_ok_def card_distinct distinct_card)
  moreover have "sorted_wrt (<) (used_numbers (r', P')) \<and> length P' \<le> 1" if one
    using assms(1) assms(6) [OF that] old that by (auto simp: numbers_ok_def sorted_wrt_append)
  ultimately show ?thesis using old by (auto simp: numbers_ok_def assms(3,4) less_imp_le)
qed

lemma sync_numbers:
  "sync_display did r = r \<or> (\<exists>xs. r_sent (sync_display did r) = r_sent r @ xs \<and>
     (config_numbers (map snd xs) = [] \<and> r_next_config (sync_display did r) = r_next_config r \<or>
      config_numbers (map snd xs) = [r_next_config r + 1] \<and> r_next_config (sync_display did r) = r_next_config r + 1))"
proof (cases rule: sync_display_cases [of did r])
  case (bind s l h g)
  have "config_numbers (retire_events s) = []" "config_numbers (replay_events h g) = []"
    by (auto simp: retire_events_def replay_events_gen split: option.split)
  then show ?thesis
    unfolding sync_display_Some_eq [OF bind] by (auto simp: bind_config_def)
next
  case (unbind s)
  have "config_numbers (retire_events s) = []" by (simp add: retire_events_def split: option.split)
  then show ?thesis unfolding sync_display_None_eq [OF unbind] by auto
qed simp

lemma geometry_numbers:
  assumes "geometry_section lid src dst tr cl z r = (ok, dc, r')"
  shows "r_sent r' = r_sent r \<and>
    (dc = None \<and> r_next_config r' = r_next_config r \<or>
     (\<exists>d c. dc = Some (d, c) \<and> config_generation c = r_next_config r + 1 \<and> r_next_config r' = r_next_config r + 1))"
  using assms by (auto simp: geometry_section_def Let_def split: prod.splits if_splits option.splits)

lemma numbers_ok_keep:
  "numbers_ok one (r, P) \<Longrightarrow> config_numbers (map snd (r_sent r')) = config_numbers (map snd (r_sent r)) \<Longrightarrow>
    r_next_config r' = r_next_config r \<Longrightarrow> numbers_ok one (r', P)"
  by (simp add: numbers_ok_def used_numbers_def)

lemma numbers_ok_append:
  assumes "numbers_ok one (r, P)" and "r_next_config r \<noteq> - 1" and "one \<longrightarrow> P = []"
    and "config_numbers (map snd (r_sent r')) = config_numbers (map snd (r_sent r)) @ [r_next_config r + 1]"
    and "r_next_config r' = r_next_config r + 1"
  shows "numbers_ok one (r', P)"
  by (rule numbers_ok_snoc [OF assms(1,2,5)]) (use assms(3) in \<open>auto simp: used_numbers_def assms(4)\<close>)

lemma remove1_numbers: "x \<in> set P \<Longrightarrow> mset (config_generation (snd x) # map (config_generation \<circ> snd) (remove1 x P)) = mset (map (config_generation \<circ> snd) P)"
  by (induction P) auto

lemma numbered_step_ok: "numbered_step one s s' \<Longrightarrow> numbers_ok one s \<Longrightarrow> numbers_ok one s'"
proof (induction rule: numbered_step.induct)
  case (geometry r P lid src dst transform clear z ok dc r')
  from geometry_numbers [OF geometry(3)] show ?case
  proof (elim conjE disjE exE)
    fix d c assume r': "r_sent r' = r_sent r" "dc = Some (d, c)" "config_generation c = r_next_config r + 1"
      "r_next_config r' = r_next_config r + 1"
    show ?thesis
      by (rule numbers_ok_snoc [OF geometry(4,1) r'(4)]) (use geometry(2) in \<open>auto simp: used_numbers_def r'(1-3)\<close>)
  qed (use geometry(4) in \<open>simp add: numbers_ok_keep\<close>)
next
  case (deferred x P r)
  show ?case
  proof (cases "hm_get (r_displays r) (fst x) = None")
    case True
    have perm: "mset (config_generation (snd x) # used_numbers (r, remove1 x P)) = mset (used_numbers (r, P))"
      using remove1_numbers [OF deferred(1)] by (simp add: used_numbers_def)
    have "distinct (config_generation (snd x) # used_numbers (r, remove1 x P))"
      using deferred(2) mset_eq_imp_distinct_iff [OF perm] by (simp add: numbers_ok_def)
    moreover have "set (used_numbers (r, remove1 x P)) \<subseteq> set (used_numbers (r, P))"
      using mset_eq_setD [OF perm] by auto
    moreover have "sorted_wrt (<) (used_numbers (r, remove1 x P)) \<and> length (remove1 x P) \<le> 1" if one
    proof -
      have "length P \<le> 1" using deferred(2) that by (simp add: numbers_ok_def)
      with deferred(1) have "P = [x]" by (cases P) auto
      with deferred(2) that show ?thesis by (simp add: numbers_ok_def used_numbers_def sorted_wrt_append)
    qed
    ultimately show ?thesis using deferred(2) True by (auto simp: numbers_ok_def send_config_def)
  next
    case False
    let ?r' = "send_config x r"
    have r': "r_next_config ?r' = r_next_config r"
      "config_numbers (map snd (r_sent ?r')) = config_numbers (map snd (r_sent r)) @ [config_generation (snd x)]"
      using False by (simp_all add: send_config_def send_def)
    have same: "mset (used_numbers (?r', remove1 x P)) = mset (used_numbers (r, P))"
      using remove1_numbers [OF deferred(1)] by (simp add: used_numbers_def r')
    then have "set (used_numbers (?r', remove1 x P)) = set (used_numbers (r, P))" by (rule mset_eq_setD)
    moreover have "distinct (used_numbers (?r', remove1 x P))"
      using deferred(2) mset_eq_imp_distinct_iff [OF same] by (simp add: numbers_ok_def)
    moreover have "sorted_wrt (<) (used_numbers (?r', remove1 x P)) \<and> length (remove1 x P) \<le> 1" if one
    proof -
      have "length P \<le> 1" using deferred(2) that by (simp add: numbers_ok_def)
      with deferred(1) have "P = [x]" by (cases P) auto
      with deferred(2) that show ?thesis by (simp add: numbers_ok_def used_numbers_def r')
    qed
    ultimately show ?thesis using deferred(2) by (simp add: numbers_ok_def r')
  qed
next
  case (sync r P did)
  from sync_numbers [of did r] show ?case
  proof (elim disjE exE conjE)
    assume "sync_display did r = r"
    then show ?thesis using sync(3) by simp
  next
    fix xs assume "r_sent (sync_display did r) = r_sent r @ xs" "config_numbers (map snd xs) = []"
      "r_next_config (sync_display did r) = r_next_config r"
    then show ?thesis by (intro numbers_ok_keep [OF sync(3)]) simp_all
  next
    fix xs assume "r_sent (sync_display did r) = r_sent r @ xs" "config_numbers (map snd xs) = [r_next_config r + 1]"
      "r_next_config (sync_display did r) = r_next_config r + 1"
    then show ?thesis by (intro numbers_ok_append [OF sync(3,1,2)]) simp_all
  qed
next
  case (resync r P did)
  have "config_numbers (map snd (r_sent (resync_display_set_config did r))) =
      config_numbers (map snd (r_sent r)) @ [r_next_config r + 1] \<and>
      r_next_config (resync_display_set_config did r) = r_next_config r + 1 \<or>
    resync_display_set_config did r = r"
    by (auto simp: resync_display_set_config_def send_def Let_def split: option.split)
  then show ?case
  proof (elim disjE conjE)
    assume "config_numbers (map snd (r_sent (resync_display_set_config did r))) =
      config_numbers (map snd (r_sent r)) @ [r_next_config r + 1]"
      "r_next_config (resync_display_set_config did r) = r_next_config r + 1"
    then show ?thesis by (intro numbers_ok_append [OF resync(3,1,2)])
  qed (use resync(3) in simp)
next
  case (frame r P rid index seq point)
  show ?case
  proof (cases rule: frame_cases [of rid index seq point r])
    case (none recs)
    then show ?thesis by (intro numbers_ok_keep [OF frame]) simp_all
  next
    case (sent g n)
    have "config_numbers (map (\<lambda>d. Frame rid g index seq point n) ds) = []" for ds :: "display_id list"
      by (induction ds) simp_all
    then show ?thesis by (intro numbers_ok_keep [OF frame]) (simp_all add: sent comp_def)
  qed
next
  case (silent r r' P)
  then show ?case by (intro numbers_ok_keep [OF silent(4)]) simp_all
qed

lemma numbered_reachable_ok: "numbered_reachable one m s \<Longrightarrow> numbers_ok one s"
proof (induction rule: numbered_reachable.induct)
  case init
  show ?case by (simp add: numbers_ok_def used_numbers_def router_new_def)
next
  case (step s s')
  then show ?case using numbered_step_ok by blast
qed

section \<open>The generation a display is bound to\<close>

text \<open>
  \<open>Bind\<close> names a renderer and no generation. The pool the router means is the one that the frames
  and the \<open>Unbind\<close> after it name or, when there are none yet, the one it remembers.
\<close>

fun named_generation :: "out_event list \<Rightarrow> u64 option" where
  "named_generation (SetConfig c # evs) = named_generation evs"
| "named_generation (Frame rid g index seq point n # evs) = Some g"
| "named_generation (Unbind g # evs) = Some g"
| "named_generation [] = None"
| "named_generation (Bind rid # evs) = None"

definition bound_generation :: "display_id \<Rightarrow> nat \<Rightarrow> router \<Rightarrow> u64 option" where
  "bound_generation did n r =
     (case named_generation (drop n (events_to did r)) of
        Some g \<Rightarrow> Some g
      | None \<Rightarrow> Option.bind (hm_get (r_displays r) did) ds_last_gen)"

lemma named_append: "named_generation evs = Some g \<Longrightarrow> named_generation (evs @ evs') = Some g"
  by (induction evs rule: named_generation.induct) simp_all

text \<open>While a pool is bound, unnamed messages are configurations; a named pool keeps its name.\<close>

fun pool_of :: "chan \<Rightarrow> u64 option" where
  "pool_of (Bound rid g) = g"
| "pool_of _ = None"

lemma named_none:
  assumes "fold chan_step evs (Some c) = Some c'" and "c \<noteq> Unbound" and "named_generation evs = None"
  shows "(\<forall>e \<in> set evs. \<exists>k. e = SetConfig k) \<and> c' \<noteq> Unbound \<and> pool_of c' = pool_of c"
  using assms
proof (induction evs arbitrary: c rule: named_generation.induct)
  case (1 k evs)
  obtain c1 where c1: "chan_step (SetConfig k) (Some c) = Some c1" "c1 \<noteq> Unbound" "pool_of c1 = pool_of c"
    using 1(3) by (cases c) simp_all
  show ?case using 1(1) [OF _ c1(2)] 1(2,4) c1 by simp
next
  case (5 rid evs)
  then have "chan_step (Bind rid) (Some c) = None" by (cases c) simp_all
  moreover have "fold chan_step es None = None" for es by (induction es) simp_all
  ultimately show ?case using 5(1) by simp
qed simp_all

lemma named_known:
  assumes "fold chan_step evs (Some (Bound rid (Some g))) = Some c'" and "named_generation evs = Some g'"
  shows "g' = g"
  using assms
proof (induction evs rule: named_generation.induct)
  case (2 x h index seq point n evs)
  moreover have "fold chan_step es None = None" for es by (induction es) simp_all
  ultimately show ?case by (auto split: if_splits)
next
  case (3 h evs)
  moreover have "fold chan_step es None = None" for es by (induction es) simp_all
  ultimately show ?case by (auto split: if_splits)
qed simp_all

text \<open>What one step sends to a display that has a pool bound names this pool first.\<close>

lemma step_channel:
  assumes "router_step r r'" and "router_ok r" and "hm_get (r_displays r) did = Some s" and "ds_last_gen s = Some g"
  shows "\<exists>new. events_to did r' = events_to did r @ new \<and>
    (named_generation new = Some g \<or>
     named_generation new = None \<and> (\<forall>s'. hm_get (r_displays r') did = Some s' \<longrightarrow> ds_last_gen s' = Some g))"
proof -
  have keeps: "?thesis" if new: "events_to did r' = events_to did r \<or> (\<exists>k. events_to did r' = events_to did r @ [SetConfig k])"
    and d: "chans_kept r r'"
  proof -
    have "\<forall>s'. hm_get (r_displays r') did = Some s' \<longrightarrow> ds_last_gen s' = Some g"
      using d assms(3,4) unfolding chans_kept_def by force
    then show ?thesis using new by (metis append_Nil2 named_generation.simps(1,4))
  qed
  have syncs: "?thesis" if r': "r' = sync_display x r" for x
  proof (cases "sync_needed x r")
    case False
    then show ?thesis using assms(3,4) by (intro exI [of _ "[]"]) (simp add: r' sync_display_not_needed)
  next
    case True
    then obtain t where t: "hm_get (r_displays r) x = Some t" by (auto simp: sync_needed_def)
    note ex = sync_display_result [OF t True]
    show ?thesis
    proof (cases "x = did")
      case False
      have "events_to did r' = events_to did r" using ex False by (simp add: r' events_to_append)
      then show ?thesis using ex False assms(3,4) by (intro exI [of _ "[]"]) (simp add: r')
    next
      case True
      then have "retire_events t = [Unbind g]" using t assms(3,4) by (simp add: retire_events_def)
      then have "\<exists>more. events_to did r' = events_to did r @ Unbind g # more"
        using ex True by (simp add: r' events_to_append)
      then show ?thesis by (elim exE) (rule exI, rule conjI, assumption, simp)
    qed
  qed
  consider (same) "r_sent r' = r_sent r" | (sync) x where "r' = sync_display x r"
    | (config) x k where "r_sent r' = r_sent r @ [(x, SetConfig k)]" "displays_kept r r'"
    | (frame) rid index seq point where "r' = on_renderer_frame rid index seq point r"
    using step_sent [OF assms(1)] by blast
  then show ?thesis
  proof cases
    case sync
    then show ?thesis by (rule syncs)
  next
    case (config x k)
    have "events_to did r' = events_to did r @ (if x = did then [SetConfig k] else [])"
      by (simp add: events_to_append [OF config(1)])
    then show ?thesis by (intro keeps displays_kept_chans [OF config(2)]) (simp split: if_splits)
  next
    case (frame rid index seq point)
    show ?thesis
    proof (cases rule: frame_cases [of rid index seq point r])
      case (none recs)
      then show ?thesis using frame assms(3,4) by (intro exI [of _ "[]"]) (simp add: events_to_def)
    next
      case (sent g' n)
      let ?ds = "frame_recipients r rid g'"
      let ?k = "length (filter (\<lambda>x. x = did) ?ds)"
      have e: "events_to did r' = events_to did r @ replicate ?k (Frame rid g' index seq point n)"
        using frames_to [of did "Frame rid g' index seq point n" ?ds] by (simp add: frame sent events_to_append)
      show ?thesis
      proof (cases ?k)
        case 0
        then show ?thesis using e frame sent assms(3,4) by (intro exI [of _ "[]"]) simp
      next
        case (Suc k)
        then have "filter (\<lambda>x. x = did) ?ds \<noteq> []" by auto
        then have "did \<in> set ?ds" by (auto simp: filter_empty_conv)
        then have "g' = g" using assms(3,4) by (auto simp: frame_recipients_def)
        then show ?thesis using e Suc by (intro exI [of _ "replicate ?k (Frame rid g' index seq point n)"]) simp
      qed
    qed
  next
    case same
    then have e: "events_to did r' = events_to did r" by (simp add: events_to_def)
    from assms(1) show ?thesis
    proof (cases rule: step_displays)
      case kept
      then show ?thesis using e by (intro keeps displays_kept_chans) simp_all
    next
      case (sync x)
      then show ?thesis by (rule syncs)
    next
      case (window x flags)
      then show ?thesis using e chans_kept_window by (intro keeps) simp_all
    next
      case (resume x gen)
      then show ?thesis using e chans_kept_resume by (intro keeps) simp_all
    next
      case (arrive reg)
      have "did \<le> r_next_display r" using assms(2,3) by (auto simp: router_ok_def displays_ok_def display_ok_def)
      then have "did \<noteq> r_next_display r + 1" using word_inc_greater [OF arrive(2)] by auto
      then have "hm_get (r_displays r') did = Some s"
        using assms(3) by (auto simp: arrive(1) add_display_def Let_def split: option.splits)
      then show ?thesis using e assms(4) by (intro exI [of _ "[]"]) simp
    qed
  qed
qed

lemma chan_step_None [simp]: "fold chan_step evs None = None"
  by (induction evs) simp_all

lemma chan_run_take: "chan_run evs \<noteq> None \<Longrightarrow> chan_run (take n evs) \<noteq> None"
  using chan_run_append [of "take n evs" "drop n evs"] by (cases "chan_run (take n evs)") simp_all

lemma step_sent_grows:
  assumes "router_step r r'"
  shows "\<exists>xs. r_sent r' = r_sent r @ xs"
proof -
  have "\<exists>xs. r_sent (sync_display did r) = r_sent r @ xs" for did
  proof (cases rule: sync_display_cases [of did r])
    case (bind s l h ng)
    then show ?thesis using sync_display_Some_eq [OF bind] by simp
  next
    case (unbind s)
    then show ?thesis using sync_display_None_eq [OF unbind] by simp
  qed simp
  moreover have "\<exists>xs. r_sent (on_renderer_frame rid index seq point r) = r_sent r @ xs" for rid index seq point
    by (cases rule: frame_cases [of rid index seq point r]) simp_all
  ultimately show ?thesis using step_sent [OF assms] by auto
qed

lemma runs_sent_grows: "runs r r' \<Longrightarrow> \<exists>xs. r_sent r' = r_sent r @ xs"
  by (induction rule: rtranclp_induct) (use step_sent_grows in \<open>force+\<close>)

lemma runs_events:
  assumes "runs r r'" and "n \<le> length (events_to did r)"
  shows "n \<le> length (events_to did r') \<and> take n (events_to did r') = take n (events_to did r)"
proof -
  obtain xs where "r_sent r' = r_sent r @ xs" using runs_sent_grows [OF assms(1)] ..
  from events_to_append [OF this] show ?thesis using assms(2) by simp
qed

lemma named_configs: "\<forall>e \<in> set evs. \<exists>k. e = SetConfig k \<Longrightarrow> named_generation (evs @ evs') = named_generation evs'"
  by (induction evs) auto

text \<open>A display that is gone stays gone, and gets nothing.\<close>

lemma step_channel_gone:
  assumes "router_step r r'" and "router_ok r" and "hm_get (r_displays r) did = None" and "did \<le> r_next_display r"
  shows "hm_get (r_displays r') did = None \<and> events_to did r' = events_to did r \<and> did \<le> r_next_display r'"
proof -
  have syncs: "hm_get (r_displays (sync_display x r)) did = None \<and> events_to did (sync_display x r) = events_to did r" for x
  proof (cases "sync_needed x r")
    case True
    then obtain t where t: "hm_get (r_displays r) x = Some t" by (auto simp: sync_needed_def)
    then have "x \<noteq> did" using assms(3) by auto
    with sync_display_result [OF t True] assms(3) show ?thesis by (simp add: events_to_append)
  qed (simp add: sync_display_not_needed assms(3))
  have frames: "events_to did (on_renderer_frame rid index seq point r) = events_to did r" for rid index seq point
  proof (cases rule: frame_cases [of rid index seq point r])
    case (sent g n)
    have "did \<notin> set (frame_recipients r rid g)" using assms(3) by (simp add: frame_recipients_def)
    then have "filter (\<lambda>x. x = did) (frame_recipients r rid g) = []" by (auto simp: filter_empty_conv)
    then show ?thesis
      using frames_to [of did "Frame rid g index seq point n" "frame_recipients r rid g"] by (simp add: sent events_to_append)
  qed (simp add: events_to_def)
  have e: "events_to did r' = events_to did r"
    using step_sent [OF assms(1)]
  proof (elim disjE exE conjE)
    fix x k assume "r_sent r' = r_sent r @ [(x, SetConfig k)]" "hm_get (r_displays r) x \<noteq> None"
    then show ?thesis using assms(3) by (auto simp: events_to_append)
  qed (use syncs frames in \<open>simp_all add: events_to_def\<close>)
  from assms(1) have "hm_get (r_displays r') did = None \<and> did \<le> r_next_display r'"
  proof (cases rule: step_displays)
    case kept
    then show ?thesis using assms(3,4) unfolding displays_kept_def by (metis not_Some_eq)
  next
    case (sync x)
    then show ?thesis using syncs [of x] assms(4) by simp
  next
    case (arrive reg)
    have "r_next_display r' = r_next_display r + 1" by (simp add: arrive(1) add_display_def Let_def split: option.split)
    moreover have "did \<noteq> r_next_display r + 1" using word_inc_greater [OF arrive(2)] assms(4) by auto
    ultimately show ?thesis using assms(3,4) word_inc_greater [OF arrive(2)]
      by (auto simp: arrive(1) add_display_def Let_def split: option.split)
  next
    case (window x flags)
    then show ?thesis using assms(3,4) chans_kept_window [of r x flags] unfolding chans_kept_def by (metis not_Some_eq)
  next
    case (resume x gen)
    then show ?thesis using assms(3,4) chans_kept_resume [of r x gen] unfolding chans_kept_def by (metis not_Some_eq)
  qed
  with e show ?thesis by simp
qed

text \<open>So while a pool is bound, what is said of its generation is not changed later.\<close>

lemma bound_generation_step:
  assumes "router_step r r'" and "router_ok r" and "chan_run (take n (events_to did r)) = Some c" and "c \<noteq> Unbound"
    and "n \<le> length (events_to did r)" and "bound_generation did n r' = Some g"
  shows "bound_generation did n r = Some g"
proof -
  let ?evs = "events_to did r"
  obtain c2 where c2: "chan_run ?evs = Some c2" "\<And>s. hm_get (r_displays r) did = Some s \<Longrightarrow> chan_matches c2 s"
    and old: "r_next_display r < did \<longrightarrow> ?evs = []"
    using assms(2) by (auto simp: router_ok_def chan_ok_def)
  have rest: "fold chan_step (drop n ?evs) (Some c) = Some c2"
    using c2(1) chan_run_append [of "take n ?evs" "drop n ?evs"] assms(3) by simp
  have "?evs \<noteq> []" using assms(3,4) by (auto simp: chan_run_def)
  then have le: "did \<le> r_next_display r" using old by (simp add: not_less)
  obtain new where new: "events_to did r' = ?evs @ new"
    using step_sent_grows [OF assms(1)] events_to_append by blast
  have n: "drop n (events_to did r') = drop n ?evs @ new" using assms(5) by (simp add: new)
  show ?thesis
  proof (cases "named_generation (drop n ?evs)")
    case (Some h)
    then have "named_generation (drop n (events_to did r')) = Some h" using n named_append [OF Some] by simp
    then show ?thesis using assms(6) Some by (simp add: bound_generation_def)
  next
    case None
    note end_state = named_none [OF rest assms(4) None]
    show ?thesis
    proof (cases "hm_get (r_displays r) did")
      case gone: None
      have "hm_get (r_displays r') did = None" "events_to did r' = ?evs"
        using step_channel_gone [OF assms(1,2) gone le] by simp_all
      then show ?thesis using assms(6) None by (simp add: bound_generation_def)
    next
      case (Some s)
      then have "chan_matches c2 s" by (rule c2(2))
      then obtain h where h: "ds_last_gen s = Some h" using end_state by (cases c2) auto
      then have r: "bound_generation did n r = Some h" using None Some by (simp add: bound_generation_def)
      have named: "named_generation (drop n (events_to did r')) = named_generation new"
        unfolding n using end_state by (intro named_configs) simp
      from step_channel [OF assms(1,2) Some h] obtain new' where "events_to did r' = ?evs @ new'"
        and cases: "named_generation new' = Some h \<or>
          named_generation new' = None \<and> (\<forall>s'. hm_get (r_displays r') did = Some s' \<longrightarrow> ds_last_gen s' = Some h)" by blast
      then have "new' = new" using new by simp
      with cases have "\<And>g'. bound_generation did n r' = Some g' \<Longrightarrow> g' = h"
        by (auto simp: bound_generation_def named bind_eq_Some_conv)
      with assms(6) r show ?thesis by simp
    qed
  qed
qed

end
