(* ===== verification/Router_Promises.thy ===== *)
theory Router_Promises
  imports Router_Service Channels
begin

text \<open>
  What the router promises as a whole: properties of every state its tasks can reach, and of the
  methods run in such states, with the executions that show the promises it does not keep.
\<close>

section \<open>A small system\<close>

text \<open>One renderer that has bound a pool, one display linked to it.\<close>

definition ex_bind :: bind_snapshot where
  "ex_bind =
     \<lparr>bs_generation = 3, bs_flags = 0, bs_count = 1, bs_fourcc = 7, bs_width = 64, bs_height = 32, bs_modifier = 0,
      bs_planes_per_buffer = 1, bs_stride = [256], bs_plane_offset = [0], bs_size = [8192], bs_fds = [5]\<rparr>"

definition ex_handle :: renderer_handle where
  "ex_handle = (toy_handle ''b'')\<lparr>rh_bind := Some ex_bind\<rparr>"

definition ex_state :: "renderer_id option \<Rightarrow> u64 option \<Rightarrow> display_state" where
  "ex_state rid gen =
     \<lparr>ds_info = \<lparr>di_id = 1, di_name = ''DP-1'', di_instance_id = None, di_width = 1920, di_height = 1080,
        di_refresh_mhz = 60000, di_properties = [], di_bound = False\<rparr>,
      ds_gpu = DRM_UNKNOWN, ds_last_renderer = rid, ds_last_gen = gen, ds_caps = None, ds_autopause = ap_new\<rparr>"

definition ex_table :: "renderer_id routing_table" where
  "ex_table = snd (add_link ''b'' 1 (add_renderer ''b'' ''b'' table_new))"

definition ex_router :: "renderer_id option \<Rightarrow> u64 option \<Rightarrow> router" where
  "ex_router rid gen = (router_new (insert_handle ex_handle (manager_new registry_new)))
     \<lparr>r_table := ex_table, r_displays := [(1, ex_state rid gen)], r_next_display := 1\<rparr>"

lemma ex_table_eq:
  "ex_table = \<lparr>next_link_id = 1, rt_renderers = [(''b'', ''b'')], rt_links = [(1, new_link 1 ''b'' 1)],
     by_display = [(1, [1])], by_renderer = [(''b'', [1])]\<rparr>"
  by (simp add: ex_table_def add_link_def add_renderer_def table_new_def hm_list_def hm_push_def Let_def)

lemma ex_table_ok: "table_ok ex_table"
  unfolding ex_table_def
  by (rule add_link_ok(4) [OF table_ok_add_renderer [OF table_ok_new]]) (simp add: add_renderer_def table_new_def)

lemma ex_table_facts [simp]:
  "renderer_ids ex_table = [''b'']" "links_for_display ex_table 1 = [new_link 1 ''b'' 1]"
  "links_for_renderer ex_table ''b'' = [new_link 1 ''b'' 1]" "get_renderer ex_table ''b'' = Some ''b''"
  "next_link_id ex_table = 1" "rt_links ex_table = [(1, new_link 1 ''b'' 1)]"
  by (simp_all add: ex_table_eq renderer_ids_def links_for_display_def links_for_renderer_def get_renderer_def
    hm_list_def List.map_filter_def get_link_def)

lemma ex_router_facts [simp]:
  "r_table (ex_router rid gen) = ex_table" "r_displays (ex_router rid gen) = [(1, ex_state rid gen)]"
  "r_acks (ex_router rid gen) = []" "r_sent (ex_router rid gen) = []" "r_paused (ex_router rid gen) = {}"
  "table_handle (ex_router rid gen) ''b'' = Some ex_handle"
  by (simp_all add: ex_router_def router_new_def table_handle_def insert_handle_def manager_new_def ex_handle_def
    toy_handle_def fresh_handle_def Let_def)

lemma ex_state_facts [simp]:
  "ds_last_renderer (ex_state rid gen) = rid" "ds_last_gen (ex_state rid gen) = gen"
  "ds_caps (ex_state rid gen) = None" "ds_autopause (ex_state rid gen) = ap_new"
  by (simp_all add: ex_state_def)

lemma ex_handle_facts [simp]:
  "rh_id ex_handle = ''b''" "rh_bind ex_handle = Some ex_bind" "bs_generation ex_bind = 3"
  "rh_format_caps ex_handle = None"
  by (simp_all add: ex_bind_def ex_handle_def toy_handle_def fresh_handle_def)

lemma ex_route: "route ex_table d = (if d = 1 then Some ''b'' else None)"
proof (cases "d = 1")
  case False
  then have "links_for_display ex_table d = []" by (simp add: ex_table_eq links_for_display_def hm_list_def)
  with False show ?thesis by (simp add: route_def)
qed (simp add: route_def new_link_def)

lemma ex_links_ok: "links_ok (ex_router rid gen)"
  by (simp add: links_ok_def ex_table_ok links_lead_def new_link_def)

lemma ex_enabled [simp]: "enabled_links (ex_router rid gen) 1 = [new_link 1 ''b'' 1]"
  by (simp add: enabled_links_def new_link_def)

lemma ex_bound_target [simp]: "bound_target (ex_router rid gen) 1 = Some (new_link 1 ''b'' 1, ex_handle, 3)"
  by (simp add: bound_target_def new_link_def)

section \<open>Methods in the small system\<close>

theorem reconcile_lifecycle_exact_witness:
  "''b'' \<in> r_paused (reconcile_lifecycle ((ex_router None None)\<lparr>r_manual := True\<rparr>))"
  using reconcile_lifecycle_exact [of "(ex_router None None)\<lparr>r_manual := True\<rparr>" "''b''" "(''b'', Pause)"]
  by (simp add: ex_table_ok should_pause_def)

theorem sync_display_exact_witness:
  "\<exists>c. r_sent (sync_display 1 (ex_router (Some ''a'') (Some 2))) = map (Pair 1) [Unbind 2, Bind ''b'', SetConfig c]"
proof -
  let ?r = "ex_router (Some ''a'') (Some 2)"
  have "sync_needed 1 ?r" by (simp add: sync_needed_def needs_update_def gated_def new_link_def)
  moreover have "replay_events ex_handle 3 = []"
    by (simp add: replay_events_def replay_frame_def latest_frame_def ex_handle_def toy_handle_def fresh_handle_def)
  ultimately show ?thesis
    using sync_display_exact [of ?r 1 "ex_state (Some ''a'') (Some 2)" 1] by (simp add: retire_events_def)
qed

theorem relink_all_one_renderer_witness:
  "set (renderer_ids (r_table (relink_all_displays_to ''b'' ((ex_router None None)\<lparr>r_table := add_renderer ''a'' ''a'' ex_table\<rparr>)))) = {''b''}"
proof -
  let ?r = "(ex_router None None)\<lparr>r_table := add_renderer ''a'' ''a'' ex_table\<rparr>"
  have "links_ok ?r"
    using ex_links_ok [of None None] table_ok_add_renderer [OF ex_table_ok, of "''a''" "''a''"]
    by (simp add: links_ok_def links_lead_def) (auto simp: add_renderer_def new_link_def)
  moreover have "live_ok ?r"
    by (simp add: live_ok_def ex_router_def router_new_def insert_handle_def manager_new_def)
  moreover have "''b'' \<in> set (renderer_ids (r_table ?r))" "length (r_displays ?r) \<le> link_room (r_table ?r)"
    by (simp_all add: renderer_ids_def add_renderer_def ex_table_eq link_room_def Suc_le_eq unat_gt_0)
  ultimately show ?thesis using relink_all_one_renderer [of ?r "''b''"] by blast
qed

theorem unregister_unbinds_witness:
  "hm_get (r_acks (unregister_renderer ''b'' ((ex_router (Some ''b'') (Some 3))\<lparr>r_acks := [(''b'', {})]\<rparr>))) ''b'' = Some {(1, 3)}"
proof -
  let ?r = "(ex_router (Some ''b'') (Some 3))\<lparr>r_acks := [(''b'', {})]\<rparr>"
  have e: "{(d, g). route (r_table ?r) d = Some ''b'' \<and>
      (\<exists>s. hm_get (r_displays ?r) d = Some s \<and> ds_last_renderer s = Some ''b'' \<and> ds_last_gen s = Some g)} = {(1, 3)}"
    by (auto simp: ex_route split: if_splits)
  show ?thesis
    using unregister_unbinds [of ?r "''b''" 1, THEN conjunct1] unfolding e by (simp add: ex_table_ok)
qed

theorem orderly_stop_waits_for_acks_witness:
  "map_option fst (await_unbind_acks_for ''b'' [AckArrives (1, 2), AckArrives (1, 3)]
      (unregister_renderer ''b'' (begin_unbind_ack_tracking ''b'' (ex_router (Some ''b'') (Some 3))))) = Some True \<and>
   map_option fst (await_unbind_acks_for ''b'' [AckArrives (1, 2), DeadlinePasses, AckArrives (1, 3)]
      (unregister_renderer ''b'' (begin_unbind_ack_tracking ''b'' (ex_router (Some ''b'') (Some 3))))) = Some False"
proof -
  let ?r = "ex_router (Some ''b'') (Some 3)"
  have e: "{(d, g). route (r_table ?r) d = Some ''b'' \<and>
      (\<exists>s. hm_get (r_displays ?r) d = Some s \<and> ds_last_renderer s = Some ''b'' \<and> ds_last_gen s = Some g)} = {(1, 3)}"
    by (auto simp: ex_route split: if_splits)
  show ?thesis
    using orderly_stop_waits_for_acks [of ?r "''b''" "[AckArrives (1, 2), AckArrives (1, 3)]"]
      orderly_stop_waits_for_acks [of ?r "''b''" "[AckArrives (1, 2), DeadlinePasses, AckArrives (1, 3)]"]
    unfolding e by (simp add: ex_table_ok)
qed

theorem frame_fan_out_witness:
  "r_sent (on_renderer_frame ''b'' 0 9 10 (ex_router (Some ''b'') (Some 3))) = [(1, Frame ''b'' 3 0 9 10 1)]"
proof -
  let ?r = "ex_router (Some ''b'') (Some 3)"
  have "length (frame_recipients ?r ''b'' 3) < 2 ^ 32"
    by (simp add: frame_recipients_def active_links_def new_link_def)
  then obtain ds where ds: "distinct ds" "\<forall>d. d \<in> set ds \<longleftrightarrow> d = 1"
    "r_sent (on_renderer_frame ''b'' 0 9 10 ?r) = map (\<lambda>d. (d, Frame ''b'' 3 0 9 10 (of_nat (length ds)))) ds"
    using frame_fan_out [of ?r "''b''" ex_handle ex_bind 0 9 10] ex_links_ok by (auto simp: ex_route split: if_splits)
  then have "set ds = {1}" by auto
  with ds(1) have "ds = [1]" by (metis distinct_card card_1_singletonE One_nat_def card.empty card.insert
    empty_iff finite.emptyI length_Suc_conv length_0_conv list.set_intros(1) singletonD)
  then show ?thesis using ds(3) by simp
qed

section \<open>Every reachable state\<close>

text \<open>
  a reachable state stays reachable whatever is asked of the router: requests served one
  after the other, each when it can be made, are runs of the critical sections, so every
  property of the reachable states holds of them.
\<close>

theorem requests_stay_reachable:
  assumes "router_reachable m r" and "serve_all qs r = Some r'"
  shows "router_reachable m r'"
  by (rule reachable_serve_all [OF assms])


text \<open>
  C17: in every reachable state a display has one link at most and is registered when it has one;
  a registered renderer has a handle, and so has one the manager holds alive; only registered renderers are recorded as paused; a reap task sleeps exactly when
  the router can abort it; and a display that asks for a pause is held paused.
\<close>

theorem reachable_router_consistent:
  assumes "router_reachable (manager_new reg) r"
  shows "(route (r_table r) did = Some rid \<longrightarrow> hm_get (r_displays r) did \<noteq> None) \<and>
    (get_renderer (r_table r) rid \<noteq> None \<longrightarrow> table_handle r rid \<noteq> None) \<and>
    length (links_for_display (r_table r) did) \<le> 1 \<and>
    r_paused r \<subseteq> set (renderer_ids (r_table r)) \<and>
    ((t, rid) \<in> r_sleeping r \<longleftrightarrow> hm_get (r_orphan_timers r) rid = Some t) \<and>
    (hm_get (r_displays r) did = Some s \<longrightarrow>
       di_id (ds_info s) = did \<and> (ap_raw (ds_autopause s) \<longrightarrow> ap_requested (ds_autopause s))) \<and>
    (rid \<in> set (mg_live (r_mgr r)) \<longrightarrow> hm_get (mg_handles (r_mgr r)) rid \<noteq> None)"
proof -
  have ok: "links_ok r" "heap_ok r" "displays_ok r" "timers_ok r"
    using reachable_ok [OF assms] by (simp_all add: router_ok_def)
  have "get_renderer (r_table r) rid \<noteq> None \<longrightarrow> table_handle r rid \<noteq> None"
    using ok(2) by (simp add: heap_ok_def table_handle_def) (metis Option.bind.bind_lunit)
  moreover have "route (r_table r) did = Some rid \<longrightarrow> hm_get (r_displays r) did \<noteq> None"
    using links_ok_route [OF ok(1)] by (metis option.distinct(1))
  moreover have "length (links_for_display (r_table r) did) \<le> 1"
    by (rule links_for_display_single [OF links_ok_table [OF ok(1)]])
  moreover have "r_paused r \<subseteq> set (renderer_ids (r_table r))"
    "rid \<in> set (mg_live (r_mgr r)) \<longrightarrow> hm_get (mg_handles (r_mgr r)) rid \<noteq> None"
    using ok(2) by (simp_all add: heap_ok_def live_ok_def)
  moreover have "(t, rid) \<in> r_sleeping r \<longleftrightarrow> hm_get (r_orphan_timers r) rid = Some t"
    using ok(4) by (simp add: timers_ok_def)
  moreover have "hm_get (r_displays r) did = Some s \<longrightarrow>
       di_id (ds_info s) = did \<and> (ap_raw (ds_autopause s) \<longrightarrow> ap_requested (ds_autopause s))"
    using ok(3) by (auto simp: displays_ok_def display_ok_def)
  ultimately show ?thesis by blast
qed

text \<open>
  C18: a display that no longer wants its renderer paused is never left held: the resume task of
  its current generation is under way, waking it lifts the hold, and a task of an older
  generation does nothing to any display.
\<close>

theorem resume_not_lost:
  assumes "router_reachable (manager_new reg) r" and "hm_get (r_displays r) did = Some s"
    and "ap_requested (ds_autopause s)" and "\<not> ap_raw (ds_autopause s)"
  shows "(did, ap_gen (ds_autopause s)) \<in> r_resume r \<and>
    hm_get (r_displays (fire_resume did (ap_gen (ds_autopause s)) r)) did =
      Some (s\<lparr>ds_autopause := (ds_autopause s)\<lparr>ap_requested := False\<rparr>\<rparr>) \<and>
    (gen \<noteq> ap_gen (ds_autopause s) \<longrightarrow> r_displays (fire_resume did gen r) = r_displays r)"
proof -
  have "displays_ok r" using reachable_ok [OF assms(1)] by (simp add: router_ok_def)
  then have "(did, ap_gen (ds_autopause s)) \<in> r_resume r"
    using assms(2-4) by (auto simp: displays_ok_def display_ok_def)
  then show ?thesis
    using assms(2-4) by (simp add: fire_resume_def resume_section_def)
qed

section \<open>A reachable small system\<close>

definition ex_reg :: display_registration where
  "ex_reg = \<lparr>dr_name = ''DP-1'', dr_instance_id = None, dr_width = 1920, dr_height = 1080, dr_refresh_mhz = 60000,
     dr_gpu = DRM_UNKNOWN, dr_properties = [], dr_caps = None\<rparr>"

definition ex_start :: router where
  "ex_start = serve (Spawned ex_handle) (router_new (manager_new registry_new))"

definition ex_served :: router where
  "ex_served = snd (snd (add_display ex_reg (register_renderer ''b'' ex_start)))"

lemma ex_start_reachable: "router_reachable (manager_new registry_new) ex_start"
  unfolding ex_start_def by (rule reachable_serve [OF router_reachable.init]) (simp add: router_new_def manager_new_def)

lemma next_display_lifecycle: "r_next_display (reconcile_lifecycle r) = r_next_display r"
  using reconcile_lifecycle_shape [of r] by auto

lemma ex_served_reachable: "router_reachable (manager_new registry_new) ex_served"
proof -
  have "servable (RegisterRenderer ''b'') ex_start"
    by (simp add: ex_start_def router_new_def insert_handle_def manager_new_def)
  from reachable_serve [OF ex_start_reachable this]
  have reg: "router_reachable (manager_new registry_new) (register_renderer ''b'' ex_start)" by simp
  have "router_step (register_renderer ''b'' ex_start) ex_served"
    unfolding ex_served_def
    by (rule router_step.arrive)
      (simp_all add: register_renderer_def next_display_lifecycle ex_start_def router_new_def table_new_def add_renderer_def link_room_def unat_gt_0)
  with reg show ?thesis by (rule router_reachable.step)
qed

theorem requests_stay_reachable_witness:
  "router_reachable (manager_new registry_new) (set_manual_pause True ex_served)"
  using requests_stay_reachable [OF ex_served_reachable, of "[ManualPause True]"] by simp








theorem reachable_router_consistent_witness: "r_paused ex_served \<subseteq> set (renderer_ids (r_table ex_served))"
  using reachable_router_consistent [OF ex_served_reachable] by auto

text \<open>A display whose window was shown and hidden again, with the pause mode Any.\<close>

definition ex_store :: "autopause_mode \<Rightarrow> store" where
  "ex_store mode = (load_or_default (\<lambda>_. None) NotFound None)\<lparr>st_inner := settings_default\<lparr>set_global :=
     global_settings_default\<lparr>gs_autopause := autopause_defaults_default\<lparr>ad_mode := mode\<rparr>\<rparr>\<rparr>\<rparr>"

definition ex_hidden :: router where
  "ex_hidden = window_step 1 0 (window_step 1 1
     (snd (snd (add_display ex_reg ((router_new (manager_new registry_new))\<lparr>r_settings := Some (ex_store Any)\<rparr>)))))"

lemma ex_hidden_reachable: "router_reachable (manager_new registry_new) ex_hidden"
proof -
  let ?r = "(router_new (manager_new registry_new))\<lparr>r_settings := Some (ex_store Any)\<rparr>"
  have "router_reachable (manager_new registry_new) ?r"
    by (rule router_reachable.step [OF router_reachable.init router_step.settings])
  moreover have "router_step ?r (snd (snd (add_display ex_reg ?r)))"
    by (rule router_step.arrive) (simp_all add: router_new_def table_new_def link_room_def unat_gt_0)
  ultimately show ?thesis
    unfolding ex_hidden_def by (meson router_reachable.step router_step.window)
qed

lemma ex_hidden_display:
  "\<exists>s. hm_get (r_displays ex_hidden) 1 = Some s \<and>
     ds_autopause s = \<lparr>ap_last_flags = 0, ap_raw = False, ap_requested = True, ap_gen = 2\<rparr>"
proof -
  have m: "resolved_autopause_for (Some (ex_store Any)) i = \<lparr>ra_mode = Any, ra_resume_ms = 500\<rparr>" for i
    by (simp add: resolved_autopause_for_def ex_store_def settings_default_def resolved_autopause_of_def
      autopause_defaults_default_def display_prefs_of_def split: option.split)
  show ?thesis
    by (simp add: ex_hidden_def window_step_def window_state_section_def add_display_def router_new_def table_new_def
      first_renderer_def renderer_ids_def m window_state_decision_def has_flag_def FLAG_NON_MINIMIZED_def ap_new_def
      modify_display_def hm_modify_def Let_def)
qed

theorem resume_not_lost_witness:
  "(1, 2) \<in> r_resume ex_hidden \<and> r_displays (fire_resume 1 1 ex_hidden) = r_displays ex_hidden"
proof -
  obtain s where s: "hm_get (r_displays ex_hidden) 1 = Some s"
     "ds_autopause s = \<lparr>ap_last_flags = 0, ap_raw = False, ap_requested = True, ap_gen = 2\<rparr>"
    using ex_hidden_display by auto
  show ?thesis using resume_not_lost [OF ex_hidden_reachable s(1), of 1] s(2) by simp
qed

section \<open>A renderer binds its pool\<close>

abbreviation showing :: "renderer_id \<Rightarrow> u64 \<Rightarrow> display_state \<Rightarrow> display_state" where
  "showing rid g s \<equiv> s\<lparr>ds_last_renderer := Some rid, ds_last_gen := Some g\<rparr>"

lemma sync_shows:
  assumes "hm_get (r_displays r) did = Some s" and "bound_target r did = Some (l, h, g)" and "\<not> gated s h"
  shows "hm_get (r_displays (sync_display did r)) did = Some (showing (lk_renderer l) g s)"
proof (cases "sync_needed did r")
  case True
  then show ?thesis using sync_display_settles [OF assms(1)] assms(2) by simp
next
  case False
  then have "\<not> needs_update s (Some (l, h, g))" using assms by (auto simp: sync_needed_def)
  then have "showing (lk_renderer l) g s = s" by (auto simp: needs_update_def split: option.splits)
  then show ?thesis using False assms(1) by (simp add: sync_display_not_needed)
qed

lemma sync_other: "other \<noteq> did \<Longrightarrow> hm_get (r_displays (sync_display did r)) other = hm_get (r_displays r) other"
proof -
  assume o: "other \<noteq> did"
  show ?thesis
  proof (cases rule: sync_display_cases [of did r])
    case (bind s l h ng)
    then show ?thesis using sync_display_Some_eq [OF bind] o by simp
  next
    case (unbind s)
    then show ?thesis using sync_display_None_eq [OF unbind] o by simp
  qed simp
qed

lemma fold_sync_shows:
  assumes "hm_get (r_displays r) did = Some s" and "bound_target r did = Some (l, h, g)" and "\<not> gated s h"
  shows "hm_get (r_displays (fold sync_display ds r)) did = Some (if did \<in> set ds then showing (lk_renderer l) g s else s)"
  using assms
proof (induction ds arbitrary: r s)
  case (Cons x xs)
  show ?case
  proof (cases "x = did")
    case True
    then show ?thesis
      using Cons.IH [of "sync_display did r" "showing (lk_renderer l) g s"] sync_shows [OF Cons.prems] Cons.prems
      by (simp add: gated_def)
  next
    case False
    then show ?thesis using Cons.IH [of "sync_display x r" s] Cons.prems by (simp add: sync_other)
  qed
qed simp

lemma routed_target:
  assumes "links_ok r" and "table_handle r rid = Some h" and "rh_bind h = Some b" and "route (r_table r) did = Some rid"
  obtains l where "bound_target r did = Some (l, h, bs_generation b)" "lk_renderer l = rid"
proof -
  obtain l ls where l: "links_for_display (r_table r) did = l # ls" "lk_renderer l = rid"
    using assms(4) by (auto simp: route_def split: list.splits)
  then have "bound_target r did = Some (l, h, bs_generation b)"
    using links_ok_enabled(1) [OF assms(1), of did] assms(2,3) by (simp add: bound_target_def)
  then show ?thesis using l(2) that by blast
qed

text \<open>
  C16: once a renderer has bound a pool, every display routed to it that the negotiation does not
  hold back shows that pool, whatever it showed before.
\<close>

theorem bind_reaches_displays:
  assumes "links_ok r" and "table_handle r rid = Some h" and "rh_bind h = Some b"
    and "route (r_table r) did = Some rid" and "hm_get (r_displays r) did = Some s" and "\<not> gated s h"
  shows "hm_get (r_displays (on_renderer_bind rid r)) did =
    Some (s\<lparr>ds_last_renderer := Some rid, ds_last_gen := Some (bs_generation b)\<rparr>)"
proof -
  obtain l where t: "bound_target r did = Some (l, h, bs_generation b)" "lk_renderer l = rid"
    by (rule routed_target [OF assms(1-4)])
  have "did \<in> lk_display ` set (active_links r rid)"
    using assms(1,4) by (simp add: active_displays)
  then show ?thesis
    using fold_sync_shows [OF assms(5) t(1) assms(6), of "map lk_display (active_links r rid)"] t(2)
      emit_renderer_eq [of rid "reconcile_buffer_flags (fold sync_display (map lk_display (active_links r rid)) r)"]
    by (auto simp: on_renderer_bind_def Let_def)
qed

theorem bind_reaches_displays_witness:
  "hm_get (r_displays (on_renderer_bind ''b'' (ex_router (Some ''a'') (Some 2)))) 1 = Some (ex_state (Some ''b'') (Some 3))"
  using bind_reaches_displays [of "ex_router (Some ''a'') (Some 2)" "''b''" ex_handle ex_bind 1 "ex_state (Some ''a'') (Some 2)"]
    ex_links_ok
  by (simp add: ex_route gated_def) (simp add: ex_state_def)

section \<open>Promises not kept\<close>

lemma should_pause_manual: "should_pause (r\<lparr>r_manual := True\<rparr>) x"
  by (simp add: should_pause_def)

lemma filter_actions:
  "distinct ids \<Longrightarrow> filter (\<lambda>a. fst a = rid) (List.map_filter (action_of r) ids) =
     (if rid \<in> set ids then (case action_of r rid of None \<Rightarrow> [] | Some a \<Rightarrow> [a]) else [])"
proof (induction ids)
  case (Cons x xs)
  have "action_of r x = Some a \<Longrightarrow> fst a = x" for a by (auto simp: action_of_def split: if_splits)
  with Cons show ?case by (auto simp: List.map_filter_simps split: option.split)
qed (simp add: List.map_filter_simps)

text \<open>
  C30: the messages of \<open>reconcile_lifecycle\<close> are sent after the lock is released, so a later call
  can overtake an earlier one. One task pauses everything and another lifts the pause before the
  first has sent its message: the renderer should play and is not recorded as paused, but the
  last message it gets is Pause, and the next call sends nothing.
\<close>

theorem play_overtaken_by_pause:
  assumes "table_ok (r_table r)" and "rid \<in> set (renderer_ids (r_table r))"
    and "rid \<notin> r_paused r" and "\<not> should_pause r rid"
    and "mgr_get (r_mgr r) rid = Some h" and "rh_sock h = None"
    and "lifecycle_diff (r\<lparr>r_manual := True\<rparr>) = (pauses, r1)"
    and "lifecycle_diff (r1\<lparr>r_manual := False\<rparr>) = (plays, r2)"
    and "r3 = fold control pauses (fold control plays r2)"
  shows "filter (\<lambda>m. fst m = rid) (mg_wire (r_mgr r3)) =
      filter (\<lambda>m. fst m = rid) (mg_wire (r_mgr r)) @ [(rid, Play), (rid, Pause)] \<and>
    rid \<notin> r_paused r3 \<and> \<not> should_pause r3 rid \<and> rid \<notin> fst ` set (lifecycle_actions r3)"
proof -
  let ?ids = "renderer_ids (r_table r)" and ?m = "r\<lparr>r_manual := True\<rparr>"
  let ?q = "r\<lparr>r_paused := paused_after (set ?ids) ?m\<rparr>"
  have dist: "distinct ?ids" using assms(1) by (simp add: table_ok_def renderer_ids_def)
  have manual: "r\<lparr>r_paused := P, r_manual := False\<rparr> = r\<lparr>r_paused := P\<rparr>" for P
    using assms(4) by (cases r) (simp add: should_pause_def)
  have d1: "pauses = List.map_filter (action_of ?m) ?ids" "r1 = ?m\<lparr>r_paused := paused_after (set ?ids) ?m\<rparr>"
    using assms(1,7) lifecycle_diff_eq [of ?m] by simp_all
  then have "r1\<lparr>r_manual := False\<rparr> = ?q" using manual by simp
  then have d2: "plays = List.map_filter (action_of ?q) ?ids" "r2 = ?q\<lparr>r_paused := paused_after (set ?ids) ?q\<rparr>"
    using assms(1,8) lifecycle_diff_eq [of ?q] by simp_all
  have "action_of ?m rid = Some (rid, Pause)" "action_of ?q rid = Some (rid, Play)"
    using assms(2-4) by (simp_all add: action_of_def paused_after_def should_pause_manual)
  then have own: "filter (\<lambda>a. fst a = rid) pauses = [(rid, Pause)]" "filter (\<lambda>a. fst a = rid) plays = [(rid, Play)]"
    unfolding d1(1) d2(1) using dist assms(2) by (simp_all add: filter_actions)
  obtain q1 where c1: "fold control plays r2 =
      r2\<lparr>r_mgr := (r_mgr r)\<lparr>mg_wire := mg_wire (r_mgr r) @ delivered (r_mgr r) plays, mg_reap := q1\<rparr>\<rparr>"
    using fold_control [of plays r2] by (auto simp: d2(2))
  let ?m1 = "(r_mgr r)\<lparr>mg_wire := mg_wire (r_mgr r) @ delivered (r_mgr r) plays, mg_reap := q1\<rparr>"
  have "delivered ?m1 pauses = delivered (r_mgr r) pauses" by (rule delivered_cong) (simp add: mgr_get_def)
  then obtain q2 where c2: "r3 = r2\<lparr>r_mgr := ?m1\<lparr>mg_wire := mg_wire ?m1 @ delivered (r_mgr r) pauses, mg_reap := q2\<rparr>\<rparr>"
    using fold_control [of pauses "r2\<lparr>r_mgr := ?m1\<rparr>"] assms(9) c1 by auto
  have sent: "filter (\<lambda>a. fst a = rid) (delivered (r_mgr r) acts) = filter (\<lambda>a. fst a = rid) acts" for acts
    using assms(5,6) by (induction acts) (auto simp: delivered_def)
  have "rid \<notin> r_paused r3" "\<not> should_pause r3 rid"
    using assms(2,4) by (simp_all add: c2 d2(2) paused_after_def)
  moreover from this have "rid \<notin> fst ` set (lifecycle_actions r3)"
    by (auto simp: lifecycle_actions_def map_filter_def action_of_def split: if_splits)
  moreover have "filter (\<lambda>m. fst m = rid) (mg_wire (r_mgr r3)) =
      filter (\<lambda>m. fst m = rid) (mg_wire (r_mgr r)) @ [(rid, Play), (rid, Pause)]"
    by (simp add: c2 sent own)
  ultimately show ?thesis by blast
qed

theorem play_overtaken_by_pause_witness:
  "\<exists>pauses plays r1 r2. lifecycle_diff ((ex_router None None)\<lparr>r_manual := True\<rparr>) = (pauses, r1) \<and>
     lifecycle_diff (r1\<lparr>r_manual := False\<rparr>) = (plays, r2) \<and>
     filter (\<lambda>m. fst m = ''b'') (mg_wire (r_mgr (fold control pauses (fold control plays r2)))) = [(''b'', Play), (''b'', Pause)]"
proof -
  let ?r = "ex_router None None"
  obtain pauses r1 where 1: "lifecycle_diff (?r\<lparr>r_manual := True\<rparr>) = (pauses, r1)" by force
  obtain plays r2 where 2: "lifecycle_diff (r1\<lparr>r_manual := False\<rparr>) = (plays, r2)" by force
  have mgr: "mgr_get (r_mgr ?r) ''b'' = Some ex_handle" "rh_sock ex_handle = None" "mg_wire (r_mgr ?r) = []"
    by (simp_all add: ex_router_def router_new_def mgr_get_def insert_handle_def manager_new_def ex_handle_def
      toy_handle_def fresh_handle_def)
  have "\<not> should_pause ?r ''b''"
    by (simp add: should_pause_def active_links_def new_link_def any_autopaused_def ap_new_def session_paused_def Let_def)
      (simp add: ex_router_def router_new_def)
  then show ?thesis
    using play_overtaken_by_pause [of ?r "''b''" ex_handle pauses r1 plays r2, OF _ _ _ _ mgr(1,2) 1 2 refl] 1 2 mgr(3)
    by (simp add: ex_table_ok)
qed

text \<open>
  while negotiation holds a display back it keeps showing the pool of its old renderer, yet
  \<open>resync_display_set_config\<close> sends it a configuration computed for the pool of the new one;
  \<open>set_link_geometry\<close> sends none in the same state.
\<close>

theorem resync_ignores_binding:
  assumes "hm_get (r_displays r) did = Some s" and "bound_target r did = Some (l, h, g)" and "gated s h"
    and "ds_last_renderer s \<noteq> Some (lk_renderer l)"
  shows "sync_display did r = r \<and>
    r_sent (resync_display_set_config did r) = r_sent r @ [(did, SetConfig (bind_config s l h r))] \<and>
    (get_link (snd (update_link_geometry lid src dst tr cl z (r_table r))) lid = Some l' \<and>
       lk_display l' = did \<and> lk_renderer l' = lk_renderer l \<longrightarrow>
     fst (snd (geometry_section lid src dst tr cl z r)) = None)"
proof -
  have "\<not> sync_needed did r" using assms(1-3) by (auto simp: sync_needed_def)
  moreover have "r_sent (resync_display_set_config did r) = r_sent r @ [(did, SetConfig (bind_config s l h r))]"
    using assms(1,2) by (simp add: resync_display_set_config_def bind_config_def Let_def)
  moreover have "fst (snd (geometry_section lid src dst tr cl z r)) = None"
    if "get_link (snd (update_link_geometry lid src dst tr cl z (r_table r))) lid = Some l'"
      "lk_display l' = did" "lk_renderer l' = lk_renderer l"
    using that assms(1,4) by (auto simp: geometry_section_def Let_def split: prod.split option.split)
  ultimately show ?thesis by (simp add: sync_display_not_needed)
qed

definition current_config :: "router \<Rightarrow> link_id \<Rightarrow> projected_config \<Rightarrow> bool" where
  "current_config r lid c \<longleftrightarrow>
     (\<exists>l h s. get_link (r_table r) lid = Some l \<and> table_handle r (lk_renderer l) = Some h \<and>
        hm_get (r_displays r) (lk_display l) = Some s \<and>
        c = project_link l h (ds_info s) (r_next_config r) (resolved_layout_for_renderer r (ds_info s) (lk_renderer l)))"

lemma geometry_section_sends:
  assumes "geometry_section lid src dst tr cl z r = (ok, Some (did, c), r1)"
  shows "r_sent r1 = r_sent r \<and> r_displays r1 = r_displays r \<and> hm_get (r_displays r) did \<noteq> None \<and>
    r_next_config r1 = r_next_config r + 1 \<and> config_generation c = r_next_config r1 \<and> current_config r1 lid c"
proof -
  obtain ch t where u: "update_link_geometry lid src dst tr cl z (r_table r) = (ch, t)" by force
  let ?r1 = "r\<lparr>r_table := t\<rparr>"
  from assms u obtain l h s where e: "get_link t lid = Some l" "table_handle ?r1 (lk_renderer l) = Some h"
    "hm_get (r_displays r) (lk_display l) = Some s" "did = lk_display l" "r1 = ?r1\<lparr>r_next_config := r_next_config r + 1\<rparr>"
    "c = project_link l h (ds_info s) (r_next_config r + 1)
       (resolved_layout_for_renderer (?r1\<lparr>r_next_config := r_next_config r + 1\<rparr>) (ds_info s) (lk_renderer l))"
    by (auto simp: geometry_section_def Let_def split: if_splits option.splits)
  then show ?thesis
    by (auto simp: current_config_def table_handle_def intro!: exI [of _ l] exI [of _ h])
qed

text \<open>
  \<open>set_link_geometry\<close> numbers its configuration under the lock and sends it after taking the
  lock again. When two calls for one link overlap, the display can get the newer configuration
  first and end with the older, its generations decreasing, while the link keeps the newer values.
\<close>

theorem geometry_sent_out_of_order:
  assumes "geometry_section lid src dst tr cl z r = (ok, Some (did, c), r1)"
    and "geometry_section lid' src' dst' tr' cl' z' r1 = (ok', Some (did, c'), r2)"
  shows "r_sent (send_config (did, c) (send_config (did, c') r2)) =
      r_sent r @ [(did, SetConfig c'), (did, SetConfig c)] \<and>
    config_generation c' = config_generation c + 1 \<and> current_config r2 lid' c'"
  using geometry_section_sends [OF assms(1)] geometry_section_sends [OF assms(2)]
  by (auto simp: send_config_def)

definition ex_gated :: router where
  "ex_gated = modify_display 1 (\<lambda>s. s\<lparr>ds_caps := Some (ex_consumer 1)\<rparr>)
     ((ex_router (Some ''a'') (Some 2))\<lparr>r_mgr := insert_handle (ex_handle\<lparr>rh_format_caps := Some ex_producer\<rparr>) (manager_new registry_new)\<rparr>)"

theorem resync_ignores_binding_witness:
  "sync_display 1 ex_gated = ex_gated \<and> (\<exists>c. r_sent (resync_display_set_config 1 ex_gated) = [(1, SetConfig c)])"
proof -
  let ?h = "ex_handle\<lparr>rh_format_caps := Some ex_producer\<rparr>"
  let ?s = "(ex_state (Some ''a'') (Some 2))\<lparr>ds_caps := Some (ex_consumer 1)\<rparr>"
  have t: "table_handle ex_gated ''b'' = Some ?h"
    by (simp add: ex_gated_def table_handle_def insert_handle_def manager_new_def)
  have e: "enabled_links ex_gated 1 = [new_link 1 ''b'' 1]"
    by (simp add: ex_gated_def enabled_links_def new_link_def)
  have b: "bound_target ex_gated 1 = Some (new_link 1 ''b'' 1, ?h, 3)"
    using t by (simp add: bound_target_def e new_link_def)
  have s: "hm_get (r_displays ex_gated) 1 = Some ?s" by (simp add: ex_gated_def hm_modify_def)
  have g: "gated ?s ?h"
    by (simp add: gated_def scheme_satisfied_def ex_handle_def toy_handle_def fresh_handle_def)
  have "r_sent ex_gated = []" by (simp add: ex_gated_def)
  then show ?thesis
    using resync_ignores_binding [OF s b g, of 1 None None None None None "new_link 1 ''b'' 1"] by (auto simp: new_link_def)
qed

theorem geometry_sent_out_of_order_witness:
  "\<exists>c c' r2. r_sent (send_config (1, c) (send_config (1, c') r2)) = [(1, SetConfig c'), (1, SetConfig c)] \<and>
     config_generation c = 1 \<and> config_generation c' = 2"
proof -
  let ?r = "ex_router (Some ''b'') (Some 3)"
  let ?t = "\<lambda>z. ex_table\<lparr>rt_links := [(1, (new_link 1 ''b'' 1)\<lparr>lk_z_order := z\<rparr>)]\<rparr>"
  have u: "update_link_geometry 1 None None None None (Some 1) ex_table = (True, ?t 1)"
    "update_link_geometry 1 None None None None (Some 2) (?t 1) = (True, ?t 2)"
    by (simp_all add: update_link_geometry_def set_if_changed_def new_link_def hm_modify_def)
  have h: "table_handle (?r\<lparr>r_table := ?t z\<rparr>) ''b'' = Some ex_handle" for z
    using ex_router_facts(6) [of "Some ''b''" "Some 3"] by (simp add: table_handle_def get_renderer_def)
  obtain c where 1: "geometry_section 1 None None None None (Some 1) ?r =
      (True, Some (1, c), ?r\<lparr>r_table := ?t 1, r_next_config := r_next_config ?r + 1\<rparr>)"
    using h [of 1] by (simp add: geometry_section_def u get_link_def new_link_def Let_def)
  let ?r1 = "?r\<lparr>r_table := ?t 1, r_next_config := r_next_config ?r + 1\<rparr>"
  have "table_handle (?r1\<lparr>r_table := ?t 2\<rparr>) ''b'' = Some ex_handle"
    using h [of 2] by (simp add: table_handle_def)
  then obtain c' where 2: "geometry_section 1 None None None None (Some 2) ?r1 =
      (True, Some (1, c'), ?r1\<lparr>r_table := ?t 2, r_next_config := r_next_config ?r1 + 1\<rparr>)"
    using u(2) by (simp add: geometry_section_def get_link_def new_link_def Let_def)
  have n: "r_next_config ?r = 0" by (simp add: ex_router_def router_new_def)
  have "config_generation c = 1" using geometry_section_sends [OF 1] n by simp
  then show ?thesis
    using geometry_sent_out_of_order [OF 1 2] by (intro exI) auto
qed

end
