(* ===== verification/Endpoint.thy ===== *)
theory Endpoint
  imports Router_Promises
begin

text \<open>
  A connected display, \<open>src/display/endpoint.rs\<close>: the handshake, the loop that turns the router's
  messages into wire events and the client's requests into calls of the router, and the frames
  handed to the renderer's reaper. The messages are those of \<open>protocol/waywallen_display_v1.xml\<close>,
  from which the build generates the Rust types.

  The results of system calls are arguments: whether a message could be sent, whether duplicating
  the descriptors worked, which syncobj the kernel made. \<open>dbg\<close> is how Rust prints a string with
  the format \<open>{:?}\<close>; it only occurs in messages for people.
\<close>

section \<open>The protocol\<close>

definition PROTOCOL_VERSION :: u32 where "PROTOCOL_VERSION = 7"
definition PROTOCOL_NAME :: string where "PROTOCOL_NAME = ''waywallen-display-v7''"

definition PROTO_NAME_MISMATCH :: u32 where "PROTO_NAME_MISMATCH = 1"
definition VERSION_UNSUPPORTED :: u32 where "VERSION_UNSUPPORTED = 2"

record consumer_caps_msg =
  cq_fourccs :: "u32 list"
  cq_mod_counts :: "u32 list"
  cq_modifiers :: "u64 list"
  cq_plane_counts :: "u32 list"
  cq_device_uuid :: "u32 list"
  cq_driver_uuid :: "u32 list"
  cq_major :: u32
  cq_minor :: u32
  cq_mem_hints :: u32
  cq_sync_caps :: u32
  cq_color_caps :: u32
  cq_extent_max :: "u32 \<times> u32"

datatype display_request =
    RqHello (rq_protocol: string) (rq_client: string) (rq_client_version: string) (rq_version: u32)
  | RqRegisterDisplay string string u32 u32 u32 u32 u32 "(string \<times> string) list"
  | RqUpdateDisplay u32 u32 "(string \<times> string) list"
  | RqBye
  | RqConsumerCaps consumer_caps_msg
  | RqBindFailed u32 u64 u32 string
  | RqPointerMotion f32 f32 u64 u32
  | RqPointerButton f32 f32 u32 u32 u64 u32
  | RqPointerAxis f32 f32 f32 f32 u32 u64 u32
  | RqUnbindDone u64
  | RqWindowState u32

datatype display_event =
    EvWelcome string "string list"
  | EvDisplayAccepted u64
  | EvBindBuffers (eb_generation: u64) (eb_count: u32) (eb_width: u32) (eb_height: u32) (eb_fourcc: u32)
      (eb_modifier: u64) (eb_planes: u32) (eb_stride: "u32 list") (eb_plane_offset: "u32 list") (eb_size: "u64 list")
  | EvSetConfig projected_config
  | EvFrameReady u64 u32 u64
  | EvUnbind u64
  | EvError u32 string


section \<open>The handshake\<close>

definition SERVER_VERSION :: string where "SERVER_VERSION = ''waywallen 0.2.1''"
definition MIN_SUPPORTED_CLIENT_VERSION :: u32 where "MIN_SUPPORTED_CLIENT_VERSION = 6"
definition MAX_SUPPORTED_CLIENT_VERSION :: u32 where "MAX_SUPPORTED_CLIENT_VERSION = PROTOCOL_VERSION"

definition ADVERTISED_FEATURES :: "string list" where
  "ADVERTISED_FEATURES = [''explicit_sync_fd'', ''drm_syncobj_release'', ''modifier_negotiation_v1'']"

datatype handshake_error = RecvFailed | ExpectedHello | BadProtocol | VersionMismatch | SendFailed | ExpectedRegister

record connection_failure =
  cf_client :: string
  cf_version :: u32
  cf_code :: u32
  cf_reason :: string

text \<open>
  \<open>q1\<close>, \<open>q2\<close>: the requests received, \<open>None\<close> when receiving fails or the daemon shuts down;
  \<open>sent\<close>: whether the welcome could be sent. The results are the events sent or tried, the
  failures published, and the outcome.
\<close>

definition refuse :: "string \<Rightarrow> u32 \<Rightarrow> u32 \<Rightarrow> string \<Rightarrow> handshake_error
    \<Rightarrow> display_event list \<times> connection_failure list \<times> (handshake_error + display_registration)" where
  "refuse client version code msg err =
     ([EvError code msg], [\<lparr>cf_client = client, cf_version = version, cf_code = code, cf_reason = msg\<rparr>], Inl err)"

definition do_handshake ::
  "(string \<Rightarrow> string) \<Rightarrow> display_request option \<Rightarrow> bool \<Rightarrow> display_request option
     \<Rightarrow> display_event list \<times> connection_failure list \<times> (handshake_error + display_registration)" where
  "do_handshake dbg q1 sent q2 =
     (case q1 of
        None \<Rightarrow> ([], [], Inl RecvFailed)
      | Some (RqHello protocol client client_version version) \<Rightarrow>
          if protocol \<noteq> PROTOCOL_NAME then
            refuse client version PROTO_NAME_MISMATCH
              (''unsupported protocol: '' @ dbg protocol @ '' (expected '' @ dbg PROTOCOL_NAME @ '')'') BadProtocol
          else if \<not> (MIN_SUPPORTED_CLIENT_VERSION \<le> version \<and> version \<le> MAX_SUPPORTED_CLIENT_VERSION) then
            refuse client version VERSION_UNSUPPORTED
              (''client protocol v'' @ show_nat (unat version) @ '' not supported; daemon accepts ['' @
               show_nat (unat MIN_SUPPORTED_CLIENT_VERSION) @ ''..='' @ show_nat (unat MAX_SUPPORTED_CLIENT_VERSION) @ '']'')
              VersionMismatch
          else
            (let welcome = [EvWelcome SERVER_VERSION ADVERTISED_FEATURES] in
             if \<not> sent then (welcome, [], Inl SendFailed)
             else (case q2 of
                None \<Rightarrow> (welcome, [], Inl RecvFailed)
              | Some (RqRegisterDisplay name instance_id width height refresh major minor properties) \<Rightarrow>
                  (welcome, [], Inr
                    \<lparr>dr_name = name, dr_instance_id = (if instance_id = [] then None else Some instance_id),
                     dr_width = width, dr_height = height, dr_refresh_mhz = refresh,
                     dr_gpu = \<lparr>drm_major = major, drm_minor = minor\<rparr>, dr_properties = properties, dr_caps = None\<rparr>)
              | Some _ \<Rightarrow> (welcome, [], Inl ExpectedRegister)))
      | Some _ \<Rightarrow> ([], [], Inl ExpectedHello))"

section \<open>The loop\<close>

record frame_record =
  fr_point :: u64
  fr_consumer :: "nat option"
  fr_expected :: u32

text \<open>
  One connection: the locals of the loop, what was written to the socket with its descriptors,
  and the records handed to the reapers.
\<close>

record endpoint =
  ep_id :: display_id
  ep_bound :: "renderer_id option"
  ep_config :: "projected_config option"
  ep_wire :: "(display_event \<times> nat list) list"
  ep_records :: "(renderer_id \<times> frame_record) list"
  ep_open :: bool

record io_result =
  io_sent :: bool
  io_dup :: bool
  io_syncobj :: "nat option"

definition put :: "io_result \<Rightarrow> display_event \<Rightarrow> nat list \<Rightarrow> endpoint \<Rightarrow> endpoint" where
  "put io ev fds e = (if io_sent io then e\<lparr>ep_wire := ep_wire e @ [(ev, fds)]\<rparr> else e\<lparr>ep_open := False\<rparr>)"

text \<open>The arrays must agree with the counts, then every descriptor is duplicated.\<close>

definition build_bind_event :: "bool \<Rightarrow> bind_snapshot \<Rightarrow> (display_event \<times> nat list) option" where
  "build_bind_event dup s =
     (let n = unat (bs_count s) * unat (bs_planes_per_buffer s) in
      if length (bs_stride s) \<noteq> n \<or> length (bs_plane_offset s) \<noteq> n \<or> length (bs_size s) \<noteq> n \<or> length (bs_fds s) \<noteq> n
      then None
      else if \<not> dup then None
      else Some (EvBindBuffers (bs_generation s) (bs_count s) (bs_width s) (bs_height s) (bs_fourcc s) (bs_modifier s)
                   (bs_planes_per_buffer s) (bs_stride s) (bs_plane_offset s) (bs_size s), bs_fds s))"

definition send_bind_from_renderer :: "io_result \<Rightarrow> renderer_handle \<Rightarrow> endpoint \<Rightarrow> endpoint" where
  "send_bind_from_renderer io h e =
     (case Option.bind (rh_bind h) (build_bind_event (io_dup io)) of
        None \<Rightarrow> e\<lparr>ep_open := False\<rparr>
      | Some (ev, fds) \<Rightarrow> put io ev fds e)"

definition forward_frame_ready ::
  "io_result \<Rightarrow> renderer_handle \<Rightarrow> u64 \<Rightarrow> u32 \<Rightarrow> u64 \<Rightarrow> u64 \<Rightarrow> u32 \<Rightarrow> endpoint \<Rightarrow> endpoint" where
  "forward_frame_ready io h gen index seq point expected e =
     (case clone_sync_fd seq h of
        None \<Rightarrow> e\<lparr>ep_open := False\<rparr>
      | Some fence \<Rightarrow>
          (case io_syncobj io of
             None \<Rightarrow> e\<lparr>ep_open := False\<rparr>
           | Some obj \<Rightarrow>
               (let e1 = put io (EvFrameReady gen index seq) [fence, obj] e in
                if io_sent io \<and> rh_has_reaper h
                then e1\<lparr>ep_records := ep_records e1 @
                       [(rh_id h, \<lparr>fr_point = point, fr_consumer = Some obj, fr_expected = expected\<rparr>)]\<rparr>
                else e1)))"

text \<open>
  A message of the router. Its renderer is a shared handle, named by its id: the manager never
  forgets a handle, so it is found.
\<close>

fun on_out_event :: "io_result \<Rightarrow> router \<Rightarrow> out_event \<Rightarrow> endpoint \<Rightarrow> endpoint" where
  "on_out_event io r (Bind rid) e =
     (case hm_get (mg_handles (r_mgr r)) rid of
        Some h \<Rightarrow> send_bind_from_renderer io h (e\<lparr>ep_bound := Some rid\<rparr>)
      | None \<Rightarrow> e\<lparr>ep_open := False\<rparr>)"
| "on_out_event io r (Unbind g) e = put io (EvUnbind g) [] (e\<lparr>ep_bound := None, ep_config := None\<rparr>)"
| "on_out_event io r (SetConfig c) e = put io (EvSetConfig c) [] (e\<lparr>ep_config := Some c\<rparr>)"
| "on_out_event io r (Frame rid g index seq point n) e =
     (case hm_get (mg_handles (r_mgr r)) rid of
        Some h \<Rightarrow> forward_frame_ready io h g index seq point n e
      | None \<Rightarrow> e\<lparr>ep_open := False\<rparr>)"

text \<open>A pointer position is passed on in texture coordinates, while a renderer is bound and configured.\<close>

definition forward_pointer ::
  "f32 \<Rightarrow> f32 \<Rightarrow> (renderer_id \<Rightarrow> f32 \<Rightarrow> f32 \<Rightarrow> manager \<Rightarrow> (renderer_error + unit) \<times> manager)
     \<Rightarrow> endpoint \<Rightarrow> router \<Rightarrow> router" where
  "forward_pointer x y snd_fun e r =
     (case (ep_bound e, ep_config e) of
        (Some rid, Some cfg) \<Rightarrow>
          (case display_point_to_texture x y cfg of
             Some (tx, ty) \<Rightarrow> r\<lparr>r_mgr := snd (snd_fun rid tx ty (r_mgr r))\<rparr>
           | None \<Rightarrow> r)
      | _ \<Rightarrow> r)"

definition import_consumer_caps :: "consumer_caps_msg \<Rightarrow> (negotiate_error + peer_caps) option" where
  "import_consumer_caps q =
     unflatten_caps (cq_fourccs q) (cq_mod_counts q) (cq_modifiers q) (cq_plane_counts q) (cq_device_uuid q)
       (cq_driver_uuid q) \<lparr>drm_major = cq_major q, drm_minor = cq_minor q\<rparr> (cq_sync_caps q) (cq_color_caps q)
       (cq_mem_hints q) (cq_extent_max q)"

text \<open>A request of the client; other requests are logged and ignored.\<close>

fun on_request :: "display_request \<Rightarrow> router \<times> endpoint \<Rightarrow> router \<times> endpoint" where
  "on_request (RqUpdateDisplay w h props) (r, e) = (update_display_size (ep_id e) w h r, e)"
| "on_request (RqWindowState flags) (r, e) = (update_display_window_state (ep_id e) flags r, e)"
| "on_request (RqConsumerCaps q) (r, e) =
     (case import_consumer_caps q of
        Some (Inr caps) \<Rightarrow> (set_consumer_caps (ep_id e) caps r, e)
      | _ \<Rightarrow> (r, e))"
| "on_request (RqBindFailed fourcc modifier reason msg) (r, e) = (on_consumer_bind_failed (ep_id e) fourcc modifier r, e)"
| "on_request RqBye (r, e) = (r, e\<lparr>ep_open := False\<rparr>)"
| "on_request (RqUnbindDone g) (r, e) = (record_unbind_done (ep_id e, g) r, e)"
| "on_request (RqPointerMotion x y t mods) (r, e) =
     (forward_pointer x y (\<lambda>rid tx ty. send_pointer_motion rid tx ty t mods) e r, e)"
| "on_request (RqPointerButton x y button state t mods) (r, e) =
     (forward_pointer x y (\<lambda>rid tx ty. send_pointer_button rid tx ty button state t mods) e r, e)"
| "on_request (RqPointerAxis x y dx dy source t mods) (r, e) =
     (forward_pointer x y (\<lambda>rid tx ty. send_pointer_axis rid tx ty dx dy source t mods) e r, e)"
| "on_request _ (r, e) = (r, e)"

text \<open>
  What the loop waits for: a message of the router or that its channel is closed, a request or
  that the client cannot be read any more, the shutdown of the daemon.
\<close>

datatype loop_input = FromRouter io_result out_event | RouterGone | FromClient display_request | ClientGone | ShutDown

fun loop_step :: "loop_input \<Rightarrow> router \<times> endpoint \<Rightarrow> router \<times> endpoint" where
  "loop_step (FromRouter io ev) (r, e) = (r, on_out_event io r ev e)"
| "loop_step (FromClient q) (r, e) = on_request q (r, e)"
| "loop_step _ (r, e) = (r, e\<lparr>ep_open := False\<rparr>)"

fun run_frame_loop :: "loop_input list \<Rightarrow> router \<times> endpoint \<Rightarrow> router \<times> endpoint" where
  "run_frame_loop [] s = s"
| "run_frame_loop (x # xs) s = (if ep_open (snd s) then run_frame_loop xs (loop_step x s) else s)"

definition endpoint_new :: "display_id \<Rightarrow> endpoint" where
  "endpoint_new did =
     \<lparr>ep_id = did, ep_bound = None, ep_config = None,
      ep_wire = [(EvWelcome SERVER_VERSION ADVERTISED_FEATURES, []), (EvDisplayAccepted did, [])],
      ep_records = [], ep_open = True\<rparr>"

text \<open>
  The whole of a connection, run without interruption: when the acknowledgement cannot be sent
  the task ends there and then.
\<close>

definition handle_client ::
  "(string \<Rightarrow> string) \<Rightarrow> display_request option \<Rightarrow> bool \<Rightarrow> display_request option \<Rightarrow> bool \<Rightarrow> loop_input list
     \<Rightarrow> router \<Rightarrow> router" where
  "handle_client dbg q1 sent q2 accepted xs r =
     (case do_handshake dbg q1 sent q2 of
        (_, _, Inl err) \<Rightarrow> r
      | (_, _, Inr reg) \<Rightarrow>
          (let (did, r1) = router_register_display reg r in
           if \<not> accepted then r1
           else (let (r2, e) = run_frame_loop xs (r1, endpoint_new did) in router_unregister_display did r2)))"

section \<open>The wire\<close>

text \<open>
  The order of messages a client can rely on: welcome and acceptance first; a pool, a configuration
  after it, then frames, until the pool is retired, and configurations at any time. A pool is
  announced with its generation. With \<open>timely\<close> the frames and the \<open>unbind\<close> that follow must name
  this generation. \<open>None\<close> is a violation.
\<close>

datatype wire_state = Greeting | Accepting | Idle_wire | Pending_config u64 | Active u64

fun wire_step :: "bool \<Rightarrow> display_event \<Rightarrow> wire_state option \<Rightarrow> wire_state option" where
  "wire_step timely (EvWelcome _ _) (Some Greeting) = Some Accepting"
| "wire_step timely (EvDisplayAccepted _) (Some Accepting) = Some Idle_wire"
| "wire_step timely (EvSetConfig _) (Some Idle_wire) = Some Idle_wire"
| "wire_step timely (EvBindBuffers g _ _ _ _ _ _ _ _ _) (Some Idle_wire) = Some (Pending_config g)"
| "wire_step timely (EvSetConfig _) (Some (Pending_config a)) = Some (Active a)"
| "wire_step timely (EvSetConfig _) (Some (Active a)) = Some (Active a)"
| "wire_step timely (EvFrameReady g _ _) (Some (Active a)) = (if timely \<longrightarrow> g = a then Some (Active a) else None)"
| "wire_step timely (EvUnbind g) (Some (Active a)) = (if timely \<longrightarrow> g = a then Some Idle_wire else None)"
| "wire_step timely _ _ = None"

definition wire_run :: "bool \<Rightarrow> display_event list \<Rightarrow> wire_state option" where
  "wire_run timely evs = fold (wire_step timely) evs (Some Greeting)"


definition sent_events :: "endpoint \<Rightarrow> display_event list" where
  "sent_events e = map fst (ep_wire e)"





lemma wire_run_snoc [simp]: "wire_run timely (evs @ [ev]) = wire_step timely ev (wire_run timely evs)"
  by (simp add: wire_run_def)

lemma sent_events_put:
  "sent_events (put io ev fds e) = (if io_sent io then sent_events e @ [ev] else sent_events e)"
  by (simp add: put_def sent_events_def)

lemma put_simps [simp]:
  "ep_bound (put io ev fds e) = ep_bound e" "ep_config (put io ev fds e) = ep_config e"
  "ep_open (put io ev fds e) = (ep_open e \<and> io_sent io)" "ep_id (put io ev fds e) = ep_id e"
  "ep_wire (put io ev fds e) = ep_wire e @ (if io_sent io then [(ev, fds)] else [])"
  "ep_records (put io ev fds e) = ep_records e"
  by (simp_all add: put_def)





lemma forward_frame_simps:
  "ep_bound (forward_frame_ready io h g index seq point n e) = ep_bound e"
  "ep_config (forward_frame_ready io h g index seq point n e) = ep_config e"
  "ep_id (forward_frame_ready io h g index seq point n e) = ep_id e"
  "\<exists>ok fds. length fds = 2 \<and> ep_wire (forward_frame_ready io h g index seq point n e) =
      ep_wire e @ (if ok then [(EvFrameReady g index seq, fds)] else []) \<and>
    (ep_open (forward_frame_ready io h g index seq point n e) \<longleftrightarrow> ep_open e \<and> ok)"
proof -
  show "\<exists>ok fds. length fds = 2 \<and> ep_wire (forward_frame_ready io h g index seq point n e) =
      ep_wire e @ (if ok then [(EvFrameReady g index seq, fds)] else []) \<and>
    (ep_open (forward_frame_ready io h g index seq point n e) \<longleftrightarrow> ep_open e \<and> ok)"
  proof (cases "clone_sync_fd seq h = None \<or> io_syncobj io = None")
    case True
    then show ?thesis
      by (intro exI [of _ False] exI [of _ "[0, 0]"]) (auto simp: forward_frame_ready_def split: option.split)
  next
    case False
    then obtain fence obj where "clone_sync_fd seq h = Some fence" "io_syncobj io = Some obj" by auto
    then show ?thesis
      by (intro exI [of _ "io_sent io"] exI [of _ "[fence, obj]"]) (simp add: forward_frame_ready_def Let_def)
  qed
qed (simp_all add: forward_frame_ready_def Let_def split: option.split)





section \<open>Clients and the router together\<close>







lemma on_request_endpoint: "snd (on_request q (r, e)) = e \<or> snd (on_request q (r, e)) = e\<lparr>ep_open := False\<rparr>"
  by (cases q) (auto split: option.split sum.split)

lemma on_out_event_id [simp]: "ep_id (on_out_event io r ev e) = ep_id e"
  by (cases ev) (auto simp: send_bind_from_renderer_def forward_frame_simps split: option.split)









section \<open>The handshake, the acceptance and the end\<close>

text \<open>
  a connection gets past the handshake exactly when its first request is a hello with the
  daemon's protocol name and a version the daemon accepts, the welcome can be sent, and the next
  request registers a display; a refusal for the name or the version sends one error with the
  published reason.
\<close>

theorem handshake_exact:
  "((\<exists>reg. snd (snd (do_handshake dbg q1 sent q2)) = Inr reg) \<longleftrightarrow>
      (\<exists>client cv v. q1 = Some (RqHello PROTOCOL_NAME client cv v) \<and> 6 \<le> v \<and> v \<le> 7) \<and> sent \<and>
      (\<exists>name iid w h hz major minor props. q2 = Some (RqRegisterDisplay name iid w h hz major minor props))) \<and>
   (fst (snd (do_handshake dbg q1 sent q2)) \<noteq> [] \<longleftrightarrow>
      (\<exists>name client cv v. q1 = Some (RqHello name client cv v) \<and> \<not> (name = PROTOCOL_NAME \<and> 6 \<le> v \<and> v \<le> 7))) \<and>
   map (\<lambda>f. EvError (cf_code f) (cf_reason f)) (fst (snd (do_handshake dbg q1 sent q2))) =
     filter (\<lambda>ev. case ev of EvError _ _ \<Rightarrow> True | _ \<Rightarrow> False) (fst (do_handshake dbg q1 sent q2))"
  by (auto simp: do_handshake_def refuse_def MIN_SUPPORTED_CLIENT_VERSION_def MAX_SUPPORTED_CLIENT_VERSION_def
      PROTOCOL_VERSION_def Let_def split: option.splits display_request.splits)

lemma show_nat_inj: "show_nat (unat (v :: u32)) = show_nat (unat w) \<longleftrightarrow> v = w"
  using parse_show_u32 [of v] parse_show_u32 [of w] by (metis option.inject)

text \<open>
  the generated protocol name contains the version, and the name is tested first; so of the
  clients built from any version of the protocol only those of the daemon's own version are
  accepted, although version 6 is in the range of the versions supported.
\<close>

theorem only_own_version_accepted:
  "((\<exists>reg. snd (snd (do_handshake dbg
       (Some (RqHello (''waywallen-display-v'' @ show_nat (unat v)) client cv v)) True
       (Some (RqRegisterDisplay name iid w h hz major minor props)))) = Inr reg) \<longleftrightarrow> v = 7) \<and>
   MIN_SUPPORTED_CLIENT_VERSION = 6 \<and>
   fst (do_handshake dbg (Some (RqHello ''waywallen-display-v6'' client cv 6)) True q2) =
     [EvError PROTO_NAME_MISMATCH (''unsupported protocol: '' @ dbg ''waywallen-display-v6'' @ '' (expected '' @ dbg PROTOCOL_NAME @ '')'')]"
proof -
  have "show_nat 7 = ''7''" by code_simp
  then have "show_nat (unat v) = ''7'' \<longleftrightarrow> v = 7" using show_nat_inj [of v 7] by simp
  then have name: "''waywallen-display-v'' @ show_nat (unat v) = PROTOCOL_NAME \<longleftrightarrow> v = 7"
    by (simp add: PROTOCOL_NAME_def)
  then show ?thesis
    by (auto simp: do_handshake_def refuse_def MIN_SUPPORTED_CLIENT_VERSION_def MAX_SUPPORTED_CLIENT_VERSION_def
      PROTOCOL_VERSION_def PROTOCOL_NAME_def Let_def)
qed

text \<open>A display stays known, or is forgotten, through the parts of these methods.\<close>

lemma get_None_keys: "hm_get m k = None \<longleftrightarrow> k \<notin> set (hm_keys m)"
  by (simp add: map_of_eq_None_iff)

lemma fold_kill_keys:
  "hm_keys (r_displays (fold (\<lambda>x. if b then schedule_orphan_grace x else kill_orphan_now x) xs r)) = hm_keys (r_displays r)"
proof (induction xs arbitrary: r)
  case (Cons x xs)
  have "hm_keys (r_displays (schedule_orphan_grace x r)) = hm_keys (r_displays r)"
    "hm_keys (r_displays (kill_orphan_now x r)) = hm_keys (r_displays r)"
    by (simp_all add: schedule_orphan_grace_def kill_orphan_now_def Let_def split: option.split)
  with Cons show ?case by simp
qed simp

lemma unregister_display_forgets: "hm_get (r_displays (router_unregister_display did r)) did = None"
proof -
  have "hm_keys (r_displays (router_unregister_display did r)) = hm_keys (hm_remove did (r_displays r))"
    by (simp add: router_unregister_display_def mark_orphans_def Let_def fold_kill_keys drop_display_def)
  then show ?thesis by (metis get_None_keys hm_get_remove)
qed

lemma register_display_knows: "hm_get (r_displays (snd (router_register_display reg r))) (r_next_display r + 1) \<noteq> None"
  and fst_register_display: "fst (router_register_display reg r) = r_next_display r + 1"
proof -
  let ?r0 = "migrate_settings reg r"
  have n: "r_next_display ?r0 = r_next_display r" by (auto simp: migrate_settings_def split: option.split)
  obtain did auto r1 where a: "add_display reg ?r0 = (did, auto, r1)" by (cases "add_display reg ?r0")
  have d: "did = r_next_display r + 1" "did \<in> set (hm_keys (r_displays r1))"
    using a by (auto simp: add_display_def Let_def n split: option.splits)
  then show "fst (router_register_display reg r) = r_next_display r + 1"
    by (simp add: router_register_display_def a Let_def)
  let ?r2 = "case auto of Some rid \<Rightarrow> cancel_orphan_timer rid r1 | None \<Rightarrow> r1"
  have "hm_keys (r_displays ?r2) = hm_keys (r_displays r1)" by (simp add: cancel_orphan_timer_def split: option.split)
  moreover have "\<exists>em. emit_display did q = q\<lparr>r_emitted := em\<rparr>" for q
  proof -
    have "\<exists>em. q = q\<lparr>r_emitted := em\<rparr>" by (rule exI [of _ "r_emitted q"]) simp
    then show ?thesis by (auto simp: emit_display_def emit_def split: option.split)
  qed
  then have "hm_keys (r_displays (emit_display did q)) = hm_keys (r_displays q)" for q by (metis router.select_convs(2) router.surjective router.update_convs(17))
  ultimately have "hm_keys (r_displays (snd (router_register_display reg r))) = hm_keys (r_displays r1)"
    by (simp add: router_register_display_def a Let_def)
  then show "hm_get (r_displays (snd (router_register_display reg r))) (r_next_display r + 1) \<noteq> None"
    using d by (simp add: get_None_keys)
qed

lemma run_frame_loop_id: "ep_id (snd (run_frame_loop xs s)) = ep_id (snd s)"
proof (induction xs arbitrary: s)
  case (Cons x xs)
  have "ep_id (snd (loop_step x s)) = ep_id (snd s)"
  proof (cases x)
    case (FromClient q)
    then show ?thesis using on_request_endpoint [of q "fst s" "snd s"] by (cases s) auto
  qed (cases s; simp)+
  with Cons show ?case by simp
qed simp

text \<open>
  when a connection ends its display is forgotten by the router. But when the acknowledgement
  of the registration cannot be sent the task ends without unregistering the display: it stays
  registered with nobody to show anything.
\<close>

theorem unaccepted_display_stays:
  assumes "do_handshake dbg q1 sent q2 = (evs, fails, Inr reg)"
  shows "hm_get (r_displays (handle_client dbg q1 sent q2 True xs r)) (r_next_display r + 1) = None \<and>
    hm_get (r_displays (handle_client dbg q1 sent q2 False xs r)) (r_next_display r + 1) \<noteq> None"
proof -
  obtain r1 where r: "router_register_display reg r = (r_next_display r + 1, r1)"
    using fst_register_display [of reg r] by (cases "router_register_display reg r") simp
  obtain r2 e where l: "run_frame_loop xs (r1, endpoint_new (r_next_display r + 1)) = (r2, e)" by force
  have "hm_get (r_displays r1) (r_next_display r + 1) \<noteq> None"
    using register_display_knows [of reg r] r by simp
  then show ?thesis using unregister_display_forgets by (simp add: handle_client_def assms r l)
qed

definition acks_grow :: "router \<Rightarrow> router \<Rightarrow> bool" where
  "acks_grow r r' \<longleftrightarrow> (\<forall>rid P. hm_get (r_acks r) rid = Some P \<longrightarrow> (\<exists>Q. hm_get (r_acks r') rid = Some (P \<union> Q)))"

lemma acks_grow_same: "r_acks r' = r_acks r \<Longrightarrow> acks_grow r r'"
  by (auto simp: acks_grow_def)

lemma acks_grow_trans: "acks_grow r r1 \<Longrightarrow> acks_grow r1 r2 \<Longrightarrow> acks_grow r r2"
  unfolding acks_grow_def by (metis Un_assoc)

lemma acks_grow_fold: "(\<And>x r. acks_grow r (f x r)) \<Longrightarrow> acks_grow r (fold f xs r)"
proof (induction xs arbitrary: r)
  case (Cons x xs)
  have "acks_grow (f x r) (fold f xs (f x r))" using Cons by blast
  with Cons.prems [of r x] show ?case by (auto intro: acks_grow_trans)
qed (simp add: acks_grow_same)

lemma acks_grow_sync: "acks_grow r (sync_display did r)"
proof (cases rule: sync_display_cases [of did r])
  case (bind s l h ng)
  then show ?thesis using sync_display_Some_eq [OF bind] by (auto simp: acks_grow_def retire_acks_get)
next
  case (unbind s)
  then show ?thesis using sync_display_None_eq [OF unbind] by (auto simp: acks_grow_def retire_acks_get)
qed (simp add: acks_grow_same)

lemma acks_grow_unregister: "acks_grow r (unregister_renderer rid r)"
proof -
  let ?r2 = "emit (RendererRemoved rid) (snd (drop_renderer rid r))"
  have 1: "acks_grow r ?r2" by (rule acks_grow_same) simp
  have 2: "acks_grow ?r2 (fold sync_display (fst (drop_renderer rid r)) ?r2)" by (rule acks_grow_fold) (rule acks_grow_sync)
  have 3: "acks_grow q (if b then emit x (reconcile_lifecycle q) else reconcile_lifecycle q)" for q b x
    by (rule acks_grow_same) simp
  show ?thesis using acks_grow_trans [OF acks_grow_trans [OF 1 2] 3] by (simp add: unregister_renderer_def Let_def split_beta)
qed

lemma acks_grow_orphan: "acks_grow r (if b then schedule_orphan_grace x r else kill_orphan_now x r)"
proof -
  have "acks_grow r (schedule_orphan_grace x r)"
    by (rule acks_grow_same) (simp add: schedule_orphan_grace_def Let_def split: option.split)
  moreover have "acks_grow r (kill_orphan_now x r)"
    unfolding kill_orphan_now_def by (rule acks_grow_trans [OF acks_grow_unregister acks_grow_same]) simp
  ultimately show ?thesis by simp
qed

text \<open>
  the end of a connection acknowledges nothing: a pool that is pending on the display stays
  pending when the display is unregistered, so an orderly stop waits for its time-out.
\<close>

theorem eof_acknowledges_nothing:
  assumes "hm_get (r_acks r) rid = Some pending" and "(did, g) \<in> pending"
  shows "\<not> unbinds_acked (router_unregister_display did r) rid"
proof -
  let ?r1 = "drop_display did r" let ?b = "lone_without_displays ?r1"
  let ?r2 = "fold (\<lambda>x. if ?b then schedule_orphan_grace x else kill_orphan_now x) (orphan_candidates None ?r1) ?r1"
  have "acks_grow r ?r1" by (rule acks_grow_same) (simp add: drop_display_def)
  moreover have "acks_grow ?r1 ?r2" using acks_grow_orphan by (intro acks_grow_fold) (metis (full_types))
  moreover have "acks_grow ?r2 (router_unregister_display did r)"
    by (rule acks_grow_same) (simp add: router_unregister_display_def mark_orphans_def Let_def)
  ultimately have "acks_grow r (router_unregister_display did r)" by (blast intro: acks_grow_trans)
  then obtain Q where "hm_get (r_acks (router_unregister_display did r)) rid = Some (pending \<union> Q)"
    using assms(1) unfolding acks_grow_def by blast
  then show ?thesis using assms(2) by (auto simp: unbinds_acked_def)
qed

text \<open>
  the endpoint announces the pool the renderer has when the message is handled, not the one
  the router bound: when the renderer has moved on to another pool in between, the display is
  told to unbind a generation it never had, and then gets the generation it has a second time.
\<close>

theorem announces_current_pool:
  assumes "hm_get (mg_handles (r_mgr r)) rid = Some h" and "rh_bind h = Some b"
    and "build_bind_event (io_dup io) b = Some (ev, fds)" and "io_sent io" and "ep_open e"
  shows "sent_events (snd (run_frame_loop (map (FromRouter io) [Bind rid, SetConfig c, Unbind g, Bind rid, SetConfig c']) (r, e))) =
      sent_events e @ [ev, EvSetConfig c, EvUnbind g, ev, EvSetConfig c'] \<and>
    eb_generation ev = bs_generation b"
proof -
  have "eb_generation ev = bs_generation b"
    using assms(3) by (auto simp: build_bind_event_def Let_def split: if_splits)
  then show ?thesis using assms by (simp add: send_bind_from_renderer_def sent_events_def)
qed

section \<open>Witnesses\<close>

definition ex_io :: io_result where
  "ex_io = \<lparr>io_sent = True, io_dup = True, io_syncobj = Some 9\<rparr>"

definition ex_registration :: display_registration where
  "ex_registration = \<lparr>dr_name = ''DP-1'', dr_instance_id = None, dr_width = 1920, dr_height = 1080,
     dr_refresh_mhz = 60000, dr_gpu = \<lparr>drm_major = 226, drm_minor = 128\<rparr>, dr_properties = [], dr_caps = None\<rparr>"

lemma ex_handshake:
  "do_handshake id (Some (RqHello PROTOCOL_NAME ''kde'' ''1'' 7)) True
     (Some (RqRegisterDisplay ''DP-1'' [] 1920 1080 60000 226 128 [])) =
   ([EvWelcome SERVER_VERSION ADVERTISED_FEATURES], [], Inr ex_registration)"
  by (simp add: do_handshake_def ex_registration_def MIN_SUPPORTED_CLIENT_VERSION_def MAX_SUPPORTED_CLIENT_VERSION_def
    PROTOCOL_VERSION_def)

theorem unaccepted_display_stays_witness:
  "hm_get (r_displays (handle_client id (Some (RqHello PROTOCOL_NAME ''kde'' ''1'' 7)) True
      (Some (RqRegisterDisplay ''DP-1'' [] 1920 1080 60000 226 128 [])) False [] (router_new (manager_new registry_new)))) 1 \<noteq> None"
  using unaccepted_display_stays [OF ex_handshake, of "[]" "router_new (manager_new registry_new)"]
  by (simp add: router_new_def)

theorem eof_acknowledges_nothing_witness:
  "\<not> unbinds_acked (router_unregister_display 1 ((router_new (manager_new registry_new))\<lparr>r_acks := [(''b'', {(1, 3)})]\<rparr>)) ''b''"
  using eof_acknowledges_nothing
    [of "(router_new (manager_new registry_new))\<lparr>r_acks := [(''b'', {(1, 3)})]\<rparr>" "''b''" "{(1, 3)}" 1 3]
  by simp

text \<open>A renderer with two planes in its pool, and a display that takes them.\<close>

definition ex_pool :: bind_snapshot where
  "ex_pool = \<lparr>bs_generation = 3, bs_flags = 0, bs_count = 1, bs_fourcc = 7, bs_width = 64, bs_height = 32,
     bs_modifier = 0, bs_planes_per_buffer = 2, bs_stride = [256, 128], bs_plane_offset = [0, 0],
     bs_size = [8192, 4096], bs_fds = [5, 6]\<rparr>"

definition ex_pool_router :: router where
  "ex_pool_router = router_new (insert_handle ((toy_handle ''b'')\<lparr>rh_bind := Some ex_pool\<rparr>) (manager_new registry_new))"

lemma ex_pool_event:
  "build_bind_event True ex_pool = Some (EvBindBuffers 3 1 64 32 7 0 2 [256, 128] [0, 0] [8192, 4096], [5, 6])"
  by (simp add: build_bind_event_def ex_pool_def)

lemma ex_pool_handle:
  "hm_get (mg_handles (r_mgr ex_pool_router)) ''b'' = Some ((toy_handle ''b'')\<lparr>rh_bind := Some ex_pool\<rparr>)"
  by (simp add: ex_pool_router_def router_new_def insert_handle_def manager_new_def toy_handle_def fresh_handle_def)

theorem announces_current_pool_witness:
  "map (\<lambda>ev. case ev of EvBindBuffers g _ _ _ _ _ _ _ _ _ \<Rightarrow> Some g | EvUnbind g \<Rightarrow> Some g | _ \<Rightarrow> None)
     (drop 2 (sent_events (snd (run_frame_loop
       (map (FromRouter ex_io) [Bind ''b'', SetConfig pointer_cfg, Unbind 2, Bind ''b'', SetConfig pointer_cfg])
       (ex_pool_router, endpoint_new 1))))) = [Some 3, None, Some 2, Some 3, None]"
  using announces_current_pool [OF ex_pool_handle, of ex_pool ex_io _ _ "endpoint_new 1" pointer_cfg 2 pointer_cfg] ex_pool_event
  by (simp add: ex_io_def endpoint_new_def sent_events_def)




end
