(* ===== verification/Reaper.thy ===== *)
theory Reaper
  imports Endpoint
begin

text \<open>
  The release reaper, \<open>src/sync/reaper.rs\<close>: one task per renderer that collects the release
  syncobjs of a frame's displays by release point and, when they are complete or late, moves
  their fences to that point of the producer's timeline.

  The kernel is a parameter: \<open>drm\<close> holds the results of the ioctls a step makes, as functions of
  their arguments. Handles and descriptors are numbers, an \<open>Instant\<close> is a number of milliseconds.
  The state keeps a trace of the calls that matter: \<open>rp_flushed\<close> the buckets flushed, \<open>rp_log\<close> the
  signals and transfers with their outcome.
\<close>

section \<open>State\<close>

definition BUCKET_TIMEOUT :: nat where "BUCKET_TIMEOUT = 500"

record drm_ops =
  d_fd_to_handle :: "nat \<Rightarrow> nat option"
  d_create :: "nat option"
  d_signal :: "nat \<Rightarrow> bool"
  d_wait :: "nat list \<Rightarrow> bool"
  d_join :: bool
  d_export :: "nat \<Rightarrow> nat option"
  d_merge :: "nat \<Rightarrow> nat \<Rightarrow> nat option"
  d_import :: "nat \<Rightarrow> nat \<Rightarrow> bool"
  d_transfer :: "nat \<Rightarrow> nat \<Rightarrow> u64 \<Rightarrow> bool"

record release_bucket =
  bk_handles :: "nat list"
  bk_expected :: u32
  bk_deadline :: nat

datatype sync_op = Signal nat bool | Import nat nat bool | Transfer (tr_source: nat) (tr_producer: nat) (tr_point: u64) (tr_ok: bool)

record reaper =
  rp_producer :: "nat option"
  rp_buckets :: "(u64, release_bucket) hmap"
  rp_flushed :: "(u64 \<times> nat list) list"
  rp_log :: "sync_op list"

definition reaper_new :: reaper where
  "reaper_new = \<lparr>rp_producer = None, rp_buckets = [], rp_flushed = [], rp_log = []\<rparr>"

definition logged :: "sync_op \<Rightarrow> reaper \<Rightarrow> reaper" where
  "logged op r = r\<lparr>rp_log := rp_log r @ [op]\<rparr>"

section \<open>Releasing a point\<close>

text \<open>
  \<open>slot\<close> is what duplicating the producer's syncobj descriptor gives: nothing while the renderer
  has not sent one, or when \<open>dup\<close> fails.
\<close>

definition ensure_producer_handle :: "drm_ops \<Rightarrow> nat option \<Rightarrow> reaper \<Rightarrow> bool \<times> reaper" where
  "ensure_producer_handle drm slot r =
     (if rp_producer r \<noteq> None then (True, r)
      else (case slot of
        None \<Rightarrow> (False, r)
      | Some fd \<Rightarrow>
          (case d_fd_to_handle drm fd of
             Some h \<Rightarrow> (True, r\<lparr>rp_producer := Some h\<rparr>)
           | None \<Rightarrow> (False, r))))"

text \<open>A transfer to the timeline; a failure is only logged.\<close>

definition transfer_to :: "drm_ops \<Rightarrow> nat \<Rightarrow> u64 \<Rightarrow> reaper \<Rightarrow> reaper" where
  "transfer_to drm src point r =
     (case rp_producer r of
        Some p \<Rightarrow> logged (Transfer src p point (d_transfer drm src p point)) r
      | None \<Rightarrow> r)"

definition advance_release_point :: "drm_ops \<Rightarrow> nat option \<Rightarrow> u64 \<Rightarrow> reaper \<Rightarrow> reaper" where
  "advance_release_point drm slot point r =
     (let (ok, r1) = ensure_producer_handle drm slot r in
      if \<not> ok then r1
      else (case d_create drm of
        None \<Rightarrow> r1
      | Some placeholder \<Rightarrow>
          (let r2 = logged (Signal placeholder (d_signal drm placeholder)) r1 in
           if \<not> d_signal drm placeholder then r2 else transfer_to drm placeholder point r2)))"

text \<open>The export loop stops at the first failure, with nothing to merge.\<close>

fun export_all :: "drm_ops \<Rightarrow> nat list \<Rightarrow> nat list option" where
  "export_all drm [] = Some []"
| "export_all drm (h # hs) =
     (case d_export drm h of
        None \<Rightarrow> None
      | Some f \<Rightarrow> map_option (Cons f) (export_all drm hs))"

text \<open>\<open>reduce\<close>: a failed merge keeps the fences merged so far.\<close>

definition merge_files :: "drm_ops \<Rightarrow> nat list \<Rightarrow> nat" where
  "merge_files drm files =
     fold (\<lambda>b a. case d_merge drm a b of Some m \<Rightarrow> m | None \<Rightarrow> a) (tl files) (hd files)"

definition force_signal :: "drm_ops \<Rightarrow> nat list \<Rightarrow> reaper \<Rightarrow> reaper" where
  "force_signal drm hs r = fold (\<lambda>h. logged (Signal h (d_signal drm h))) hs r"

text \<open>The fences of the handles reach the timeline, merged when there are several.\<close>

definition release_handles :: "drm_ops \<Rightarrow> u64 \<Rightarrow> nat list \<Rightarrow> reaper \<Rightarrow> reaper" where
  "release_handles drm point hs r =
     (if length hs = 1 then transfer_to drm (hd hs) point r
      else (case export_all drm hs of
        None \<Rightarrow> transfer_to drm (hd hs) point r
      | Some files \<Rightarrow>
          (if files = [] then transfer_to drm (hd hs) point r
           else (case d_create drm of
             None \<Rightarrow> r
           | Some tmp \<Rightarrow>
               (let m = merge_files drm files; r1 = logged (Import tmp m (d_import drm tmp m)) r in
                if \<not> d_import drm tmp m then r1 else transfer_to drm tmp point r1)))))"

definition flush_bucket :: "drm_ops \<Rightarrow> nat option \<Rightarrow> u64 \<Rightarrow> release_bucket \<Rightarrow> reaper \<Rightarrow> reaper" where
  "flush_bucket drm slot point b r0 =
     (let r = r0\<lparr>rp_flushed := rp_flushed r0 @ [(point, bk_handles b)]\<rparr> in
      if bk_handles b = [] then r
      else
        (let (ok, r1) = ensure_producer_handle drm slot r in
         if \<not> ok then r1
         else if \<not> d_join drm then r1
         else
           (let r2 = (if d_wait drm (bk_handles b) then r1 else force_signal drm (bk_handles b) r1)
            in release_handles drm point (bk_handles b) r2)))"

section \<open>The task\<close>

text \<open>A record arrives at time \<open>now\<close>.\<close>

definition add_to_bucket :: "nat \<Rightarrow> frame_record \<Rightarrow> nat \<Rightarrow> release_bucket option \<Rightarrow> release_bucket" where
  "add_to_bucket now rec h entry =
     (let b = (case entry of
                 Some b \<Rightarrow> b
               | None \<Rightarrow> \<lparr>bk_handles = [], bk_expected = fr_expected rec, bk_deadline = now + BUCKET_TIMEOUT\<rparr>)
      in b\<lparr>bk_expected := max (bk_expected b) (fr_expected rec), bk_handles := bk_handles b @ [h]\<rparr>)"

definition on_record :: "drm_ops \<Rightarrow> nat option \<Rightarrow> nat \<Rightarrow> frame_record \<Rightarrow> reaper \<Rightarrow> reaper" where
  "on_record drm slot now rec r =
     (case fr_consumer rec of
        None \<Rightarrow> advance_release_point drm slot (fr_point rec) r
      | Some h \<Rightarrow>
          (let b = add_to_bucket now rec h (hm_get (rp_buckets r) (fr_point rec)) in
           if bk_expected b \<le> of_nat (length (bk_handles b))
           then flush_bucket drm slot (fr_point rec) b (r\<lparr>rp_buckets := hm_remove (fr_point rec) (rp_buckets r)\<rparr>)
           else r\<lparr>rp_buckets := hm_insert (fr_point rec) b (rp_buckets r)\<rparr>))"

text \<open>The timer: the expired points are collected first, then each bucket is removed and flushed.\<close>

definition expired :: "nat \<Rightarrow> (u64, release_bucket) hmap \<Rightarrow> u64 list" where
  "expired now m = map fst (filter (\<lambda>(_, b). bk_deadline b \<le> now) m)"

definition flush_expired :: "drm_ops \<Rightarrow> nat option \<Rightarrow> u64 \<Rightarrow> reaper \<Rightarrow> reaper" where
  "flush_expired drm slot point r =
     (case hm_get (rp_buckets r) point of
        Some b \<Rightarrow> flush_bucket drm slot point b (r\<lparr>rp_buckets := hm_remove point (rp_buckets r)\<rparr>)
      | None \<Rightarrow> r)"

definition on_timer :: "drm_ops \<Rightarrow> nat option \<Rightarrow> nat \<Rightarrow> reaper \<Rightarrow> reaper" where
  "on_timer drm slot now r = fold (flush_expired drm slot) (expired now (rp_buckets r)) r"

definition next_deadline :: "reaper \<Rightarrow> nat option" where
  "next_deadline r =
     (if rp_buckets r = [] then None else Some (Min (bk_deadline ` snd ` set (rp_buckets r))))"

datatype reaper_input = Record frame_record | Timer

text \<open>Each input comes with the time, the state of the slot and what the kernel will answer.\<close>

fun reaper_step :: "drm_ops \<times> nat option \<times> nat \<times> reaper_input \<Rightarrow> reaper \<Rightarrow> reaper" where
  "reaper_step (drm, slot, now, Record rec) r = on_record drm slot now rec r"
| "reaper_step (drm, slot, now, Timer) r = on_timer drm slot now r"

definition spawn_reaper :: "(drm_ops \<times> nat option \<times> nat \<times> reaper_input) list \<Rightarrow> reaper" where
  "spawn_reaper xs = fold reaper_step xs reaper_new"

section \<open>What each step keeps\<close>

lemma logged_simps [simp]:
  "rp_buckets (logged op r) = rp_buckets r" "rp_flushed (logged op r) = rp_flushed r"
  "rp_producer (logged op r) = rp_producer r" "rp_log (logged op r) = rp_log r @ [op]"
  by (simp_all add: logged_def)

lemma ensure_simps [simp]:
  "rp_buckets (snd (ensure_producer_handle drm slot r)) = rp_buckets r"
  "rp_flushed (snd (ensure_producer_handle drm slot r)) = rp_flushed r"
  "rp_log (snd (ensure_producer_handle drm slot r)) = rp_log r"
  by (simp_all add: ensure_producer_handle_def split: option.split)

lemma ensure_ok: "fst (ensure_producer_handle drm slot r) \<Longrightarrow> \<exists>P. rp_producer (snd (ensure_producer_handle drm slot r)) = Some P"
  by (auto simp: ensure_producer_handle_def split: option.splits if_splits)

lemma transfer_simps [simp]:
  "rp_buckets (transfer_to drm src p r) = rp_buckets r" "rp_flushed (transfer_to drm src p r) = rp_flushed r"
  by (simp_all add: transfer_to_def split: option.split)

lemma advance_simps [simp]:
  "rp_buckets (advance_release_point drm slot p r) = rp_buckets r"
  "rp_flushed (advance_release_point drm slot p r) = rp_flushed r"
  by (simp_all add: advance_release_point_def split_beta Let_def split: option.split)

lemma release_simps [simp]:
  "rp_buckets (release_handles drm p hs r) = rp_buckets r" "rp_flushed (release_handles drm p hs r) = rp_flushed r"
  by (simp_all add: release_handles_def Let_def split: option.split)

lemma force_signal_eq: "force_signal drm hs r = r\<lparr>rp_log := rp_log r @ map (\<lambda>h. Signal h (d_signal drm h)) hs\<rparr>"
  by (induction hs arbitrary: r) (simp_all add: force_signal_def logged_def)

lemma flush_simps [simp]:
  "rp_buckets (flush_bucket drm slot p b r) = rp_buckets r"
  "rp_flushed (flush_bucket drm slot p b r) = rp_flushed r @ [(p, bk_handles b)]"
  by (simp_all add: flush_bucket_def split_beta Let_def force_signal_eq)

definition flushed_at :: "u64 \<Rightarrow> reaper \<Rightarrow> (u64 \<times> nat list) list" where
  "flushed_at p r = filter (\<lambda>f. fst f = p) (rp_flushed r)"

text \<open>The timer, seen from one point.\<close>

lemma fold_flush_expired:
  assumes "distinct ps"
  shows "flushed_at p (fold (flush_expired drm slot) ps r) = flushed_at p r @
      (case hm_get (rp_buckets r) p of Some b \<Rightarrow> if p \<in> set ps then [(p, bk_handles b)] else [] | None \<Rightarrow> []) \<and>
    hm_get (rp_buckets (fold (flush_expired drm slot) ps r)) p =
      (if p \<in> set ps then None else hm_get (rp_buckets r) p)"
  using assms
proof (induction ps arbitrary: r)
  case (Cons q ps)
  let ?r = "flush_expired drm slot q r"
  have b: "hm_get (rp_buckets ?r) p = (if p = q then None else hm_get (rp_buckets r) p)"
    by (simp add: flush_expired_def split: option.split)
  have f: "flushed_at p ?r = flushed_at p r @ (case hm_get (rp_buckets r) q of Some b \<Rightarrow> if p = q then [(p, bk_handles b)] else [] | None \<Rightarrow> [])"
    by (simp add: flush_expired_def flushed_at_def split: option.split)
  show ?case
  proof (cases "p = q")
    case True
    then show ?thesis using Cons.IH [of ?r] Cons.prems b f by (simp split: option.splits)
  next
    case False
    then show ?thesis using Cons.IH [of ?r] Cons.prems b f by (simp split: option.splits)
  qed
qed (simp split: option.split)

lemma in_expired:
  assumes "hm_ok m"
  shows "p \<in> set (expired now m) \<longleftrightarrow> (\<exists>b. hm_get m p = Some b \<and> bk_deadline b \<le> now)"
  using assms by (auto simp: expired_def map_of_eq_Some_iff image_iff dest: map_of_SomeD)

lemma distinct_expired: "hm_ok m \<Longrightarrow> distinct (expired now m)"
  unfolding expired_def by (rule distinct_map_filter)

lemma on_timer_at:
  assumes "hm_ok (rp_buckets r)"
  shows "flushed_at p (on_timer drm slot now r) = flushed_at p r @
      (case hm_get (rp_buckets r) p of Some b \<Rightarrow> if bk_deadline b \<le> now then [(p, bk_handles b)] else [] | None \<Rightarrow> [])"
    and "hm_get (rp_buckets (on_timer drm slot now r)) p =
      (case hm_get (rp_buckets r) p of Some b \<Rightarrow> if bk_deadline b \<le> now then None else Some b | None \<Rightarrow> None)"
  using fold_flush_expired [OF distinct_expired [OF assms, of now], of p drm slot r] in_expired [OF assms, of p now]
  by (auto simp: on_timer_def split: option.split)

lemma flush_expired_ok: "hm_ok (rp_buckets r) \<Longrightarrow> hm_ok (rp_buckets (flush_expired drm slot p r))"
  by (simp add: flush_expired_def split: option.split)

lemma reaper_step_ok: "hm_ok (rp_buckets r) \<Longrightarrow> hm_ok (rp_buckets (reaper_step x r))"
proof -
  assume ok: "hm_ok (rp_buckets r)"
  have "hm_ok (rp_buckets (fold (flush_expired drm slot) ps q))" if "hm_ok (rp_buckets q)" for drm slot ps q
    using that by (induction ps arbitrary: q) (simp_all add: flush_expired_ok)
  moreover obtain drm slot now i where "x = (drm, slot, now, i)" by (cases x)
  ultimately show ?thesis
    using ok by (cases i) (simp_all add: on_timer_def on_record_def Let_def split: option.split)
qed

lemma spawn_reaper_snoc: "spawn_reaper (xs @ [x]) = reaper_step x (spawn_reaper xs)"
  by (simp add: spawn_reaper_def)

lemma spawn_reaper_ok: "hm_ok (rp_buckets (spawn_reaper xs))"
proof (induction xs rule: rev_induct)
  case Nil
  show ?case by (simp add: spawn_reaper_def reaper_new_def)
next
  case (snoc x xs)
  then show ?case by (simp add: spawn_reaper_snoc reaper_step_ok)
qed

section \<open>Every point once\<close>

text \<open>What arrives for a point: time, handle and the number of displays the frame went to.\<close>

fun arrival :: "u64 \<Rightarrow> drm_ops \<times> nat option \<times> nat \<times> reaper_input \<Rightarrow> (nat \<times> nat \<times> u32) option" where
  "arrival p (drm, slot, now, Record rec) =
     (if fr_point rec = p then map_option (\<lambda>h. (now, h, fr_expected rec)) (fr_consumer rec) else None)"
| "arrival p (drm, slot, now, Timer) = None"

definition arrivals :: "u64 \<Rightarrow> (drm_ops \<times> nat option \<times> nat \<times> reaper_input) list \<Rightarrow> (nat \<times> nat \<times> u32) list" where
  "arrivals p xs = List.map_filter (arrival p) xs"

definition timer_times :: "(drm_ops \<times> nat option \<times> nat \<times> reaper_input) list \<Rightarrow> nat set" where
  "timer_times xs = {now. \<exists>drm slot. (drm, slot, now, Timer) \<in> set xs}"

text \<open>The bucket of a point while its records come in, and once the last has come.\<close>

definition collecting :: "u64 \<Rightarrow> u32 \<Rightarrow> (nat \<times> nat \<times> u32) list \<Rightarrow> reaper \<Rightarrow> bool" where
  "collecting p n A r \<longleftrightarrow>
     (if length A = unat n then hm_get (rp_buckets r) p = None \<and> flushed_at p r = [(p, map (fst \<circ> snd) A)]
      else flushed_at p r = [] \<and>
        (case hm_get (rp_buckets r) p of
           None \<Rightarrow> A = []
         | Some b \<Rightarrow> A \<noteq> [] \<and> bk_handles b = map (fst \<circ> snd) A \<and> bk_expected b = n \<and>
             bk_deadline b \<in> (\<lambda>a. fst a + BUCKET_TIMEOUT) ` set A))"

lemma collecting_record:
  assumes "collecting p n A r" and "length A < unat n" and "fr_point rec = p" and "fr_consumer rec = Some h" and "fr_expected rec = n"
  shows "collecting p n (A @ [(now, h, n)]) (on_record drm slot now rec r)"
proof -
  let ?b = "add_to_bucket now rec h (hm_get (rp_buckets r) p)"
  have b: "bk_handles ?b = map (fst \<circ> snd) (A @ [(now, h, n)])" "bk_expected ?b = n"
    "bk_deadline ?b \<in> (\<lambda>a. fst a + BUCKET_TIMEOUT) ` set (A @ [(now, h, n)])" and f: "flushed_at p r = []"
    using assms by (auto simp: collecting_def add_to_bucket_def Let_def split: option.splits if_splits)
  have "unat n < 2 ^ LENGTH(32)" by (rule unsigned_less)
  then have "Suc (length A) < 2 ^ 32" using assms(2) by simp
  then have "unat (of_nat (Suc (length A)) :: u32) = Suc (length A)" by (simp only: unsigned_of_nat) (simp add: take_bit_nat_eq_self)
  then have le: "n \<le> of_nat (length (bk_handles ?b)) \<longleftrightarrow> unat n \<le> Suc (length A)"
    unfolding word_le_nat_alt b(1) by simp
  show ?thesis
  proof (cases "length (A @ [(now, h, n)]) = unat n")
    case True
    then show ?thesis using le b f assms(3-5) by (simp add: collecting_def on_record_def Let_def flushed_at_def)
  next
    case False
    then have "\<not> n \<le> of_nat (length (bk_handles ?b))" using le assms(2) by simp
    then show ?thesis using False b f assms(3-5)
      by (simp add: collecting_def on_record_def Let_def flushed_at_def del: map_append)
  qed
qed

lemma collecting_other:
  assumes "collecting p n A r" and "arrival p (drm, slot, now, Record rec) = None"
  shows "collecting p n A (on_record drm slot now rec r)"
proof (cases "fr_consumer rec")
  case None
  then show ?thesis using assms(1) by (simp add: on_record_def collecting_def flushed_at_def split: if_splits)
next
  case (Some h)
  then have "fr_point rec \<noteq> p" using assms(2) by (auto split: if_splits)
  then have "hm_get (rp_buckets (on_record drm slot now rec r)) p = hm_get (rp_buckets r) p"
    "flushed_at p (on_record drm slot now rec r) = flushed_at p r"
    using Some by (auto simp: on_record_def Let_def flushed_at_def)
  then show ?thesis using assms(1) by (simp add: collecting_def)
qed

lemma collecting_timer:
  assumes "collecting p n A r" and "hm_ok (rp_buckets r)" and "\<And>a. a \<in> set A \<Longrightarrow> now < fst a + BUCKET_TIMEOUT"
  shows "collecting p n A (on_timer drm slot now r)"
proof (cases "hm_get (rp_buckets r) p")
  case None
  then show ?thesis using assms(1) on_timer_at [OF assms(2), where p = p and drm = drm and slot = slot and now = now]
    by (simp add: collecting_def split: if_splits)
next
  case (Some b)
  then have "length A \<noteq> unat n" "bk_deadline b \<in> (\<lambda>a. fst a + BUCKET_TIMEOUT) ` set A"
    using assms(1) by (auto simp: collecting_def split: if_splits)
  then have "\<not> bk_deadline b \<le> now" using assms(3) by fastforce
  then show ?thesis using assms(1) on_timer_at [OF assms(2), where p = p and drm = drm and slot = slot and now = now] Some
    by (simp add: collecting_def split: if_splits)
qed

lemma collecting_run:
  assumes "n \<noteq> 0" and "\<forall>a \<in> set (arrivals p xs). snd (snd a) = n" and "length (arrivals p xs) \<le> unat n"
    and "\<forall>t \<in> timer_times xs. \<forall>a \<in> set (arrivals p xs). t < fst a + BUCKET_TIMEOUT"
  shows "collecting p n (arrivals p xs) (spawn_reaper xs)"
  using assms
proof (induction xs rule: rev_induct)
  case Nil
  then show ?case
    by (simp add: arrivals_def List.map_filter_def collecting_def spawn_reaper_def reaper_new_def flushed_at_def unat_eq_0)
next
  case (snoc x xs)
  obtain drm slot now i where x: "x = (drm, slot, now, i)" by (cases x)
  have arr: "arrivals p (xs @ [x]) = arrivals p xs @ (case arrival p x of None \<Rightarrow> [] | Some a \<Rightarrow> [a])"
    by (simp add: arrivals_def List.map_filter_def split: option.split)
  have "timer_times xs \<subseteq> timer_times (xs @ [x])" by (auto simp: timer_times_def)
  with snoc.prems have IH: "collecting p n (arrivals p xs) (spawn_reaper xs)"
    by (intro snoc.IH) (auto simp: arr)
  show ?case
  proof (cases i)
    case (Record rec)
    show ?thesis
    proof (cases "arrival p x")
      case None
      then show ?thesis using collecting_other [OF IH] Record x arr by (simp add: spawn_reaper_snoc)
    next
      case (Some a)
      then obtain h where h: "fr_point rec = p" "fr_consumer rec = Some h" "a = (now, h, fr_expected rec)"
        using Record x by (auto split: if_splits)
      moreover from this have "fr_expected rec = n" using snoc.prems(2) Some arr by auto
      moreover have "length (arrivals p xs) < unat n" using snoc.prems(3) Some arr by simp
      ultimately show ?thesis
        using collecting_record [OF IH, of rec h now drm slot] Some Record x arr by (simp add: spawn_reaper_snoc)
    qed
  next
    case Timer
    then have a: "arrivals p (xs @ [x]) = arrivals p xs" using x arr by simp
    have "now \<in> timer_times (xs @ [x])" using Timer x by (auto simp: timer_times_def)
    then have "\<And>a. a \<in> set (arrivals p xs) \<Longrightarrow> now < fst a + BUCKET_TIMEOUT" using snoc.prems(4) a by auto
    from collecting_timer [OF IH spawn_reaper_ok this] show ?thesis using Timer x a by (simp add: spawn_reaper_snoc)
  qed
qed

text \<open>
  C7: a frame that went to \<open>n\<close> displays releases its buffer once: when all of its \<open>n\<close> records have
  come before a time-out, in whatever order and between whatever other records, the bucket of
  its point has been flushed exactly once, with the handles of exactly those displays, and is gone.
\<close>

theorem point_flushed_once:
  assumes "n \<noteq> 0" and "\<forall>a \<in> set (arrivals p xs). snd (snd a) = n" and "length (arrivals p xs) = unat n"
    and "\<forall>t \<in> timer_times xs. \<forall>a \<in> set (arrivals p xs). t < fst a + BUCKET_TIMEOUT"
  shows "flushed_at p (spawn_reaper xs) = [(p, map (fst \<circ> snd) (arrivals p xs))] \<and>
    hm_get (rp_buckets (spawn_reaper xs)) p = None"
  using collecting_run [of n p xs] assms by (simp add: collecting_def)

text \<open>
  no bucket outlives its deadline: when the timer fires, exactly the buckets that are due are
  flushed, each once with the handles it has, and every other bucket is kept.
\<close>

theorem timer_flushes_late_buckets:
  "flushed_at p (on_timer drm slot now (spawn_reaper xs)) = flushed_at p (spawn_reaper xs) @
     (case hm_get (rp_buckets (spawn_reaper xs)) p of
        Some b \<Rightarrow> if bk_deadline b \<le> now then [(p, bk_handles b)] else [] | None \<Rightarrow> []) \<and>
   hm_get (rp_buckets (on_timer drm slot now (spawn_reaper xs))) p =
     (case hm_get (rp_buckets (spawn_reaper xs)) p of
        Some b \<Rightarrow> if bk_deadline b \<le> now then None else Some b | None \<Rightarrow> None)"
  using on_timer_at [OF spawn_reaper_ok] by blast

section \<open>Reaching the timeline\<close>

definition transfers :: "sync_op list \<Rightarrow> sync_op list" where
  "transfers ops = filter (\<lambda>op. case op of Transfer _ _ _ _ \<Rightarrow> True | _ \<Rightarrow> False) ops"

lemma transfer_to_log:
  assumes "rp_producer r = Some P"
  shows "rp_log (transfer_to drm src point r) = rp_log r @ [Transfer src P point (d_transfer drm src P point)]"
  using assms by (simp add: transfer_to_def)

lemma release_handles_log:
  assumes "rp_producer r = Some P" and "d_create drm \<noteq> None" and "\<And>a b. d_import drm a b"
  shows "\<exists>src ops. rp_log (release_handles drm point hs r) = rp_log r @ ops \<and>
    transfers ops = [Transfer src P point (d_transfer drm src P point)]"
proof -
  obtain tmp where tmp: "d_create drm = Some tmp" using assms(2) by auto
  have direct: ?thesis if "release_handles drm point hs r = transfer_to drm src point r" for src
    using that transfer_to_log [OF assms(1), of drm src point] by (auto simp: transfers_def)
  show ?thesis
  proof (cases "length hs = 1 \<or> export_all drm hs = None \<or> export_all drm hs = Some []")
    case True
    then have "release_handles drm point hs r = transfer_to drm (hd hs) point r"
      by (auto simp: release_handles_def)
    then show ?thesis by (rule direct)
  next
    case False
    then obtain files where f: "length hs \<noteq> 1" "export_all drm hs = Some files" "files \<noteq> []" by auto
    let ?m = "merge_files drm files"
    have "release_handles drm point hs r = transfer_to drm tmp point (logged (Import tmp ?m True) r)"
      using f tmp assms(3) by (simp add: release_handles_def Let_def)
    then show ?thesis
      using transfer_to_log [of "logged (Import tmp ?m True) r" P drm tmp point] assms(1) by (auto simp: transfers_def)
  qed
qed

text \<open>
  flushing a bucket releases its point, whatever becomes of the fences: with the producer's
  syncobj at hand and the last steps of the kernel working, exactly one transfer to the point is
  made, even when the wait fails, an export fails or a merge fails; and when the wait fails every
  handle is signalled first.
\<close>

theorem flush_releases_point:
  assumes "bk_handles b \<noteq> []" and "fst (ensure_producer_handle drm slot r)" and "d_join drm"
    and "d_create drm \<noteq> None" and "\<And>x y. d_import drm x y"
  shows "\<exists>src P ops. rp_log (flush_bucket drm slot point b r) = rp_log r @ ops \<and>
    transfers ops = [Transfer src P point (d_transfer drm src P point)] \<and>
    (d_wait drm (bk_handles b) \<or> (\<lambda>h. Signal h (d_signal drm h)) ` set (bk_handles b) \<subseteq> set ops)"
proof -
  let ?hs = "bk_handles b" and ?r = "r\<lparr>rp_flushed := rp_flushed r @ [(point, bk_handles b)]\<rparr>"
  let ?r1 = "snd (ensure_producer_handle drm slot ?r)"
  let ?r2 = "if d_wait drm ?hs then ?r1 else force_signal drm ?hs ?r1"
  have e: "fst (ensure_producer_handle drm slot ?r)"
    using assms(2) by (auto simp: ensure_producer_handle_def split: option.splits if_splits)
  then obtain P where P: "rp_producer ?r1 = Some P" using ensure_ok by blast
  have "rp_producer ?r2 = Some P" using P by (simp add: force_signal_eq)
  then obtain src ops where ops: "rp_log (release_handles drm point ?hs ?r2) = rp_log ?r2 @ ops"
    "transfers ops = [Transfer src P point (d_transfer drm src P point)]"
    using release_handles_log [OF _ assms(4,5)] by metis
  have f: "flush_bucket drm slot point b r = release_handles drm point ?hs ?r2"
    using assms(1,3) e by (simp add: flush_bucket_def split_beta Let_def)
  let ?sig = "if d_wait drm ?hs then [] else map (\<lambda>h. Signal h (d_signal drm h)) ?hs"
  have "rp_log (flush_bucket drm slot point b r) = rp_log r @ ?sig @ ops"
    using ops(1) f by (simp add: force_signal_eq)
  moreover have "transfers (?sig @ ops) = [Transfer src P point (d_transfer drm src P point)]"
    using ops(2) by (simp add: transfers_def filter_map o_def)
  moreover have "d_wait drm ?hs \<or> (\<lambda>h. Signal h (d_signal drm h)) ` set ?hs \<subseteq> set (?sig @ ops)" by auto
  ultimately show ?thesis by blast
qed

lemma first_of_two:
  "rp_buckets r = [] \<Longrightarrow>
    rp_buckets (on_record drm slot now \<lparr>fr_point = p, fr_consumer = Some h, fr_expected = 2\<rparr> r) =
      [(p, \<lparr>bk_handles = [h], bk_expected = 2, bk_deadline = now + BUCKET_TIMEOUT\<rparr>)] \<and>
    rp_flushed (on_record drm slot now \<lparr>fr_point = p, fr_consumer = Some h, fr_expected = 2\<rparr> r) = rp_flushed r"
  by (simp add: on_record_def add_to_bucket_def Let_def word_le_nat_alt)

lemma only_one:
  "rp_buckets r = [] \<Longrightarrow>
    rp_buckets (on_record drm slot now \<lparr>fr_point = p, fr_consumer = Some h, fr_expected = 1\<rparr> r) = [] \<and>
    rp_flushed (on_record drm slot now \<lparr>fr_point = p, fr_consumer = Some h, fr_expected = 1\<rparr> r) = rp_flushed r @ [(p, [h])]"
  by (simp add: on_record_def add_to_bucket_def Let_def)

lemma lone_bucket_due:
  "rp_buckets r = [(p, b)] \<Longrightarrow> bk_deadline b \<le> now \<Longrightarrow>
    rp_buckets (on_timer drm slot now r) = [] \<and> rp_flushed (on_timer drm slot now r) = rp_flushed r @ [(p, bk_handles b)]"
  by (simp add: on_timer_def expired_def flush_expired_def)

text \<open>
  after a time-out a point can be flushed again: a record that comes late opens a new bucket
  for it that nobody else will complete, so the point is transferred a second time, half a second
  later and after the points that followed it.
\<close>

theorem late_record_flushes_again:
  "rp_flushed (spawn_reaper
     [(drm, slot, 0, Record \<lparr>fr_point = p, fr_consumer = Some h1, fr_expected = 2\<rparr>), (drm, slot, 500, Timer),
      (drm, slot, 510, Record \<lparr>fr_point = q, fr_consumer = Some h2, fr_expected = 1\<rparr>),
      (drm, slot, 520, Record \<lparr>fr_point = p, fr_consumer = Some h3, fr_expected = 2\<rparr>), (drm, slot, 1020, Timer)]) =
    [(p, [h1]), (q, [h2]), (p, [h3])]"
proof -
  let ?r1 = "on_record drm slot 0 \<lparr>fr_point = p, fr_consumer = Some h1, fr_expected = 2\<rparr> reaper_new"
  let ?r2 = "on_timer drm slot 500 ?r1"
  let ?r3 = "on_record drm slot 510 \<lparr>fr_point = q, fr_consumer = Some h2, fr_expected = 1\<rparr> ?r2"
  let ?r4 = "on_record drm slot 520 \<lparr>fr_point = p, fr_consumer = Some h3, fr_expected = 2\<rparr> ?r3"
  have 1: "rp_buckets ?r1 = [(p, \<lparr>bk_handles = [h1], bk_expected = 2, bk_deadline = 0 + BUCKET_TIMEOUT\<rparr>)]" "rp_flushed ?r1 = []"
    using first_of_two [of reaper_new drm slot 0 p h1] by (simp_all add: reaper_new_def)
  have 2: "rp_buckets ?r2 = []" "rp_flushed ?r2 = [(p, [h1])]"
    using lone_bucket_due [OF 1(1), of 500 drm slot] 1(2) by (simp_all add: BUCKET_TIMEOUT_def)
  have 3: "rp_buckets ?r3 = []" "rp_flushed ?r3 = [(p, [h1]), (q, [h2])]"
    using only_one [OF 2(1)] 2(2) by simp_all
  have 4: "rp_buckets ?r4 = [(p, \<lparr>bk_handles = [h3], bk_expected = 2, bk_deadline = 520 + BUCKET_TIMEOUT\<rparr>)]"
    "rp_flushed ?r4 = [(p, [h1]), (q, [h2])]"
    using first_of_two [OF 3(1)] 3(2) by simp_all
  show ?thesis
    using lone_bucket_due [OF 4(1), of 1020 drm slot] 4(2) by (simp add: spawn_reaper_def BUCKET_TIMEOUT_def)
qed

section \<open>Witnesses\<close>

definition ex_drm :: drm_ops where
  "ex_drm = \<lparr>d_fd_to_handle = (\<lambda>_. Some 1), d_create = Some 2, d_signal = (\<lambda>_. True), d_wait = (\<lambda>_. False), d_join = True,
     d_export = (\<lambda>h. Some h), d_merge = (\<lambda>_ _. None), d_import = (\<lambda>_ _. True), d_transfer = (\<lambda>_ _ _. True)\<rparr>"

definition ex_record :: "u64 \<Rightarrow> nat \<Rightarrow> drm_ops \<times> nat option \<times> nat \<times> reaper_input" where
  "ex_record p h = (ex_drm, Some 5, h, Record \<lparr>fr_point = p, fr_consumer = Some h, fr_expected = 2\<rparr>)"

theorem point_flushed_once_witness:
  "flushed_at 8 (spawn_reaper [ex_record 8 11, ex_record 9 12, ex_record 8 13]) = [(8, [11, 13])]"
proof -
  let ?xs = "[ex_record 8 11, ex_record 9 12, ex_record 8 13]"
  have a: "arrivals 8 ?xs = [(11, 11, 2), (13, 13, 2)]" "timer_times ?xs = {}"
    by (simp_all add: arrivals_def List.map_filter_def ex_record_def timer_times_def)
  show ?thesis using point_flushed_once [of 2 8 ?xs] a by simp
qed

theorem flush_releases_point_witness:
  "\<exists>src P. Transfer src P 8 True \<in> set (rp_log (flush_bucket ex_drm (Some 5) 8
     \<lparr>bk_handles = [11, 13], bk_expected = 2, bk_deadline = 0\<rparr> reaper_new))"
proof -
  let ?b = "\<lparr>bk_handles = [11, 13], bk_expected = 2, bk_deadline = 0\<rparr>"
  have "fst (ensure_producer_handle ex_drm (Some 5) reaper_new)"
    by (simp add: ensure_producer_handle_def reaper_new_def ex_drm_def)
  then obtain src P ops where o: "rp_log (flush_bucket ex_drm (Some 5) 8 ?b reaper_new) = rp_log reaper_new @ ops"
    "transfers ops = [Transfer src P 8 (d_transfer ex_drm src P 8)]"
    using flush_releases_point [of ?b ex_drm "Some 5" reaper_new 8] by (auto simp: ex_drm_def)
  then have "Transfer src P 8 (d_transfer ex_drm src P 8) \<in> set ops"
    by (metis (no_types, lifting) transfers_def filter_is_subset list.set_intros(1) subsetD)
  then show ?thesis using o(1) by (auto simp: ex_drm_def)
qed

end
