(* ===== verification/Display_Wire.thy ===== *)
theory Display_Wire
  imports Prelude
begin

text \<open>
  The display protocol on the socket: \<open>src/display/proto/codec.rs\<close> around the types, writers and
  readers that \<open>tools/wayproto-gen/src/codegen_rust.rs\<close> generates for the messages of
  \<open>protocol/waywallen_display_v1.xml\<close>. A message is its opcode and the list of its arguments; what
  the generated code does for each argument is read from the generator, what the arguments are
  from the protocol file.

  Floats are carried as their bits. A stream is the list of the bytes under way, each with the
  descriptors that ride on it; how much each \<open>recvmsg\<close> returns is an argument. Interrupted calls
  are repeated by the code; the result given here is that of the last.
\<close>

section \<open>Types and values\<close>

datatype arg_type = TU32 | TI32 | TU64 | TI64 | TF32 | TF64 | TString | TArray arg_type | TKvList | TRect

datatype arg_val =
    V32 u32
  | V64 u64
  | VString "u8 list"
  | VArray "arg_val list"
  | VKvList "(u8 list \<times> u8 list) list"
  | VRect u32 u32 u32 u32

datatype decode_error = TooShort | BadString | BadArrayLen | Trailing | UnknownOpcode u16

text \<open>\<open>std::str::from_utf8\<close> accepts the byte sequences of Unicode scalar values.\<close>

definition cont :: "u8 \<Rightarrow> bool" where "cont b \<longleftrightarrow> 0x80 \<le> b \<and> b \<le> 0xBF"

fun utf8 :: "u8 list \<Rightarrow> bool" where
  "utf8 [] = True"
| "utf8 (a # r) =
     (if a < 0x80 then utf8 r
      else if 0xC2 \<le> a \<and> a \<le> 0xDF then (case r of b # r' \<Rightarrow> cont b \<and> utf8 r' | _ \<Rightarrow> False)
      else if 0xE0 \<le> a \<and> a \<le> 0xEF then
        (case r of
           b # c # r' \<Rightarrow> cont b \<and> cont c \<and> (a = 0xE0 \<longrightarrow> 0xA0 \<le> b) \<and> (a = 0xED \<longrightarrow> b \<le> 0x9F) \<and> utf8 r'
         | _ \<Rightarrow> False)
      else if 0xF0 \<le> a \<and> a \<le> 0xF4 then
        (case r of
           b # c # d # r' \<Rightarrow> cont b \<and> cont c \<and> cont d \<and> (a = 0xF0 \<longrightarrow> 0x90 \<le> b) \<and> (a = 0xF4 \<longrightarrow> b \<le> 0x8F) \<and> utf8 r'
         | _ \<Rightarrow> False)
      else False)"

section \<open>Writers\<close>

text \<open>\<open>to_le_bytes\<close> and \<open>from_le_bytes\<close>, by value.\<close>

primrec le_bytes :: "nat \<Rightarrow> nat \<Rightarrow> u8 list" where
  "le_bytes 0 n = []"
| "le_bytes (Suc k) n = of_nat (n mod 256) # le_bytes k (n div 256)"

primrec from_le :: "u8 list \<Rightarrow> nat" where
  "from_le [] = 0"
| "from_le (b # bs) = unat b + 256 * from_le bs"

definition w_u32 :: "u32 \<Rightarrow> u8 list \<Rightarrow> u8 list" where "w_u32 v buf = buf @ le_bytes 4 (unat v)"
definition w_u64 :: "u64 \<Rightarrow> u8 list \<Rightarrow> u8 list" where "w_u64 v buf = buf @ le_bytes 8 (unat v)"

text \<open>The loop pushes zeros until the length is a multiple of four.\<close>

definition pad4 :: "u8 list \<Rightarrow> u8 list" where
  "pad4 buf = buf @ replicate ((4 - length buf mod 4) mod 4) 0"

definition w_string :: "u8 list \<Rightarrow> u8 list \<Rightarrow> u8 list" where
  "w_string s buf = pad4 (w_u32 (of_nat (length s) + 1) buf @ s @ [0])"

definition w_rect :: "u32 \<Rightarrow> u32 \<Rightarrow> u32 \<Rightarrow> u32 \<Rightarrow> u8 list \<Rightarrow> u8 list" where
  "w_rect x y w h buf = w_u32 h (w_u32 w (w_u32 y (w_u32 x buf)))"

definition w_kv_list :: "(u8 list \<times> u8 list) list \<Rightarrow> u8 list \<Rightarrow> u8 list" where
  "w_kv_list kvs buf = fold (\<lambda>(k, v) b. w_string v (w_string k b)) kvs (w_u32 (of_nat (length kvs)) buf)"

text \<open>The body of \<open>encode\<close>, one argument after the other.\<close>

fun encode_arg :: "arg_val \<Rightarrow> u8 list \<Rightarrow> u8 list" where
  "encode_arg (V32 v) buf = w_u32 v buf"
| "encode_arg (V64 v) buf = w_u64 v buf"
| "encode_arg (VString s) buf = w_string s buf"
| "encode_arg (VArray vs) buf = fold encode_arg vs (w_u32 (of_nat (length vs)) buf)"
| "encode_arg (VKvList kvs) buf = w_kv_list kvs buf"
| "encode_arg (VRect x y w h) buf = w_rect x y w h buf"

definition encode :: "arg_val list \<Rightarrow> u8 list" where
  "encode vals = fold encode_arg vals []"

section \<open>Readers\<close>

type_synonym 'a reader = "u8 list \<Rightarrow> decode_error + 'a \<times> u8 list"

definition r_then :: "'a reader \<Rightarrow> ('a \<Rightarrow> 'b reader) \<Rightarrow> 'b reader" where
  "r_then m f bs = (case m bs of Inl e \<Rightarrow> Inl e | Inr (v, r) \<Rightarrow> f v r)"

definition r_return :: "'a \<Rightarrow> 'a reader" where "r_return v bs = Inr (v, bs)"
definition r_fail :: "decode_error \<Rightarrow> 'a reader" where "r_fail e bs = Inl e"

definition r_take :: "nat \<Rightarrow> u8 list reader" where
  "r_take n bs = (if length bs < n then Inl TooShort else Inr (take n bs, drop n bs))"

definition r_u32 :: "u32 reader" where "r_u32 = r_then (r_take 4) (\<lambda>b. r_return (of_nat (from_le b)))"
definition r_u64 :: "u64 reader" where "r_u64 = r_then (r_take 8) (\<lambda>b. r_return (of_nat (from_le b)))"

definition r_string_rest :: "nat \<Rightarrow> u8 list reader" where
  "r_string_rest len =
     (if len = 0 then r_fail BadString
      else r_then (r_take ((len + 3) div 4 * 4)) (\<lambda>bytes.
        if bytes ! (len - 1) \<noteq> 0 then r_fail BadString
        else if utf8 (take (len - 1) bytes) then r_return (take (len - 1) bytes) else r_fail BadString))"

definition r_string :: "u8 list reader" where
  "r_string = r_then r_u32 (\<lambda>n. r_string_rest (unat n))"

text \<open>\<open>for _ in 0..n { v.push(read()?) }\<close>.\<close>

primrec r_many :: "nat \<Rightarrow> 'a reader \<Rightarrow> 'a list reader" where
  "r_many 0 m = r_return []"
| "r_many (Suc n) m = r_then m (\<lambda>v. r_then (r_many n m) (\<lambda>vs. r_return (v # vs)))"

definition r_pair :: "(u8 list \<times> u8 list) reader" where
  "r_pair = r_then r_string (\<lambda>k. r_then r_string (\<lambda>v. r_return (k, v)))"

primrec decode_arg :: "arg_type \<Rightarrow> arg_val reader" where
  "decode_arg TU32 = r_then r_u32 (\<lambda>v. r_return (V32 v))"
| "decode_arg TI32 = r_then r_u32 (\<lambda>v. r_return (V32 v))"
| "decode_arg TF32 = r_then r_u32 (\<lambda>v. r_return (V32 v))"
| "decode_arg TU64 = r_then r_u64 (\<lambda>v. r_return (V64 v))"
| "decode_arg TI64 = r_then r_u64 (\<lambda>v. r_return (V64 v))"
| "decode_arg TF64 = r_then r_u64 (\<lambda>v. r_return (V64 v))"
| "decode_arg TString = r_then r_string (\<lambda>s. r_return (VString s))"
| "decode_arg TKvList = r_then r_u32 (\<lambda>n. r_then (r_many (unat n) r_pair) (\<lambda>kvs. r_return (VKvList kvs)))"
| "decode_arg TRect = r_then r_u32 (\<lambda>x. r_then r_u32 (\<lambda>y. r_then r_u32 (\<lambda>w. r_then r_u32 (\<lambda>h. r_return (VRect x y w h)))))"
| "decode_arg (TArray t) = r_then r_u32 (\<lambda>n. r_then (r_many (unat n) (decode_arg t)) (\<lambda>vs. r_return (VArray vs)))"

primrec decode_args :: "arg_type list \<Rightarrow> arg_val list reader" where
  "decode_args [] = r_return []"
| "decode_args (t # ts) = r_then (decode_arg t) (\<lambda>v. r_then (decode_args ts) (\<lambda>vs. r_return (v # vs)))"

section \<open>The messages\<close>

text \<open>Descriptors: none, a fixed number, or the product of two arguments, by position.\<close>

datatype fd_spec = FdNone | FdFixed u32 | FdProduct nat nat

type_synonym message_schema = "(u16 \<times> arg_type list \<times> fd_spec) list"

definition display_requests :: message_schema where
  "display_requests =
     [(1, [TString, TString, TString, TU32], FdNone),
      (2, [TString, TString, TU32, TU32, TU32, TU32, TU32, TKvList], FdNone),
      (3, [TU32, TU32, TKvList], FdNone),
      (5, [], FdNone),
      (6, [TArray TU32, TArray TU32, TArray TU64, TArray TU32, TArray TU32, TArray TU32,
           TU32, TU32, TU32, TU32, TU32, TU32, TU32], FdNone),
      (7, [TU32, TU64, TU32, TString], FdNone),
      (8, [TF32, TF32, TU64, TU32], FdNone),
      (9, [TF32, TF32, TU32, TU32, TU64, TU32], FdNone),
      (10, [TF32, TF32, TF32, TF32, TU32, TU64, TU32], FdNone),
      (11, [TU64], FdNone),
      (12, [TU32], FdNone)]"

definition display_events :: message_schema where
  "display_events =
     [(1, [TString, TArray TString], FdNone),
      (2, [TU64], FdNone),
      (3, [TU64, TU32, TU32, TU32, TU32, TU64, TU32, TArray TU32, TArray TU32, TArray TU64], FdProduct 1 6),
      (4, [TU64, TRect, TRect, TU32, TF32, TF32, TF32, TF32], FdNone),
      (5, [TU64, TU32, TU64], FdFixed 2),
      (6, [TU64], FdNone),
      (7, [TU32, TString], FdNone)]"

text \<open>\<open>decode\<close>: the opcode selects the arguments, and nothing may be left over.\<close>

definition decode :: "message_schema \<Rightarrow> u16 \<Rightarrow> u8 list \<Rightarrow> decode_error + arg_val list" where
  "decode sch op body =
     (case map_of sch op of
        None \<Rightarrow> Inl (UnknownOpcode op)
      | Some (ts, _) \<Rightarrow>
          (case decode_args ts body of
             Inl e \<Rightarrow> Inl e
           | Inr (vals, rest) \<Rightarrow> if rest \<noteq> [] then Inl Trailing else Inr vals))"

definition as_u32 :: "arg_val \<Rightarrow> u32" where
  "as_u32 v = (case v of V32 w \<Rightarrow> w | _ \<Rightarrow> 0)"

definition expected_fds_of :: "message_schema \<Rightarrow> u16 \<times> arg_val list \<Rightarrow> u32" where
  "expected_fds_of sch msg =
     (case map_of sch (fst msg) of
        Some (_, FdFixed n) \<Rightarrow> n
      | Some (_, FdProduct i j) \<Rightarrow> ucast (ucast (as_u32 (snd msg ! i)) * ucast (as_u32 (snd msg ! j)) :: u64)
      | _ \<Rightarrow> 0)"

section \<open>Framing\<close>

definition MAX_FDS_PER_MSG :: nat where "MAX_FDS_PER_MSG = 64"

datatype wire_error =
    Nix nat
  | WirePeerClosed
  | FrameTooLarge nat
  | BadFrameLen u16
  | TooManyFds nat
  | FdCountMismatch u32 nat
  | Decode decode_error
  | ShortWrite nat nat
  | UnexpectedEof

type_synonym stream = "(u8 \<times> nat list) list"

text \<open>What a successful \<open>sendmsg\<close> adds to the stream: its descriptors ride on the first byte.\<close>

definition segment :: "u8 list \<Rightarrow> nat list \<Rightarrow> stream" where
  "segment bytes fds = (hd bytes, fds) # map (\<lambda>b. (b, [])) (tl bytes)"

definition write_framed :: "nat + nat \<Rightarrow> u16 \<Rightarrow> u8 list \<Rightarrow> nat list \<Rightarrow> wire_error + stream" where
  "write_framed res op body fds =
     (if MAX_FDS_PER_MSG < length fds then Inl (TooManyFds (length fds))
      else
        (let total = 4 + length body in
         if 65535 < total then Inl (FrameTooLarge total)
         else
           (let framed = le_bytes 2 (unat op) @ le_bytes 2 total @ body in
            case res of
              Inl e \<Rightarrow> Inl (Nix e)
            | Inr n \<Rightarrow> if n = length framed then Inr (segment framed fds) else Inl (ShortWrite n (length framed)))))"

definition send_msg :: "message_schema \<Rightarrow> nat + nat \<Rightarrow> u16 \<times> arg_val list \<Rightarrow> nat list \<Rightarrow> wire_error + stream" where
  "send_msg sch res msg fds =
     (if length fds \<noteq> unat (expected_fds_of sch msg) then Inl (FdCountMismatch (expected_fds_of sch msg) (length fds))
      else write_framed res (fst msg) (encode (snd msg)) fds)"

text \<open>
  The header is read until it is complete, with whatever descriptors come along. \<open>chunks\<close> are the
  numbers of bytes the kernel returns, at least one; when they run out it returns all it is asked
  for. An empty stream is a closed peer.
\<close>

function read_header :: "nat list \<Rightarrow> u8 list \<Rightarrow> nat list \<Rightarrow> stream \<Rightarrow> wire_error + (u8 list \<times> nat list \<times> stream)" where
  "read_header chunks filled fds st =
     (if 4 \<le> length filled then Inr (filled, fds, st)
      else if st = [] then Inl WirePeerClosed
      else
        (let m = (case chunks of [] \<Rightarrow> 4 - length filled | c # _ \<Rightarrow> max 1 (min c (4 - length filled)))
         in read_header (tl chunks) (filled @ map fst (take m st)) (fds @ concat (map snd (take m st))) (drop m st)))"
  by pat_completeness auto
termination
  by (relation "measure (\<lambda>(_, _, _, st). length st)") (auto simp: Let_def simp flip: length_greater_0_conv split: list.split)

declare read_header.simps [simp del]

definition read_framed :: "nat list \<Rightarrow> stream \<Rightarrow> wire_error + (u16 \<times> u8 list \<times> nat list \<times> stream)" where
  "read_framed chunks st =
     (case read_header chunks [] [] st of
        Inl e \<Rightarrow> Inl e
      | Inr (hdr, fds, st1) \<Rightarrow>
          (let op = of_nat (from_le (take 2 hdr)) :: u16; total = of_nat (from_le (take 2 (drop 2 hdr))) :: u16 in
           if total < 4 then Inl (BadFrameLen total)
           else
             (let n = unat (total - 4) in
              if length st1 < n then Inl UnexpectedEof
              else Inr (op, map fst (take n st1), fds, drop n st1))))"

definition recv_msg :: "message_schema \<Rightarrow> nat list \<Rightarrow> stream \<Rightarrow> wire_error + ((u16 \<times> arg_val list) \<times> nat list \<times> stream)" where
  "recv_msg sch chunks st =
     (case read_framed chunks st of
        Inl e \<Rightarrow> Inl e
      | Inr (op, body, fds, st1) \<Rightarrow>
          (case decode sch op body of
             Inl e \<Rightarrow> Inl (Decode e)
           | Inr vals \<Rightarrow>
               if length fds \<noteq> unat (expected_fds_of sch (op, vals))
               then Inl (FdCountMismatch (expected_fds_of sch (op, vals)) (length fds))
               else Inr ((op, vals), fds, st1)))"

section \<open>What is read is what was written\<close>

text \<open>A reader \<open>m\<close> reads the bytes \<open>bs\<close> as \<open>v\<close>, whatever follows.\<close>

definition reads :: "'a reader \<Rightarrow> u8 list \<Rightarrow> 'a \<Rightarrow> bool" where
  "reads m bs v \<longleftrightarrow> (\<forall>rest. m (bs @ rest) = Inr (v, rest))"

named_theorems reads_intros

lemma reads_return [reads_intros]: "reads (r_return v) [] v"
  by (simp add: reads_def r_return_def)

lemma reads_then: "reads m bs v \<Longrightarrow> reads (f v) cs w \<Longrightarrow> reads (r_then m f) (bs @ cs) w"
  by (simp add: reads_def r_then_def)

lemma reads_map: "reads m bs v \<Longrightarrow> reads (r_then m (\<lambda>v. r_return (f v))) bs (f v)"
  using reads_then [of m bs v "\<lambda>v. r_return (f v)" "[]"] reads_return by fastforce

lemma length_le_bytes [simp]: "length (le_bytes k n) = k"
  by (induction k arbitrary: n) simp_all

lemma from_le_bytes: "n < 256 ^ k \<Longrightarrow> from_le (le_bytes k n) = n"
proof (induction k arbitrary: n)
  case (Suc k)
  have "n div 256 < 256 ^ k" using Suc.prems by (simp add: less_mult_imp_div_less mult.commute)
  moreover have "unat (of_nat (n mod 256) :: u8) = n mod 256" by (simp add: unsigned_of_nat take_bit_nat_eq_self)
  ultimately show ?case using Suc.IH by simp
qed simp

lemma reads_u32: "reads r_u32 (le_bytes 4 (unat v)) v"
proof -
  have "unat v < 256 ^ 4" using unsigned_less [of v] by simp
  then show ?thesis by (simp add: reads_def r_u32_def r_then_def r_take_def r_return_def from_le_bytes)
qed

lemma reads_u64: "reads r_u64 (le_bytes 8 (unat v)) v"
proof -
  have "unat v < 256 ^ 8" using unsigned_less [of v] by simp
  then show ?thesis by (simp add: reads_def r_u64_def r_then_def r_take_def r_return_def from_le_bytes)
qed

lemma reads_many:
  "list_all2 (\<lambda>bs v. reads m bs v) bss vs \<Longrightarrow> reads (r_many (length vs) m) (concat bss) vs"
proof (induction rule: list_all2_induct)
  case Nil
  show ?case by (simp add: reads_return)
next
  case (Cons bs bss v vs)
  then have "reads (r_then (r_many (length vs) m) (\<lambda>vs. r_return (v # vs))) (concat bss) (v # vs)"
    by (intro reads_map)
  with Cons(1) show ?case by (auto intro: reads_then)
qed

text \<open>The bytes of an argument, at a position that is a multiple of four.\<close>

definition string_bytes :: "u8 list \<Rightarrow> u8 list" where
  "string_bytes s = le_bytes 4 (unat (of_nat (length s) + 1 :: u32)) @ s @ [0] @
     replicate ((4 - (length s + 1) mod 4) mod 4) 0"

fun arg_bytes :: "arg_val \<Rightarrow> u8 list" where
  "arg_bytes (V32 v) = le_bytes 4 (unat v)"
| "arg_bytes (V64 v) = le_bytes 8 (unat v)"
| "arg_bytes (VString s) = string_bytes s"
| "arg_bytes (VArray vs) = le_bytes 4 (unat (of_nat (length vs) :: u32)) @ concat (map arg_bytes vs)"
| "arg_bytes (VKvList kvs) = le_bytes 4 (unat (of_nat (length kvs) :: u32)) @
     concat (map (\<lambda>(k, v). string_bytes k @ string_bytes v) kvs)"
| "arg_bytes (VRect x y w h) = le_bytes 4 (unat x) @ le_bytes 4 (unat y) @ le_bytes 4 (unat w) @ le_bytes 4 (unat h)"

lemma pad_length: "((n :: nat) + (4 - n mod 4) mod 4) mod 4 = 0"
proof -
  have "n mod 4 + (4 - n mod 4) mod 4 = 0 \<or> n mod 4 + (4 - n mod 4) mod 4 = 4" by (cases "n mod 4 = 0") auto
  then have "(n mod 4 + (4 - n mod 4) mod 4) mod 4 = 0" by auto
  then show ?thesis by (simp add: mod_add_left_eq)
qed

lemma string_bytes_aligned: "length (string_bytes s) mod 4 = 0"
proof -
  have "length (string_bytes s) = 4 + ((length s + 1) + (4 - (length s + 1) mod 4) mod 4)" by (simp add: string_bytes_def)
  then show ?thesis using pad_length [of "length s + 1"] by (simp only: mod_add_self1)
qed

lemma w_string_bytes:
  assumes "length buf mod 4 = 0"
  shows "w_string s buf = buf @ string_bytes s"
proof -
  have "(length buf + (4 + (length s + 1))) mod 4 = (length s + 1) mod 4"
    using assms by presburger
  then show ?thesis by (simp add: w_string_def w_u32_def pad4_def string_bytes_def add.assoc)
qed

lemma concat_aligned: "(\<And>x. x \<in> set xs \<Longrightarrow> length (g x) mod 4 = (0::nat)) \<Longrightarrow> length (concat (map g xs)) mod 4 = 0"
proof (induction xs)
  case (Cons x xs)
  then have "length (g x) mod 4 = 0" "length (concat (map g xs)) mod 4 = 0" by simp_all
  then show ?case by (simp del: length_concat) presburger
qed simp

lemma arg_bytes_aligned: "length (arg_bytes v) mod 4 = 0"
proof (induction v rule: arg_bytes.induct)
  case (4 vs)
  then show ?case using concat_aligned [of vs arg_bytes] by (simp del: length_concat)
next
  case (5 kvs)
  have "length (string_bytes k @ string_bytes v) mod 4 = 0" for k v
    using string_bytes_aligned [of k] string_bytes_aligned [of v] by simp presburger
  then have "length (concat (map (\<lambda>(k, v). string_bytes k @ string_bytes v) kvs)) mod 4 = 0"
    by (intro concat_aligned) auto
  then show ?case by (simp del: length_concat)
qed (simp_all add: string_bytes_aligned)

lemma fold_appends:
  assumes "length buf mod 4 = (0::nat)" and "\<And>x buf. x \<in> set xs \<Longrightarrow> length buf mod 4 = 0 \<Longrightarrow> f x buf = buf @ g x"
    and "\<And>x. x \<in> set xs \<Longrightarrow> length (g x) mod 4 = 0"
  shows "fold f xs buf = buf @ concat (map g xs)"
  using assms
proof (induction xs arbitrary: buf)
  case (Cons x xs)
  have "f x buf = buf @ g x" "length (buf @ g x) mod 4 = 0" using Cons.prems by (auto simp: mod_add_eq [symmetric])
  with Cons show ?case by simp
qed simp

lemma encode_arg_bytes: "length buf mod 4 = 0 \<Longrightarrow> encode_arg v buf = buf @ arg_bytes v"
proof (induction v buf rule: encode_arg.induct)
  case (4 vs buf)
  have "length (w_u32 (of_nat (length vs)) buf) mod 4 = 0" using 4(2) by (simp add: w_u32_def)
  then have "fold encode_arg vs (w_u32 (of_nat (length vs)) buf) = w_u32 (of_nat (length vs)) buf @ concat (map arg_bytes vs)"
    using 4(1) arg_bytes_aligned by (intro fold_appends) auto
  then show ?case by (simp add: w_u32_def)
next
  case (5 kvs buf)
  let ?b = "w_u32 (of_nat (length kvs)) buf"
  have b: "length ?b mod 4 = 0" using 5 by (simp add: w_u32_def)
  have a: "length (string_bytes k @ string_bytes v) mod 4 = 0" for k v
    using string_bytes_aligned [of k] string_bytes_aligned [of v] by simp presburger
  have s: "w_string v (w_string k c) = c @ string_bytes k @ string_bytes v" if "length c mod 4 = 0" for c k v
  proof -
    have "length (c @ string_bytes k) mod 4 = 0" using that string_bytes_aligned [of k] by simp presburger
    then show ?thesis using w_string_bytes [of c k] w_string_bytes [of "c @ string_bytes k" v] that by simp
  qed
  have "w_kv_list kvs buf = ?b @ concat (map (\<lambda>(k, v). string_bytes k @ string_bytes v) kvs)"
    unfolding w_kv_list_def using b a s by (intro fold_appends) auto
  then show ?case by (simp add: w_u32_def)
qed (simp_all add: w_u32_def w_u64_def w_string_bytes w_rect_def)

lemma encode_bytes: "encode vals = concat (map arg_bytes vals)"
  unfolding encode_def using fold_appends [of "[]" vals encode_arg arg_bytes] encode_arg_bytes arg_bytes_aligned by simp

text \<open>Values of a type; a Rust string is valid UTF-8.\<close>

fun has_type :: "arg_type \<Rightarrow> arg_val \<Rightarrow> bool" where
  "has_type TU32 (V32 v) = True"
| "has_type TI32 (V32 v) = True"
| "has_type TF32 (V32 v) = True"
| "has_type TU64 (V64 v) = True"
| "has_type TI64 (V64 v) = True"
| "has_type TF64 (V64 v) = True"
| "has_type TString (VString s) = utf8 s"
| "has_type TRect (VRect x y w h) = True"
| "has_type TKvList (VKvList kvs) = (\<forall>kv \<in> set kvs. utf8 (fst kv) \<and> utf8 (snd kv))"
| "has_type (TArray t) (VArray vs) = (\<forall>v \<in> set vs. has_type t v)"
| "has_type _ _ = False"

lemma unat_small: "n < 2 ^ 32 \<Longrightarrow> unat (of_nat n :: u32) = n"
  by (simp add: unsigned_of_nat take_bit_nat_eq_self)

lemma round_up: "(n :: nat) + (4 - n mod 4) mod 4 = (n + 3) div 4 * 4"
proof -
  obtain q r where n: "n = 4 * q + r" "r < 4" by (metis mult_div_mod_eq mod_less_divisor zero_less_numeral)
  have m: "n mod 4 = r" and d: "(n + 3) div 4 = q + (r + 3) div 4"
    using n by (simp, metis n(1) add.assoc div_mult_self4 zero_neq_numeral)
  consider "r = 0" | "r = 1" | "r = 2" | "r = 3" using n(2) by linarith
  then show ?thesis by cases (simp_all add: m d, simp_all add: n(1))
qed

lemma reads_string_rest:
  assumes "n \<noteq> 0" "length B = (n + 3) div 4 * 4" "B ! (n - 1) = 0" "take (n - 1) B = s" "utf8 s"
  shows "reads (r_string_rest n) B s"
  using assms by (simp add: reads_def r_string_rest_def r_then_def r_take_def r_return_def)

lemma reads_string:
  assumes "utf8 s" and "length (string_bytes s) < 2 ^ 32"
  shows "reads r_string (string_bytes s) s"
proof -
  let ?n = "length s + 1" and ?pad = "replicate ((4 - (length s + 1) mod 4) mod 4) (0 :: u8)"
  have "?n < 2 ^ 32" using assms(2) by (simp add: string_bytes_def)
  then have n: "unat (of_nat (length s) + 1 :: u32) = ?n" using unat_small [of ?n] by (simp add: add.commute)
  have l: "length (s @ [0] @ ?pad) = (?n + 3) div 4 * 4" using round_up [of ?n] by simp
  obtain B where B: "B = s @ [0] @ ?pad" by blast
  have "B ! (?n - 1) = 0" "take (?n - 1) B = s" by (simp_all add: B nth_append)
  then have "reads (r_string_rest ?n) B s" using assms(1) l B by (intro reads_string_rest) simp_all
  then have "reads (r_string_rest (unat (of_nat (length s) + 1 :: u32))) (s @ [0] @ ?pad) s" by (simp only: n B)
  then show ?thesis unfolding r_string_def string_bytes_def by (rule reads_then [OF reads_u32])
qed

lemma reads_array:
  assumes "\<forall>v \<in> set vs. reads m (g v) v" and "length vs < 2 ^ 32"
  shows "reads (r_then r_u32 (\<lambda>n. r_then (r_many (unat n) m) (\<lambda>vs. r_return (f vs))))
    (le_bytes 4 (unat (of_nat (length vs) :: u32)) @ concat (map g vs)) (f vs)"
proof -
  have "list_all2 (\<lambda>bs v. reads m bs v) (map g vs) vs" using assms(1) by (simp add: list_all2_map1 list_all2_same)
  then have "reads (r_many (length vs) m) (concat (map g vs)) vs" by (rule reads_many)
  then show ?thesis by (intro reads_then [OF reads_u32]) (simp add: unat_small [OF assms(2)] reads_map)
qed

lemma short_concat: "x \<in> set xs \<Longrightarrow> length (g x) \<le> length (concat (map g xs))"
  by (induction xs) auto

lemma count_le_concat: "(\<And>x. x \<in> set xs \<Longrightarrow> g x \<noteq> []) \<Longrightarrow> length xs \<le> length (concat (map g xs))"
proof (induction xs)
  case (Cons x xs)
  then have "0 < length (g x)" "length xs \<le> length (concat (map g xs))" by auto
  then show ?case by (simp only: list.map concat.simps length_append length_Cons)
qed simp

lemma arg_bytes_nonempty: "arg_bytes v \<noteq> []"
proof -
  have "length (arg_bytes v) \<noteq> 0" by (cases v) (simp_all add: string_bytes_def)
  then show ?thesis by auto
qed

lemma reads_arg:
  "has_type t v \<Longrightarrow> length (arg_bytes v) < 2 ^ 32 \<Longrightarrow> reads (decode_arg t) (arg_bytes v) v"
proof (induction t v rule: has_type.induct)
  case (7 s)
  then show ?case by (simp add: reads_map reads_string)
next
  case (8 x y w h)
  show ?case by (simp add: reads_then [OF reads_u32] reads_map reads_u32)
next
  case (9 kvs)
  let ?g = "\<lambda>(k, v). string_bytes k @ string_bytes v"
  have small: "length (concat (map ?g kvs)) < 2 ^ 32" using 9(2) by (simp del: length_concat)
  have "reads r_pair (?g kv) kv" if "kv \<in> set kvs" for kv
  proof -
    obtain k v where kv: "kv = (k, v)" by force
    have "length (?g kv) < 2 ^ 32" using short_concat [OF that, of ?g] small by linarith
    then have "length (string_bytes k) < 2 ^ 32" "length (string_bytes v) < 2 ^ 32" by (simp_all add: kv)
    moreover have "utf8 k" "utf8 v" using 9(1) that kv by auto
    ultimately have "reads r_pair (string_bytes k @ string_bytes v) (k, v)"
      unfolding r_pair_def by (intro reads_then [OF reads_string] reads_map reads_string)
    then show ?thesis by (simp add: kv)
  qed
  moreover have "?g kv \<noteq> []" for kv by (cases kv) (simp add: string_bytes_def)
  then have "length kvs \<le> length (concat (map ?g kvs))" by (intro count_le_concat)
  then have "length kvs < 2 ^ 32" using small by linarith
  ultimately show ?case using reads_array [of kvs r_pair ?g VKvList] by simp
next
  case (10 t vs)
  have small: "length (concat (map arg_bytes vs)) < 2 ^ 32" using 10(3) by (simp del: length_concat)
  have "reads (decode_arg t) (arg_bytes v) v" if "v \<in> set vs" for v
    using 10(1) [OF that] 10(2) that short_concat [OF that, of arg_bytes] small by simp
  moreover have "length vs \<le> length (concat (map arg_bytes vs))" using arg_bytes_nonempty by (intro count_le_concat)
  then have "length vs < 2 ^ 32" using small by linarith
  ultimately show ?case using reads_array [of vs "decode_arg t" arg_bytes VArray] by simp
qed (simp_all add: reads_map reads_u32 reads_u64)

lemma reads_args:
  "list_all2 has_type ts vals \<Longrightarrow> length (concat (map arg_bytes vals)) < 2 ^ 32 \<Longrightarrow>
    reads (decode_args ts) (concat (map arg_bytes vals)) vals"
proof (induction rule: list_all2_induct)
  case Nil
  show ?case by (simp add: reads_return)
next
  case (Cons t ts v vals)
  have "reads (decode_arg t) (arg_bytes v) v" "reads (decode_args ts) (concat (map arg_bytes vals)) vals"
    using Cons by (simp_all add: reads_arg)
  then show ?case by (simp add: reads_then reads_map)
qed

section \<open>Framing\<close>

text \<open>However the kernel splits it, the header read is the next four bytes with their descriptors.\<close>

lemma read_header_reads:
  "length filled + length pre = 4 \<Longrightarrow>
    read_header chunks filled fds (pre @ rest) = Inr (filled @ map fst pre, fds @ concat (map snd pre), rest)"
proof (induction "length pre" arbitrary: chunks filled fds pre rule: less_induct)
  case less
  show ?case
  proof (cases "pre = []")
    case True
    then show ?thesis using less(2) by (subst read_header.simps) simp
  next
    case False
    define m where "m = (case chunks of [] \<Rightarrow> 4 - length filled | c # _ \<Rightarrow> max 1 (min c (4 - length filled)))"
    have lp: "1 \<le> length pre" using False by (simp add: Suc_le_eq)
    have "4 - length filled = length pre" using less(2) by simp
    then have m: "1 \<le> m" "m \<le> length pre" using lp unfolding m_def by (cases chunks; fastforce)+
    have "\<not> 4 \<le> length filled" "pre @ rest \<noteq> []" using less(2) lp False by auto
    then have "read_header chunks filled fds (pre @ rest) =
        read_header (tl chunks) (filled @ map fst (take m pre)) (fds @ concat (map snd (take m pre))) (drop m pre @ rest)"
      using m False by (subst read_header.simps) (simp add: m_def [symmetric] Let_def)
    also have "\<dots> = Inr ((filled @ map fst (take m pre)) @ map fst (drop m pre),
        (fds @ concat (map snd (take m pre))) @ concat (map snd (drop m pre)), rest)"
      using m less(2) by (intro less(1)) auto
    also have "\<dots> = Inr (filled @ map fst pre, fds @ concat (map snd pre), rest)"
      by (simp flip: map_append concat_append)
    finally show ?thesis .
  qed
qed

lemma read_header_short:
  "length filled + length st < 4 \<Longrightarrow> read_header chunks filled fds st = Inl WirePeerClosed"
proof (induction chunks filled fds st rule: read_header.induct)
  case (1 chunks filled fds st)
  show ?case
  proof (cases "st = []")
    case True
    then show ?thesis using 1(2) by (subst read_header.simps) simp
  next
    case False
    define m where "m = (case chunks of [] \<Rightarrow> 4 - length filled | c # _ \<Rightarrow> max 1 (min c (4 - length filled)))"
    have "length (filled @ map fst (take m st)) + length (drop m st) < 4" using 1(2) by simp
    then have "read_header (tl chunks) (filled @ map fst (take m st)) (fds @ concat (map snd (take m st))) (drop m st) = Inl WirePeerClosed"
      using 1(1) [OF _ False m_def] 1(2) by simp
    then show ?thesis using False 1(2) by (subst read_header.simps) (simp add: m_def [symmetric] Let_def)
  qed
qed

definition plain :: "u8 list \<Rightarrow> stream" where "plain bs = map (\<lambda>b. (b, [])) bs"

lemma framed_parts:
  assumes "write_framed res op body fds = Inr seg"
  obtains pre where "seg = pre @ plain body" "length pre = 4" "map fst pre = le_bytes 2 (unat op) @ le_bytes 2 (4 + length body)"
    "concat (map snd pre) = fds" "4 + length body \<le> 65535"
proof -
  let ?hdr = "le_bytes 2 (unat op) @ le_bytes 2 (4 + length body)"
  obtain a b c d where h: "?hdr = [a, b, c, d]" by (simp add: numeral_2_eq_2)
  have s: "seg = segment (?hdr @ body) fds" "4 + length body \<le> 65535"
    using assms by (auto simp: write_framed_def Let_def split: if_splits sum.splits)
  then have "seg = ((a, fds) # plain [b, c, d]) @ plain body" by (simp add: h segment_def plain_def)
  then show ?thesis using that [of "(a, fds) # plain [b, c, d]"] s(2) h by (simp add: plain_def)
qed

lemma read_framed_reads:
  assumes "write_framed res op body fds = Inr seg"
  shows "read_framed chunks (seg @ more) = Inr (op, body, fds, more)"
    and "k < length seg \<Longrightarrow> read_framed chunks (take k seg) = Inl (if k < 4 then WirePeerClosed else UnexpectedEof)"
proof -
  obtain pre where pre: "seg = pre @ plain body" "length pre = 4" "map fst pre = le_bytes 2 (unat op) @ le_bytes 2 (4 + length body)"
    "concat (map snd pre) = fds" "4 + length body \<le> 65535"
    by (rule framed_parts [OF assms])
  have "unat op < 256 ^ 2" using unsigned_less [of op] by simp
  then have op: "of_nat (from_le (take 2 (map fst pre))) = op" by (simp add: pre(3) from_le_bytes)
  have tot: "from_le (take 2 (drop 2 (map fst pre))) = 4 + length body"
    using pre(5) by (simp add: pre(3) from_le_bytes)
  have u: "unat (of_nat (4 + length body) :: u16) = 4 + length body"
    using pre(5) by (simp only: unsigned_of_nat) (simp add: take_bit_nat_eq_self)
  have ge: "\<not> (of_nat (4 + length body) :: u16) < 4" unfolding word_less_nat_alt u by simp
  have "unat (of_nat (length body) :: u16) = length body"
    using pre(5) by (simp only: unsigned_of_nat) (simp add: take_bit_nat_eq_self)
  then have n: "unat ((of_nat (4 + length body) :: u16) - 4) = length body" by simp
  have hdr: "read_header chunks [] [] (pre @ rest) = Inr (map fst pre, fds, rest)" for rest
    using read_header_reads [of "[]" pre chunks "[]" rest] pre(2,4) by simp
  show "read_framed chunks (seg @ more) = Inr (op, body, fds, more)"
    using hdr [of "plain body @ more"] op tot ge n
    by (simp add: read_framed_def pre(1) Let_def plain_def o_def del: of_nat_add)
  assume k: "k < length seg"
  show "read_framed chunks (take k seg) = Inl (if k < 4 then WirePeerClosed else UnexpectedEof)"
  proof (cases "k < 4")
    case True
    then show ?thesis using read_header_short [of "[]" "take k seg"] by (simp add: read_framed_def)
  next
    case False
    then have "take k seg = pre @ take (k - 4) (plain body)" "length (take (k - 4) (plain body)) < length body"
      using k pre(1,2) by (auto simp: plain_def)
    then show ?thesis
      using hdr [of "take (k - 4) (plain body)"] op tot ge n False
      by (simp add: read_framed_def Let_def del: of_nat_add)
  qed
qed

definition well_typed :: "message_schema \<Rightarrow> u16 \<times> arg_val list \<Rightarrow> bool" where
  "well_typed sch msg \<longleftrightarrow> (case map_of sch (fst msg) of None \<Rightarrow> False | Some (ts, _) \<Rightarrow> list_all2 has_type ts (snd msg))"

lemma decode_encode:
  assumes "well_typed sch (op, vals)" and "length (encode vals) < 2 ^ 32"
  shows "decode sch op (encode vals) = Inr vals"
proof -
  obtain ts fd where t: "map_of sch op = Some (ts, fd)" "list_all2 has_type ts vals"
    using assms(1) by (auto simp: well_typed_def split: option.splits)
  have "reads (decode_args ts) (encode vals) vals" using reads_args [OF t(2)] assms(2) by (simp only: encode_bytes)
  then have "decode_args ts (encode vals) = Inr (vals, [])" unfolding reads_def by (metis append_Nil2)
  then show ?thesis using t(1) by (simp add: decode_def)
qed

lemma send_recv:
  assumes "send_msg sch res msg fds = Inr seg" and "well_typed sch msg"
  shows "recv_msg sch chunks (seg @ more) = Inr (msg, fds, more) \<and>
    (k < length seg \<longrightarrow> recv_msg sch chunks (take k seg) = Inl (if k < 4 then WirePeerClosed else UnexpectedEof))"
proof -
  obtain op vals where m: "msg = (op, vals)" by force
  have w: "write_framed res op (encode vals) fds = Inr seg" and n: "length fds = unat (expected_fds_of sch msg)"
    using assms(1) by (auto simp: send_msg_def m split: if_splits)
  have "4 + length (encode vals) \<le> 65535" by (rule framed_parts [OF w])
  then have "decode sch op (encode vals) = Inr vals" using decode_encode assms(2) m by simp
  then show ?thesis using read_framed_reads [OF w] n by (simp add: recv_msg_def m)
qed

text \<open>
  C10: a message that could be sent is received as it was sent: with the same arguments and
  descriptors, leaving whatever follows in the stream, however the kernel splits the reads; and
  when the stream ends inside the message the receiver reports that, and never a message.
\<close>

theorem wire_round_trip:
  assumes "send_msg sch res msg fds = Inr seg" and "well_typed sch msg"
  shows "recv_msg sch chunks (seg @ more) = Inr (msg, fds, more) \<and>
    (k < length seg \<longrightarrow> recv_msg sch chunks (take k seg) = Inl (if k < 4 then WirePeerClosed else UnexpectedEof))"
  using send_recv [OF assms] .

definition ex_event :: "u16 \<times> arg_val list" where
  "ex_event = (3, [V64 1, V32 1, V32 64, V32 32, V32 7, V64 0, V32 2, VArray [V32 256, V32 128], VArray [V32 0, V32 0],
     VArray [V64 8192, V64 4096]])"

theorem wire_round_trip_witness:
  "\<exists>seg. send_msg display_events (Inr 84) ex_event [5, 6] = Inr seg \<and> recv_msg display_events [1, 2] seg = Inr (ex_event, [5, 6], [])"
proof -
  have "length (encode (snd ex_event)) = 80" by (simp add: encode_bytes ex_event_def)
  moreover have "unat (expected_fds_of display_events ex_event) = 2"
    by (simp add: expected_fds_of_def display_events_def ex_event_def as_u32_def)
  ultimately obtain seg where "send_msg display_events (Inr 84) ex_event [5, 6] = Inr seg"
    by (simp add: send_msg_def write_framed_def MAX_FDS_PER_MSG_def)
  moreover have "well_typed display_events ex_event" by (simp add: well_typed_def display_events_def ex_event_def)
  ultimately show ?thesis using wire_round_trip [of display_events "Inr 84" ex_event "[5, 6]" seg "[1, 2]" "[]"] by simp
qed

end
