(* ===== verification/Ipc_Wire.thy ===== *)
theory Ipc_Wire
  imports Display_Wire
begin


definition ipc_events :: message_schema where
  "ipc_events =
     [(1, [TU32, TU32], FdNone),
      (2, [TU64, TU32, TU32, TU32, TU32, TU32, TU64, TU32, TArray TU32, TArray TU32, TArray TU64], FdProduct 2 7),
      (3, [TU32, TU64, TU64, TU64], FdFixed 1),
      (4, [TString], FdNone),
      (5, [], FdFixed 1),
      (6, [TArray TU32, TArray TU32, TArray TU64, TArray TU32, TArray TU32, TArray TU32,
           TU32, TU32, TU32, TU32, TU32, TU32, TU32], FdNone),
      (7, [TU32, TU64, TU32, TString], FdNone),
      (8, [TU32, TU32, TString], FdNone),
      (9, [TKvList], FdNone)]"






end
