(* ===== verification/Tasks.thy ===== *)
theory Tasks
  imports Prelude
begin

text \<open>
  The task registry, \<open>src/tasks.rs\<close>: background tasks with their records, cancellation tokens and
  deduplication keys, the supervisor that runs them, and the events about them.

  The maps of the registry are locked one at a time, so a method is a sequence of sections
  (\<open>task_act\<close>) and the methods of different callers interleave between them: \<open>section_of\<close> is what
  one section does, and which sections come next. The events sent are a trace; a token that has
  been cancelled is in \<open>tm_cancelled\<close>, whether or not the registry still has it. Futures are left
  out: a task is its id, and finishes with any outcome.
\<close>

section \<open>Tasks and their records\<close>

datatype task_kind = KindStartup | KindApply | KindService | KindGeneric

fun task_kind_as_str :: "task_kind \<Rightarrow> string" where
  "task_kind_as_str KindStartup = ''startup''"
| "task_kind_as_str KindApply = ''apply''"
| "task_kind_as_str KindService = ''service''"
| "task_kind_as_str KindGeneric = ''generic''"

datatype task_state = TsRunning | TsCompleted | TsFailed string | TsCancelled

fun task_state_as_str :: "task_state \<Rightarrow> string" where
  "task_state_as_str TsRunning = ''running''"
| "task_state_as_str TsCompleted = ''completed''"
| "task_state_as_str (TsFailed _) = ''failed''"
| "task_state_as_str TsCancelled = ''cancelled''"

record task_record =
  tk_id :: u64
  tk_kind :: task_kind
  tk_name :: string
  tk_started_at :: i64
  tk_state :: task_state

datatype task_event = TeStarted task_record | TeCompleted u64 | TeFailed u64 string | TeCancelled u64

datatype supervisor_phase = Serving | Draining | Exited

record task_manager =
  tm_next_id :: u64
  tm_records :: "(u64, task_record) hmap"
  tm_events :: "task_event list"
  tm_tokens :: "u64 set"
  tm_cancelled :: "u64 set"
  tm_unique :: "(string, u64) hmap"
  tm_queue :: "u64 list"
  tm_set :: "u64 list"
  tm_phase :: supervisor_phase

definition task_manager_new :: task_manager where
  "task_manager_new =
     \<lparr>tm_next_id = 1, tm_records = [], tm_events = [], tm_tokens = {}, tm_cancelled = {}, tm_unique = [],
      tm_queue = [], tm_set = [], tm_phase = Serving\<rparr>"

definition is_running :: "task_record \<Rightarrow> bool" where
  "is_running r \<longleftrightarrow> tk_state r = TsRunning"

section \<open>The record history\<close>

definition TRIM_FINISHED_ABOVE :: nat where "TRIM_FINISHED_ABOVE = 512"

text \<open>The oldest finished records go first, until the map is back at the limit.\<close>

definition trim_finished :: "(u64, task_record) hmap \<Rightarrow> (u64, task_record) hmap" where
  "trim_finished recs =
     (if length recs \<le> TRIM_FINISHED_ABOVE then recs
      else
        (let finished = sort (map fst (filter (\<lambda>(_, r). \<not> is_running r) recs));
             to_drop = length recs - TRIM_FINISHED_ABOVE
         in fold hm_remove (take to_drop finished) recs))"

section \<open>The methods, section by section\<close>

text \<open>
  \<open>ASpawn\<close>: \<open>spawn_async\<close> and \<open>spawn_blocking\<close>; \<open>AUnique\<close>: \<open>spawn_async_unique\<close>; \<open>ACancel\<close>: \<open>cancel\<close>;
  \<open>AJoin\<close>: \<open>handle_join\<close> of a task that returned. The others are their parts.
\<close>

datatype task_act =
    ASpawn task_kind string bool "string option" i64
  | ATokenInsert u64
  | ARecord u64 task_kind string i64
  | AEmit task_event
  | ASubmit u64 bool
  | ATokenRemove u64
  | AFinalize u64 task_state
  | ASetKey string u64
  | AUnique string task_kind string i64
  | ACancel u64
  | ACancelToken u64
  | ACancelRecord u64
  | AJoin u64 task_state
  | AForgetKeys u64
  | AJoinRead u64 task_state
  | AJoinWrite u64 task_state

fun terminal_event :: "u64 \<Rightarrow> task_state \<Rightarrow> task_act list" where
  "terminal_event i TsRunning = []"
| "terminal_event i TsCompleted = [AEmit (TeCompleted i)]"
| "terminal_event i (TsFailed msg) = [AEmit (TeFailed i msg)]"
| "terminal_event i TsCancelled = [AEmit (TeCancelled i)]"

text \<open>\<open>handle_join\<close> sends nothing for the other states, which a join cannot observe.\<close>

fun join_event :: "u64 \<Rightarrow> task_state \<Rightarrow> task_act list" where
  "join_event i TsCompleted = [AEmit (TeCompleted i)]"
| "join_event i (TsFailed msg) = [AEmit (TeFailed i msg)]"
| "join_event i _ = []"

definition set_task_state :: "u64 \<Rightarrow> task_state \<Rightarrow> task_manager \<Rightarrow> task_manager" where
  "set_task_state i st m = m\<lparr>tm_records := hm_modify i (\<lambda>r. r\<lparr>tk_state := st\<rparr>) (tm_records m)\<rparr>"

fun section_of :: "task_act \<Rightarrow> task_manager \<Rightarrow> task_act list \<times> task_manager" where
  "section_of (ASpawn kind name async key now) m =
     (let i = tm_next_id m in
      ((if async then [ATokenInsert i] else []) @ [ARecord i kind name now, ASubmit i async] @
         (case key of Some k \<Rightarrow> [ASetKey k i] | None \<Rightarrow> []),
       m\<lparr>tm_next_id := i + 1\<rparr>))"
| "section_of (ATokenInsert i) m = ([], m\<lparr>tm_tokens := insert i (tm_tokens m)\<rparr>)"
| "section_of (ARecord i kind name now) m =
     (let r = \<lparr>tk_id = i, tk_kind = kind, tk_name = name, tk_started_at = now, tk_state = TsRunning\<rparr> in
      ([AEmit (TeStarted r)], m\<lparr>tm_records := trim_finished (hm_insert i r (tm_records m))\<rparr>))"
| "section_of (AEmit e) m = ([], m\<lparr>tm_events := tm_events m @ [e]\<rparr>)"
| "section_of (ASubmit i async) m =
     (if tm_phase m = Exited
      then ((if async then [ATokenRemove i] else []) @ [AFinalize i (TsFailed ''supervisor gone'')], m)
      else ([], m\<lparr>tm_queue := tm_queue m @ [i]\<rparr>))"
| "section_of (ATokenRemove i) m = ([], m\<lparr>tm_tokens := tm_tokens m - {i}\<rparr>)"
| "section_of (AFinalize i st) m = (terminal_event i st, set_task_state i st m)"
| "section_of (ASetKey k i) m = ([], m\<lparr>tm_unique := hm_insert k i (tm_unique m)\<rparr>)"
| "section_of (AUnique k kind name now) m =
     ((case hm_get (tm_unique m) k of Some p \<Rightarrow> [ACancel p] | None \<Rightarrow> []) @ [ASpawn kind name True (Some k) now], m)"
| "section_of (ACancel i) m = (if i \<in> tm_tokens m then [ACancelToken i] else [], m)"
| "section_of (ACancelToken i) m = ([ACancelRecord i], m\<lparr>tm_cancelled := insert i (tm_cancelled m)\<rparr>)"
| "section_of (ACancelRecord i) m =
     (case hm_get (tm_records m) i of
        Some r \<Rightarrow> if is_running r then ([AEmit (TeCancelled i)], set_task_state i TsCancelled m) else ([], m)
      | None \<Rightarrow> ([], m))"
| "section_of (AJoin i obs) m = ([ATokenRemove i, AForgetKeys i, AJoinRead i obs], m)"
| "section_of (AForgetKeys i) m = ([], m\<lparr>tm_unique := filter (\<lambda>(_, v). v \<noteq> i) (tm_unique m)\<rparr>)"
| "section_of (AJoinRead i obs) m =
     (if map_option tk_state (hm_get (tm_records m) i) = Some TsCancelled then [] else [AJoinWrite i obs], m)"
| "section_of (AJoinWrite i obs) m = (join_event i obs, set_task_state i obs m)"

section \<open>The supervisor and everyone else\<close>

text \<open>
  A state: the registry, the calls under way, and the join the supervisor is handling. A task that
  panicked or was aborted leaves the set and nothing else happens (\<open>lost\<close>). The executions
  considered are those in which the counter of ids has not wrapped round.
\<close>

type_synonym task_system = "task_manager \<times> task_act list multiset \<times> task_act list"

fun public_act :: "task_act \<Rightarrow> bool" where
  "public_act (ASpawn kind name async key now) \<longleftrightarrow> key = None"
| "public_act (AUnique _ _ _ _) \<longleftrightarrow> True"
| "public_act (ACancel _) \<longleftrightarrow> True"
| "public_act _ \<longleftrightarrow> False"

inductive task_step :: "task_system \<Rightarrow> task_system \<Rightarrow> bool" where
  call: "public_act a \<Longrightarrow> task_step (m, T, s) (m, add_mset [a] T, s)"
| run: "section_of a m = (new, m') \<Longrightarrow> tm_next_id m' \<noteq> 0 \<Longrightarrow>
    task_step (m, add_mset (a # rest) T, s) (m', add_mset (new @ rest) T, s)"
| handle: "section_of a m = (new, m') \<Longrightarrow> tm_next_id m' \<noteq> 0 \<Longrightarrow>
    task_step (m, T, a # rest) (m', T, new @ rest)"
| receive: "tm_phase m = Serving \<Longrightarrow> tm_queue m = i # q \<Longrightarrow>
    task_step (m, T, []) (m\<lparr>tm_queue := q, tm_set := tm_set m @ [i]\<rparr>, T, [])"
| joined: "tm_phase m \<noteq> Exited \<Longrightarrow> i \<in> set (tm_set m) \<Longrightarrow> obs = TsCompleted \<or> obs = TsFailed msg \<Longrightarrow>
    task_step (m, T, []) (m\<lparr>tm_set := remove1 i (tm_set m)\<rparr>, T, [AJoin i obs])"
| lost: "i \<in> set (tm_set m) \<Longrightarrow> task_step (m, T, []) (m\<lparr>tm_set := remove1 i (tm_set m)\<rparr>, T, [])"
| drain: "tm_phase m = Serving \<Longrightarrow> task_step (m, T, []) (m\<lparr>tm_phase := Draining\<rparr>, T, [])"
| exited: "tm_phase m = Draining \<Longrightarrow> task_step (m, T, []) (m\<lparr>tm_phase := Exited, tm_set := []\<rparr>, T, [])"

inductive task_reachable :: "task_system \<Rightarrow> bool" where
  init: "task_reachable (task_manager_new, {#}, [])"
| step: "task_reachable x \<Longrightarrow> task_step x y \<Longrightarrow> task_reachable y"

inductive_cases task_stepE: "task_step x y"


section \<open>The history keeps what runs\<close>

lemma trim_finished_get:
  "hm_get (trim_finished recs) i = hm_get recs i \<or> hm_get (trim_finished recs) i = None"
  by (simp add: trim_finished_def Let_def hm_get_fold_remove)

lemma trim_finished_keeps_running:
  assumes "hm_ok recs" and "hm_get recs i = Some r" and "is_running r"
  shows "hm_get (trim_finished recs) i = Some r"
proof -
  have "i \<notin> fst ` set (filter (\<lambda>(_, r). \<not> is_running r) recs)"
  proof
    assume "i \<in> fst ` set (filter (\<lambda>(_, r). \<not> is_running r) recs)"
    then obtain r' where "(i, r') \<in> set recs" "\<not> is_running r'" by auto
    then show False using hm_get_in_set [OF assms(1), of i r'] assms(2,3) by simp
  qed
  then have "i \<notin> set (take n (sort (map fst (filter (\<lambda>(_, r). \<not> is_running r) recs))))" for n
    using set_take_subset by fastforce
  then show ?thesis using assms(2) by (simp add: trim_finished_def Let_def hm_get_fold_remove)
qed

lemma hm_ok_trim: "hm_ok recs \<Longrightarrow> hm_ok (trim_finished recs)"
  by (simp add: trim_finished_def Let_def hm_ok_fold_remove)

lemma length_fold_remove:
  "hm_ok m \<Longrightarrow> distinct ks \<Longrightarrow> set ks \<subseteq> fst ` set m \<Longrightarrow> length (fold hm_remove ks m) = length m - length ks"
proof (induction ks arbitrary: m)
  case (Cons k ks)
  have "length (hm_remove k m) = card (fst ` set (hm_remove k m))"
    using Cons.prems(1) by (metis distinct_card hm_ok_remove length_map list.set_map)
  also have "\<dots> = length m - 1"
    using Cons.prems by (simp add: card_Diff_singleton) (metis distinct_card length_map list.set_map)
  finally have l: "length (hm_remove k m) = length m - 1" .
  have "set ks \<subseteq> fst ` set (hm_remove k m)" using Cons.prems by auto
  with Cons.IH [of "hm_remove k m"] Cons.prems l show ?case by (simp del: hm_dom_remove)
qed simp

section \<open>What is counted\<close>

definition started_of :: "u64 \<Rightarrow> task_event \<Rightarrow> bool" where
  "started_of i e \<longleftrightarrow> (case e of TeStarted r \<Rightarrow> tk_id r = i | _ \<Rightarrow> False)"

definition cancelled_of :: "u64 \<Rightarrow> task_event \<Rightarrow> bool" where
  "cancelled_of i e \<longleftrightarrow> e = TeCancelled i"

definition done_of :: "u64 \<Rightarrow> task_event \<Rightarrow> bool" where
  "done_of i e \<longleftrightarrow> (case e of TeCompleted j \<Rightarrow> j = i | TeFailed j _ \<Rightarrow> j = i | _ \<Rightarrow> False)"

definition events_of :: "(task_event \<Rightarrow> bool) \<Rightarrow> task_manager \<Rightarrow> nat" where
  "events_of P m = length (filter P (tm_events m))"

text \<open>A finished task has one of two outcomes.\<close>

definition outcome :: "task_state \<Rightarrow> bool" where
  "outcome st \<longleftrightarrow> st = TsCompleted \<or> (\<exists>msg. st = TsFailed msg)"

fun act_ok :: "task_act \<Rightarrow> bool" where
  "act_ok (AFinalize i st) = outcome st"
| "act_ok (AJoin i st) = outcome st"
| "act_ok (AJoinRead i st) = outcome st"
| "act_ok (AJoinWrite i st) = outcome st"
| "act_ok _ = True"

fun spawns :: "task_act \<Rightarrow> bool" where
  "spawns (ASpawn _ _ _ _ _) = True"
| "spawns _ = False"

lemma outcome_cases: "outcome st \<Longrightarrow> (st = TsCompleted \<Longrightarrow> P) \<Longrightarrow> (\<And>msg. st = TsFailed msg \<Longrightarrow> P) \<Longrightarrow> P"
  by (auto simp: outcome_def)

lemma public_act_ok: "public_act a \<Longrightarrow> act_ok a"
  by (cases a) auto

lemma section_act_ok: "section_of a m = (new, m') \<Longrightarrow> act_ok a \<Longrightarrow> b \<in> set new \<Longrightarrow> act_ok b"
  by (cases a) (auto simp: Let_def outcome_def split: if_splits option.splits)

text \<open>All acts under way.\<close>

definition under_way :: "task_act list multiset \<Rightarrow> task_act list \<Rightarrow> task_act multiset" where
  "under_way T s = mset s + (\<Sum>t\<in>#T. mset t)"

lemma under_way_simps [simp]:
  "under_way (add_mset t T) s = mset t + under_way T s"
  "under_way T (a # s) = add_mset a (under_way T s)"
  "under_way T (t @ s) = mset t + under_way T s"
  "under_way {#} [] = {#}"
  by (simp_all add: under_way_def)

lemma reachable_acts_ok: "task_reachable (m, T, s) \<Longrightarrow> \<forall>a \<in># under_way T s. act_ok a"
proof (induction "(m, T, s)" arbitrary: m T s rule: task_reachable.induct)
  case (step x)
  obtain m0 T0 s0 where x: "x = (m0, T0, s0)" by (cases x)
  have ih: "\<forall>a \<in># under_way T0 s0. act_ok a" using step x by simp
  from step(3) [unfolded x] show ?case
    by (cases rule: task_step.cases) (use ih public_act_ok section_act_ok in \<open>fastforce simp: outcome_def\<close>)+
qed simp

lemma reachable_records_ok: "task_reachable (m, T, s) \<Longrightarrow> hm_ok (tm_records m)"
proof (induction "(m, T, s)" arbitrary: m T s rule: task_reachable.induct)
  case (step x)
  have sec: "hm_ok (tm_records m) \<Longrightarrow> section_of a m = (new, m') \<Longrightarrow> hm_ok (tm_records m')" for a m new m'
    by (cases a) (auto simp: Let_def set_task_state_def hm_ok_trim split: if_splits option.splits)
  obtain m0 T0 s0 where x: "x = (m0, T0, s0)" by (cases x)
  have ih: "hm_ok (tm_records m0)" using step x by simp
  from step(3) [unfolded x] show ?case
    by (cases rule: task_step.cases) (use ih sec in auto)
qed (simp add: task_manager_new_def)

section \<open>Credits\<close>

text \<open>
  Something happens at most once per task when a credit for it is created with the task's id and
  every section at most passes it on: \<open>credit\<close> is what an act may still spend, \<open>held\<close> what the
  registry holds or has spent.
\<close>

locale task_credit =
  fixes credit :: "u64 \<Rightarrow> task_act \<Rightarrow> nat" and held :: "u64 \<Rightarrow> task_manager \<Rightarrow> nat"
  assumes public: "public_act a \<Longrightarrow> credit i a = 0"
    and section_law: "section_of a m = (new, m') \<Longrightarrow> act_ok a \<Longrightarrow> hm_ok (tm_records m) \<Longrightarrow>
      held i m' + sum_list (map (credit i) new) \<le> held i m + credit i a + of_bool (i = tm_next_id m \<and> spawns a)"
    and receive_law: "tm_queue m = j # q \<Longrightarrow> held i (m\<lparr>tm_queue := q, tm_set := tm_set m @ [j]\<rparr>) \<le> held i m"
    and join_law: "j \<in> set (tm_set m) \<Longrightarrow> held i (m\<lparr>tm_set := remove1 j (tm_set m)\<rparr>) + credit i (AJoin j obs) \<le> held i m"
    and phase_law: "held i (m\<lparr>tm_phase := p\<rparr>) \<le> held i m" "held i (m\<lparr>tm_phase := p, tm_set := []\<rparr>) \<le> held i m"
    and init_law: "held i task_manager_new = 0"
begin

definition total :: "u64 \<Rightarrow> task_system \<Rightarrow> nat" where
  "total i x = (case x of (m, T, s) \<Rightarrow> held i m + (\<Sum>a\<in>#under_way T s. credit i a))"

lemma sum_mset_credits: "(\<Sum>a\<in>#mset as. credit i a) = sum_list (map (credit i) as)"
  by (metis mset_map sum_mset_sum_list)

lemma next_id_grows:
  "section_of a m = (new, m') \<Longrightarrow> tm_next_id m' = (if spawns a then tm_next_id m + 1 else tm_next_id m)"
  by (cases a) (auto simp: Let_def set_task_state_def split: if_splits option.splits)

lemma total_step:
  assumes "task_step x y" and "task_reachable x" and "\<forall>i. total i x \<le> of_bool (i < tm_next_id (fst x))"
  shows "total i y \<le> of_bool (i < tm_next_id (fst y))"
proof -
  obtain m T s where x: "x = (m, T, s)" by (cases x)
  have ok: "\<forall>a \<in># under_way T s. act_ok a" "hm_ok (tm_records m)"
    using assms(2) reachable_acts_ok reachable_records_ok by (auto simp: x)
  have le: "total i x \<le> of_bool (i < tm_next_id m)" for i using assms(3) by (simp add: x)
  have sec: "held i m' + sum_list (map (credit i) new) + c \<le> of_bool (i < tm_next_id m')"
    if "section_of a m = (new, m')" "act_ok a" "held i m + (credit i a + c) \<le> of_bool (i < tm_next_id m)"
      "spawns a \<Longrightarrow> tm_next_id m + 1 \<noteq> 0" for a new m' c
  proof (cases "spawns a")
    case True
    then have n: "tm_next_id m' = tm_next_id m + 1" "tm_next_id m < tm_next_id m'"
      using next_id_grows [OF that(1)] that(4) word_inc_greater [of "tm_next_id m"]
      by (auto simp: eq_neg_iff_add_eq_0)
    have l: "held i m' + sum_list (map (credit i) new) \<le> held i m + credit i a + of_bool (i = tm_next_id m)"
      using section_law [OF that(1,2) ok(2), of i] True by simp
    show ?thesis
    proof (cases "i < tm_next_id m")
      case True
      then have "of_bool (i = tm_next_id m) = (0::nat)" "i < tm_next_id m'" using n(2) by auto
      then show ?thesis using True l that(3) by simp
    next
      case False
      then have z: "held i m = 0" "credit i a = 0" "c = 0" using that(3) by simp_all
      show ?thesis
      proof (cases "i = tm_next_id m")
        case True
        then have "(of_bool (i < tm_next_id m') :: nat) = 1" using n(2) by simp
        then show ?thesis using l z True by simp
      next
        case False
        then have o: "of_bool (i = tm_next_id m) = (0::nat)" by simp
        show ?thesis using l unfolding z o by linarith
      qed
    qed
  next
    case False
    then show ?thesis using section_law [OF that(1,2) ok(2), of i] that(3) next_id_grows [OF that(1)] by simp
  qed
  from assms(1) [unfolded x] show ?thesis
  proof (cases rule: task_step.cases)
    case (call a)
    then show ?thesis using le [of i] public by (simp add: x total_def)
  next
    case (run a new m' rest T0)
    let ?c = "\<Sum>a\<in>#mset rest + under_way T0 s. credit i a"
    have "total i x = held i m + (credit i a + ?c)" using run by (simp add: x total_def)
    then have "held i m + (credit i a + ?c) \<le> of_bool (i < tm_next_id m)" using le [of i] by (simp only:)
    moreover have "act_ok a" "spawns a \<Longrightarrow> tm_next_id m + 1 \<noteq> 0" using ok run next_id_grows [OF run(3)] by simp_all
    ultimately have "held i m' + sum_list (map (credit i) new) + ?c \<le> of_bool (i < tm_next_id m')" by (intro sec [OF run(3)])
    moreover have "total i y = held i m' + sum_list (map (credit i) new) + ?c" "fst y = m'"
      using run by (simp_all add: total_def sum_mset_credits)
    ultimately show ?thesis by (simp only:)
  next
    case (handle a new m' rest)
    let ?c = "\<Sum>a\<in>#under_way T rest. credit i a"
    have "total i x = held i m + (credit i a + ?c)" using handle by (simp add: x total_def)
    then have "held i m + (credit i a + ?c) \<le> of_bool (i < tm_next_id m)" using le [of i] by (simp only:)
    moreover have "act_ok a" "spawns a \<Longrightarrow> tm_next_id m + 1 \<noteq> 0" using ok handle next_id_grows [OF handle(3)] by simp_all
    ultimately have "held i m' + sum_list (map (credit i) new) + ?c \<le> of_bool (i < tm_next_id m')" by (intro sec [OF handle(3)])
    moreover have "total i y = held i m' + sum_list (map (credit i) new) + ?c" "fst y = m'"
      using handle by (simp_all add: total_def sum_mset_credits)
    ultimately show ?thesis by (simp only:)
  next
    case (receive j q)
    then show ?thesis using receive_law [of m j q i] le [of i] by (simp add: x total_def)
  next
    case (joined j obs msg)
    then show ?thesis using join_law [of j m i obs] le [of i] by (simp add: x total_def)
  next
    case (lost j)
    then show ?thesis using join_law [of j m i obs] le [of i] by (simp add: x total_def)
  next
    case drain
    let ?c = "\<Sum>a\<in>#under_way T s. credit i a"
    have "total i x = held i m + ?c" "total i y = held i (m\<lparr>tm_phase := Draining\<rparr>) + ?c" "tm_next_id (fst y) = tm_next_id m"
      using drain by (simp_all add: x total_def)
    then show ?thesis using phase_law(1) [where p = Draining and m = m and i = i] le [of i] by (metis add_le_mono1 order_trans)
  next
    case exited
    let ?c = "\<Sum>a\<in>#under_way T s. credit i a"
    have "total i x = held i m + ?c" "total i y = held i (m\<lparr>tm_phase := Exited, tm_set := []\<rparr>) + ?c" "tm_next_id (fst y) = tm_next_id m"
      using exited by (simp_all add: x total_def)
    then show ?thesis using phase_law(2) [where p = Exited and m = m and i = i] le [of i] by (metis add_le_mono1 order_trans)
  qed
qed

lemma bounded: "task_reachable x \<Longrightarrow> total i x \<le> of_bool (i < tm_next_id (fst x))"
proof (induction arbitrary: i rule: task_reachable.induct)
  case init
  then show ?case by (simp add: total_def init_law)
next
  case (step x y)
  then show ?case using total_step by blast
qed

lemma held_once: "task_reachable (m, T, s) \<Longrightarrow> held i m \<le> 1"
  using bounded [of "(m, T, s)" i] of_bool_less_eq_one [where 'a = nat, of "i < tm_next_id m"] by (simp add: total_def)

end

text \<open>Starting, being cancelled, and being done, are such things.\<close>

fun start_credit :: "u64 \<Rightarrow> task_act \<Rightarrow> nat" where
  "start_credit i (ARecord j _ _ _) = of_bool (j = i)"
| "start_credit i (AEmit e) = of_bool (started_of i e)"
| "start_credit i _ = 0"

fun cancel_credit :: "u64 \<Rightarrow> task_act \<Rightarrow> nat" where
  "cancel_credit i (ARecord j _ _ _) = of_bool (j = i)"
| "cancel_credit i (AEmit e) = of_bool (cancelled_of i e)"
| "cancel_credit i _ = 0"

definition running_now :: "u64 \<Rightarrow> task_manager \<Rightarrow> bool" where
  "running_now i m \<longleftrightarrow> map_option tk_state (hm_get (tm_records m) i) = Some TsRunning"

fun done_credit :: "u64 \<Rightarrow> task_act \<Rightarrow> nat" where
  "done_credit i (ASubmit j _) = of_bool (j = i)"
| "done_credit i (AFinalize j _) = of_bool (j = i)"
| "done_credit i (AJoin j _) = of_bool (j = i)"
| "done_credit i (AJoinRead j _) = of_bool (j = i)"
| "done_credit i (AJoinWrite j _) = of_bool (j = i)"
| "done_credit i (AEmit e) = of_bool (done_of i e)"
| "done_credit i _ = 0"

lemma event_of_simps [simp]:
  "started_of i (TeStarted r) = (tk_id r = i)" "\<not> started_of i (TeCompleted j)" "\<not> started_of i (TeFailed j msg)"
  "\<not> started_of i (TeCancelled j)" "\<not> done_of i (TeStarted r)" "done_of i (TeCompleted j) = (j = i)"
  "done_of i (TeFailed j msg) = (j = i)" "\<not> done_of i (TeCancelled j)" "\<not> cancelled_of i (TeStarted r)"
  "\<not> cancelled_of i (TeCompleted j)" "\<not> cancelled_of i (TeFailed j msg)" "cancelled_of i (TeCancelled j) = (j = i)"
  by (auto simp: started_of_def done_of_def cancelled_of_def)

lemma running_now_simps:
  "running_now i (set_task_state j st m) \<longleftrightarrow> (if i = j then hm_get (tm_records m) i \<noteq> None \<and> st = TsRunning else running_now i m)"
  by (auto simp: running_now_def set_task_state_def)

lemma running_now_record:
  "running_now i (m\<lparr>tm_records := trim_finished (hm_insert j r (tm_records m))\<rparr>) \<Longrightarrow> i = j \<or> running_now i m"
  using trim_finished_get [of "hm_insert j r (tm_records m)" i] by (auto simp: running_now_def)

lemma set_task_state_simps [simp]:
  "tm_events (set_task_state i st m) = tm_events m" "tm_queue (set_task_state i st m) = tm_queue m"
  "tm_set (set_task_state i st m) = tm_set m" "tm_next_id (set_task_state i st m) = tm_next_id m"
  "tm_phase (set_task_state i st m) = tm_phase m" "tm_tokens (set_task_state i st m) = tm_tokens m"
  "tm_unique (set_task_state i st m) = tm_unique m" "tm_cancelled (set_task_state i st m) = tm_cancelled m"
  by (simp_all add: set_task_state_def)

lemma credit_count_list_remove1: "j \<in> set xs \<Longrightarrow> count_list (remove1 j xs) i + of_bool (j = i) = count_list xs i"
  by (induction xs) auto

lemma outcome_events:
  assumes "outcome st"
  shows "\<exists>e. terminal_event i st = [AEmit e] \<and> join_event i st = [AEmit e] \<and> done_of j e = (i = j) \<and> \<not> started_of j e \<and>
    \<not> cancelled_of j e" "st \<noteq> TsRunning"
  using assms by (auto elim!: outcome_cases)

interpretation starts: task_credit start_credit "\<lambda>i m. events_of (started_of i) m"
proof (unfold_locales, goal_cases)
  case (2 a m new m' i)
  show ?case
  proof (cases "\<exists>j st. a = AFinalize j st \<or> a = AJoinWrite j st")
    case True
    then obtain j st where a: "a = AFinalize j st \<or> a = AJoinWrite j st" by blast
    then obtain e where "new = [AEmit e]" "m' = set_task_state j st m" "done_of i e = (j = i)" "\<not> started_of i e"
      "\<not> cancelled_of i e" "st \<noteq> TsRunning"
      using 2 outcome_events(1) [where st = st and i = j and j = i] outcome_events(2) [of st] by auto
    then show ?thesis using a by (auto simp: events_of_def running_now_simps)
  next
    case False
    with 2 show ?thesis
      by (cases a) (auto simp: events_of_def Let_def running_now_simps dest: running_now_record split: if_splits option.splits)
  qed
qed (auto simp: events_of_def task_manager_new_def elim!: public_act.elims)

lemma section_quiet:
  "section_of a m = (new, m') \<Longrightarrow> (\<And>i k n t. a \<noteq> ARecord i k n t) \<Longrightarrow> (\<And>i. a \<noteq> ACancelRecord i) \<Longrightarrow>
    (\<And>i st. a \<noteq> AFinalize i st \<and> a \<noteq> AJoinWrite i st) \<Longrightarrow> tm_records m' = tm_records m"
  by (cases a) (auto simp: Let_def split: if_splits option.splits)

lemma section_quiet_events:
  "section_of a m = (new, m') \<Longrightarrow> tm_events m' = tm_events m @ (case a of AEmit e \<Rightarrow> [e] | _ \<Rightarrow> [])"
  by (cases a) (auto simp: Let_def split: if_splits option.splits)

lemma section_quiet_credit:
  "section_of a m = (new, m') \<Longrightarrow> \<nexists>i. a = ACancelRecord i \<Longrightarrow> \<nexists>i st. a = AFinalize i st \<or> a = AJoinWrite i st \<Longrightarrow>
    \<nexists>j k n t. a = ARecord j k n t \<Longrightarrow>
    sum_list (map (cancel_credit i) new) = of_bool (i = tm_next_id m \<and> spawns a)"
  by (cases a) (auto simp: Let_def split: if_splits option.splits)

interpretation cancels: task_credit cancel_credit "\<lambda>i m. events_of (cancelled_of i) m + of_bool (running_now i m)"
proof (unfold_locales, goal_cases)
  case (2 a m new m' i)
  consider j st where "a = AFinalize j st \<or> a = AJoinWrite j st" | j k n t where "a = ARecord j k n t"
    | j where "a = ACancelRecord j" | "tm_records m' = tm_records m" "\<nexists>j. a = ACancelRecord j" "\<nexists>j k n t. a = ARecord j k n t"
      "\<nexists>j st. a = AFinalize j st \<or> a = AJoinWrite j st"
    using section_quiet [OF 2(1)] by blast
  then show ?case
  proof cases
    case (1 j st)
    then obtain e where "new = [AEmit e]" "m' = set_task_state j st m" "\<not> cancelled_of i e" "st \<noteq> TsRunning"
      using 2 outcome_events(1) [where st = st and i = j and j = i] outcome_events(2) [of st] by auto
    then show ?thesis using 1 by (auto simp: events_of_def running_now_simps)
  next
    case (2 j k n t)
    define r where "r = \<lparr>tk_id = j, tk_kind = k, tk_name = n, tk_started_at = t, tk_state = TsRunning\<rparr>"
    have m': "new = [AEmit (TeStarted r)]" "m' = m\<lparr>tm_records := trim_finished (hm_insert j r (tm_records m))\<rparr>"
      using \<open>section_of a m = (new, m')\<close> 2 by (simp_all add: r_def Let_def)
    then have "running_now i m' \<Longrightarrow> i = j \<or> running_now i m" using running_now_record by blast
    then show ?thesis using m' 2 by (auto simp: events_of_def)
  next
    case (3 j)
    then have "if running_now j m then new = [AEmit (TeCancelled j)] \<and> m' = set_task_state j TsCancelled m else new = [] \<and> m' = m"
      using 2(1) by (auto simp: running_now_def is_running_def split: option.splits if_splits)
    then show ?thesis using 3 by (auto simp: events_of_def running_now_simps split: if_splits)
  next
    case 4
    then have "running_now i m' = running_now i m" by (simp add: running_now_def)
    moreover have "events_of (cancelled_of i) m' = events_of (cancelled_of i) m + cancel_credit i a"
      using section_quiet_events [OF 2(1)] 4 by (cases a) (simp_all add: events_of_def)
    ultimately show ?thesis using section_quiet_credit [OF 2(1) 4(2,4,3)] by simp
  qed
qed (auto simp: events_of_def running_now_def task_manager_new_def elim!: public_act.elims)

interpretation finishes: task_credit done_credit
  "\<lambda>i m. events_of (done_of i) m + count_list (tm_queue m) i + count_list (tm_set m) i"
proof (unfold_locales, goal_cases)
  case (2 a m new m' i)
  show ?case
  proof (cases "\<exists>j st. a = AFinalize j st \<or> a = AJoinWrite j st")
    case True
    then obtain j st where a: "a = AFinalize j st \<or> a = AJoinWrite j st" by blast
    then obtain e where "new = [AEmit e]" "m' = set_task_state j st m" "done_of i e = (j = i)" "\<not> started_of i e"
      "\<not> cancelled_of i e" "st \<noteq> TsRunning"
      using 2 outcome_events(1) [where st = st and i = j and j = i] outcome_events(2) [of st] by auto
    then show ?thesis using a by (auto simp: events_of_def running_now_simps)
  next
    case False
    with 2 show ?thesis
      by (cases a) (auto simp: events_of_def Let_def running_now_simps dest: running_now_record split: if_splits option.splits)
  qed
next
  case (4 j m i obs)
  then show ?case using credit_count_list_remove1 [of j "tm_set m" i] by (simp add: events_of_def)
qed (auto simp: events_of_def task_manager_new_def elim!: public_act.elims)

section \<open>The order of the events\<close>

text \<open>
  What an act presumes to be started, and what it starts: nothing reports the end of a task, and
  nothing submits it, before its start has been reported.
\<close>

fun needs :: "task_act \<Rightarrow> u64 set" where
  "needs (ASubmit i _) = {i}"
| "needs (AFinalize i _) = {i}"
| "needs (AJoin i _) = {i}"
| "needs (AJoinRead i _) = {i}"
| "needs (AJoinWrite i _) = {i}"
| "needs (AEmit e) = {i. done_of i e}"
| "needs _ = {}"

fun gives :: "task_act \<Rightarrow> u64 set" where
  "gives (ARecord i _ _ _) = {i}"
| "gives (AEmit e) = {i. started_of i e}"
| "gives _ = {}"

primrec leads :: "u64 set \<Rightarrow> task_act list \<Rightarrow> bool" where
  "leads K [] = True"
| "leads K (a # t) = (needs a \<subseteq> K \<and> leads (K \<union> gives a) t)"

definition started_ids :: "task_manager \<Rightarrow> u64 set" where
  "started_ids m = {i. \<exists>e \<in> set (tm_events m). started_of i e}"

lemma leads_mono: "leads K t \<Longrightarrow> K \<subseteq> K' \<Longrightarrow> leads K' t"
proof (induction t arbitrary: K K')
  case (Cons a t)
  then have "leads (K' \<union> gives a) t" by (metis Un_mono leads.simps(2) order_refl)
  with Cons.prems show ?case by auto
qed simp

lemma leads_append: "leads K (s @ t) \<longleftrightarrow> leads K s \<and> leads (K \<union> \<Union> (gives ` set s)) t"
  by (induction s arbitrary: K) (auto simp: Un_assoc)

lemma section_started: "section_of a m = (new, m') \<Longrightarrow> started_ids m' = started_ids m \<union> (case a of AEmit e \<Rightarrow> {i. started_of i e} | _ \<Rightarrow> {})"
  using section_quiet_events [of a m new m'] by (cases a) (auto simp: started_ids_def)

lemma section_leads:
  assumes "section_of a m = (new, m')" and "leads (started_ids m) (a # rest)"
  shows "leads (started_ids m') (new @ rest)"
proof -
  have n: "needs a \<subseteq> started_ids m" and l: "leads (started_ids m \<union> gives a) rest" using assms(2) by simp_all
  have k: "started_ids m \<union> gives a \<subseteq> started_ids m' \<union> \<Union> (gives ` set new)"
    using assms(1) section_started [OF assms(1)] by (cases a) (auto simp: Let_def)
  have t: "terminal_event i st = [] \<or> (\<exists>e. terminal_event i st = [AEmit e] \<and> {j. done_of j e} \<subseteq> {i})"
    and j: "join_event i st = [] \<or> (\<exists>e. join_event i st = [AEmit e] \<and> {j. done_of j e} \<subseteq> {i})" for i st
    by (cases st; auto)+
  have "leads (started_ids m') new"
  proof (cases "\<exists>i st. a = AFinalize i st \<or> a = AJoinWrite i st")
    case True
    then obtain i st where a: "a = AFinalize i st \<or> a = AJoinWrite i st" by blast
    then have "new = terminal_event i st \<or> new = join_event i st" "started_ids m' = started_ids m" "i \<in> started_ids m"
      using assms(1) section_started [OF assms(1)] n by auto
    then show ?thesis using t [of i st] j [of i st] by auto
  next
    case False
    have "needs a \<subseteq> started_ids m'" using n section_started [OF assms(1)] by blast
    with False assms(1) show ?thesis
      by (cases a) (auto simp: Let_def split: if_splits option.splits)
  qed
  then show ?thesis using leads_mono [OF l k] by (simp add: leads_append)
qed

definition ordered_events :: "task_event list \<Rightarrow> bool" where
  "ordered_events evs \<longleftrightarrow> (\<forall>xs e ys i. evs = xs @ e # ys \<longrightarrow> done_of i e \<longrightarrow> (\<exists>e' \<in> set xs. started_of i e'))"

lemma ordered_snoc:
  assumes "ordered_events evs" and "\<And>i. done_of i e \<Longrightarrow> \<exists>e' \<in> set evs. started_of i e'"
  shows "ordered_events (evs @ [e])"
  unfolding ordered_events_def
proof (intro allI impI)
  fix xs e1 ys i
  assume eq: "evs @ [e] = xs @ e1 # ys" and d: "done_of i e1"
  show "\<exists>e' \<in> set xs. started_of i e'"
  proof (cases ys rule: rev_cases)
    case Nil
    then show ?thesis using eq d assms(2) by simp
  next
    case (snoc zs z)
    then have "evs = xs @ e1 # zs" using eq by simp
    then show ?thesis using assms(1) d by (auto simp: ordered_events_def)
  qed
qed

definition events_lead :: "task_system \<Rightarrow> bool" where
  "events_lead x = (case x of (m, T, s) \<Rightarrow>
     (\<forall>t \<in># T. leads (started_ids m) t) \<and> leads (started_ids m) s \<and>
     set (tm_queue m) \<union> set (tm_set m) \<subseteq> started_ids m \<and> ordered_events (tm_events m))"

lemma section_ordered:
  assumes "section_of a m = (new, m')" and "ordered_events (tm_events m)" and "needs a \<subseteq> started_ids m"
  shows "ordered_events (tm_events m')"
proof (cases "\<exists>e. a = AEmit e")
  case True
  then obtain e where a: "a = AEmit e" by blast
  then have "\<And>i. done_of i e \<Longrightarrow> \<exists>e' \<in> set (tm_events m). started_of i e'" using assms(3) by (auto simp: started_ids_def)
  then show ?thesis using ordered_snoc [OF assms(2), of e] section_quiet_events [OF assms(1)] a by simp
next
  case False
  then have "tm_events m' = tm_events m" using section_quiet_events [OF assms(1)] by (cases a) simp_all
  then show ?thesis using assms(2) by simp
qed

lemma section_queue:
  assumes "section_of a m = (new, m')" and "needs a \<subseteq> started_ids m" and "set (tm_queue m) \<union> set (tm_set m) \<subseteq> started_ids m"
  shows "set (tm_queue m') \<union> set (tm_set m') \<subseteq> started_ids m'"
proof -
  have "set (tm_queue m') \<subseteq> set (tm_queue m) \<union> needs a" "tm_set m' = tm_set m"
    using assms(1) by (cases a; auto simp: Let_def split: if_splits option.splits)+
  moreover have "started_ids m \<subseteq> started_ids m'" using section_started [OF assms(1)] by blast
  ultimately show ?thesis using assms(2,3) by auto
qed

lemma public_leads: "public_act a \<Longrightarrow> leads K [a]"
  by (cases a) auto

lemma events_lead_section:
  assumes "section_of a m = (new, m')" and "\<forall>t \<in># T. leads (started_ids m) t" and "leads (started_ids m) s"
    and "set (tm_queue m) \<union> set (tm_set m) \<subseteq> started_ids m" and "ordered_events (tm_events m)" and "leads (started_ids m) (a # rest)"
  shows "(\<forall>t \<in># T. leads (started_ids m') t) \<and> leads (started_ids m') s \<and> leads (started_ids m') (new @ rest) \<and>
    set (tm_queue m') \<union> set (tm_set m') \<subseteq> started_ids m' \<and> ordered_events (tm_events m')"
proof -
  have k: "started_ids m \<subseteq> started_ids m'" using section_started [OF assms(1)] by blast
  have n: "needs a \<subseteq> started_ids m" using assms(6) by simp
  have "\<forall>t \<in># T. leads (started_ids m') t" using assms(2) leads_mono k by blast
  then show ?thesis
    using section_leads [OF assms(1,6)] section_queue [OF assms(1) n assms(4)] section_ordered [OF assms(1,5) n]
      leads_mono [OF assms(3) k] by (intro conjI)
qed

lemma reachable_events_lead: "task_reachable x \<Longrightarrow> events_lead x"
proof (induction rule: task_reachable.induct)
  case init
  then show ?case by (simp add: events_lead_def task_manager_new_def ordered_events_def)
next
  case (step x y)
  from step(2,3) show ?case
  proof (cases rule: task_step.cases)
    case (call a m T s)
    then show ?thesis using step(3) public_leads by (auto simp: events_lead_def)
  next
    case (run a m new m' rest T s)
    then show ?thesis using events_lead_section [OF run(3), of T s rest] step(3) by (auto simp: events_lead_def)
  next
    case (handle a m new m' T rest)
    then show ?thesis using events_lead_section [OF handle(3), of T "[]" rest] step(3) by (auto simp: events_lead_def)
  qed (use step(3) in \<open>auto simp: events_lead_def started_ids_def dest: notin_set_remove1\<close>)
qed

text \<open>
  C11: whatever the callers and the supervisor do at the same time, a task is reported started at
  most once, cancelled at most once and completed or failed at most once, and never completed or
  failed before it was reported started.
\<close>

theorem task_events_once:
  assumes "task_reachable (m, T, s)"
  shows "events_of (started_of i) m \<le> 1 \<and> events_of (cancelled_of i) m \<le> 1 \<and> events_of (done_of i) m \<le> 1 \<and>
    (tm_events m = xs @ e # ys \<and> done_of i e \<longrightarrow> (\<exists>e' \<in> set xs. started_of i e'))"
proof -
  have "ordered_events (tm_events m)" using reachable_events_lead [OF assms] by (simp add: events_lead_def)
  then show ?thesis
    using starts.held_once [OF assms, of i] cancels.held_once [OF assms, of i] finishes.held_once [OF assms, of i]
    unfolding ordered_events_def by auto
qed

section \<open>The limit on the history\<close>

text \<open>
  trimming keeps every running task, leaves as many records as the limit, or as many as are
  running when those are more, and drops finished tasks oldest first.
\<close>

theorem history_is_capped:
  assumes "hm_ok recs"
  shows "length (trim_finished recs) = max (length (filter (is_running \<circ> snd) recs)) (min (length recs) 512) \<and>
    (hm_get recs i = Some r \<and> is_running r \<longrightarrow> hm_get (trim_finished recs) i = Some r) \<and>
    (hm_get recs i = Some r \<and> hm_get (trim_finished recs) i = None \<longrightarrow>
       (\<forall>j r'. hm_get (trim_finished recs) j = Some r' \<longrightarrow> \<not> is_running r' \<longrightarrow> i < j))"
proof (intro conjI)
  let ?fin = "sort (map fst (filter (\<lambda>(_, r). \<not> is_running r) recs))" and ?n = "length recs - 512"
  have d: "distinct ?fin" using assms by (simp add: distinct_map_filter)
  have R: "length ?fin + length (filter (is_running \<circ> snd) recs) = length recs"
    using sum_length_filter_compl [of "is_running \<circ> snd" recs] by (simp add: o_def split_def)
  have T: "trim_finished recs = (if length recs \<le> 512 then recs else fold hm_remove (take ?n ?fin) recs)"
    by (simp add: trim_finished_def TRIM_FINISHED_ABOVE_def Let_def)
  have "set ?fin \<subseteq> fst ` set recs" by auto
  then have "set (take ?n ?fin) \<subseteq> fst ` set recs" by (rule order_trans [OF set_take_subset])
  then have "length (fold hm_remove (take ?n ?fin) recs) = length recs - length (take ?n ?fin)"
    by (intro length_fold_remove assms distinct_take d)
  then show "length (trim_finished recs) = max (length (filter (is_running \<circ> snd) recs)) (min (length recs) 512)"
    using R by (auto simp: T)
  show "hm_get recs i = Some r \<and> is_running r \<longrightarrow> hm_get (trim_finished recs) i = Some r"
    using trim_finished_keeps_running [OF assms] by blast
  show "hm_get recs i = Some r \<and> hm_get (trim_finished recs) i = None \<longrightarrow>
       (\<forall>j r'. hm_get (trim_finished recs) j = Some r' \<longrightarrow> \<not> is_running r' \<longrightarrow> i < j)"
  proof (intro impI allI)
    fix j r' assume i: "hm_get recs i = Some r \<and> hm_get (trim_finished recs) i = None"
      and j: "hm_get (trim_finished recs) j = Some r'" "\<not> is_running r'"
    then have g: "\<not> length recs \<le> 512" by (auto simp: T)
    then have "i \<in> set (take ?n ?fin)" using i by (auto simp: T hm_get_fold_remove split: if_splits)
    moreover have "j \<notin> set (take ?n ?fin)" "hm_get recs j = Some r'"
      using j g by (simp_all add: T hm_get_fold_remove split: if_splits)
    then have "j \<in> set (drop ?n ?fin)"
    proof -
      have "(j, r') \<in> set recs" using \<open>hm_get recs j = Some r'\<close> by (simp add: map_of_SomeD)
      then have "j \<in> fst ` {x \<in> set recs. case x of (_, r) \<Rightarrow> \<not> is_running r}" using j(2) by force
      then have "j \<in> set (take ?n ?fin @ drop ?n ?fin)" by (simp only: append_take_drop_id set_sort set_map set_filter)
      then show ?thesis using \<open>j \<notin> set (take ?n ?fin)\<close> unfolding set_append by blast
    qed
    moreover have s: "sorted (take ?n ?fin @ drop ?n ?fin)"
      unfolding append_take_drop_id by (rule sorted_sort)
    ultimately have "i \<le> j" by (simp only: sorted_append)
    moreover have "i \<noteq> j" using \<open>i \<in> set (take ?n ?fin)\<close> \<open>j \<notin> set (take ?n ?fin)\<close> by metis
    ultimately show "i < j" by simp
  qed
qed

section \<open>A race\<close>

lemma reachable_next_id: "task_reachable (m, T, s) \<Longrightarrow> tm_next_id m \<noteq> 0"
proof (induction "(m, T, s)" arbitrary: m T s rule: task_reachable.induct)
  case (step x)
  from step(3) show ?case by (cases rule: task_step.cases) (use step(2) in auto)
qed (simp add: task_manager_new_def)

lemma reach_run:
  "task_reachable (m, add_mset (a # rest) T, s) \<Longrightarrow> section_of a m = (new, m') \<Longrightarrow> tm_next_id m' \<noteq> 0 \<Longrightarrow>
    task_reachable (m', add_mset (new @ rest) T, s)"
  by (rule task_reachable.step [OF _ task_step.run])

lemma reach_handle:
  "task_reachable (m, T, a # rest) \<Longrightarrow> section_of a m = (new, m') \<Longrightarrow> tm_next_id m' \<noteq> 0 \<Longrightarrow>
    task_reachable (m', T, new @ rest)"
  by (rule task_reachable.step [OF _ task_step.handle])

text \<open>
  \<open>handle_join\<close> looks whether the task was cancelled under one lock and writes the outcome under
  another; when a cancellation falls in between, the task is reported cancelled and then
  completed, and the record, which the caller of \<open>cancel\<close> has seen cancelled, says completed.
\<close>

theorem cancelled_and_completed:
  assumes "task_reachable (m, T, [])" and "i \<in> set (tm_set m)" and "i \<in> tm_tokens m" and "running_now i m"
    and "tm_phase m \<noteq> Exited"
  shows "\<exists>m' T'. task_reachable (m', T', []) \<and> tm_events m' = tm_events m @ [TeCancelled i, TeCompleted i] \<and>
    map_option tk_state (hm_get (tm_records m') i) = Some TsCompleted"
proof -
  obtain r where r: "hm_get (tm_records m) i = Some r" "is_running r"
    using assms(4) by (auto simp: running_now_def is_running_def)
  have n: "tm_next_id m \<noteq> 0" using reachable_next_id [OF assms(1)] .
  define m1 where "m1 = m\<lparr>tm_cancelled := insert i (tm_cancelled m)\<rparr>"
  have "task_reachable (m, add_mset [ACancel i] T, [])"
    by (rule task_reachable.step [OF assms(1) task_step.call]) simp
  from reach_run [OF this, where new = "[ACancelToken i]" and m' = m] have "task_reachable (m, add_mset [ACancelToken i] T, [])"
    using assms(3) n by simp
  from reach_run [OF this, where new = "[ACancelRecord i]" and m' = m1] have c: "task_reachable (m1, add_mset [ACancelRecord i] T, [])"
    using n by (simp add: m1_def)
  define m2 where "m2 = m1\<lparr>tm_set := remove1 i (tm_set m1)\<rparr>"
  have "task_reachable (m2, add_mset [ACancelRecord i] T, [AJoin i TsCompleted])" unfolding m2_def
    by (rule task_reachable.step [OF c task_step.joined]) (use assms in \<open>simp_all add: m1_def\<close>)
  from reach_handle [OF this, where m' = m2] have
    "task_reachable (m2, add_mset [ACancelRecord i] T, [ATokenRemove i, AForgetKeys i, AJoinRead i TsCompleted])"
    using n by (simp add: m2_def m1_def)
  from reach_handle [OF this, where new = "[]" and m' = "m2\<lparr>tm_tokens := tm_tokens m2 - {i}\<rparr>"]
  have t: "task_reachable (m2\<lparr>tm_tokens := tm_tokens m2 - {i}\<rparr>, add_mset [ACancelRecord i] T, [AForgetKeys i, AJoinRead i TsCompleted])"
    using n by (simp add: m2_def m1_def)
  define m3 where "m3 = m2\<lparr>tm_tokens := tm_tokens m2 - {i}, tm_unique := filter (\<lambda>(_, v). v \<noteq> i) (tm_unique m2)\<rparr>"
  from reach_handle [OF t, where new = "[]" and m' = m3] have t: "task_reachable (m3, add_mset [ACancelRecord i] T, [AJoinRead i TsCompleted])"
    using n by (simp add: m3_def m2_def m1_def)
  have r3: "hm_get (tm_records m3) i = Some r" "tm_next_id m3 \<noteq> 0" "tm_events m3 = tm_events m"
    using r n by (simp_all add: m3_def m2_def m1_def)
  from reach_handle [OF t, where new = "[AJoinWrite i TsCompleted]" and m' = m3]
  have t: "task_reachable (m3, add_mset [ACancelRecord i] T, [AJoinWrite i TsCompleted])"
    using r3 r(2) by (simp add: is_running_def)
  from reach_run [OF this, where new = "[AEmit (TeCancelled i)]" and m' = "set_task_state i TsCancelled m3"]
  have t: "task_reachable (set_task_state i TsCancelled m3, add_mset [AEmit (TeCancelled i)] T, [AJoinWrite i TsCompleted])"
    using r3 r(2) by simp
  define m4 where "m4 = (set_task_state i TsCancelled m3)\<lparr>tm_events := tm_events m3 @ [TeCancelled i]\<rparr>"
  from reach_run [OF t, where new = "[]" and m' = m4] have t: "task_reachable (m4, add_mset [] T, [AJoinWrite i TsCompleted])"
    using r3 by (simp add: m4_def)
  from reach_handle [OF this, where new = "[AEmit (TeCompleted i)]" and m' = "set_task_state i TsCompleted m4"]
  have t: "task_reachable (set_task_state i TsCompleted m4, add_mset [] T, [AEmit (TeCompleted i)])"
    using r3 by (simp add: m4_def)
  define m5 where "m5 = (set_task_state i TsCompleted m4)\<lparr>tm_events := tm_events m4 @ [TeCompleted i]\<rparr>"
  from reach_handle [OF t, where new = "[]" and m' = m5] have "task_reachable (m5, add_mset [] T, [])"
    using r3 by (simp add: m5_def m4_def)
  moreover have "tm_events m5 = tm_events m @ [TeCancelled i, TeCompleted i]" "map_option tk_state (hm_get (tm_records m5) i) = Some TsCompleted"
    using r3 by (simp_all add: m5_def m4_def set_task_state_def)
  ultimately show ?thesis by blast
qed

section \<open>Calls one after the other\<close>

text \<open>A call, run to its end.\<close>

fun act_weight :: "task_act \<Rightarrow> nat" where
  "act_weight (ASpawn _ _ _ _ _) = 9"
| "act_weight (ARecord _ _ _ _) = 2"
| "act_weight (ASubmit _ _) = 4"
| "act_weight (AFinalize _ _) = 2"
| "act_weight (AUnique _ _ _ _) = 14"
| "act_weight (ACancel _) = 4"
| "act_weight (ACancelToken _) = 3"
| "act_weight (ACancelRecord _) = 2"
| "act_weight (AJoin _ _) = 6"
| "act_weight (AJoinRead _ _) = 3"
| "act_weight (AJoinWrite _ _) = 2"
| "act_weight _ = 1"

lemma section_weight: "section_of a m = (new, m') \<Longrightarrow> sum_list (map act_weight new) < act_weight a"
proof -
  have "sum_list (map act_weight (terminal_event i st)) < 2" "sum_list (map act_weight (join_event i st)) < 2" for i st
    by (cases st; simp)+
  then show "section_of a m = (new, m') \<Longrightarrow> sum_list (map act_weight new) < act_weight a"
    by (cases a) (auto simp: Let_def less_Suc_eq_le split: if_splits option.splits)
qed

function run_acts :: "task_act list \<Rightarrow> task_manager \<Rightarrow> task_manager" where
  "run_acts [] m = m"
| "run_acts (a # t) m = run_acts (fst (section_of a m) @ t) (snd (section_of a m))"
  by pat_completeness auto
termination
proof (relation "measure (\<lambda>(t, m). sum_list (map act_weight t))")
  fix a t m
  show "((fst (section_of a m) @ t, snd (section_of a m)), a # t, m) \<in> measure (\<lambda>(t, m). sum_list (map act_weight t))"
    using section_weight [of a m "fst (section_of a m)" "snd (section_of a m)"] by simp
qed simp

definition spawn_async :: "task_kind \<Rightarrow> string \<Rightarrow> i64 \<Rightarrow> task_manager \<Rightarrow> task_manager" where
  "spawn_async kind name now = run_acts [ASpawn kind name True None now]"

definition spawn_blocking :: "task_kind \<Rightarrow> string \<Rightarrow> i64 \<Rightarrow> task_manager \<Rightarrow> task_manager" where
  "spawn_blocking kind name now = run_acts [ASpawn kind name False None now]"

definition spawn_async_unique :: "string \<Rightarrow> task_kind \<Rightarrow> string \<Rightarrow> i64 \<Rightarrow> task_manager \<Rightarrow> task_manager" where
  "spawn_async_unique key kind name now = run_acts [AUnique key kind name now]"

definition cancel_task :: "u64 \<Rightarrow> task_manager \<Rightarrow> bool \<times> task_manager" where
  "cancel_task i m = (i \<in> tm_tokens m, run_acts [ACancel i] m)"

definition handle_join :: "u64 \<Rightarrow> task_state \<Rightarrow> task_manager \<Rightarrow> task_manager" where
  "handle_join i obs = run_acts [AJoin i obs]"

text \<open>What can happen to the registry: a call, or a turn of the supervisor when its guard holds.\<close>

datatype task_input =
    InSpawn task_kind string bool i64
  | InUnique string task_kind string i64
  | InCancel u64
  | InReceive
  | InJoined u64 task_state
  | InLost u64
  | InDrain
  | InExited

fun serve_input :: "task_input \<Rightarrow> task_manager \<Rightarrow> task_manager" where
  "serve_input (InSpawn kind name async now) m = (if async then spawn_async kind name now m else spawn_blocking kind name now m)"
| "serve_input (InUnique key kind name now) m = spawn_async_unique key kind name now m"
| "serve_input (InCancel i) m = snd (cancel_task i m)"
| "serve_input InReceive m =
     (case tm_queue m of
        i # q \<Rightarrow> if tm_phase m = Serving then m\<lparr>tm_queue := q, tm_set := tm_set m @ [i]\<rparr> else m
      | [] \<Rightarrow> m)"
| "serve_input (InJoined i obs) m =
     (if i \<in> set (tm_set m) \<and> tm_phase m \<noteq> Exited \<and> outcome obs
      then handle_join i obs (m\<lparr>tm_set := remove1 i (tm_set m)\<rparr>) else m)"
| "serve_input (InLost i) m = m\<lparr>tm_set := remove1 i (tm_set m)\<rparr>"
| "serve_input InDrain m = (if tm_phase m = Serving then m\<lparr>tm_phase := Draining\<rparr> else m)"
| "serve_input InExited m = (if tm_phase m = Draining then m\<lparr>tm_phase := Exited, tm_set := []\<rparr> else m)"

text \<open>The events of one task.\<close>

definition about :: "u64 \<Rightarrow> task_event \<Rightarrow> bool" where
  "about i e \<longleftrightarrow> started_of i e \<or> cancelled_of i e \<or> done_of i e"

fun told :: "u64 \<Rightarrow> task_state \<Rightarrow> task_event list" where
  "told i TsRunning = []"
| "told i TsCompleted = [TeCompleted i]"
| "told i (TsFailed msg) = [TeFailed i msg]"
| "told i TsCancelled = [TeCancelled i]"

definition task_told :: "u64 \<Rightarrow> task_manager \<Rightarrow> bool" where
  "task_told i m \<longleftrightarrow> (\<forall>r. hm_get (tm_records m) i = Some r \<longrightarrow>
     tk_id r = i \<and> filter (about i) (tm_events m) = TeStarted (r\<lparr>tk_state := TsRunning\<rparr>) # told i (tk_state r))"

definition registry_ok :: "task_manager \<Rightarrow> bool" where
  "registry_ok m \<longleftrightarrow> hm_ok (tm_records m) \<and> (\<forall>i. task_told i m) \<and> distinct (tm_queue m @ tm_set m) \<and>
     (\<forall>i \<in> set (tm_queue m @ tm_set m). \<forall>r. hm_get (tm_records m) i = Some r \<longrightarrow> \<not> outcome (tk_state r)) \<and>
     (\<forall>i. tm_next_id m \<le> i \<longrightarrow> hm_get (tm_records m) i = None \<and> filter (about i) (tm_events m) = [] \<and>
        i \<notin> set (tm_queue m @ tm_set m))"

lemma about_simps [simp]:
  "about i (TeStarted r) = (tk_id r = i)" "about i (TeCompleted j) = (j = i)" "about i (TeFailed j msg) = (j = i)"
  "about i (TeCancelled j) = (j = i)"
  by (auto simp: about_def)

lemma registry_ok_new: "registry_ok task_manager_new"
  by (simp add: registry_ok_def task_manager_new_def task_told_def)

lemma registry_ok_same:
  assumes "registry_ok m" and "tm_records m' = tm_records m" and "tm_events m' = tm_events m"
    and "tm_queue m' = tm_queue m" and "tm_set m' = tm_set m" and "tm_next_id m' = tm_next_id m"
  shows "registry_ok m'"
  using assms by (simp add: registry_ok_def task_told_def)

text \<open>Cancelling.\<close>

lemma cancel_task_effect:
  "run_acts (ACancel i # t) m = run_acts t
     (if i \<in> tm_tokens m then
        (let m1 = m\<lparr>tm_cancelled := insert i (tm_cancelled m)\<rparr> in
         if running_now i m then (set_task_state i TsCancelled m1)\<lparr>tm_events := tm_events m @ [TeCancelled i]\<rparr> else m1)
      else m)"
  by (auto simp: Let_def running_now_def is_running_def split: option.split)

lemma registry_ok_cancelled:
  assumes "registry_ok m" and "running_now i m"
  shows "registry_ok ((set_task_state i TsCancelled (m\<lparr>tm_cancelled := c\<rparr>))\<lparr>tm_events := tm_events m @ [TeCancelled i]\<rparr>)"
    (is "registry_ok ?m")
proof -
  obtain r where r: "hm_get (tm_records m) i = Some r" "tk_state r = TsRunning" using assms(2) by (auto simp: running_now_def)
  then have "\<not> tm_next_id m \<le> i" using assms(1) by (auto simp: registry_ok_def)
  then show ?thesis using assms(1) r
    by (auto simp: registry_ok_def task_told_def set_task_state_def outcome_def)
qed

text \<open>Spawning: the record is there when the history has been trimmed.\<close>

lemma registry_ok_spawned:
  assumes "registry_ok m" and "tm_next_id m \<noteq> - 1"
    and "r = \<lparr>tk_id = tm_next_id m, tk_kind = kind, tk_name = name, tk_started_at = now, tk_state = TsRunning\<rparr>"
    and "tm_records m' = trim_finished (hm_insert (tm_next_id m) r (tm_records m))"
    and "tm_events m' = tm_events m @ [TeStarted r]" and "tm_queue m' = tm_queue m @ (if live then [tm_next_id m] else [])"
    and "tm_set m' = tm_set m" and "tm_next_id m' = tm_next_id m + 1"
  shows "registry_ok m' \<and> hm_get (tm_records m') (tm_next_id m) = Some r \<and>
    (\<not> live \<longrightarrow> tm_next_id m \<notin> set (tm_queue m' @ tm_set m'))"
proof -
  let ?i = "tm_next_id m"
  have ok: "hm_ok (hm_insert ?i r (tm_records m))" using assms(1) by (simp add: registry_ok_def)
  have r: "hm_get (tm_records m') ?i = Some r"
    using trim_finished_keeps_running [OF ok, of ?i r] assms(3,4) by (simp add: is_running_def)
  have g: "hm_get (tm_records m') j = Some q \<Longrightarrow> j = ?i \<and> q = r \<or> hm_get (tm_records m) j = Some q \<and> j \<noteq> ?i" for j q
    using trim_finished_get [of "hm_insert ?i r (tm_records m)" j] assms(4) by (auto split: if_splits)
  have fresh: "filter (about ?i) (tm_events m) = []" "?i \<notin> set (tm_queue m @ tm_set m)"
    using assms(1) by (auto simp: registry_ok_def)
  have lt: "?i < ?i + 1" using assms(2) by (rule word_inc_greater)
  have "task_told j m'" for j
  proof -
    have "task_told j m" using assms(1) by (simp add: registry_ok_def)
    then show ?thesis using g [of j] fresh(1) assms(3,5) unfolding task_told_def by fastforce
  qed
  moreover have "hm_get (tm_records m') j = None \<and> filter (about j) (tm_events m') = [] \<and> j \<notin> set (tm_queue m' @ tm_set m')"
    if "tm_next_id m' \<le> j" for j
  proof -
    have "?i < j" using that lt assms(8) by simp
    then have "?i \<noteq> j" "hm_get (tm_records m) j = None \<and> filter (about j) (tm_events m) = [] \<and> j \<notin> set (tm_queue m @ tm_set m)"
      using assms(1) by (auto simp: registry_ok_def)
    then show ?thesis using g [of j] assms(3,5-7) by (cases "hm_get (tm_records m') j") auto
  qed
  moreover have "\<not> outcome (tk_state q)" if "j \<in> set (tm_queue m' @ tm_set m')" "hm_get (tm_records m') j = Some q" for j q
  proof (cases "j = ?i")
    case True
    then show ?thesis using r that(2) assms(3) by (auto simp: outcome_def)
  next
    case False
    then show ?thesis using that g [OF that(2)] assms(1,6,7) by (auto simp: registry_ok_def split: if_splits)
  qed
  moreover have "distinct (tm_queue m' @ tm_set m')" using assms(1,6,7) fresh(2) by (auto simp: registry_ok_def)
  ultimately show ?thesis using r hm_ok_trim [OF ok] assms(4,6,7) fresh(2) by (auto simp: registry_ok_def)
qed

text \<open>The outcome of a task that is neither queued nor running any more.\<close>

lemma registry_ok_told:
  assumes "registry_ok m" and "outcome st" and "i \<notin> set (tm_queue m @ tm_set m)" and "i < tm_next_id m"
    and "running_now i m \<or> hm_get (tm_records m) i = None"
  shows "registry_ok ((set_task_state i st m)\<lparr>tm_events := tm_events m @ told i st\<rparr>)"
proof -
  have "about j e = (j = i)" if "e \<in> set (told i st)" for e j using that by (cases st) auto
  then have "filter (about j) (told i st) = (if j = i then told i st else [])" for j
    by (auto intro: filter_True filter_False)
  then show ?thesis using assms
    by (auto simp: registry_ok_def task_told_def set_task_state_def running_now_def)
qed

lemma spawn_ok:
  assumes "registry_ok m" and "tm_next_id m \<noteq> - 1"
  shows "\<exists>m'. run_acts (ASpawn kind name async key now # t) m = run_acts t m' \<and> registry_ok m' \<and>
    tm_next_id m' = tm_next_id m + 1"
proof -
  let ?i = "tm_next_id m"
  define r where "r = \<lparr>tk_id = ?i, tk_kind = kind, tk_name = name, tk_started_at = now, tk_state = TsRunning\<rparr>"
  define m1 where "m1 = m\<lparr>tm_next_id := ?i + 1, tm_tokens := (if async then insert ?i (tm_tokens m) else tm_tokens m),
    tm_records := trim_finished (hm_insert ?i r (tm_records m)), tm_events := tm_events m @ [TeStarted r]\<rparr>"
  have start: "run_acts (ASpawn kind name async key now # t) m =
    run_acts (ASubmit ?i async # (case key of Some k \<Rightarrow> [ASetKey k ?i] | None \<Rightarrow> []) @ t) m1"
    by (simp add: Let_def m1_def r_def)
  have keyed: "\<exists>m3. run_acts ((case key of Some k \<Rightarrow> [ASetKey k ?i] | None \<Rightarrow> []) @ t) m2 = run_acts t m3 \<and> registry_ok m3 \<and>
      tm_next_id m3 = ?i + 1" if "registry_ok m2" "tm_next_id m2 = ?i + 1" for m2
  proof (cases key)
    case None
    then show ?thesis using that by auto
  next
    case (Some k)
    have "registry_ok (m2\<lparr>tm_unique := hm_insert k ?i (tm_unique m2)\<rparr>)" by (rule registry_ok_same [OF that(1)]) simp_all
    then show ?thesis using that(2) Some by (intro exI [of _ "m2\<lparr>tm_unique := hm_insert k ?i (tm_unique m2)\<rparr>"]) simp
  qed
  show ?thesis
  proof (cases "tm_phase m = Exited")
    case False
    define m2 where "m2 = m1\<lparr>tm_queue := tm_queue m1 @ [?i]\<rparr>"
    have "registry_ok m2"
      by (rule conjunct1 [OF registry_ok_spawned [OF assms r_def, where live = True]]) (simp_all add: m2_def m1_def)
    moreover have "run_acts (ASubmit ?i async # (case key of Some k \<Rightarrow> [ASetKey k ?i] | None \<Rightarrow> []) @ t) m1 =
      run_acts ((case key of Some k \<Rightarrow> [ASetKey k ?i] | None \<Rightarrow> []) @ t) m2"
      using False by (simp add: m1_def m2_def)
    ultimately show ?thesis using start keyed [of m2] by (simp add: m2_def m1_def)
  next
    case True
    define m2 where "m2 = m1\<lparr>tm_tokens := if async then tm_tokens m1 - {?i} else tm_tokens m1\<rparr>"
    have m2: "registry_ok m2 \<and> hm_get (tm_records m2) ?i = Some r \<and> (\<not> False \<longrightarrow> ?i \<notin> set (tm_queue m2 @ tm_set m2))"
      by (rule registry_ok_spawned [OF assms r_def]) (simp_all add: m2_def m1_def)
    let ?st = "TsFailed ''supervisor gone''"
    define m3 where "m3 = (set_task_state ?i ?st m2)\<lparr>tm_events := tm_events m2 @ told ?i ?st\<rparr>"
    have lt: "?i < ?i + 1" using assms(2) by (rule word_inc_greater)
    have "registry_ok m3" unfolding m3_def
      by (rule registry_ok_told) (use m2 lt in \<open>auto simp: outcome_def running_now_def r_def, simp_all add: m2_def m1_def\<close>)
    moreover have "run_acts (ASubmit ?i async # (case key of Some k \<Rightarrow> [ASetKey k ?i] | None \<Rightarrow> []) @ t) m1 =
      run_acts ((case key of Some k \<Rightarrow> [ASetKey k ?i] | None \<Rightarrow> []) @ t) m3"
      using True by (simp add: m1_def m2_def m3_def)
    ultimately show ?thesis using start keyed [of m3] by (simp add: m3_def m2_def m1_def)
  qed
qed

lemma join_ok:
  assumes "registry_ok m" and "i \<in> set (tm_set m)" and "outcome obs"
  shows "registry_ok (handle_join i obs (m\<lparr>tm_set := remove1 i (tm_set m)\<rparr>)) \<and>
    tm_next_id (handle_join i obs (m\<lparr>tm_set := remove1 i (tm_set m)\<rparr>)) = tm_next_id m"
proof -
  define m1 where "m1 = m\<lparr>tm_set := remove1 i (tm_set m), tm_tokens := tm_tokens m - {i},
    tm_unique := filter (\<lambda>(_, v). v \<noteq> i) (tm_unique m)\<rparr>"
  have ok: "registry_ok m1" using assms(1)
    by (auto simp: registry_ok_def m1_def task_told_def dest: notin_set_remove1)
  have i: "i \<notin> set (tm_queue m1 @ tm_set m1)" "i < tm_next_id m1" "\<not> map_option tk_state (hm_get (tm_records m1) i) = Some obs"
    using assms by (auto simp: registry_ok_def m1_def not_le [symmetric])
  show ?thesis
  proof (cases "map_option tk_state (hm_get (tm_records m1) i) = Some TsCancelled")
    case True
    then have "handle_join i obs (m\<lparr>tm_set := remove1 i (tm_set m)\<rparr>) = m1"
      by (simp add: handle_join_def m1_def)
    then show ?thesis using ok by (simp add: m1_def)
  next
    case False
    have "\<not> outcome st" if "map_option tk_state (hm_get (tm_records m1) i) = Some st" for st
      using assms(1,2) that by (auto simp: registry_ok_def m1_def)
    then have "running_now i m1 \<or> hm_get (tm_records m1) i = None"
      using False by (cases "hm_get (tm_records m1) i"; cases "tk_state (the (hm_get (tm_records m1) i))")
        (auto simp: running_now_def outcome_def)
    then have "registry_ok ((set_task_state i obs m1)\<lparr>tm_events := tm_events m1 @ told i obs\<rparr>)"
      by (intro registry_ok_told ok assms(3) i(1,2))
    moreover have "handle_join i obs (m\<lparr>tm_set := remove1 i (tm_set m)\<rparr>) =
      (set_task_state i obs m1)\<lparr>tm_events := tm_events m1 @ told i obs\<rparr>"
      using False assms(3) by (auto simp: handle_join_def m1_def elim!: outcome_cases)
    ultimately show ?thesis by (simp add: m1_def)
  qed
qed

lemma cancel_ok:
  assumes "registry_ok m"
  shows "\<exists>m'. run_acts (ACancel i # t) m = run_acts t m' \<and> registry_ok m' \<and> tm_next_id m' = tm_next_id m"
proof (cases "i \<in> tm_tokens m")
  case False
  then show ?thesis using assms by (intro exI [of _ m]) (simp add: cancel_task_effect del: run_acts.simps)
next
  case True
  let ?m1 = "m\<lparr>tm_cancelled := insert i (tm_cancelled m)\<rparr>"
  show ?thesis
  proof (cases "running_now i m")
    case run: True
    then show ?thesis using True registry_ok_cancelled [OF assms run]
      by (intro exI [of _ "(set_task_state i TsCancelled ?m1)\<lparr>tm_events := tm_events m @ [TeCancelled i]\<rparr>"])
        (simp add: cancel_task_effect Let_def del: run_acts.simps)
  next
    case False
    have "registry_ok ?m1" by (rule registry_ok_same [OF assms]) simp_all
    with True False show ?thesis
      by (intro exI [of _ ?m1]) (simp add: cancel_task_effect Let_def del: run_acts.simps)
  qed
qed

lemma unique_ok:
  assumes "registry_ok m" and "tm_next_id m \<noteq> - 1"
  shows "registry_ok (spawn_async_unique key kind name now m) \<and>
    tm_next_id (spawn_async_unique key kind name now m) = tm_next_id m + 1"
proof -
  have "\<exists>m'. spawn_async_unique key kind name now m = run_acts [ASpawn kind name True (Some key) now] m' \<and> registry_ok m' \<and>
      tm_next_id m' = tm_next_id m"
    using cancel_ok [OF assms(1), of _ "[ASpawn kind name True (Some key) now]"] assms(1)
    by (cases "hm_get (tm_unique m) key") (auto simp: spawn_async_unique_def simp del: section_of.simps(1))
  then obtain m' where m': "spawn_async_unique key kind name now m = run_acts [ASpawn kind name True (Some key) now] m'"
    "registry_ok m'" "tm_next_id m' = tm_next_id m" by blast
  then show ?thesis using spawn_ok [OF m'(2), of kind name True "Some key" now "[]"] assms(2) by auto
qed

lemma serve_input_ok:
  assumes "registry_ok m" and "tm_next_id m \<noteq> - 1"
  shows "registry_ok (serve_input x m) \<and> (tm_next_id (serve_input x m) = tm_next_id m \<or> tm_next_id (serve_input x m) = tm_next_id m + 1)"
proof (cases x)
  case (InSpawn kind name async now)
  then show ?thesis using spawn_ok [OF assms, of kind name async None now "[]"]
    by (auto simp: spawn_async_def spawn_blocking_def)
next
  case (InUnique key kind name now)
  then show ?thesis using unique_ok [OF assms] by simp
next
  case (InCancel i)
  then show ?thesis using cancel_ok [OF assms(1), of i "[]"] by (auto simp: cancel_task_def)
next
  case InReceive
  then show ?thesis using assms(1) by (cases "tm_queue m") (auto simp: registry_ok_def task_told_def)
next
  case (InJoined i obs)
  then show ?thesis using join_ok [OF assms(1)] assms(1) by simp
next
  case (InLost i)
  then show ?thesis using assms(1) by (auto simp: registry_ok_def task_told_def dest: notin_set_remove1)
next
  case InDrain
  then show ?thesis using assms(1) by (simp add: registry_ok_same)
next
  case InExited
  then show ?thesis using assms(1) by (auto simp: registry_ok_def task_told_def)
qed

lemma serve_inputs_ok:
  "length xs < 2 ^ 64 - 1 \<Longrightarrow> registry_ok (fold serve_input xs task_manager_new) \<and>
    unat (tm_next_id (fold serve_input xs task_manager_new)) \<le> 1 + length xs"
proof (induction xs rule: rev_induct)
  case Nil
  then show ?case by (simp add: registry_ok_new) (simp add: task_manager_new_def)
next
  case (snoc x xs)
  let ?m = "fold serve_input xs task_manager_new"
  have ih: "registry_ok ?m" "unat (tm_next_id ?m) \<le> 1 + length xs" using snoc by simp_all
  have "tm_next_id ?m \<noteq> - 1"
  proof
    assume "tm_next_id ?m = - 1"
    then have "unat (tm_next_id ?m) = 2 ^ 64 - 1" by (simp add: unsigned_minus_1_eq_mask mask_eq_exp_minus_1)
    then show False using ih(2) snoc.prems by simp
  qed
  moreover have "unat (tm_next_id ?m + 1) \<le> unat (tm_next_id ?m) + 1"
    by (simp add: unat_word_ariths)
  ultimately show ?case using serve_input_ok [OF ih(1), of x] ih(2) by auto
qed

text \<open>
  C19: with calls served one after the other the list of tasks and the events agree: of every task
  listed exactly its start has been reported and, once its state says so, exactly the end it
  records.
\<close>

theorem listed_as_reported:
  assumes "length xs < 2 ^ 64 - 1" and "hm_get (tm_records (fold serve_input xs task_manager_new)) i = Some r"
  shows "tk_id r = i \<and> filter (about i) (tm_events (fold serve_input xs task_manager_new)) =
    TeStarted (r\<lparr>tk_state := TsRunning\<rparr>) # told i (tk_state r)"
  using serve_inputs_ok [OF assms(1)] assms(2) by (simp add: registry_ok_def task_told_def)

text \<open>
  a task that is submitted under a key in use supersedes the one before: that one is running
  no longer and its token is cancelled, and the key stands for the new task.
\<close>

theorem unique_supersedes:
  assumes "registry_ok m" and "tm_next_id m \<noteq> - 1" and "hm_get (tm_unique m) key = Some p"
    and "p \<in> tm_tokens m" and "p < tm_next_id m" and "tm_phase m \<noteq> Exited"
  shows "\<not> running_now p (spawn_async_unique key kind name now m) \<and> p \<in> tm_cancelled (spawn_async_unique key kind name now m) \<and>
    running_now (tm_next_id m) (spawn_async_unique key kind name now m) \<and>
    hm_get (tm_unique (spawn_async_unique key kind name now m)) key = Some (tm_next_id m)"
proof -
  let ?i = "tm_next_id m"
  define m1 where "m1 = m\<lparr>tm_cancelled := insert p (tm_cancelled m)\<rparr>"
  define m2 where "m2 = (if running_now p m then (set_task_state p TsCancelled m1)\<lparr>tm_events := tm_events m @ [TeCancelled p]\<rparr> else m1)"
  have m2: "tm_next_id m2 = ?i" "tm_phase m2 = tm_phase m" "p \<in> tm_cancelled m2" "hm_ok (tm_records m2)" "\<not> running_now p m2"
    using assms(1) by (auto simp: m2_def m1_def registry_ok_def running_now_def set_task_state_def)
  have eq: "spawn_async_unique key kind name now m = run_acts [ASpawn kind name True (Some key) now] m2"
  proof -
    have "spawn_async_unique key kind name now m = run_acts [ACancel p, ASpawn kind name True (Some key) now] m"
      unfolding spawn_async_unique_def run_acts.simps(2) [of "AUnique key kind name now"] using assms(3)
      by (simp del: run_acts.simps)
    then show ?thesis using assms(4) by (simp add: cancel_task_effect m2_def m1_def Let_def del: run_acts.simps)
  qed
  define r where "r = \<lparr>tk_id = ?i, tk_kind = kind, tk_name = name, tk_started_at = now, tk_state = TsRunning\<rparr>"
  have f: "tm_records (spawn_async_unique key kind name now m) = trim_finished (hm_insert ?i r (tm_records m2))"
    "tm_cancelled (spawn_async_unique key kind name now m) = tm_cancelled m2"
    "tm_unique (spawn_async_unique key kind name now m) = hm_insert key ?i (tm_unique m2)"
    unfolding eq using m2(1,2) assms(6) by (simp_all add: Let_def r_def)
  have "hm_get (trim_finished (hm_insert ?i r (tm_records m2))) ?i = Some r"
    by (rule trim_finished_keeps_running) (use m2(4) in \<open>simp_all add: r_def is_running_def\<close>)
  moreover have "p \<noteq> ?i" using assms(5) by auto
  ultimately show ?thesis
    using m2(3,5) trim_finished_get [of "hm_insert ?i r (tm_records m2)" p] f by (auto simp: running_now_def r_def)
qed

section \<open>Whole calls are runs\<close>

fun quiet_act :: "task_act \<Rightarrow> bool" where
  "quiet_act (ASpawn _ _ _ _ _) = False"
| "quiet_act (AUnique _ _ _ _) = False"
| "quiet_act _ = True"

lemma quiet_section:
  "section_of a m = (new, m') \<Longrightarrow> quiet_act a \<Longrightarrow> (\<forall>b \<in> set new. quiet_act b) \<and> tm_next_id m' = tm_next_id m"
proof -
  have "\<forall>b \<in> set (terminal_event i st). quiet_act b" "\<forall>b \<in> set (join_event i st). quiet_act b" for i st by (cases st; simp)+
  then show "section_of a m = (new, m') \<Longrightarrow> quiet_act a \<Longrightarrow> (\<forall>b \<in> set new. quiet_act b) \<and> tm_next_id m' = tm_next_id m"
    by (cases a) (auto simp: Let_def set_task_state_def split: if_splits option.splits)
qed

lemma reach_thread:
  "task_reachable (m, add_mset t T, s) \<Longrightarrow> \<forall>a \<in> set t. quiet_act a \<Longrightarrow> task_reachable (run_acts t m, add_mset [] T, s)"
proof (induction t m rule: run_acts.induct)
  case (2 a t m)
  obtain new m' where sec: "section_of a m = (new, m')" by force
  have q: "\<forall>b \<in> set new. quiet_act b" "tm_next_id m' = tm_next_id m" using quiet_section [OF sec] 2(3) by simp_all
  have "task_reachable (m', add_mset (new @ t) T, s)"
    by (rule reach_run [OF 2(2) sec]) (use q(2) reachable_next_id [OF 2(2)] in simp)
  then show ?case using 2(1) q(1) 2(3) sec by auto
qed simp

text \<open>
  two callers that submit under the same key at the same time both find it free: both tasks
  run, neither is cancelled, and the key only knows the second.
\<close>

theorem two_under_one_key:
  assumes "task_reachable (m, T, [])" and "hm_get (tm_unique m) key = None" and "tm_next_id m \<noteq> - 1"
    and "tm_next_id m + 1 \<noteq> - 1" and "tm_phase m \<noteq> Exited"
  shows "\<exists>m'. task_reachable (m', add_mset [] (add_mset [] T), []) \<and> running_now (tm_next_id m) m' \<and>
    running_now (tm_next_id m + 1) m' \<and> tm_cancelled m' = tm_cancelled m \<and> hm_get (tm_unique m') key = Some (tm_next_id m + 1)"
proof -
  let ?i = "tm_next_id m"
  let ?s = "ASpawn kind name True (Some key) now"
  let ?r = "\<lambda>i. \<lparr>tk_id = i, tk_kind = kind, tk_name = name, tk_started_at = now, tk_state = TsRunning\<rparr>"
  define tail where "tail i = [ATokenInsert i, ARecord i kind name now, ASubmit i True, ASetKey key i]" for i
  have n: "?i \<noteq> 0" "?i + 1 \<noteq> 0" "?i + 1 + 1 \<noteq> 0"
    using reachable_next_id [OF assms(1)] assms(3,4) by (auto simp: eq_neg_iff_add_eq_0)
  have "task_reachable (m, add_mset [AUnique key kind name now] T, [])"
    by (rule task_reachable.step [OF assms(1) task_step.call]) simp
  from reach_run [OF this, where new = "[?s]" and m' = m] have "task_reachable (m, add_mset [?s] T, [])"
    using assms(2) n by simp
  then have "task_reachable (m, add_mset [AUnique key kind name now] (add_mset [?s] T), [])"
    by (rule task_reachable.step [OF _ task_step.call]) simp
  from reach_run [OF this, where new = "[?s]" and m' = m] have "task_reachable (m, add_mset [?s] (add_mset [?s] T), [])"
    using assms(2) n by simp
  from reach_run [OF this, where new = "tail ?i" and m' = "m\<lparr>tm_next_id := ?i + 1\<rparr>"]
  have "task_reachable (m\<lparr>tm_next_id := ?i + 1\<rparr>, add_mset (tail ?i) (add_mset [?s] T), [])"
    using n by (simp add: tail_def Let_def)
  then have a: "task_reachable (run_acts (tail ?i) (m\<lparr>tm_next_id := ?i + 1\<rparr>), add_mset [] (add_mset [?s] T), [])"
    by (rule reach_thread) (simp add: tail_def)
  define m1 where "m1 = run_acts (tail ?i) (m\<lparr>tm_next_id := ?i + 1\<rparr>)"
  have m1: "tm_next_id m1 = ?i + 1" "tm_records m1 = trim_finished (hm_insert ?i (?r ?i) (tm_records m))"
    "tm_cancelled m1 = tm_cancelled m" "tm_phase m1 = tm_phase m"
    using assms(5) by (simp_all add: m1_def tail_def Let_def)
  have "task_reachable (m1, add_mset [?s] (add_mset [] T), [])" using a by (simp add: m1_def add_mset_commute)
  from reach_run [OF this, where new = "tail (?i + 1)" and m' = "m1\<lparr>tm_next_id := ?i + 1 + 1\<rparr>"]
  have "task_reachable (m1\<lparr>tm_next_id := ?i + 1 + 1\<rparr>, add_mset (tail (?i + 1)) (add_mset [] T), [])"
    using n m1(1) by (simp add: tail_def Let_def)
  then have b: "task_reachable (run_acts (tail (?i + 1)) (m1\<lparr>tm_next_id := ?i + 1 + 1\<rparr>), add_mset [] (add_mset [] T), [])"
    by (rule reach_thread) (simp add: tail_def)
  define m2 where "m2 = run_acts (tail (?i + 1)) (m1\<lparr>tm_next_id := ?i + 1 + 1\<rparr>)"
  have m2: "tm_records m2 = trim_finished (hm_insert (?i + 1) (?r (?i + 1)) (tm_records m1))" "tm_cancelled m2 = tm_cancelled m"
    "hm_get (tm_unique m2) key = Some (?i + 1)"
    using assms(5) m1 by (simp_all add: m2_def tail_def Let_def)
  have ok: "hm_ok (hm_insert ?i (?r ?i) (tm_records m))" "hm_ok (hm_insert (?i + 1) (?r (?i + 1)) (tm_records m1))"
    using reachable_records_ok [OF assms(1)] m1(2) by (simp_all add: hm_ok_trim)
  have "hm_get (tm_records m1) ?i = Some (?r ?i)" unfolding m1(2)
    by (rule trim_finished_keeps_running [OF ok(1)]) (simp_all add: is_running_def)
  then have "hm_get (tm_records m2) ?i = Some (?r ?i)" unfolding m2(1)
    by (intro trim_finished_keeps_running [OF ok(2)]) (simp_all add: is_running_def)
  moreover have "hm_get (tm_records m2) (?i + 1) = Some (?r (?i + 1))" unfolding m2(1)
    by (rule trim_finished_keeps_running [OF ok(2)]) (simp_all add: is_running_def)
  ultimately show ?thesis using b m2(2,3) unfolding m2_def [symmetric] running_now_def by (intro exI [of _ m2]) simp
qed

lemma reach_supervisor:
  "task_reachable (m, T, t) \<Longrightarrow> \<forall>a \<in> set t. quiet_act a \<Longrightarrow> task_reachable (run_acts t m, T, [])"
proof (induction t m rule: run_acts.induct)
  case (2 a t m)
  obtain new m' where sec: "section_of a m = (new, m')" by force
  have q: "\<forall>b \<in> set new. quiet_act b" "tm_next_id m' = tm_next_id m" using quiet_section [OF sec] 2(3) by simp_all
  have "task_reachable (m', T, new @ t)"
    by (rule reach_handle [OF 2(2) sec]) (use q(2) reachable_next_id [OF 2(2)] in simp)
  then show ?case using 2(1) q(1) 2(3) sec by auto
qed simp

lemma reach_spawn:
  assumes "task_reachable (m, add_mset [ASpawn kind name async key now] T, s)" and "tm_next_id m \<noteq> - 1"
  shows "task_reachable (run_acts [ASpawn kind name async key now] m, add_mset [] T, s)"
proof -
  obtain new m' where sec: "section_of (ASpawn kind name async key now) m = (new, m')" by force
  have "tm_next_id m' = tm_next_id m + 1" "\<forall>a \<in> set new. quiet_act a" using sec by (auto simp: Let_def split: option.splits)
  then have "task_reachable (m', add_mset new T, s)"
    using reach_run [OF assms(1) sec] assms(2) by (simp add: eq_neg_iff_add_eq_0)
  from reach_thread [OF this] \<open>\<forall>a \<in> set new. quiet_act a\<close> show ?thesis by (simp add: sec del: section_of.simps)
qed

text \<open>
  a call served in one go, and a turn of the supervisor, is a run: what holds of every
  interleaving holds of calls served one after the other.
\<close>

theorem served_is_reachable:
  assumes "task_reachable (m, T, [])" and "tm_next_id m \<noteq> - 1"
  shows "\<exists>T'. task_reachable (serve_input x m, T', [])"
proof (cases x)
  case (InSpawn kind name async now)
  have "task_reachable (m, add_mset [ASpawn kind name async None now] T, [])"
    by (rule task_reachable.step [OF assms(1) task_step.call]) simp
  from reach_spawn [OF this assms(2)] show ?thesis using InSpawn by (auto simp: spawn_async_def spawn_blocking_def)
next
  case (InUnique key kind name now)
  let ?s = "ASpawn kind name True (Some key) now"
  have "task_reachable (m, add_mset [AUnique key kind name now] T, [])"
    by (rule task_reachable.step [OF assms(1) task_step.call]) simp
  from reach_run [OF this, of _ m] have "task_reachable (m, add_mset (fst (section_of (AUnique key kind name now) m)) T, [])"
    using reachable_next_id [OF assms(1)] by simp
  moreover have "fst (section_of (AUnique key kind name now) m) =
      (case hm_get (tm_unique m) key of Some p \<Rightarrow> [ACancel p] | None \<Rightarrow> []) @ [?s]" by simp
  ultimately have t: "task_reachable (m, add_mset ((case hm_get (tm_unique m) key of Some p \<Rightarrow> [ACancel p] | None \<Rightarrow> []) @ [?s]) T, [])"
    by simp
  have c: "\<exists>m1. task_reachable (m1, add_mset [?s] T, []) \<and> tm_next_id m1 = tm_next_id m \<and>
      spawn_async_unique key kind name now m = run_acts [?s] m1"
  proof (cases "hm_get (tm_unique m) key")
    case None
    then show ?thesis using t by (intro exI [of _ m]) (simp add: spawn_async_unique_def)
  next
    case (Some p)
    have u: "spawn_async_unique key kind name now m = run_acts [ACancel p, ?s] m"
      unfolding spawn_async_unique_def run_acts.simps(2) [of "AUnique key kind name now"] using Some by (simp del: run_acts.simps)
    have "task_reachable (m, add_mset [ACancel p, ?s] T, [])" using t Some by simp
    have step: "task_reachable (m', add_mset (as @ [?s]) T, []) \<Longrightarrow> \<forall>a \<in> set as. quiet_act a \<Longrightarrow>
        task_reachable (run_acts as m', add_mset [?s] T, []) \<and> run_acts (as @ [?s]) m' = run_acts [?s] (run_acts as m') \<and>
        tm_next_id (run_acts as m') = tm_next_id m'" for as m'
    proof (induction as m' rule: run_acts.induct)
      case (2 a as m')
      obtain new m2 where sec: "section_of a m' = (new, m2)" by force
      have q: "\<forall>b \<in> set new. quiet_act b" "tm_next_id m2 = tm_next_id m'" using quiet_section [OF sec] 2(3) by simp_all
      have "task_reachable (m2, add_mset (new @ as @ [?s]) T, [])"
        by (rule reach_run [OF _ sec]) (use 2(2) q(2) reachable_next_id [OF 2(2)] in simp_all)
      then show ?case using 2(1) q 2(3) sec by (auto simp del: section_of.simps)
    qed simp
    have "task_reachable (m, add_mset ([ACancel p] @ [?s]) T, [])" using t Some by simp
    from step [OF this] show ?thesis using u by (auto simp del: run_acts.simps)
  qed
  then obtain m1 where m1: "task_reachable (m1, add_mset [?s] T, [])" "tm_next_id m1 = tm_next_id m"
    "spawn_async_unique key kind name now m = run_acts [?s] m1" by blast
  then show ?thesis using reach_spawn [OF m1(1)] assms(2) InUnique by auto
next
  case (InCancel i)
  have "task_reachable (m, add_mset [ACancel i] T, [])" by (rule task_reachable.step [OF assms(1) task_step.call]) simp
  from reach_thread [OF this] show ?thesis using InCancel by (auto simp: cancel_task_def)
next
  case InReceive
  then show ?thesis using assms(1) task_reachable.step [OF assms(1) task_step.receive] by (cases "tm_queue m") auto
next
  case (InJoined i obs)
  show ?thesis
  proof (cases "i \<in> set (tm_set m) \<and> tm_phase m \<noteq> Exited \<and> outcome obs")
    case True
    then have "task_reachable (m\<lparr>tm_set := remove1 i (tm_set m)\<rparr>, T, [AJoin i obs])"
      using task_reachable.step [OF assms(1) task_step.joined] unfolding outcome_def by blast
    from reach_supervisor [OF this] show ?thesis using InJoined True by (auto simp: handle_join_def simp del: run_acts.simps)
  next
    case False
    then show ?thesis using assms(1) InJoined by auto
  qed
next
  case (InLost i)
  then show ?thesis using assms(1) task_reachable.step [OF assms(1) task_step.lost [of i]]
    by (cases "i \<in> set (tm_set m)") (auto simp: remove1_idem)
next
  case InDrain
  then show ?thesis using assms(1) task_reachable.step [OF assms(1) task_step.drain] by auto
next
  case InExited
  then show ?thesis using assms(1) task_reachable.step [OF assms(1) task_step.exited] by auto
qed

section \<open>Witnesses\<close>

definition ex_task :: task_record where
  "ex_task = \<lparr>tk_id = 1, tk_kind = KindApply, tk_name = ''apply'', tk_started_at = 5, tk_state = TsRunning\<rparr>"

definition ex_running :: task_manager where
  "ex_running = \<lparr>tm_next_id = 2, tm_records = [(1, ex_task)], tm_events = [TeStarted ex_task], tm_tokens = {1},
     tm_cancelled = {}, tm_unique = [], tm_queue = [], tm_set = [1], tm_phase = Serving\<rparr>"

lemma ex_served: "fold serve_input [InSpawn KindApply ''apply'' True 5, InReceive] task_manager_new = ex_running"
  by (simp add: spawn_async_def task_manager_new_def ex_running_def ex_task_def Let_def trim_finished_def TRIM_FINISHED_ABOVE_def)

lemma ex_running_reachable: "\<exists>T. task_reachable (ex_running, T, [])"
proof -
  have "\<exists>T. task_reachable (serve_input (InSpawn KindApply ''apply'' True 5) task_manager_new, T, [])"
    by (rule served_is_reachable [OF task_reachable.init]) (simp add: task_manager_new_def)
  then obtain T where T: "task_reachable (serve_input (InSpawn KindApply ''apply'' True 5) task_manager_new, T, [])" by blast
  moreover have "tm_next_id (serve_input (InSpawn KindApply ''apply'' True 5) task_manager_new) = 2"
    by (simp add: spawn_async_def task_manager_new_def Let_def)
  ultimately obtain T' where "task_reachable (serve_input InReceive (serve_input (InSpawn KindApply ''apply'' True 5) task_manager_new), T', [])"
    using served_is_reachable [OF T, of InReceive] by auto
  then show ?thesis using ex_served by (auto simp del: serve_input.simps)
qed

theorem cancelled_and_completed_witness:
  "\<exists>m T. task_reachable (m, T, []) \<and> tm_events m = [TeStarted ex_task, TeCancelled 1, TeCompleted 1]"
proof -
  obtain T where "task_reachable (ex_running, T, [])" using ex_running_reachable by blast
  from cancelled_and_completed [OF this, of 1] show ?thesis
    by (auto simp: ex_running_def ex_task_def running_now_def)
qed

theorem task_events_once_witness:
  "events_of (started_of 1) ex_running \<le> 1 \<and> events_of (done_of 1) ex_running \<le> 1"
proof -
  obtain T where "task_reachable (ex_running, T, [])" using ex_running_reachable by blast
  from task_events_once [OF this, of 1] show ?thesis by blast
qed

theorem history_is_capped_witness:
  "length (trim_finished [(1, ex_task)]) = 1 \<and> hm_get (trim_finished [(1, ex_task)]) 1 = Some ex_task"
  using history_is_capped [of "[(1, ex_task)]" 1 ex_task] by (simp add: is_running_def ex_task_def)

theorem listed_as_reported_witness:
  "filter (about 1) (tm_events (fold serve_input [InSpawn KindApply ''apply'' True 5, InReceive] task_manager_new)) = [TeStarted ex_task]"
  using listed_as_reported [of "[InSpawn KindApply ''apply'' True 5, InReceive]" 1 ex_task] unfolding ex_served
  by (simp add: ex_running_def ex_task_def)

theorem unique_supersedes_witness:
  "\<not> running_now 1 (spawn_async_unique ''key'' KindApply ''next'' 9 (ex_running\<lparr>tm_unique := [(''key'', 1)]\<rparr>))"
proof -
  have "registry_ok ex_running" using serve_inputs_ok [of "[InSpawn KindApply ''apply'' True 5, InReceive]"] unfolding ex_served by simp
  then have "registry_ok (ex_running\<lparr>tm_unique := [(''key'', 1)]\<rparr>)" by (rule registry_ok_same) simp_all
  from unique_supersedes [OF this, of "''key''" 1] show ?thesis by (simp add: ex_running_def)
qed

theorem two_under_one_key_witness:
  "\<exists>m T. task_reachable (m, T, []) \<and> running_now 1 m \<and> running_now 2 m \<and> hm_get (tm_unique m) ''key'' = Some 2"
  using two_under_one_key [OF task_reachable.init, of "''key''"] by (auto simp: task_manager_new_def)

theorem served_is_reachable_witness: "\<exists>T. task_reachable (serve_input (InCancel 1) task_manager_new, T, [])"
  using served_is_reachable [OF task_reachable.init, of "InCancel 1"] by (simp add: task_manager_new_def)

end
