(* ===== verification/Wallpaper_Filter.thy ===== *)
theory Wallpaper_Filter
  imports Settings Strings
begin

text \<open>
  The filter of the wallpaper browser and of the queue, \<open>src/model/filter.rs\<close>: how rules become an
  SQL condition. A condition is the tree the query builder is given; what SQLite makes of it, its
  \<open>LIKE\<close> and the raw fragments included, is a parameter, in the three-valued logic of SQL: a row
  is selected when the condition is true, and a comparison with a missing value is not.
\<close>

section \<open>Conditions\<close>

datatype column = ItemTy | LibraryPath | ItemWidth | ItemHeight | ItemSize | ItemContentRating | ItemDisplayName

datatype string_condition = StrUnspecified | StrIs | StrIsNot | StrContains | StrContainsNot

datatype int_condition = IntUnspecified | IntEqual | IntEqualNot | IntLess | IntLessEqual | IntGreater | IntGreaterEqual

datatype sql_expr =
    EqText column string
  | NeText column string
  | Like column string
  | NotLike column string
  | CompareInt int_condition column i64
  | Cust string

datatype condition = CondAll "condition list" | CondAny "condition list" | CondExpr sql_expr

text \<open>\<open>Condition::add\<close>.\<close>

fun add_condition :: "condition \<Rightarrow> condition \<Rightarrow> condition" where
  "add_condition (CondAll cs) c = CondAll (cs @ [c])"
| "add_condition (CondAny cs) c = CondAny (cs @ [c])"
| "add_condition (CondExpr e) c = CondAll [CondExpr e, c]"

section \<open>The enumerations of the protocol\<close>

datatype filter_type =
    FilterUnspecified | FilterName | FilterWpType | FilterLibrary | FilterWidth | FilterHeight | FilterSize
  | FilterContentRating | FilterTag

definition filter_type_of :: "i32 \<Rightarrow> filter_type option" where
  "filter_type_of n =
     map_of [(0, FilterUnspecified), (1, FilterName), (2, FilterWpType), (3, FilterLibrary), (5, FilterWidth),
             (6, FilterHeight), (7, FilterSize), (8, FilterContentRating), (9, FilterTag)] n"

definition string_condition_of :: "i32 \<Rightarrow> string_condition" where
  "string_condition_of n =
     (case map_of [(1, StrIs), (2, StrIsNot), (3, StrContains), (4, StrContainsNot)] n of
        Some c \<Rightarrow> c | None \<Rightarrow> StrUnspecified)"

definition int_condition_of :: "i32 \<Rightarrow> int_condition" where
  "int_condition_of n =
     (case map_of [(1, IntEqual), (2, IntEqualNot), (3, IntLess), (4, IntLessEqual), (5, IntGreater), (6, IntGreaterEqual)] n of
        Some c \<Rightarrow> c | None \<Rightarrow> IntUnspecified)"

definition LOGIC_OR :: i32 where "LOGIC_OR = 2"

section \<open>Quoting\<close>

text \<open>\<open>replace(c, "cc")\<close>.\<close>

fun double_char :: "char \<Rightarrow> string \<Rightarrow> string" where
  "double_char c [] = []"
| "double_char c (x # xs) = (if x = c then c # c # double_char c xs else x # double_char c xs)"

definition sqlite_quote :: "string \<Rightarrow> string" where
  "sqlite_quote s = CHR 0x27 # double_char (CHR 0x27) s @ [CHR 0x27]"

text \<open>\<open>split_whitespace\<close>: the parts between white space that are not empty.\<close>

fun split_spaces :: "string \<Rightarrow> string list" where
  "split_spaces [] = [[]]"
| "split_spaces (c # s) =
     (if is_space c then [] # split_spaces s
      else (case split_spaces s of [] \<Rightarrow> [[c]] | p # ps \<Rightarrow> (c # p) # ps))"

definition split_whitespace :: "string \<Rightarrow> string list" where
  "split_whitespace s = filter (\<lambda>p. p \<noteq> []) (split_spaces s)"

fun join_with :: "string \<Rightarrow> string list \<Rightarrow> string" where
  "join_with sep [] = []"
| "join_with sep [p] = p"
| "join_with sep (p # q # ps) = p @ sep @ join_with sep (q # ps)"

definition fts_term :: "string \<Rightarrow> string" where
  "fts_term t = CHR 0x22 # double_char (CHR 0x22) t @ [CHR 0x22, CHR ''*'']"

definition build_fts_match_query :: "string \<Rightarrow> string option" where
  "build_fts_match_query input =
     (let terms = map fts_term (filter (\<lambda>t. t \<noteq> []) (map str_trim (split_whitespace input))) in
      if terms = [] then None else Some (join_with '' AND '' terms))"

section \<open>One rule\<close>

definition string_condition_to_condition :: "column \<Rightarrow> string_condition \<Rightarrow> string \<Rightarrow> condition option" where
  "string_condition_to_condition col cond v =
     (case cond of
        StrContains \<Rightarrow> Some (CondAll [CondExpr (Like col (''%'' @ v @ ''%''))])
      | StrContainsNot \<Rightarrow> Some (CondAll [CondExpr (NotLike col (''%'' @ v @ ''%''))])
      | StrIs \<Rightarrow> Some (CondAll [CondExpr (EqText col v)])
      | StrIsNot \<Rightarrow> Some (CondAll [CondExpr (NeText col v)])
      | StrUnspecified \<Rightarrow> None)"

definition int_condition_to_condition :: "column \<Rightarrow> int_condition \<Rightarrow> i64 \<Rightarrow> condition option" where
  "int_condition_to_condition col cond v =
     (if cond = IntUnspecified then None else Some (CondAll [CondExpr (CompareInt cond col v)]))"

definition tag_prefix :: string where
  "tag_prefix =
     ''EXISTS (SELECT 1 FROM item_tag JOIN tag ON tag.id = item_tag.tag_id WHERE item_tag.item_id = item.id AND tag.name ''"

definition tag_exists :: "string \<Rightarrow> string" where
  "tag_exists tag = tag_prefix @ ''= '' @ sqlite_quote tag @ '' COLLATE NOCASE)''"

definition tag_condition_to_condition :: "string \<Rightarrow> string_condition \<Rightarrow> condition option" where
  "tag_condition_to_condition tag cond =
     (case cond of
        StrIs \<Rightarrow> Some (CondAll [CondExpr (Cust (tag_exists tag))])
      | StrContains \<Rightarrow> Some (CondAll [CondExpr (Cust (tag_exists tag))])
      | StrIsNot \<Rightarrow> Some (CondAll [CondExpr (Cust (''NOT '' @ tag_exists tag))])
      | StrContainsNot \<Rightarrow> Some (CondAll [CondExpr (Cust (''NOT '' @ tag_exists tag))])
      | StrUnspecified \<Rightarrow> None)"

definition tag_list_condition_to_condition :: "string list \<Rightarrow> string_condition \<Rightarrow> condition option" where
  "tag_list_condition_to_condition values cond =
     (let names = filter (\<lambda>v. v \<noteq> []) values in
      if names = [] then None
      else if cond \<in> {StrIs, StrContains}
      then Some (fold (\<lambda>tag any. add_condition any (CondExpr (Cust (tag_exists tag)))) names (CondAny []))
      else if cond \<in> {StrIsNot, StrContainsNot}
      then Some (fold (\<lambda>tag all. add_condition all (CondExpr (Cust (''NOT '' @ tag_exists tag)))) names (CondAll []))
      else None)"

definition name_tag_exists :: "string \<Rightarrow> string" where
  "name_tag_exists v =
     tag_prefix @ ''LIKE '' @ CHR 0x27 # CHR ''%'' # double_char (CHR 0x27) v @ [CHR ''%'', CHR 0x27] @ '' COLLATE NOCASE)''"

definition name_condition_to_condition :: "string_filter \<Rightarrow> condition option" where
  "name_condition_to_condition f =
     (let cond = string_condition_of (sf_condition f) in
      if cond \<in> {StrContains, StrContainsNot}
      then (case build_fts_match_query (sf_value f) of
              None \<Rightarrow> None
            | Some q \<Rightarrow>
                if cond = StrContains
                then Some (CondAny [CondExpr (Cust (''item.id IN (SELECT rowid FROM item_fts WHERE item_fts MATCH '' @ sqlite_quote q @ '')'')),
                                    CondExpr (Cust (name_tag_exists (sf_value f)))])
                else Some (CondAll [CondExpr (Cust (''item.id NOT IN (SELECT rowid FROM item_fts WHERE item_fts MATCH '' @ sqlite_quote q @ '')'')),
                                    CondExpr (Cust (''NOT '' @ name_tag_exists (sf_value f)))]))
      else string_condition_to_condition ItemDisplayName cond (sf_value f))"

definition wallpaper_filter_to_condition :: "filter_rule \<Rightarrow> condition option" where
  "wallpaper_filter_to_condition r =
     (case (filter_type_of (fr_type r), fr_payload r) of
        (Some FilterName, Some (StringFilter f)) \<Rightarrow> name_condition_to_condition f
      | (Some FilterWpType, Some (StringFilter f)) \<Rightarrow>
          string_condition_to_condition ItemTy (string_condition_of (sf_condition f)) (map ascii_lower (sf_value f))
      | (Some FilterLibrary, Some (StringFilter f)) \<Rightarrow>
          string_condition_to_condition LibraryPath (string_condition_of (sf_condition f)) (sf_value f)
      | (Some FilterWidth, Some (IntFilter f)) \<Rightarrow> int_condition_to_condition ItemWidth (int_condition_of (if_condition f)) (if_value f)
      | (Some FilterHeight, Some (IntFilter f)) \<Rightarrow> int_condition_to_condition ItemHeight (int_condition_of (if_condition f)) (if_value f)
      | (Some FilterSize, Some (IntFilter f)) \<Rightarrow> int_condition_to_condition ItemSize (int_condition_of (if_condition f)) (if_value f)
      | (Some FilterContentRating, Some (StringFilter f)) \<Rightarrow>
          string_condition_to_condition ItemContentRating (string_condition_of (sf_condition f)) (sf_value f)
      | (Some FilterTag, Some (TagFilter f)) \<Rightarrow> tag_list_condition_to_condition (tf_values f) (string_condition_of (tf_condition f))
      | (Some FilterTag, Some (StringFilter f)) \<Rightarrow> tag_condition_to_condition (sf_value f) (string_condition_of (sf_condition f))
      | _ \<Rightarrow> None)"

section \<open>Groups of rules\<close>

text \<open>The buckets: a map of groups, in their signed order, to the conditions of their rules.\<close>

definition add_to_group :: "filter_rule \<Rightarrow> (int \<times> condition list) list \<Rightarrow> (int \<times> condition list) list" where
  "add_to_group r buckets =
     (case wallpaper_filter_to_condition r of
        None \<Rightarrow> buckets
      | Some c \<Rightarrow>
          (let g = sint (fr_group r); old = (case map_of buckets g of Some cs \<Rightarrow> cs | None \<Rightarrow> []) in
           bt_insert g (old @ [c]) buckets))"

definition group_cond :: "(int \<times> condition list) list \<Rightarrow> int \<Rightarrow> condition option" where
  "group_cond buckets g = map_option (\<lambda>cs. fold (\<lambda>c all. add_condition all c) cs (CondAll [])) (map_of buckets g)"

definition pair_step ::
  "(int \<times> condition list) list \<Rightarrow> filter_logic \<Rightarrow> condition list \<times> int set \<Rightarrow> condition list \<times> int set" where
  "pair_step buckets l acc =
     (case (group_cond buckets (sint (fl_group_a l)), group_cond buckets (sint (fl_group_b l))) of
        (Some a, Some b) \<Rightarrow>
          (fst acc @ [if fl_op l = LOGIC_OR then add_condition (add_condition (CondAny []) a) b
                      else add_condition (add_condition (CondAll []) a) b],
           insert (sint (fl_group_b l)) (insert (sint (fl_group_a l)) (snd acc)))
      | _ \<Rightarrow> acc)"

definition lone_step ::
  "(int \<times> condition list) list \<Rightarrow> int set \<Rightarrow> int \<Rightarrow> condition \<Rightarrow> condition" where
  "lone_step buckets referenced g outer =
     (if g \<in> referenced then outer
      else (case group_cond buckets g of Some c \<Rightarrow> add_condition outer c | None \<Rightarrow> outer))"

definition wallpaper_filters_to_condition :: "filter_rule list \<Rightarrow> filter_logic list \<Rightarrow> condition option" where
  "wallpaper_filters_to_condition filters logics =
     (let buckets = fold add_to_group filters [] in
      if buckets = [] then None
      else
        (let (pairs, referenced) = fold (pair_step buckets) logics ([], {});
             outer = fold (\<lambda>p out. add_condition out p) pairs (CondAll [])
         in Some (fold (lone_step buckets referenced) (map fst buckets) outer)))"

section \<open>Which rows are selected\<close>

text \<open>
  A row: its columns, \<open>None\<close> for \<open>NULL\<close>, and the answers to the raw fragments; \<open>like\<close> is SQLite's
  operator. A conjunction is true when all its parts are, a disjunction when one is.
\<close>

record db_row =
  dr_text :: "column \<Rightarrow> string option"
  dr_int :: "column \<Rightarrow> i64 option"
  dr_raw :: "string \<Rightarrow> bool option"

fun compare_int :: "int_condition \<Rightarrow> i64 \<Rightarrow> i64 \<Rightarrow> bool" where
  "compare_int IntEqual x v \<longleftrightarrow> x = v"
| "compare_int IntEqualNot x v \<longleftrightarrow> x \<noteq> v"
| "compare_int IntLess x v \<longleftrightarrow> sint x < sint v"
| "compare_int IntLessEqual x v \<longleftrightarrow> sint x \<le> sint v"
| "compare_int IntGreater x v \<longleftrightarrow> sint v < sint x"
| "compare_int IntGreaterEqual x v \<longleftrightarrow> sint v \<le> sint x"
| "compare_int IntUnspecified x v \<longleftrightarrow> True"

fun expr_value :: "(string \<Rightarrow> string \<Rightarrow> bool) \<Rightarrow> db_row \<Rightarrow> sql_expr \<Rightarrow> bool option" where
  "expr_value like row (EqText col v) = map_option (\<lambda>x. x = v) (dr_text row col)"
| "expr_value like row (NeText col v) = map_option (\<lambda>x. x \<noteq> v) (dr_text row col)"
| "expr_value like row (Like col p) = map_option (like p) (dr_text row col)"
| "expr_value like row (NotLike col p) = map_option (\<lambda>x. \<not> like p x) (dr_text row col)"
| "expr_value like row (CompareInt c col v) = map_option (\<lambda>x. compare_int c x v) (dr_int row col)"
| "expr_value like row (Cust sql) = dr_raw row sql"

fun selects :: "(string \<Rightarrow> string \<Rightarrow> bool) \<Rightarrow> db_row \<Rightarrow> condition \<Rightarrow> bool" where
  "selects like row (CondAll cs) \<longleftrightarrow> list_all (selects like row) cs"
| "selects like row (CondAny cs) \<longleftrightarrow> list_ex (selects like row) cs"
| "selects like row (CondExpr e) \<longleftrightarrow> expr_value like row e = Some True"

text \<open>What a user reads off the rules: a group asks for all its rules.\<close>

definition group_present :: "filter_rule list \<Rightarrow> i32 \<Rightarrow> bool" where
  "group_present rules g \<longleftrightarrow> (\<exists>r \<in> set rules. fr_group r = g \<and> wallpaper_filter_to_condition r \<noteq> None)"

definition rule_holds :: "(string \<Rightarrow> string \<Rightarrow> bool) \<Rightarrow> db_row \<Rightarrow> filter_rule \<Rightarrow> bool" where
  "rule_holds like row r \<longleftrightarrow> (case wallpaper_filter_to_condition r of None \<Rightarrow> True | Some c \<Rightarrow> selects like row c)"

definition group_holds :: "(string \<Rightarrow> string \<Rightarrow> bool) \<Rightarrow> db_row \<Rightarrow> filter_rule list \<Rightarrow> i32 \<Rightarrow> bool" where
  "group_holds like row rules g \<longleftrightarrow> (\<forall>r \<in> set rules. fr_group r = g \<longrightarrow> rule_holds like row r)"

definition logic_live :: "filter_rule list \<Rightarrow> filter_logic \<Rightarrow> bool" where
  "logic_live rules l \<longleftrightarrow> group_present rules (fl_group_a l) \<and> group_present rules (fl_group_b l)"

definition logic_holds :: "(string \<Rightarrow> string \<Rightarrow> bool) \<Rightarrow> db_row \<Rightarrow> filter_rule list \<Rightarrow> filter_logic \<Rightarrow> bool" where
  "logic_holds like row rules l \<longleftrightarrow>
     (if fl_op l = LOGIC_OR
      then group_holds like row rules (fl_group_a l) \<or> group_holds like row rules (fl_group_b l)
      else group_holds like row rules (fl_group_a l) \<and> group_holds like row rules (fl_group_b l))"

lemma list_all_map_filter: "list_all P (List.map_filter f xs) \<longleftrightarrow> (\<forall>x \<in> set xs. \<forall>y. f x = Some y \<longrightarrow> P y)"
  by (induction xs) (auto simp: List.map_filter_simps split: option.splits)

lemma fold_add_all: "fold (\<lambda>c out. add_condition out c) cs (CondAll ds) = CondAll (ds @ cs)"
  by (induction cs arbitrary: ds) simp_all

lemma fold_add_any: "fold (\<lambda>c out. add_condition out c) cs (CondAny ds) = CondAny (ds @ cs)"
  by (induction cs arbitrary: ds) simp_all

lemma buckets_get:
  "map_of (fold add_to_group rules []) g =
    (let cs = List.map_filter wallpaper_filter_to_condition (filter (\<lambda>r. sint (fr_group r) = g) rules) in
     if cs = [] then None else Some cs)"
proof (induction rules arbitrary: g rule: rev_induct)
  case (snoc r rules)
  show ?case
    by (cases "wallpaper_filter_to_condition r")
      (simp_all add: add_to_group_def [of r] snoc Let_def List.map_filter_def)
qed (simp add: List.map_filter_def)

lemma sint_eq: "sint (a :: i32) = sint b \<longleftrightarrow> a = b"
  by (auto intro: signed_word_eqI)

lemma group_condition:
  "group_cond (fold add_to_group rules []) (sint g) =
    (if group_present rules g
     then Some (CondAll (List.map_filter wallpaper_filter_to_condition (filter (\<lambda>r. fr_group r = g) rules))) else None)"
proof -
  have "List.map_filter wallpaper_filter_to_condition (filter (\<lambda>r. fr_group r = g) rules) = [] \<longleftrightarrow> \<not> group_present rules g"
    by (auto simp: List.map_filter_def filter_empty_conv group_present_def)
  then show ?thesis by (simp add: group_cond_def buckets_get sint_eq Let_def fold_add_all)
qed

lemma selects_group:
  "selects like row (CondAll (List.map_filter wallpaper_filter_to_condition (filter (\<lambda>r. fr_group r = g) rules))) \<longleftrightarrow>
    group_holds like row rules g"
  by (auto simp: list_all_iff set_map_filter group_holds_def rule_holds_def split: option.splits)

definition pair_condition :: "(int \<times> condition list) list \<Rightarrow> filter_logic \<Rightarrow> condition option" where
  "pair_condition buckets l =
     (case (group_cond buckets (sint (fl_group_a l)), group_cond buckets (sint (fl_group_b l))) of
        (Some a, Some b) \<Rightarrow> Some (if fl_op l = LOGIC_OR then CondAny [a, b] else CondAll [a, b])
      | _ \<Rightarrow> None)"

lemma fold_pairs:
  "fold (pair_step buckets) logics (ps, refs) =
    (ps @ List.map_filter (pair_condition buckets) logics,
     refs \<union> (\<Union>l \<in> {l \<in> set logics. pair_condition buckets l \<noteq> None}. {sint (fl_group_a l), sint (fl_group_b l)}))"
proof (induction logics arbitrary: ps refs)
  case (Cons l logics)
  show ?case
  proof (cases "pair_condition buckets l")
    case None
    then have "pair_step buckets l (ps, refs) = (ps, refs)"
      by (auto simp: pair_step_def pair_condition_def split: option.splits)
    with Cons None show ?thesis by (auto simp: List.map_filter_simps)
  next
    case (Some c)
    then have "pair_step buckets l (ps, refs) = (ps @ [c], insert (sint (fl_group_b l)) (insert (sint (fl_group_a l)) refs))"
      by (auto simp: pair_step_def pair_condition_def split: option.splits)
    with Cons Some show ?thesis by (auto simp: List.map_filter_simps)
  qed
qed (simp add: List.map_filter_simps)

lemma fold_lone:
  "fold (lone_step buckets refs) gs (CondAll ds) =
    CondAll (ds @ List.map_filter (\<lambda>g. if g \<in> refs then None else group_cond buckets g) gs)"
  by (induction gs arbitrary: ds) (simp_all add: lone_step_def List.map_filter_simps split: option.split)

lemma pair_condition_live:
  "pair_condition (fold add_to_group rules []) l =
    (if logic_live rules l
     then Some ((if fl_op l = LOGIC_OR then CondAny else CondAll)
       (map (\<lambda>g. CondAll (List.map_filter wallpaper_filter_to_condition (filter (\<lambda>r. fr_group r = g) rules)))
         [fl_group_a l, fl_group_b l]))
     else None)"
  by (simp add: pair_condition_def group_condition logic_live_def)

lemma selects_pair:
  "pair_condition (fold add_to_group rules []) l = Some c \<Longrightarrow> selects like row c \<longleftrightarrow> logic_holds like row rules l"
  using selects_group [of like row "fl_group_a l" rules] selects_group [of like row "fl_group_b l" rules]
  by (auto simp: pair_condition_live logic_holds_def split: if_splits)

lemma group_keys: "x \<in> fst ` set (fold add_to_group rules []) \<longleftrightarrow> (\<exists>g. x = sint g \<and> group_present rules g)"
proof -
  have "x \<in> fst ` set (fold add_to_group rules []) \<longleftrightarrow> map_of (fold add_to_group rules []) x \<noteq> None"
    by (metis map_of_eq_None_iff)
  also have "\<dots> \<longleftrightarrow> (\<exists>r \<in> set rules. sint (fr_group r) = x \<and> wallpaper_filter_to_condition r \<noteq> None)"
    by (auto simp: buckets_get Let_def List.map_filter_def filter_empty_conv)
  also have "\<dots> \<longleftrightarrow> (\<exists>g. x = sint g \<and> group_present rules g)"
    unfolding group_present_def by (intro iffI; elim bexE exE conjE; intro exI bexI conjI) simp_all
  finally show ?thesis .
qed

lemma no_buckets: "fold add_to_group rules [] = [] \<longleftrightarrow> (\<forall>r \<in> set rules. wallpaper_filter_to_condition r = None)"
proof -
  have "fold add_to_group rules [] = [] \<longleftrightarrow> (\<forall>x. x \<notin> fst ` set (fold add_to_group rules []))" by auto
  then show ?thesis unfolding group_keys by (auto simp: group_present_def)
qed

lemma filter_condition_spec:
  "(wallpaper_filters_to_condition rules logics = None \<longleftrightarrow> (\<forall>r \<in> set rules. wallpaper_filter_to_condition r = None)) \<and>
   (wallpaper_filters_to_condition rules logics = Some c \<longrightarrow>
     (selects like row c \<longleftrightarrow>
       (\<forall>l \<in> set logics. logic_live rules l \<longrightarrow> logic_holds like row rules l) \<and>
       (\<forall>g. group_present rules g \<and> (\<forall>l \<in> set logics. logic_live rules l \<longrightarrow> g \<noteq> fl_group_a l \<and> g \<noteq> fl_group_b l) \<longrightarrow>
          group_holds like row rules g)))"
proof (intro conjI impI)
  let ?b = "fold add_to_group rules []"
  let ?refs = "\<Union>l \<in> {l \<in> set logics. pair_condition ?b l \<noteq> None}. {sint (fl_group_a l), sint (fl_group_b l)}"
  let ?lone = "\<lambda>g. if g \<in> ?refs then None else group_cond ?b g"
  have eq: "wallpaper_filters_to_condition rules logics =
    (if ?b = [] then None
     else Some (CondAll (List.map_filter (pair_condition ?b) logics @ List.map_filter ?lone (map fst ?b))))"
    by (simp add: wallpaper_filters_to_condition_def Let_def fold_pairs fold_add_all fold_lone)
  show "wallpaper_filters_to_condition rules logics = None \<longleftrightarrow> (\<forall>r \<in> set rules. wallpaper_filter_to_condition r = None)"
    unfolding eq no_buckets [symmetric] by simp
  assume "wallpaper_filters_to_condition rules logics = Some c"
  then have c: "c = CondAll (List.map_filter (pair_condition ?b) logics @ List.map_filter ?lone (map fst ?b))"
    unfolding eq by (simp split: if_splits)
  have refs: "sint g \<in> ?refs \<longleftrightarrow> (\<exists>l \<in> set logics. logic_live rules l \<and> (g = fl_group_a l \<or> g = fl_group_b l))" for g
    by (auto simp: pair_condition_live sint_eq)
  have pairs: "(\<forall>l \<in> set logics. \<forall>c. pair_condition ?b l = Some c \<longrightarrow> selects like row c) \<longleftrightarrow>
    (\<forall>l \<in> set logics. logic_live rules l \<longrightarrow> logic_holds like row rules l)"
    using selects_pair [of rules _ _ like row] by (metis (no_types, lifting) pair_condition_live option.distinct(1))
  have lone1: "(\<forall>c. (if sint g \<in> R then None else group_cond ?b (sint g)) = Some c \<longrightarrow> selects like row c) \<longleftrightarrow>
      (sint g \<notin> R \<longrightarrow> group_holds like row rules g)"
    if "group_present rules g" for g R
    using that selects_group [of like row g rules] by (simp add: group_condition del: selects.simps)
  have "(\<forall>x \<in> fst ` set ?b. \<forall>c. ?lone x = Some c \<longrightarrow> selects like row c) \<longleftrightarrow>
    (\<forall>g. group_present rules g \<longrightarrow> (\<forall>c. ?lone (sint g) = Some c \<longrightarrow> selects like row c))"
    unfolding Ball_def group_keys by blast
  also have "\<dots> \<longleftrightarrow> (\<forall>g. group_present rules g \<and> sint g \<notin> ?refs \<longrightarrow> group_holds like row rules g)"
    unfolding imp_conjL by (intro all_cong1 imp_cong refl) (rule lone1)
  finally have lone: "(\<forall>x \<in> fst ` set ?b. \<forall>c. ?lone x = Some c \<longrightarrow> selects like row c) \<longleftrightarrow>
    (\<forall>g. group_present rules g \<and> sint g \<notin> ?refs \<longrightarrow> group_holds like row rules g)" .
  have "selects like row c \<longleftrightarrow>
    (\<forall>l \<in> set logics. \<forall>c. pair_condition ?b l = Some c \<longrightarrow> selects like row c) \<and>
    (\<forall>x \<in> fst ` set ?b. \<forall>c. ?lone x = Some c \<longrightarrow> selects like row c)"
    unfolding c selects.simps list_all_append list_all_map_filter set_map by (rule refl)
  then show "selects like row c \<longleftrightarrow>
       (\<forall>l \<in> set logics. logic_live rules l \<longrightarrow> logic_holds like row rules l) \<and>
       (\<forall>g. group_present rules g \<and> (\<forall>l \<in> set logics. logic_live rules l \<longrightarrow> g \<noteq> fl_group_a l \<and> g \<noteq> fl_group_b l) \<longrightarrow>
          group_holds like row rules g)"
    unfolding pairs lone refs by blast
qed

text \<open>
  C37: rules and their groups become the condition they stand for. There is none exactly when no
  rule is complete; otherwise a row is selected when every pair of groups that are both there
  holds as its operator says and every other group holds, a group being all its rules.
\<close>

theorem filter_condition_exact:
  "(wallpaper_filters_to_condition rules logics = None \<longleftrightarrow> (\<forall>r \<in> set rules. wallpaper_filter_to_condition r = None)) \<and>
   (wallpaper_filters_to_condition rules logics = Some c \<longrightarrow>
     (selects like row c \<longleftrightarrow>
       (\<forall>l \<in> set logics. logic_live rules l \<longrightarrow> logic_holds like row rules l) \<and>
       (\<forall>g. group_present rules g \<and> (\<forall>l \<in> set logics. logic_live rules l \<longrightarrow> g \<noteq> fl_group_a l \<and> g \<noteq> fl_group_b l) \<longrightarrow>
          group_holds like row rules g)))"
  by (rule filter_condition_spec)

section \<open>Quoting is safe\<close>

text \<open>How a quoted text is read: a doubled quote stands for one, a single one ends it.\<close>

fun unquote :: "char \<Rightarrow> string \<Rightarrow> (string \<times> string) option" where
  "unquote q [] = None"
| "unquote q [c] = (if c = q then Some ([], []) else None)"
| "unquote q (c # d # s) =
     (if c = q then (if d = q then map_option (\<lambda>(v, r). (q # v, r)) (unquote q s) else Some ([], d # s))
      else map_option (\<lambda>(v, r). (c # v, r)) (unquote q (d # s)))"

definition scan_quoted :: "char \<Rightarrow> string \<Rightarrow> (string \<times> string) option" where
  "scan_quoted q s = (case s of [] \<Rightarrow> None | c # r \<Rightarrow> if c = q then unquote q r else None)"

lemma unquote_other: "c \<noteq> q \<Longrightarrow> s \<noteq> [] \<Longrightarrow> unquote q (c # s) = map_option (\<lambda>(v, r). (c # v, r)) (unquote q s)"
  by (cases s) simp_all

lemma unquote_double:
  assumes "d \<noteq> q"
  shows "unquote q (double_char q s @ q # d # rest) = Some (s, d # rest)"
proof (induction s)
  case (Cons c s)
  show ?case
  proof (cases "c = q")
    case False
    then show ?thesis using Cons unquote_other [of c q "double_char q s @ q # d # rest"] by simp
  qed (use Cons in simp)
qed (use assms in simp)

text \<open>
  C38: no text of a user leaves the literal it is put in: read back, the literal of a tag is the
  tag, that of a name pattern is the name between two wildcards, that of a full-text query is the
  query, and a term of that query is the term; what follows is the fixed rest.
\<close>

theorem raw_sql_contained:
  "scan_quoted (CHR 0x27) (drop (length tag_prefix + 2) (tag_exists v)) = Some (v, '' COLLATE NOCASE)'') \<and>
   scan_quoted (CHR 0x27) (drop (length tag_prefix + 5) (name_tag_exists v)) = Some (''%'' @ v @ ''%'', '' COLLATE NOCASE)'') \<and>
   scan_quoted (CHR 0x27) (sqlite_quote v @ '')'') = Some (v, '')'') \<and>
   scan_quoted (CHR 0x22) (fts_term v @ rest) = Some (v, ''*'' @ rest)"
proof (intro conjI)
  show "scan_quoted (CHR 0x27) (drop (length tag_prefix + 2) (tag_exists v)) = Some (v, '' COLLATE NOCASE)'')"
    using unquote_double [of "CHR '' ''" "CHR 0x27" v "''COLLATE NOCASE)''"]
    by (simp add: tag_exists_def sqlite_quote_def scan_quoted_def)
  have "double_char (CHR 0x27) (''%'' @ v @ ''%'') = CHR ''%'' # double_char (CHR 0x27) v @ ''%''"
    by (induction v) simp_all
  then show "scan_quoted (CHR 0x27) (drop (length tag_prefix + 5) (name_tag_exists v)) = Some (''%'' @ v @ ''%'', '' COLLATE NOCASE)'')"
    using unquote_double [of "CHR '' ''" "CHR 0x27" "''%'' @ v @ ''%''" "''COLLATE NOCASE)''"]
    by (simp add: name_tag_exists_def scan_quoted_def)
  show "scan_quoted (CHR 0x27) (sqlite_quote v @ '')'') = Some (v, '')'')"
    using unquote_double [of "CHR '')''" "CHR 0x27" v "[]"] by (simp add: sqlite_quote_def scan_quoted_def)
  show "scan_quoted (CHR 0x22) (fts_term v @ rest) = Some (v, ''*'' @ rest)"
    using unquote_double [of "CHR ''*''" "CHR 0x22" v rest] by (simp add: fts_term_def scan_quoted_def)
qed

section \<open>Wallpapers without a rating\<close>

lemma skip_rating_rule:
  "dr_text row ItemContentRating = None \<Longrightarrow>
    \<exists>c. wallpaper_filter_to_condition (skip_rule CONTENT_RATING g v) = Some c \<and> \<not> selects like row c"
  by (simp add: wallpaper_filter_to_condition_def skip_rule_def filter_type_of_def CONTENT_RATING_def
      string_condition_to_condition_def string_condition_of_def COND_IS_NOT_def)

text \<open>
  skipping any content rating also hides every wallpaper that has no rating at all: a rule
  "is not" is a comparison with \<open>NULL\<close> then, and the branch for missing values that the functions
  have is never asked for.
\<close>

theorem unrated_is_skipped:
  assumes "fs_logics (gs_wallpaper_filter gs) = []" and "gs_skip_content_ratings gs \<noteq> []"
    and "dr_text row ItemContentRating = None"
  shows "\<exists>c. wallpaper_filters_to_condition (fst (wallpaper_queue_filter gs)) (snd (wallpaper_queue_filter gs)) = Some c \<and>
    \<not> selects like row c"
proof -
  let ?rules = "fst (wallpaper_queue_filter gs)"
  have l: "snd (wallpaper_queue_filter gs) = []"
    using assms(1) by (simp add: wallpaper_queue_filter_eq to_pb_def Let_def)
  obtain v vs where v: "gs_skip_content_ratings gs = v # vs" using assms(2) by (cases "gs_skip_content_ratings gs") auto
  have "0 \<in> set [0..<length (gs_skip_content_ratings gs)]" using v by simp
  then have "\<exists>g. skip_rule CONTENT_RATING g (gs_skip_content_ratings gs ! 0) \<in> set (added_rules gs first)" for first
    unfolding added_rules_def Let_def set_append set_map
    by (intro exI UnI2) (rule image_eqI [where x = 0], rule refl)
  then have "\<exists>g. skip_rule CONTENT_RATING g v \<in> set ?rules"
    by (simp add: v wallpaper_queue_filter_eq to_pb_def Let_def) blast
  then obtain g where r: "skip_rule CONTENT_RATING g v \<in> set ?rules" ..
  have g: "fr_group (skip_rule CONTENT_RATING g v) = g" by (simp add: skip_rule_def)
  obtain c where c: "wallpaper_filter_to_condition (skip_rule CONTENT_RATING g v) = Some c" "\<not> selects like row c"
    using skip_rating_rule [OF assms(3)] by blast
  have p: "group_present ?rules g" using r c(1) g unfolding group_present_def by blast
  have n: "\<not> group_holds like row ?rules g" using r c g unfolding group_holds_def rule_holds_def by force
  obtain d where d: "wallpaper_filters_to_condition ?rules [] = Some d"
    using filter_condition_spec [of ?rules "[]" undefined] r c(1) by fastforce
  have "\<not> selects like row d" using filter_condition_spec [of ?rules "[]" d like row] d p n by auto
  with d l show ?thesis by simp
qed

section \<open>Witnesses\<close>

definition ex_toggles :: global_settings where
  "ex_toggles = global_settings_default\<lparr>gs_skip_content_ratings := [''Mature'']\<rparr>"

definition ex_unrated :: db_row where
  "ex_unrated = \<lparr>dr_text = (\<lambda>_. None), dr_int = (\<lambda>_. None), dr_raw = (\<lambda>_. None)\<rparr>"

theorem unrated_is_skipped_witness:
  "\<exists>c. wallpaper_filters_to_condition (fst (wallpaper_queue_filter ex_toggles)) (snd (wallpaper_queue_filter ex_toggles)) = Some c \<and>
    \<not> selects (=) ex_unrated c"
  by (rule unrated_is_skipped) (simp_all add: ex_toggles_def ex_unrated_def global_settings_default_def filter_state_default_def)

definition ex_wide :: filter_rule where
  "ex_wide = \<lparr>fr_type = 5, fr_group = 0, fr_payload = Some (IntFilter \<lparr>if_value = 1000, if_condition = 6\<rparr>)\<rparr>"

theorem filter_condition_exact_witness:
  "wallpaper_filters_to_condition [ex_wide] [] = Some (CondAll [CondAll [CondAll [CondExpr (CompareInt IntGreaterEqual ItemWidth 1000)]]]) \<and>
    selects (=) (ex_unrated\<lparr>dr_int := (\<lambda>_. Some 1920)\<rparr>) (CondAll [CondAll [CondAll [CondExpr (CompareInt IntGreaterEqual ItemWidth 1000)]]])"
proof -
  let ?c = "CondAll [CondAll [CondAll [CondExpr (CompareInt IntGreaterEqual ItemWidth 1000)]]]"
  have r: "wallpaper_filter_to_condition ex_wide = Some (CondAll [CondExpr (CompareInt IntGreaterEqual ItemWidth 1000)])"
    by (simp add: wallpaper_filter_to_condition_def ex_wide_def filter_type_of_def int_condition_to_condition_def int_condition_of_def)
  have c: "wallpaper_filters_to_condition [ex_wide] [] = Some ?c"
    by (simp add: wallpaper_filters_to_condition_def add_to_group_def r bt_insert_def lone_step_def group_cond_def)
  show ?thesis
    using c filter_condition_exact [of "[ex_wide]" "[]" ?c "(=)" "ex_unrated\<lparr>dr_int := (\<lambda>_. Some 1920)\<rparr>"]
    by (simp add: group_holds_def rule_holds_def r)
qed

end
