(* ===== verification/Displays.thy ===== *)
theory Displays
  imports Registry
begin

text \<open>
  Display backends: the registry of their manifests (\<open>src/plugin/display_registry.rs\<close>), the choice
  of one for the desktop and the supervision of its process (\<open>src/display/spawner.rs\<close>).

  The environment, the files and what becomes of the processes are arguments; paths are strings.
\<close>

section \<open>The registry\<close>

datatype spawn_mode = SpawnDaemon | SpawnExternal

record display_def =
  dd_name :: string
  dd_bin :: string
  dd_de :: "string list"
  dd_priority :: i32
  dd_requires :: "string list"
  dd_extra_args :: "string list"
  dd_spawn :: spawn_mode

text \<open>The list is sorted by falling priority; the sort is stable.\<close>

definition rank :: "display_def \<Rightarrow> int" where
  "rank d = - sint (dd_priority d)"

definition register_backend :: "display_def \<Rightarrow> display_def list \<Rightarrow> display_def list" where
  "register_backend d defs = sort_key rank (filter (\<lambda>x. dd_name x \<noteq> dd_name d) defs @ [d])"

definition find_backend :: "display_def list \<Rightarrow> string \<Rightarrow> display_def option" where
  "find_backend defs name = find (\<lambda>d. dd_name d = name) defs"

text \<open>
  One file of the directory: its path and, when it can be read and parsed, the manifest in it.
\<close>

definition scan_manifest :: "string \<times> display_def option \<Rightarrow> display_def list \<Rightarrow> display_def list" where
  "scan_manifest = (\<lambda>(path, manifest) defs.
     case manifest of
       None \<Rightarrow> defs
     | Some d \<Rightarrow>
         register_backend
           (if take 1 (dd_bin d) \<noteq> ''/'' \<and> dd_bin d \<noteq> [] then
              (case path_parent path of Some dir \<Rightarrow> d\<lparr>dd_bin := path_join dir (dd_bin d)\<rparr> | None \<Rightarrow> d)
            else d) defs)"

definition scan_displays :: "(string \<times> display_def option) list \<Rightarrow> display_def list" where
  "scan_displays files = fold scan_manifest files []"

text \<open>The plugin directories in their order; \<open>None\<close> for one that is not there or cannot be listed.\<close>

definition build_display_registry :: "(string \<times> display_def option) list option list \<Rightarrow> display_def list" where
  "build_display_registry dirs =
     fold (\<lambda>files reg. case files of None \<Rightarrow> reg | Some fs \<Rightarrow> fold register_backend (scan_displays fs) reg) dirs []"

section \<open>The desktop\<close>

record de_caps =
  de_desktop :: "string list"
  de_wayland_display :: "string option"
  de_wayland_session :: bool
  de_globals :: "string list"

definition is_kde :: "de_caps \<Rightarrow> bool" where
  "is_kde caps \<longleftrightarrow> (\<exists>t \<in> set (de_desktop caps). t = ''kde'')"

text \<open>The three environment variables, \<open>None\<close> when unset.\<close>

definition detect_de :: "string option \<Rightarrow> string option \<Rightarrow> string option \<Rightarrow> de_caps" where
  "detect_de desktop wayland session =
     \<lparr>de_desktop = (case desktop of
        Some s \<Rightarrow> map (map ascii_lower) (filter (\<lambda>p. p \<noteq> []) (split_on CHR '':'' s)) | None \<Rightarrow> []),
      de_wayland_display = (case wayland of Some s \<Rightarrow> if s = [] then None else Some s | None \<Rightarrow> None),
      de_wayland_session = (case session of Some v \<Rightarrow> eq_ignore_ascii_case v ''wayland'' | None \<Rightarrow> False),
      de_globals = []\<rparr>"

text \<open>\<open>candidate\<close> is the program beside the daemon's own, when there is one.\<close>

definition builtin_display_defs :: "string option \<Rightarrow> display_def list" where
  "builtin_display_defs candidate =
     [\<lparr>dd_name = ''kde-plasma'', dd_bin = [], dd_de = [''kde''], dd_priority = 100, dd_requires = [],
       dd_extra_args = [], dd_spawn = SpawnExternal\<rparr>,
      \<lparr>dd_name = ''layer-shell'', dd_bin = (case candidate of Some c \<Rightarrow> c | None \<Rightarrow> ''waywallen-layer-shell''),
       dd_de = [''hyprland'', ''sway'', ''niri'', ''river''], dd_priority = 50,
       dd_requires = [''wlr-layer-shell'', ''linux-dmabuf-v4''], dd_extra_args = [], dd_spawn = SpawnDaemon\<rparr>]"

section \<open>The choice\<close>

datatype pick_outcome = KdeHardMatch display_def | Matched display_def | NoBackend

definition merge_builtin :: "display_def \<Rightarrow> display_def list \<Rightarrow> display_def list" where
  "merge_builtin b defs = (if \<exists>d \<in> set defs. dd_name d = dd_name b then defs else defs @ [b])"

definition all_backends :: "string option \<Rightarrow> display_def list \<Rightarrow> display_def list" where
  "all_backends candidate reg = sort_key rank (fold merge_builtin (builtin_display_defs candidate) reg)"

definition for_kde :: "display_def \<Rightarrow> bool" where
  "for_kde d \<longleftrightarrow> (\<exists>t \<in> set (dd_de d). eq_ignore_ascii_case t ''kde'')"

definition de_matches :: "de_caps \<Rightarrow> display_def \<Rightarrow> bool" where
  "de_matches caps d \<longleftrightarrow>
     dd_de d = [] \<or> ''*'' \<in> set (dd_de d) \<or>
     (\<exists>want \<in> set (dd_de d). \<exists>t \<in> set (de_desktop caps). eq_ignore_ascii_case t want)"

definition applicable :: "de_caps \<Rightarrow> display_def \<Rightarrow> bool" where
  "applicable caps d \<longleftrightarrow>
     de_matches caps d \<and> \<not> (for_kde d \<and> ''*'' \<notin> set (dd_de d)) \<and>
     (dd_requires d \<noteq> [] \<and> de_globals caps \<noteq> [] \<longrightarrow> (\<forall>r \<in> set (dd_requires d). r \<in> set (de_globals caps)))"

definition consider_backend :: "de_caps \<Rightarrow> display_def \<Rightarrow> display_def option \<Rightarrow> display_def option" where
  "consider_backend caps d best =
     (if \<not> applicable caps d then best
      else (case best of
              None \<Rightarrow> Some d
            | Some cur \<Rightarrow> if sint (dd_priority cur) < sint (dd_priority d) then Some d else best))"

definition pick_backend :: "string option \<Rightarrow> display_def list \<Rightarrow> de_caps \<Rightarrow> pick_outcome" where
  "pick_backend candidate reg caps =
     (let defs = all_backends candidate reg in
      if is_kde caps then
        (case find for_kde defs of Some d \<Rightarrow> KdeHardMatch d | None \<Rightarrow> NoBackend)
      else (case fold (consider_backend caps) defs None of Some d \<Rightarrow> Matched d | None \<Rightarrow> NoBackend))"

fun should_daemon_spawn :: "pick_outcome \<Rightarrow> bool" where
  "should_daemon_spawn (KdeHardMatch d) \<longleftrightarrow> dd_spawn d = SpawnDaemon"
| "should_daemon_spawn (Matched d) \<longleftrightarrow> dd_spawn d = SpawnDaemon"
| "should_daemon_spawn NoBackend \<longleftrightarrow> False"

section \<open>Supervision\<close>

text \<open>In seconds.\<close>

definition RESTART_INITIAL :: nat where "RESTART_INITIAL = 2"
definition RESTART_MAX :: nat where "RESTART_MAX = 10"

text \<open>
  One turn of the loop: the shutdown was seen at its head, the process could not be started, it was
  stopped by the shutdown, or it ended, with success or not, and then the shutdown came during the
  delay or did not. A failure of the wait counts as an end without success.
\<close>

datatype backend_turn = ShutdownSeen | StartFails | StoppedRunning | Ended bool bool

datatype backend_end = EndedOk | EndedStartError | EndedNotDaemon | EndedEmptyBin

text \<open>The delays waited for in full, and how the supervision ended, if it did.\<close>

fun supervise :: "nat \<Rightarrow> backend_turn list \<Rightarrow> nat list \<times> backend_end option" where
  "supervise delay [] = ([], None)"
| "supervise delay (ShutdownSeen # ts) = ([], Some EndedOk)"
| "supervise delay (StartFails # ts) = ([], Some EndedStartError)"
| "supervise delay (StoppedRunning # ts) = ([], Some EndedOk)"
| "supervise delay (Ended success interrupted # ts) =
     (if success \<or> interrupted then ([], Some EndedOk)
      else (let (ds, e) = supervise (min (delay * 2) RESTART_MAX) ts in (delay # ds, e)))"

definition run_backend :: "display_def \<Rightarrow> backend_turn list \<Rightarrow> nat list \<times> backend_end option" where
  "run_backend d turns =
     (if dd_spawn d \<noteq> SpawnDaemon then ([], Some EndedNotDaemon)
      else if dd_bin d = [] then ([], Some EndedEmptyBin)
      else supervise RESTART_INITIAL turns)"

text \<open>The command line of the process.\<close>

definition backend_args :: "display_def \<Rightarrow> string \<Rightarrow> string list" where
  "backend_args d socket = [''--socket'', socket] @ dd_extra_args d"

section \<open>The registry keeps one backend per name\<close>

definition backends_ok :: "display_def list \<Rightarrow> bool" where
  "backends_ok defs \<longleftrightarrow> distinct (map dd_name defs) \<and> sorted (map rank defs)"

lemma distinct_names_mset: "mset xs = mset ys \<Longrightarrow> distinct (map dd_name xs) = distinct (map dd_name ys)"
  by (metis mset_map mset_eq_imp_distinct_iff)

lemma register_ok: "backends_ok defs \<Longrightarrow> backends_ok (register_backend d defs)"
proof -
  assume ok: "backends_ok defs"
  let ?xs = "filter (\<lambda>x. dd_name x \<noteq> dd_name d) defs @ [d]"
  have "distinct (map dd_name (filter (\<lambda>x. dd_name x \<noteq> dd_name d) defs))"
    using ok by (simp add: backends_ok_def distinct_map_filter)
  then have "distinct (map dd_name ?xs)" by auto
  then have "distinct (map dd_name (sort_key rank ?xs))" using distinct_names_mset [of "sort_key rank ?xs" ?xs] by simp
  then show ?thesis by (simp add: backends_ok_def register_backend_def)
qed

lemma find_unique:
  assumes "distinct (map dd_name xs)"
  shows "find_backend xs n = Some d \<longleftrightarrow> d \<in> set xs \<and> dd_name d = n"
  using assms by (induction xs) (auto simp: find_backend_def)

lemma find_registered:
  assumes "backends_ok defs"
  shows "find_backend (register_backend d defs) n = (if dd_name d = n then Some d else find_backend defs n)"
proof -
  have ok: "distinct (map dd_name (register_backend d defs))" "distinct (map dd_name defs)"
    using register_ok [OF assms, of d] assms by (simp_all add: backends_ok_def)
  have s: "set (register_backend d defs) = insert d {x \<in> set defs. dd_name x \<noteq> dd_name d}"
    by (auto simp: register_backend_def)
  have "find_backend (register_backend d defs) n = Some x \<longleftrightarrow>
      (if dd_name d = n then Some d else find_backend defs n) = Some x" for x
    using find_unique [OF ok(1), of n x] find_unique [OF ok(2), of n x] by (auto simp: s)
  then show ?thesis by (metis not_Some_eq)
qed

text \<open>
  the registry holds one backend per name, in the order of falling priority, and of several
  manifests with one name the last registered, so the user's own directory overrides.
\<close>

theorem last_manifest_wins:
  "backends_ok (fold register_backend ds []) \<and>
   find_backend (fold register_backend ds []) n = find (\<lambda>d. dd_name d = n) (rev ds)"
proof (induction ds rule: rev_induct)
  case Nil
  show ?case by (simp add: backends_ok_def find_backend_def)
next
  case (snoc d ds)
  then show ?case using register_ok find_registered by simp
qed

section \<open>The choice is the best\<close>

lemma pick_fold:
  assumes "\<forall>b. best = Some b \<longrightarrow> b \<in> S \<and> applicable caps b"
  shows "case fold (consider_backend caps) ds best of
      None \<Rightarrow> best = None \<and> (\<forall>d \<in> set ds. \<not> applicable caps d)
    | Some b \<Rightarrow> b \<in> S \<union> set ds \<and> applicable caps b \<and>
        (\<forall>d \<in> set ds. applicable caps d \<longrightarrow> sint (dd_priority d) \<le> sint (dd_priority b)) \<and>
        (\<forall>c. best = Some c \<longrightarrow> sint (dd_priority c) \<le> sint (dd_priority b))"
  using assms
proof (induction ds arbitrary: best S)
  case Nil
  then show ?case by (cases best) auto
next
  case (Cons d ds)
  let ?best = "consider_backend caps d best"
  have "\<forall>b. ?best = Some b \<longrightarrow> b \<in> insert d S \<and> applicable caps b"
    using Cons.prems by (auto simp: consider_backend_def split: if_splits option.splits)
  note IH = Cons.IH [OF this]
  show ?case
  proof (cases "fold (consider_backend caps) ds ?best")
    case None
    with IH show ?thesis by (auto simp: consider_backend_def split: if_splits option.splits)
  next
    case (Some b)
    have "applicable caps d \<Longrightarrow> \<exists>c. ?best = Some c \<and> sint (dd_priority d) \<le> sint (dd_priority c)"
      and "best = Some c \<Longrightarrow> \<exists>c'. ?best = Some c' \<and> sint (dd_priority c) \<le> sint (dd_priority c')" for c
      by (auto simp: consider_backend_def split: option.split)
    with IH Some show ?thesis by fastforce
  qed
qed

lemma set_all_backends:
  "d \<in> set (all_backends candidate reg) \<longleftrightarrow>
    d \<in> set reg \<or> d \<in> set (builtin_display_defs candidate) \<and> (\<forall>x \<in> set reg. dd_name x \<noteq> dd_name d)"
  by (auto simp: all_backends_def builtin_display_defs_def merge_builtin_def)

text \<open>
  outside KDE the chosen backend is applicable and no applicable one, of the registry or of the
  built-in ones whose names the registry does not take, has a higher priority; there is none only
  when none applies. A KDE session gets a backend made for it or none.
\<close>

theorem backend_choice_exact:
  fixes candidate reg caps
  defines "offered d \<equiv> d \<in> set reg \<or> d \<in> set (builtin_display_defs candidate) \<and> (\<forall>x \<in> set reg. dd_name x \<noteq> dd_name d)"
  shows "case pick_backend candidate reg caps of
      Matched d \<Rightarrow> \<not> is_kde caps \<and> offered d \<and> applicable caps d \<and>
        (\<forall>x. offered x \<and> applicable caps x \<longrightarrow> sint (dd_priority x) \<le> sint (dd_priority d))
    | KdeHardMatch d \<Rightarrow> is_kde caps \<and> offered d \<and> for_kde d \<and>
        (\<forall>x. offered x \<and> for_kde x \<longrightarrow> sint (dd_priority x) \<le> sint (dd_priority d))
    | NoBackend \<Rightarrow> \<not> (\<exists>x. offered x \<and> (if is_kde caps then for_kde x else applicable caps x))"
proof (cases "is_kde caps")
  case True
  let ?defs = "all_backends candidate reg"
  have srt: "sorted (map rank ?defs)" by (simp add: all_backends_def)
  show ?thesis
  proof (cases "find for_kde ?defs")
    case None
    then have p: "pick_backend candidate reg caps = NoBackend" using True by (simp add: pick_backend_def)
    have "\<forall>x \<in> set ?defs. \<not> for_kde x" using None by (auto simp: find_None_iff)
    then show ?thesis unfolding p using True by (simp add: offered_def set_all_backends [symmetric])
  next
    case (Some d)
    then obtain i where i: "i < length ?defs" "for_kde (?defs ! i)" "d = ?defs ! i" "\<forall>j < i. \<not> for_kde (?defs ! j)"
      by (auto simp: find_Some_iff)
    have "sint (dd_priority x) \<le> sint (dd_priority d)" if "x \<in> set ?defs" "for_kde x" for x
    proof -
      obtain j where j: "j < length ?defs" "x = ?defs ! j" using \<open>x \<in> set ?defs\<close> by (auto simp: in_set_conv_nth)
      then have "i \<le> j" using i(4) that(2) by (meson not_le)
      then have "rank d \<le> rank x" using sorted_nth_mono [OF srt, of i j] i j by simp
      then show ?thesis by (simp add: rank_def)
    qed
    then show ?thesis
      using True Some i by (auto simp: pick_backend_def Let_def offered_def set_all_backends [symmetric])
  qed
next
  case False
  show ?thesis
    using False pick_fold [of None "{}" caps "all_backends candidate reg"]
    by (auto simp: pick_backend_def Let_def offered_def set_all_backends [symmetric] split: option.splits)
qed

section \<open>Restarting\<close>

lemma supervise_delays:
  "k < length (fst (supervise d ts)) \<Longrightarrow> d \<le> RESTART_MAX \<Longrightarrow> fst (supervise d ts) ! k = min (d * 2 ^ k) RESTART_MAX"
proof (induction ts arbitrary: d k)
  case (Cons t ts)
  show ?case
  proof (cases t)
    case (Ended success interrupted)
    show ?thesis
    proof (cases "success \<or> interrupted")
      case False
      let ?d = "min (d * 2) RESTART_MAX"
      have f: "fst (supervise d (t # ts)) = d # fst (supervise ?d ts)"
        using False by (simp add: Ended case_prod_beta Let_def)
      show ?thesis
      proof (cases k)
        case 0
        then show ?thesis using Cons.prems(2) by (simp add: f)
      next
        case (Suc j)
        then have "fst (supervise ?d ts) ! j = min (?d * 2 ^ j) RESTART_MAX"
          using Cons.prems(1) by (intro Cons.IH) (simp_all add: f)
        moreover have "min (?d * 2 ^ j) RESTART_MAX = min (d * 2 * 2 ^ j) RESTART_MAX"
          by (simp add: nat_mult_min_left min.assoc min.absorb2)
        ultimately show ?thesis by (simp add: f Suc mult.assoc)
      qed
    qed (use Cons.prems Ended in simp)
  qed (use Cons.prems in simp_all)
qed simp

text \<open>
  the delay before a restart only depends on how often the backend has failed: it doubles from
  two seconds up to ten and is never shortened again, however long the backend has run.
\<close>

theorem backoff_never_resets:
  assumes "k < length (fst (run_backend d turns))"
  shows "fst (run_backend d turns) ! k = min (2 ^ (k + 1)) 10"
proof -
  have r: "fst (run_backend d turns) = fst (supervise 2 turns)"
    using assms by (auto simp: run_backend_def RESTART_INITIAL_def split: if_splits)
  show ?thesis using supervise_delays [of k 2 turns] assms by (simp add: r RESTART_MAX_def)
qed

theorem backoff_never_resets_witness:
  "fst (run_backend ((builtin_display_defs None) ! 1) [Ended False False, Ended False False, Ended True False]) ! 1 = 4"
  using backoff_never_resets [of 1 "(builtin_display_defs None) ! 1" "[Ended False False, Ended False False, Ended True False]"]
  by (simp add: run_backend_def builtin_display_defs_def)

end
