(* ===== verification/Gpu.thy ===== *)
theory Gpu
  imports Strings
begin

text \<open>
  The graphics cards, \<open>src/gpu.rs\<close>: device numbers, the entries of \<open>/dev/dri\<close> grouped by their PCI
  device, and the text form of a device number in the settings. The file system is a record of
  what its calls answer.
\<close>

section \<open>Device numbers\<close>

definition dev_major :: "u64 \<Rightarrow> u32" where
  "dev_major rdev = ucast (or (and (drop_bit 8 rdev) 0xFFF) (and (drop_bit 32 rdev) (not 0xFFF)))"

definition dev_minor :: "u64 \<Rightarrow> u32" where
  "dev_minor rdev = ucast (or (and rdev 0xFF) (and (drop_bit 12 rdev) (not 0xFF)))"

definition GPU_DRM_DEV_KEY :: string where "GPU_DRM_DEV_KEY = ''gpu_drm_dev''"
definition RENDER_NODE_KEY :: string where "RENDER_NODE_KEY = ''render_node''"

definition parse_drm_dev :: "string \<Rightarrow> (u32 \<times> u32) option" where
  "parse_drm_dev s =
     (case split_once (CHR '':'') s of
        None \<Rightarrow> None
      | Some (a, b) \<Rightarrow> (case (parse_u32 a, parse_u32 b) of (Some x, Some y) \<Rightarrow> Some (x, y) | _ \<Rightarrow> None))"

definition format_drm_dev :: "u32 \<Rightarrow> u32 \<Rightarrow> string" where
  "format_drm_dev major minor = show_nat (unat major) @ '':'' @ show_nat (unat minor)"

record gpu_info =
  gp_render_node :: "string option"
  gp_primary_node :: "string option"
  gp_render_major :: u32
  gp_render_minor :: u32
  gp_primary_major :: u32
  gp_primary_minor :: u32
  gp_pci_bdf :: "string option"
  gp_vendor :: u16
  gp_device :: u16
  gp_driver :: string
  gp_description :: string

definition gpu_default :: gpu_info where
  "gpu_default =
     \<lparr>gp_render_node = None, gp_primary_node = None, gp_render_major = 0, gp_render_minor = 0,
      gp_primary_major = 0, gp_primary_minor = 0, gp_pci_bdf = None, gp_vendor = 0, gp_device = 0,
      gp_driver = [], gp_description = []\<rparr>"

definition matches_render :: "u32 \<Rightarrow> u32 \<Rightarrow> gpu_info \<Rightarrow> bool" where
  "matches_render major minor g \<longleftrightarrow>
     gp_render_node g \<noteq> None \<and> gp_render_major g = major \<and> gp_render_minor g = minor"

section \<open>What the file system answers\<close>

text \<open>
  \<open>fs_entries\<close> are the entries of \<open>/dev/dri\<close> with their names (\<open>None\<close> for a name that is not UTF-8)
  or \<open>None\<close> when the directory cannot be read.
\<close>

record file_system =
  fs_entries :: "(string \<times> string option) list option"
  fs_rdev :: "string \<Rightarrow> u64 option"
  fs_canonicalize :: "string \<Rightarrow> string option"
  fs_read :: "string \<Rightarrow> string option"
  fs_read_link :: "string \<Rightarrow> string option"

text \<open>\<open>Path::file_name\<close> and \<open>Path::join\<close> with a relative second part.\<close>

definition path_file_name :: "string \<Rightarrow> string option" where
  "path_file_name p =
     (let parts = filter (\<lambda>c. c \<noteq> [] \<and> c \<noteq> ''.'') (split_on (CHR ''/'') p) in
      if parts = [] \<or> last parts = ''..'' then None else Some (last parts))"

definition join_path :: "string \<Rightarrow> string \<Rightarrow> string" where
  "join_path a b = (if a = [] then b else if last a = CHR ''/'' then a @ b else a @ ''/'' @ b)"

section \<open>The PCI directory of a node\<close>

definition hex_digit_of :: "char \<Rightarrow> nat option" where
  "hex_digit_of c =
     (let n = of_char c :: nat in
      if n \<in> {48..57} then Some (n - 48)
      else if n \<in> {97..102} then Some (n - 87)
      else if n \<in> {65..70} then Some (n - 55) else None)"

fun hex_from :: "nat \<Rightarrow> string \<Rightarrow> nat option" where
  "hex_from acc [] = Some acc"
| "hex_from acc (c # s) = (case hex_digit_of c of None \<Rightarrow> None | Some d \<Rightarrow> hex_from (16 * acc + d) s)"

text \<open>\<open>u16::from_str_radix(s, 16)\<close>: an optional plus sign, at least one digit, no overflow.\<close>

definition parse_hex_u16 :: "string \<Rightarrow> u16 option" where
  "parse_hex_u16 s =
     (let ds = (case s of [] \<Rightarrow> [] | c # r \<Rightarrow> if c = CHR ''+'' then r else s) in
      if ds = [] then None
      else (case hex_from 0 ds of None \<Rightarrow> None | Some n \<Rightarrow> if n < 2 ^ 16 then Some (of_nat n) else None))"

definition strip_0x :: "string \<Rightarrow> string" where
  "strip_0x s = (if take 2 s = ''0x'' then drop 2 s else s)"

definition read_hex_u16 :: "file_system \<Rightarrow> string \<Rightarrow> u16 option" where
  "read_hex_u16 fs p = Option.bind (fs_read fs p) (\<lambda>s. parse_hex_u16 (strip_0x (str_trim s)))"

definition read_driver :: "file_system \<Rightarrow> string \<Rightarrow> string option" where
  "read_driver fs dir = Option.bind (fs_read_link fs (join_path dir ''driver'')) path_file_name"

record pci =
  pci_dir :: string
  pci_bdf :: string
  pci_vendor :: u16
  pci_device :: u16
  pci_driver :: string

definition parse_pci_dir :: "file_system \<Rightarrow> string \<Rightarrow> pci option" where
  "parse_pci_dir fs link =
     Option.bind (fs_canonicalize fs link) (\<lambda>dir.
     Option.bind (path_file_name dir) (\<lambda>bdf.
     Option.bind (read_hex_u16 fs (join_path dir ''vendor'')) (\<lambda>vendor.
     Option.bind (read_hex_u16 fs (join_path dir ''device'')) (\<lambda>device.
       Some \<lparr>pci_dir = dir, pci_bdf = bdf, pci_vendor = vendor, pci_device = device,
             pci_driver = (case read_driver fs dir of Some d \<Rightarrow> d | None \<Rightarrow> [])\<rparr>))))"

definition read_pci_for_node :: "file_system \<Rightarrow> string \<Rightarrow> u32 \<Rightarrow> u32 \<Rightarrow> pci option" where
  "read_pci_for_node fs sysfs major minor =
     parse_pci_dir fs (join_path (join_path sysfs (format_drm_dev major minor)) ''device'')"

definition stat_rdev :: "file_system \<Rightarrow> string \<Rightarrow> (u32 \<times> u32) option" where
  "stat_rdev fs p = map_option (\<lambda>rdev. (dev_major rdev, dev_minor rdev)) (fs_rdev fs p)"

section \<open>The description\<close>

definition hex_char :: "nat \<Rightarrow> char" where
  "hex_char d = char_of (if d < 10 then 48 + d else 87 + d)"

text \<open>\<open>{:#06x}\<close> of a 16-bit number: four digits after the prefix.\<close>

definition show_hex4 :: "u16 \<Rightarrow> string" where
  "show_hex4 w =
     (let n = unat w in
      ''0x'' @ map hex_char [n div 4096, n div 256 mod 16, n div 16 mod 16, n mod 16])"

definition format_description :: "gpu_info \<Rightarrow> string" where
  "format_description g =
     (let driver = (if gp_driver g = [] then ''unknown'' else gp_driver g) in
      if gp_vendor g = 0 \<and> gp_device g = 0 then driver
      else driver @ '' '' @ show_hex4 (gp_vendor g) @ '':'' @ show_hex4 (gp_device g))"

section \<open>The enumeration\<close>

datatype node_kind = Render | Primary

definition node_kind_of :: "string \<Rightarrow> node_kind option" where
  "node_kind_of name =
     (if take 7 name = ''renderD'' then Some Render
      else if take 4 name = ''card'' then Some Primary else None)"

fun set_node :: "node_kind \<Rightarrow> string \<Rightarrow> u32 \<Rightarrow> u32 \<Rightarrow> gpu_info \<Rightarrow> gpu_info" where
  "set_node Render path major minor g =
     g\<lparr>gp_render_node := Some path, gp_render_major := major, gp_render_minor := minor\<rparr>"
| "set_node Primary path major minor g =
     g\<lparr>gp_primary_node := Some path, gp_primary_major := major, gp_primary_minor := minor\<rparr>"

fun set_pci :: "pci option \<Rightarrow> gpu_info \<Rightarrow> gpu_info" where
  "set_pci None g = g"
| "set_pci (Some p) g =
     g\<lparr>gp_pci_bdf := Some (pci_bdf p), gp_vendor := pci_vendor p, gp_device := pci_device p, gp_driver := pci_driver p\<rparr>"

text \<open>A directory entry that is a node, with its device number and its PCI device.\<close>

definition node_of :: "file_system \<Rightarrow> string \<Rightarrow> string \<times> string option \<Rightarrow> (node_kind \<times> string \<times> u32 \<times> u32 \<times> pci option) option" where
  "node_of fs sysfs entry =
     Option.bind (snd entry) (\<lambda>name.
     Option.bind (node_kind_of name) (\<lambda>kind.
       map_option (\<lambda>(major, minor). (kind, fst entry, major, minor, read_pci_for_node fs sysfs major minor))
         (stat_rdev fs (fst entry))))"

definition group_key :: "string \<Rightarrow> pci option \<Rightarrow> string" where
  "group_key path p = (case p of Some q \<Rightarrow> pci_dir q | None \<Rightarrow> path)"

definition add_node ::
  "node_kind \<times> string \<times> u32 \<times> u32 \<times> pci option \<Rightarrow> (string \<times> gpu_info) list \<Rightarrow> (string \<times> gpu_info) list" where
  "add_node n groups =
     (case n of (kind, path, major, minor, p) \<Rightarrow>
        let key = group_key path p;
            g = (case map_of groups key of Some g \<Rightarrow> g | None \<Rightarrow> gpu_default)
        in bt_insert key (set_pci p (set_node kind path major minor g)) groups)"

definition add_entry :: "file_system \<Rightarrow> string \<Rightarrow> string \<times> string option \<Rightarrow> (string \<times> gpu_info) list \<Rightarrow> (string \<times> gpu_info) list" where
  "add_entry fs sysfs entry groups = (case node_of fs sysfs entry of None \<Rightarrow> groups | Some n \<Rightarrow> add_node n groups)"

definition gpu_order :: "gpu_info \<Rightarrow> nat \<times> nat \<times> nat" where
  "gpu_order g =
     (if gp_render_node g = None then 1 else 0, unat (gp_render_minor g), unat (gp_primary_minor g))"

text \<open>\<open>sort_by_key\<close>: stable, by the key read as a tuple.\<close>

definition lex3 :: "nat \<times> nat \<times> nat \<Rightarrow> nat list" where
  "lex3 k = (case k of (a, b, c) \<Rightarrow> [a, b, c])"

definition enumerate_with_roots :: "file_system \<Rightarrow> string \<Rightarrow> gpu_info list" where
  "enumerate_with_roots fs sysfs =
     (case fs_entries fs of
        None \<Rightarrow> []
      | Some entries \<Rightarrow>
          sort_key (lex3 \<circ> gpu_order)
            (map (\<lambda>(_, g). g\<lparr>gp_description := format_description g\<rparr>) (fold (add_entry fs sysfs) entries [])))"

section \<open>Device numbers are kept apart\<close>

lemma dev_major_bit:
  "bit (dev_major r) n \<longleftrightarrow> n < 32 \<and> (if n < 12 then bit r (n + 8) else bit r (n + 32))"
proof -
  have "(0xFFF :: u64) = mask 12" by (simp add: mask_eq_exp_minus_1)
  then have "dev_major r = ucast (or (and (drop_bit 8 r) (mask 12)) (and (drop_bit 32 r) (not (mask 12))))"
    by (simp add: dev_major_def)
  then show ?thesis
    by (auto simp: bit_simps ac_simps dest: bit_imp_le_length)
qed

lemma dev_minor_bit:
  "bit (dev_minor r) n \<longleftrightarrow> n < 32 \<and> (if n < 8 then bit r n else bit r (n + 12))"
proof -
  have "(0xFF :: u64) = mask 8" by (simp add: mask_eq_exp_minus_1)
  then have "dev_minor r = ucast (or (and r (mask 8)) (and (drop_bit 12 r) (not (mask 8))))"
    by (simp add: dev_minor_def)
  then show ?thesis
    by (auto simp: bit_simps ac_simps dest: bit_imp_le_length)
qed

text \<open>
  a device number is determined by its major and minor number: no bit of it is lost.
\<close>

theorem device_numbers_lossless: "(dev_major a, dev_minor a) = (dev_major b, dev_minor b) \<longleftrightarrow> a = b"
proof
  assume e: "(dev_major a, dev_minor a) = (dev_major b, dev_minor b)"
  show "a = b"
  proof (rule bit_word_eqI)
    fix n assume n: "n < LENGTH(64)"
    have M: "bit (dev_major a) k = bit (dev_major b) k" for k using e by simp
    have m: "bit (dev_minor a) k = bit (dev_minor b) k" for k using e by simp
    consider "n < 8" | "8 \<le> n" "n < 20" | "20 \<le> n" "n < 44" | "44 \<le> n" "n < 64" using n by fastforce
    then show "bit a n = bit b n"
    proof cases
      case 1 then show ?thesis using m [of n] by (simp add: dev_minor_bit)
    next
      case 2
      then have "n - 8 < 12" "n - 8 + 8 = n" "n - 8 < 32" by auto
      then show ?thesis using M [of "n - 8"] unfolding dev_major_bit by simp
    next
      case 3
      then have "\<not> n - 12 < 8" "n - 12 + 12 = n" "n - 12 < 32" by auto
      then show ?thesis using m [of "n - 12"] unfolding dev_minor_bit by simp
    next
      case 4
      then have "\<not> n - 32 < 12" "n - 32 + 32 = n" "n - 32 < 32" by auto
      then show ?thesis using M [of "n - 32"] unfolding dev_major_bit by simp
    qed
  qed
qed simp

lemma drm_dev_read_back: "parse_drm_dev (format_drm_dev major minor) = Some (major, minor)"
proof -
  have "CHR '':'' \<notin> set (show_nat (unat major))" using show_nat_chars by fastforce
  then show ?thesis
    using split_once_append [of "CHR '':''" "show_nat (unat major)" "show_nat (unat minor)"]
    by (simp add: parse_drm_dev_def format_drm_dev_def parse_show_u32)
qed

text \<open>
  the card chosen in the settings is read back as it was written.
\<close>

theorem drm_dev_round_trip: "parse_drm_dev (format_drm_dev major minor) = Some (major, minor)"
  by (rule drm_dev_read_back)

section \<open>Nodes and cards\<close>

type_synonym dri_node = "node_kind \<times> string \<times> u32 \<times> u32 \<times> pci option"

fun node_key :: "dri_node \<Rightarrow> string" where
  "node_key (kind, path, major, minor, p) = group_key path p"

text \<open>The render node a group ends with is the last one added.\<close>

definition render_node_in :: "dri_node list \<Rightarrow> string \<Rightarrow> gpu_info \<Rightarrow> bool" where
  "render_node_in ns key g \<longleftrightarrow>
     (let rs = filter (\<lambda>n. fst n = Render \<and> node_key n = key) ns in
      if rs = [] then gp_render_node g = None
      else gp_render_node g = Some (fst (snd (last rs))) \<and> gp_render_major g = fst (snd (snd (last rs))) \<and>
        gp_render_minor g = fst (snd (snd (snd (last rs)))))"

lemma set_pci_render [simp]:
  "gp_render_node (set_pci p g) = gp_render_node g" "gp_render_major (set_pci p g) = gp_render_major g"
  "gp_render_minor (set_pci p g) = gp_render_minor g"
  by (cases p; simp)+

lemma set_node_render:
  "kind = Render \<Longrightarrow> gp_render_node (set_node kind path major minor g) = Some path \<and>
     gp_render_major (set_node kind path major minor g) = major \<and> gp_render_minor (set_node kind path major minor g) = minor"
  "kind \<noteq> Render \<Longrightarrow> gp_render_node (set_node kind path major minor g) = gp_render_node g \<and>
     gp_render_major (set_node kind path major minor g) = gp_render_major g \<and>
     gp_render_minor (set_node kind path major minor g) = gp_render_minor g"
  by (cases kind; simp)+

lemma map_of_add_node:
  "map_of (add_node (kind, path, major, minor, p) groups) =
    (map_of groups)(group_key path p \<mapsto>
       set_pci p (set_node kind path major minor
         (case map_of groups (group_key path p) of Some g \<Rightarrow> g | None \<Rightarrow> gpu_default)))"
  by (simp add: add_node_def Let_def)

lemma bt_ok_add_node: "bt_ok groups \<Longrightarrow> bt_ok (add_node n groups)"
  by (cases n) (simp add: add_node_def Let_def)

lemma groups_ok: "bt_ok (fold add_node ns [])"
  using bt_ok_add_node by (induction ns rule: rev_induct) simp_all

lemma group_found: "map_of (fold add_node ns []) key \<noteq> None \<longleftrightarrow> (\<exists>n \<in> set ns. node_key n = key)"
proof (induction ns rule: rev_induct)
  case (snoc n ns)
  obtain kind path major minor p where n: "n = (kind, path, major, minor, p)" by (cases n)
  show ?case using snoc by (auto simp: n map_of_add_node)
qed simp

lemma group_render: "map_of (fold add_node ns []) key = Some g \<Longrightarrow> render_node_in ns key g"
proof (induction ns arbitrary: key g rule: rev_induct)
  case (snoc n ns)
  obtain kind path major minor p where n: "n = (kind, path, major, minor, p)" by (cases n)
  let ?G = "fold add_node ns []" and ?k = "group_key path p"
  have old: "render_node_in ns ?k (case map_of ?G ?k of Some g \<Rightarrow> g | None \<Rightarrow> gpu_default)"
  proof (cases "map_of ?G ?k")
    case None
    then have none: "\<not> (\<exists>n \<in> set ns. node_key n = ?k)" using group_found [of ns ?k] by simp
    have "filter (\<lambda>n. fst n = Render \<and> node_key n = ?k) ns = []"
      unfolding filter_empty_conv using none by blast
    then show ?thesis using None by (simp add: render_node_in_def gpu_default_def Let_def)
  qed (use snoc.IH in simp)
  show ?case
  proof (cases "key = ?k")
    case True
    then have g: "g = set_pci p (set_node kind path major minor (case map_of ?G ?k of Some g \<Rightarrow> g | None \<Rightarrow> gpu_default))"
      using snoc.prems by (simp add: n map_of_add_node)
    show ?thesis
    proof (cases "kind = Render")
      case r: True
      show ?thesis unfolding g render_node_in_def using r True set_node_render(1)
        by (simp add: n Let_def)
    next
      case False
      then show ?thesis using old unfolding g render_node_in_def by (simp add: n True set_node_render(2) Let_def)
    qed
  next
    case False
    then have "map_of ?G key = Some g" using snoc.prems by (simp add: n map_of_add_node)
    from snoc.IH [OF this] False show ?thesis by (simp add: n render_node_in_def Let_def)
  qed
qed simp

lemma fold_add_entry:
  "fold (add_entry fs sysfs) entries groups = fold add_node (List.map_filter (node_of fs sysfs) entries) groups"
  by (induction entries arbitrary: groups) (simp_all add: add_entry_def List.map_filter_simps split: option.split)

definition described :: "gpu_info \<Rightarrow> gpu_info" where
  "described g = g\<lparr>gp_description := format_description g\<rparr>"

lemma enumerated:
  assumes "fs_entries fs = Some entries"
  shows "set (enumerate_with_roots fs sysfs) =
    {described g |g. \<exists>key. map_of (fold add_node (List.map_filter (node_of fs sysfs) entries) []) key = Some g}"
proof -
  let ?G = "fold add_node (List.map_filter (node_of fs sysfs) entries) []"
  have "distinct (map fst ?G)" using groups_ok by (simp add: bt_ok_def)
  then have "(key, g) \<in> set ?G \<longleftrightarrow> map_of ?G key = Some g" for key g by (rule hm_get_in_set)
  then show ?thesis
    by (simp add: enumerate_with_roots_def assms fold_add_entry described_def) force
qed

text \<open>
  a listed card that has a device number has the node with that number, and every render node
  is the render node of a listed card unless another one of the same PCI device replaced it. A
  selection in the settings therefore finds a node exactly when it is there.
\<close>

theorem cards_match_nodes:
  assumes "fs_entries fs = Some entries" and "ns = List.map_filter (node_of fs sysfs) entries"
  shows "(g \<in> set (enumerate_with_roots fs sysfs) \<and> matches_render major minor g \<longrightarrow>
      (\<exists>path p. (Render, path, major, minor, p) \<in> set ns \<and> gp_render_node g = Some path)) \<and>
    ((Render, path, major, minor, p) \<in> set ns \<and>
      (\<forall>n \<in> set ns. fst n = Render \<and> node_key n = group_key path p \<longrightarrow> n = (Render, path, major, minor, p)) \<longrightarrow>
      (\<exists>g \<in> set (enumerate_with_roots fs sysfs). matches_render major minor g \<and> gp_render_node g = Some path))"
proof (intro conjI impI)
  assume a: "g \<in> set (enumerate_with_roots fs sysfs) \<and> matches_render major minor g"
  then obtain g0 key where g0: "g = described g0" "map_of (fold add_node ns []) key = Some g0"
    using enumerated [OF assms(1)] assms(2) by auto
  let ?rs = "filter (\<lambda>n. fst n = Render \<and> node_key n = key) ns"
  have r: "render_node_in ns key g0" using group_render [OF g0(2)] .
  have m: "gp_render_node g0 \<noteq> None" "gp_render_major g0 = major" "gp_render_minor g0 = minor"
    using a by (auto simp: g0(1) described_def matches_render_def)
  obtain kind path M m' p where l: "last ?rs = (kind, path, M, m', p)" by (cases "last ?rs")
  have ne: "?rs \<noteq> []" using r m(1) by (auto simp: render_node_in_def Let_def)
  then have "last ?rs \<in> set ?rs" by (rule last_in_set)
  then have n: "(kind, path, M, m', p) \<in> set ns" "kind = Render" using l by auto
  have "gp_render_node g0 = Some path \<and> gp_render_major g0 = M \<and> gp_render_minor g0 = m'"
    using r ne l by (auto simp: render_node_in_def Let_def)
  then show "\<exists>path p. (Render, path, major, minor, p) \<in> set ns \<and> gp_render_node g = Some path"
    using n m by (auto simp: g0(1) described_def)
next
  assume a: "(Render, path, major, minor, p) \<in> set ns \<and>
      (\<forall>n \<in> set ns. fst n = Render \<and> node_key n = group_key path p \<longrightarrow> n = (Render, path, major, minor, p))"
  let ?k = "group_key path p" and ?n = "(Render, path, major, minor, p)"
  have "\<exists>n \<in> set ns. node_key n = ?k" using a by force
  then obtain g0 where g0: "map_of (fold add_node ns []) ?k = Some g0" using group_found [of ns ?k] by auto
  let ?rs = "filter (\<lambda>n. fst n = Render \<and> node_key n = ?k) ns"
  have "?n \<in> set ?rs" using a by simp
  then have ne: "?rs \<noteq> []" by (metis empty_iff empty_set)
  then have "last ?rs \<in> set ?rs" by (rule last_in_set)
  then have "last ?rs \<in> set ns" "fst (last ?rs) = Render \<and> node_key (last ?rs) = ?k" by simp_all
  with a have "last ?rs = ?n" by blast
  then have "gp_render_node g0 = Some path \<and> gp_render_major g0 = major \<and> gp_render_minor g0 = minor"
    using group_render [OF g0] ne by (auto simp: render_node_in_def Let_def)
  then have "matches_render major minor (described g0) \<and> gp_render_node (described g0) = Some path"
    by (simp add: matches_render_def described_def)
  moreover have "described g0 \<in> set (enumerate_with_roots fs sysfs)"
    using enumerated [OF assms(1)] g0 assms(2) by auto
  ultimately show "\<exists>g \<in> set (enumerate_with_roots fs sysfs). matches_render major minor g \<and> gp_render_node g = Some path"
    by blast
qed

section \<open>A witness\<close>

definition ex_fs :: file_system where
  "ex_fs =
     \<lparr>fs_entries = Some [(''/dev/dri/card0'', Some ''card0''), (''/dev/dri/renderD128'', Some ''renderD128'')],
      fs_rdev = (\<lambda>p. if p = ''/dev/dri/renderD128'' then Some 0xE280 else Some 0xE200),
      fs_canonicalize = (\<lambda>_. None), fs_read = (\<lambda>_. None), fs_read_link = (\<lambda>_. None)\<rparr>"

lemma ex_nodes:
  "List.map_filter (node_of ex_fs ''/sys/dev/char'') [(''/dev/dri/card0'', Some ''card0''), (''/dev/dri/renderD128'', Some ''renderD128'')] =
    [(Primary, ''/dev/dri/card0'', 226, 0, None), (Render, ''/dev/dri/renderD128'', 226, 128, None)]"
  by (simp add: List.map_filter_simps node_of_def node_kind_of_def stat_rdev_def ex_fs_def dev_major_def dev_minor_def
      read_pci_for_node_def parse_pci_dir_def)

theorem cards_match_nodes_witness:
  "\<exists>g \<in> set (enumerate_with_roots ex_fs ''/sys/dev/char''). matches_render 226 128 g \<and> gp_render_node g = Some ''/dev/dri/renderD128''"
proof -
  have e: "fs_entries ex_fs = Some [(''/dev/dri/card0'', Some ''card0''), (''/dev/dri/renderD128'', Some ''renderD128'')]"
    by (simp add: ex_fs_def)
  show ?thesis
    by (rule cards_match_nodes [OF e ex_nodes [symmetric], of undefined 226 128 "''/dev/dri/renderD128''" None,
          THEN conjunct2, THEN mp]) simp
qed

end
