(* ===== verification/Spawn.thy ===== *)
theory Spawn
  imports Renderer Gpu
begin

text \<open>
  Starting a renderer, \<open>RendererManager::spawn\<close> in \<open>src/renderer_manager.rs\<close>: the choice of the graphics
  card, the command line, the handshake and what enters the manager; and the wait for its first
  frame. What the operating system and the child answer is an argument.
\<close>

section \<open>The command\<close>

definition SPAWN_VERSION :: u32 where "SPAWN_VERSION = 5"

text \<open>\<open>runtime_dir\<close> is \<open>XDG_RUNTIME_DIR\<close>, if set, \<open>temp_dir\<close> the directory for temporary files.\<close>

definition temp_sock_path :: "string option \<Rightarrow> string \<Rightarrow> string \<Rightarrow> string" where
  "temp_sock_path runtime_dir temp_dir rid =
     join_path (join_path (case runtime_dir of Some d \<Rightarrow> d | None \<Rightarrow> temp_dir) ''waywallen'') (''renderer-'' @ rid @ ''.sock'')"

text \<open>
  The card chosen by the user becomes the path of its render node. \<open>gpus\<close> is the enumeration made
  at startup, if it has been attached.
\<close>

definition resolve_gpu_setting :: "gpu_info list option \<Rightarrow> (string, string) hmap \<Rightarrow> (string, string) hmap" where
  "resolve_gpu_setting gpus settings =
     (case hm_get settings GPU_DRM_DEV_KEY of
        None \<Rightarrow> settings
      | Some raw \<Rightarrow>
          (let rest = hm_remove GPU_DRM_DEV_KEY settings in
           case parse_drm_dev raw of
             None \<Rightarrow> rest
           | Some (major, minor) \<Rightarrow>
               (case Option.bind (Option.bind gpus (find (matches_render major minor))) gp_render_node of
                  Some path \<Rightarrow> hm_insert RENDER_NODE_KEY path rest
                | None \<Rightarrow> rest)))"

definition spawn_argv :: "string \<Rightarrow> (string, string) hmap \<Rightarrow> renderer_def \<Rightarrow> string list" where
  "spawn_argv sock extras d =
     [''--ipc'', sock] @
     concat (map (\<lambda>k. [''--'' @ k, the (hm_get extras k)])
       (filter (\<lambda>k. k = ''path'' \<or> k \<in> set (rd_extras d)) (sort (map fst extras))))"

section \<open>Spawning\<close>

text \<open>
  What \<open>spawn\<close> is answered: the fresh id, whether the socket could be bound, the process id of the
  child or that it could not be started, whether the child connected within the time (\<open>Some False\<close>
  for an error of the call), the socket of the handshake and the event read on it, and whether there
  is a device for the reaper.
\<close>

record spawn_answers =
  sa_id :: string
  sa_runtime_dir :: "string option"
  sa_temp_dir :: string
  sa_bound :: bool
  sa_child :: "string \<Rightarrow> string list \<Rightarrow> u32 option option"
  sa_connected :: "bool option"
  sa_stream :: bool
  sa_init_sent :: "codec_error option"
  sa_answer :: "control_msg \<Rightarrow> codec_error + event_msg"
  sa_reaper :: bool

datatype spawn_error = SpawnIo string | SpawnRefused renderer_error

definition definition_for :: "spawn_request \<Rightarrow> manager \<Rightarrow> spawn_error + renderer_def" where
  "definition_for req m =
     (case sp_renderer_name req of
        Some name \<Rightarrow> (case resolve_by_name (mg_registry m) name of
                        Some d \<Rightarrow> Inr d | None \<Rightarrow> Inl (SpawnRefused (RendererNotFound name)))
      | None \<Rightarrow> (case resolve (mg_registry m) (sp_wp_type req) of
                   Some d \<Rightarrow> Inr d | None \<Rightarrow> Inl (SpawnRefused (NoRendererForType (sp_wp_type req)))))"

text \<open>From the start of the child to its \<open>Ready\<close>.\<close>

definition start_child :: "spawn_answers \<Rightarrow> spawn_request \<Rightarrow> renderer_def \<Rightarrow> spawn_error + u32 option \<times> drm_node" where
  "start_child sa req d =
     (let sock = temp_sock_path (sa_runtime_dir sa) (sa_temp_dir sa) (sa_id sa);
          init = build_init_msg SPAWN_VERSION req d
      in case sa_child sa (rd_bin d) (spawn_argv sock (sp_extras req) d) of
           None \<Rightarrow> Inl (SpawnIo (''spawn '' @ rd_bin d))
         | Some pid \<Rightarrow>
             (case sa_connected sa of
                None \<Rightarrow> Inl (SpawnRefused (RendererSpawnFailed ''timed out waiting for waywallen-renderer to connect back''))
              | Some ok \<Rightarrow>
                  if \<not> ok then Inl (SpawnIo ''accept'')
                  else if \<not> sa_stream sa then Inl (SpawnIo ''stream'')
                  else (case sa_init_sent sa of
                          Some e \<Rightarrow> Inl (SpawnRefused (RendererSpawnFailed ''send Init''))
                        | None \<Rightarrow>
                            (case init_handshake (sa_answer sa init) of
                               Inl e \<Rightarrow> Inl (SpawnRefused e)
                             | Inr gpu \<Rightarrow> Inr (pid, gpu)))))"

definition mgr_spawn ::
  "gpu_info list option \<Rightarrow> spawn_answers \<Rightarrow> spawn_request \<Rightarrow> manager \<Rightarrow> (spawn_error + renderer_id) \<times> manager" where
  "mgr_spawn gpus sa req m =
     (if \<not> sa_bound sa then (Inl (SpawnIo ''bind''), m)
      else (case definition_for req m of
        Inl e \<Rightarrow> (Inl e, m)
      | Inr d \<Rightarrow>
          (let req1 = req\<lparr>sp_settings := resolve_gpu_setting gpus (sp_settings req)\<rparr> in
           case start_child sa req1 d of
             Inl e \<Rightarrow> (Inl e, m)
           | Inr (pid, gpu) \<Rightarrow>
               (Inr (sa_id sa), insert_handle (fresh_handle (sa_id sa) req1 d pid gpu (sa_reaper sa)) m))))"

section \<open>The first frame\<close>

text \<open>
  What one turn of \<open>wait_for_first_frame\<close> sees: whether a frame has been seen, and what woke it.
  The child's status is only asked for while it is in the manager; after a lag of the event
  stream the handle is looked at again.
\<close>

datatype child_status = StillRunning | ExitedWith string | StatusUnknown string

datatype wake =
    WakeDeadline
  | WakeTick bool "child_status option"
  | WakeEvent event_msg
  | WakeLagged bool
  | WakeClosed

datatype first_frame = FrameSeen | FrameTimeout | FrameExited | FrameFailed | StreamClosed

fun is_frame :: "event_msg \<Rightarrow> bool" where
  "is_frame (FrameReady _ _ _) = True"
| "is_frame _ = False"

fun wait_turn :: "wake \<Rightarrow> bool \<Rightarrow> first_frame option \<times> bool" where
  "wait_turn WakeDeadline seen = (Some FrameTimeout, False)"
| "wait_turn (WakeTick alive status) seen =
     (if \<not> alive then (Some FrameExited, False)
      else (case status of
              Some (ExitedWith s) \<Rightarrow> (Some FrameExited, True)
            | Some (StatusUnknown e) \<Rightarrow> (Some FrameFailed, False)
            | _ \<Rightarrow> (None, False)))"
| "wait_turn (WakeEvent ev) seen = (if is_frame ev then Some FrameSeen else None, False)"
| "wait_turn (WakeLagged now) seen = (if now then Some FrameSeen else None, False)"
| "wait_turn WakeClosed seen = (Some StreamClosed, False)"

text \<open>
  The loop over the turns: at the head of each the handle is looked at. The answer is \<open>None\<close> while
  it still waits; the second component says whether the renderer was marked dead.
\<close>

fun wait_loop :: "(bool \<times> wake) list \<Rightarrow> first_frame option \<times> bool" where
  "wait_loop [] = (None, False)"
| "wait_loop ((seen, w) # ws) =
     (if seen then (Some FrameSeen, False)
      else (case wait_turn w seen of (Some r, dead) \<Rightarrow> (Some r, dead) | (None, _) \<Rightarrow> wait_loop ws))"

definition wait_for_first_frame :: "renderer_id \<Rightarrow> (bool \<times> wake) list \<Rightarrow> manager \<Rightarrow> (renderer_error + first_frame option) \<times> manager" where
  "wait_for_first_frame rid turns m =
     (case mgr_get m rid of
        None \<Rightarrow> (Inl (RendererNotFound rid), m)
      | Some h \<Rightarrow>
          if frame_ready_seen h then (Inr (Some FrameSeen), m)
          else (Inr (fst (wait_loop turns)), if snd (wait_loop turns) then mark_dead rid m else m))"

section \<open>What spawning gives\<close>

lemma find_append: "find P (xs @ ys) = (case find P xs of Some x \<Rightarrow> Some x | None \<Rightarrow> find P ys)"
  by (induction xs) auto

lemma map_filter_append: "List.map_filter f (xs @ ys) = List.map_filter f xs @ List.map_filter f ys"
  by (induction xs) (simp_all add: List.map_filter_simps split: option.split)

lemma hm_eq_refl: "hm_eq (=) m m"
  by (simp add: hm_eq_def split: option.split)

lemma mgr_spawn_result:
  assumes "mgr_spawn gpus sa req m = (Inr rid, m')"
  shows "\<exists>d req1 pid gpu. rid = sa_id sa \<and> definition_for req m = Inr d \<and>
    sp_wp_type req1 = sp_wp_type req \<and> sp_extras req1 = sp_extras req \<and>
    m' = insert_handle (fresh_handle (sa_id sa) req1 d pid gpu (sa_reaper sa)) m"
proof -
  let ?req1 = "req\<lparr>sp_settings := resolve_gpu_setting gpus (sp_settings req)\<rparr>"
  have b: "sa_bound sa" using assms by (simp add: mgr_spawn_def split: if_splits)
  obtain d where d: "definition_for req m = Inr d"
    using assms b by (cases "definition_for req m") (simp_all add: mgr_spawn_def)
  obtain pg where pg: "start_child sa ?req1 d = Inr pg"
    using assms b d by (cases "start_child sa ?req1 d") (simp_all add: mgr_spawn_def)
  obtain pid gpu where pg': "pg = (pid, gpu)" by force
  have e: "rid = sa_id sa" "m' = insert_handle (fresh_handle (sa_id sa) ?req1 d pid gpu (sa_reaper sa)) m"
    using assms b d pg by (auto simp: mgr_spawn_def pg')
  show ?thesis
    by (rule exI [of _ d], rule exI [of _ ?req1], rule exI [of _ pid], rule exI [of _ gpu]) (simp only: d e, simp)
qed

lemma mgr_spawn_failed: "mgr_spawn gpus sa req m = (Inl e, m') \<Longrightarrow> m' = m"
  by (cases "definition_for req m"; cases "start_child sa (req\<lparr>sp_settings := resolve_gpu_setting gpus (sp_settings req)\<rparr>) (projr (definition_for req m))")
    (auto simp: mgr_spawn_def split: if_splits)

text \<open>What a renderer has to have to be taken for a request.\<close>

definition fits :: "spawn_request \<Rightarrow> renderer_def \<Rightarrow> renderer_handle \<Rightarrow> bool" where
  "fits req d h \<longleftrightarrow> rh_wp_type h = sp_wp_type req \<and> rh_name h = rd_name d \<and> hm_eq (=) (rh_extras h) (sp_extras req)"

lemma find_reusable_eq:
  "find_reusable req m =
    (case definition_for req m of
       Inl e \<Rightarrow> None
     | Inr d \<Rightarrow> map_option rh_id (find (fits req d) (List.map_filter (hm_get (mg_handles m)) (mg_live m))))"
  by (auto simp: find_reusable_def definition_for_def fits_def [abs_def] split: option.splits)

text \<open>
  a renderer that was spawned because none could be reused is found for every later request of
  the same wallpaper, whatever its settings and properties; a failed spawn leaves the manager as it
  was.
\<close>

theorem spawned_is_reused:
  assumes "mgr_spawn gpus sa req m = (res, m')" and "find_reusable req m = None"
    and "hm_get (mg_handles m) (sa_id sa) = None" and "sa_id sa \<notin> set (mg_live m)"
    and "sp_wp_type req' = sp_wp_type req" "sp_extras req' = sp_extras req" "sp_renderer_name req' = sp_renderer_name req"
  shows "(\<forall>rid. res = Inr rid \<longrightarrow> find_reusable req' m' = Some rid) \<and> (\<forall>e. res = Inl e \<longrightarrow> m' = m)"
proof (intro conjI allI impI)
  fix rid assume r: "res = Inr rid"
  obtain d req1 pid gpu where s: "rid = sa_id sa" "definition_for req m = Inr d"
    "sp_wp_type req1 = sp_wp_type req" "sp_extras req1 = sp_extras req"
    "m' = insert_handle (fresh_handle (sa_id sa) req1 d pid gpu (sa_reaper sa)) m"
    using mgr_spawn_result [of gpus sa req m rid m'] assms(1) r by auto
  let ?h = "fresh_handle (sa_id sa) req1 d pid gpu (sa_reaper sa)"
  have h: "rh_id ?h = sa_id sa" "fits req' d ?h"
    using assms(5,6) s(3,4) by (simp_all add: fresh_handle_def fits_def hm_eq_refl)
  have reg: "mg_registry m' = mg_registry m" by (simp add: s(5) insert_handle_def)
  have d: "definition_for req' m' = Inr d"
    using s(2) unfolding definition_for_def assms(5,7) reg .
  have "hm_get (mg_handles m') x = hm_get (mg_handles m) x" if "x \<in> set (mg_live m)" for x
    using that assms(4) by (auto simp: s(5) insert_handle_def h(1))
  then have "List.map_filter (hm_get (mg_handles m')) (mg_live m) = List.map_filter (hm_get (mg_handles m)) (mg_live m)"
    by (rule map_filter_cong)
  moreover have "fits req' d = fits req d" using assms(5,6) by (simp add: fits_def [abs_def])
  moreover have "find (fits req d) (List.map_filter (hm_get (mg_handles m)) (mg_live m)) = None"
    using assms(2) by (simp add: find_reusable_eq s(2))
  moreover have "mg_live m' = mg_live m @ [sa_id sa]" "hm_get (mg_handles m') (sa_id sa) = Some ?h"
    by (simp_all add: s(5) insert_handle_def h(1))
  ultimately show "find_reusable req' m' = Some rid"
    using h s(1) by (simp add: find_reusable_eq d map_filter_append find_append List.map_filter_simps)
next
  fix e assume "res = Inl e"
  then show "m' = m" using assms(1) mgr_spawn_failed by blast
qed

text \<open>
  the renderer gets the path of a render node exactly when the card chosen in the settings is
  one of those found at startup, and never the choice itself.
\<close>

theorem gpu_choice_resolved:
  assumes "hm_get settings GPU_DRM_DEV_KEY = Some (format_drm_dev major minor)"
  shows "hm_get (resolve_gpu_setting gpus settings) GPU_DRM_DEV_KEY = None \<and>
    hm_get (resolve_gpu_setting gpus settings) RENDER_NODE_KEY =
      (case Option.bind gpus (find (matches_render major minor)) of
         Some g \<Rightarrow> gp_render_node g | None \<Rightarrow> hm_get settings RENDER_NODE_KEY)"
proof -
  have k: "GPU_DRM_DEV_KEY \<noteq> RENDER_NODE_KEY" by (simp add: GPU_DRM_DEV_KEY_def RENDER_NODE_KEY_def)
  show ?thesis
  proof (cases "Option.bind gpus (find (matches_render major minor))")
    case None
    then have "Option.bind (Option.bind gpus (find (matches_render major minor))) gp_render_node = None" by simp
    then show ?thesis using k None by (simp add: resolve_gpu_setting_def assms drm_dev_read_back Let_def del: Option.bind_assoc)
  next
    case (Some g)
    then have "matches_render major minor g" by (auto simp: Option.bind_eq_Some_conv find_Some_iff)
    then obtain path where "gp_render_node g = Some path" by (auto simp: matches_render_def)
    moreover from this Some have "Option.bind (Option.bind gpus (find (matches_render major minor))) gp_render_node = Some path" by simp
    ultimately show ?thesis using Some k by (simp add: resolve_gpu_setting_def assms drm_dev_read_back Let_def del: Option.bind_assoc)
  qed
qed

text \<open>
  the wait ends with its deadline at the latest, and reports a frame only when one was seen on
  the handle or in the event stream.
\<close>

theorem wait_ends:
  "((\<exists>seen. (seen, WakeDeadline) \<in> set turns) \<longrightarrow> fst (wait_loop turns) \<noteq> None) \<and>
   (fst (wait_loop turns) = Some FrameSeen \<longrightarrow>
     (\<exists>w. (True, w) \<in> set turns) \<or> (\<exists>s. (s, WakeLagged True) \<in> set turns) \<or>
     (\<exists>s ev. (s, WakeEvent ev) \<in> set turns \<and> is_frame ev))"
proof (induction turns)
  case (Cons t turns)
  obtain seen w where t: "t = (seen, w)" by force
  show ?case
  proof (cases "\<not> seen \<and> fst (wait_turn w seen) = None")
    case True
    then have "wait_loop (t # turns) = wait_loop turns" by (cases "wait_turn w seen") (simp add: t)
    moreover have "w \<noteq> WakeDeadline" using True by auto
    ultimately show ?thesis using Cons by (auto simp: t)
  next
    case False
    then have l: "fst (wait_loop (t # turns)) = (if seen then Some FrameSeen else fst (wait_turn w seen))"
      by (cases "wait_turn w seen") (auto simp: t split: option.split)
    then have "fst (wait_loop (t # turns)) \<noteq> None" using False by (cases seen) simp_all
    moreover have "fst (wait_turn w seen) = Some FrameSeen \<Longrightarrow> w = WakeLagged True \<or> (\<exists>ev. w = WakeEvent ev \<and> is_frame ev)"
      by (cases w) (auto split: if_splits option.splits child_status.splits)
    then have "fst (wait_loop (t # turns)) = Some FrameSeen \<Longrightarrow>
        seen \<or> w = WakeLagged True \<or> (\<exists>ev. w = WakeEvent ev \<and> is_frame ev)"
      using l by (cases seen) simp_all
    moreover have "(seen, w) \<in> set (t # turns)" by (simp add: t)
    ultimately show ?thesis by metis
  qed
qed simp

section \<open>Witnesses\<close>

definition ex_answers :: spawn_answers where
  "ex_answers =
     \<lparr>sa_id = ''r1'', sa_runtime_dir = None, sa_temp_dir = ''/tmp'', sa_bound = True, sa_child = (\<lambda>_ _. Some (Some 7)),
      sa_connected = Some True, sa_stream = True, sa_init_sent = None, sa_answer = (\<lambda>_. Inr (Ready 226 128)), sa_reaper = True\<rparr>"

theorem wait_ends_witness: "fst (wait_loop [(False, WakeTick True None), (False, WakeDeadline)]) \<noteq> None"
  using wait_ends [of "[(False, WakeTick True None), (False, WakeDeadline)]", THEN conjunct1] by simp

theorem gpu_choice_resolved_witness:
  "hm_get (resolve_gpu_setting None [(GPU_DRM_DEV_KEY, format_drm_dev 226 128)]) GPU_DRM_DEV_KEY = None"
  using gpu_choice_resolved [of "[(GPU_DRM_DEV_KEY, format_drm_dev 226 128)]" 226 128 None] by simp

theorem spawned_is_reused_witness:
  "find_reusable (toy_request\<lparr>sp_wp_type := ''video'', sp_test_pattern := True\<rparr>)
     (snd (mgr_spawn None ex_answers (toy_request\<lparr>sp_wp_type := ''video''\<rparr>)
        (manager_new [(''video'', [toy_renderer ''a'' 50])]))) = Some ''r1''"
proof -
  let ?m = "manager_new [(''video'', [toy_renderer ''a'' 50])]" and ?req = "toy_request\<lparr>sp_wp_type := ''video''\<rparr>"
  have none: "find_reusable ?req ?m = None"
    by (simp add: find_reusable_eq manager_new_def List.map_filter_simps split: sum.split)
  have "mgr_spawn None ex_answers ?req ?m = (Inr ''r1'', snd (mgr_spawn None ex_answers ?req ?m))"
    by (simp add: mgr_spawn_def ex_answers_def definition_for_def toy_request_def manager_new_def resolve_def
        start_child_def init_handshake_def Let_def)
  from spawned_is_reused [OF this none, of "toy_request\<lparr>sp_wp_type := ''video'', sp_test_pattern := True\<rparr>"]
  show ?thesis by (simp add: manager_new_def toy_request_def ex_answers_def)
qed

end
