(* ===== verification/Control.thy ===== *)
theory Control
  imports Router_Service Spawn Sorts Cursor
begin

text \<open>
  The control surface, \<open>src/control.rs\<close>: applying a wallpaper to all displays or to some, stepping
  through the queue, the mode and cadence of the rotation, and what of it survives a restart.
  It drives the router, the renderer manager, the queue and the settings, whose models it uses.

  The database, the source plugins and the operating system answer through \<open>services\<close>. A function
  is served in one go here; that its sections may interleave with other tasks is the subject of
  the theorems about races.
\<close>

section \<open>Services, errors and the state\<close>

datatype app_error =
    WallpaperNotFound string
  | NoRendererFor string
  | SpawnFailed spawn_error
  | FailedPrecondition string
  | WallpaperTypeNotSupported string
  | InvalidArgument string
  | PortalCallFailed string
  | PlaylistNotFound string
  | PlaylistInvalid string
  | Internal string

text \<open>
  \<open>sv_entry\<close>: \<open>repo::get_entry\<close>; \<open>sv_extras\<close>: \<open>call_extras\<close> of a source plugin; \<open>sv_properties\<close>:
  \<open>get_wallpaper_render_properties\<close>; \<open>sv_entries\<close>, \<open>sv_keys\<close>, \<open>sv_random\<close>, \<open>sv_ids\<close>, \<open>sv_item\<close>: the queue's
  queries; \<open>sv_acks\<close>: the acknowledgements that come while renderers are stopped; \<open>sv_files\<close>: which
  file operations of a flush succeed; \<open>sv_now\<close>: the clock.
\<close>

record services =
  sv_entry :: "i64 \<Rightarrow> app_error + wallpaper_entry option"
  sv_extras :: "wallpaper_entry \<Rightarrow> app_error + (string, string) hmap"
  sv_properties :: "i64 \<Rightarrow> app_error + string option \<times> layout_override"
  sv_entries :: "app_error + wallpaper_entry list"
  sv_keys :: "filter_rule list \<Rightarrow> filter_logic list \<Rightarrow> app_error + (string \<times> string) list"
  sv_random :: "filter_rule list \<Rightarrow> filter_logic list \<Rightarrow> i64 option \<Rightarrow> app_error + i64 option"
  sv_ids :: "filter_rule list \<Rightarrow> filter_logic list \<Rightarrow> app_error + i64 list"
  sv_item :: "i64 \<Rightarrow> app_error + i64 option"
  sv_lower :: "string \<Rightarrow> string"
  sv_spawn :: spawn_answers
  sv_gpus :: "gpu_info list option"
  sv_acks :: "(display_id \<times> u64) list"
  sv_print :: "settings \<Rightarrow> string option"
  sv_files :: "bool \<times> bool \<times> bool"
  sv_now :: u64

record app =
  app_router :: router
  app_queue :: queue_state
  app_rotation :: rotation_handle

text \<open>The settings store is the one attached to the router, which \<open>main\<close> does before anything runs.\<close>

definition app_settings :: "router \<Rightarrow> settings" where
  "app_settings r = (case r_settings r of Some st \<Rightarrow> st_inner st | None \<Rightarrow> settings_default)"

definition update_settings :: "(settings \<Rightarrow> settings) \<Rightarrow> router \<Rightarrow> router" where
  "update_settings f r = r\<lparr>r_settings := map_option (settings_update f) (r_settings r)\<rparr>"

definition flush_settings :: "services \<Rightarrow> router \<Rightarrow> router" where
  "flush_settings sv r =
     (case sv_files sv of (dirs, written, renamed) \<Rightarrow>
        r\<lparr>r_settings := map_option (flush (sv_print sv) dirs written renamed) (r_settings r)\<rparr>)"

section \<open>Applying a wallpaper\<close>

text \<open>A parse error or a missing row is the same error.\<close>

definition find_entry :: "services \<Rightarrow> string \<Rightarrow> app_error + wallpaper_entry" where
  "find_entry sv wid =
     (case parse_i64 wid of
        None \<Rightarrow> Inl (WallpaperNotFound wid)
      | Some iid \<Rightarrow>
          (case sv_entry sv iid of
             Inl e \<Rightarrow> Inl e
           | Inr None \<Rightarrow> Inl (WallpaperNotFound wid)
           | Inr (Some entry) \<Rightarrow> Inr entry))"

definition stop_replaced :: "services \<Rightarrow> display_id list option \<Rightarrow> router \<Rightarrow> router" where
  "stop_replaced sv target r =
     (let ids = renderers_fully_replaced_by target r in
      if ids = [] then r else stop_renderers_orderly ids (sv_acks sv) r)"

text \<open>The request: extras from the source, settings of the renderer's plugin, properties of the row.\<close>

definition build_request ::
  "services \<Rightarrow> wallpaper_entry \<Rightarrow> string \<Rightarrow> settings \<Rightarrow> app_error + spawn_request \<times> layout_override" where
  "build_request sv entry plugin s =
     (case sv_extras sv entry of
        Inl e \<Rightarrow> Inl e
      | Inr extras \<Rightarrow>
          (case sv_properties sv (we_item_id entry) of
             Inl e \<Rightarrow> Inl e
           | Inr (user_properties, layout) \<Rightarrow>
               Inr (\<lparr>sp_wp_type = we_wp_type entry, sp_extras = extras,
                     sp_settings = (case plugin_settings s plugin of Some m \<Rightarrow> m | None \<Rightarrow> []),
                     sp_test_pattern = False, sp_renderer_name = None, sp_user_properties = user_properties\<rparr>, layout)))"

text \<open>A renderer that runs already is reused, otherwise one is spawned and registered.\<close>

definition ensure_renderer :: "services \<Rightarrow> spawn_request \<Rightarrow> router \<Rightarrow> (app_error + renderer_id) \<times> router" where
  "ensure_renderer sv req r =
     (case find_reusable req (r_mgr r) of
        Some rid \<Rightarrow> (Inr rid, r)
      | None \<Rightarrow>
          (case mgr_spawn (sv_gpus sv) (sv_spawn sv) req (r_mgr r) of
             (Inl e, mgr) \<Rightarrow> (Inl (SpawnFailed e), r\<lparr>r_mgr := mgr\<rparr>)
           | (Inr rid, mgr) \<Rightarrow>
               (Inr rid,
                if mgr_get mgr rid \<noteq> None then register_renderer rid (r\<lparr>r_mgr := mgr\<rparr>) else r\<lparr>r_mgr := mgr\<rparr>)))"

definition show_on :: "display_id list option \<Rightarrow> renderer_id \<Rightarrow> layout_override \<Rightarrow> router \<Rightarrow> router" where
  "show_on target rid layout r =
     (let r1 = snd (set_renderer_wallpaper_layout_override rid layout r) in
      case target of
        None \<Rightarrow> relink_all_displays_to rid r1
      | Some ids \<Rightarrow> relink_displays_to ids rid r1)"

text \<open>What is remembered: the wallpaper of every target display, and the global one.\<close>

definition remember_display :: "string \<Rightarrow> string \<Rightarrow> settings \<Rightarrow> settings" where
  "remember_display wid k s =
     s\<lparr>set_displays := hm_insert k
        ((case hm_get (set_displays s) k of Some p \<Rightarrow> p | None \<Rightarrow> display_prefs_default)\<lparr>dp_last_wallpaper := Some wid\<rparr>)
        (set_displays s)\<rparr>"

definition remember :: "string \<Rightarrow> string list \<Rightarrow> settings \<Rightarrow> settings" where
  "remember wid keys s =
     (let s1 = fold (remember_display wid) keys s in
      s1\<lparr>set_global := (set_global s1)\<lparr>gs_last_wallpaper := Some wid\<rparr>\<rparr>)"

definition record_applied :: "services \<Rightarrow> wallpaper_entry \<Rightarrow> display_id list option \<Rightarrow> app \<Rightarrow> app" where
  "record_applied sv entry target a =
     (let wid = show_i64 (we_item_id entry);
          r = app_router a;
          ids = (case target of None \<Rightarrow> map dn_id (snapshot_displays r) | Some ids \<Rightarrow> ids);
          keys = map snd (display_settings_keys r ids)
      in a\<lparr>app_router := flush_settings sv (update_settings (remember wid keys) r),
           app_queue := (app_queue a)\<lparr>qs_current := Some wid, qs_last_db_id := Some (we_item_id entry)\<rparr>\<rparr>)"

definition apply_wallpaper_core ::
  "services \<Rightarrow> string \<Rightarrow> display_id list option \<Rightarrow> app \<Rightarrow> (app_error + renderer_id \<times> wallpaper_entry) \<times> app" where
  "apply_wallpaper_core sv wid target a =
     (case find_entry sv wid of
        Inl e \<Rightarrow> (Inl e, a)
      | Inr entry \<Rightarrow>
          (case resolve (mg_registry (r_mgr (app_router a))) (we_wp_type entry) of
             None \<Rightarrow> (Inl (NoRendererFor (we_wp_type entry)), a)
           | Some d \<Rightarrow>
               (let r1 = stop_replaced sv target (app_router a) in
                case build_request sv entry (rd_name d) (app_settings r1) of
                  Inl e \<Rightarrow> (Inl e, a\<lparr>app_router := r1\<rparr>)
                | Inr (req, layout) \<Rightarrow>
                    (case ensure_renderer sv req r1 of
                       (Inl e, r2) \<Rightarrow> (Inl e, a\<lparr>app_router := r2\<rparr>)
                     | (Inr rid, r2) \<Rightarrow>
                         (Inr (rid, entry), record_applied sv entry target (a\<lparr>app_router := show_on target rid layout r2\<rparr>))))))"

text \<open>\<open>apply_wallpaper_by_id\<close>, when it is not superseded, and \<open>apply_wallpaper_to_displays\<close>.\<close>

definition apply_wallpaper_by_id :: "services \<Rightarrow> string \<Rightarrow> app \<Rightarrow> (app_error + renderer_id \<times> wallpaper_entry) \<times> app" where
  "apply_wallpaper_by_id sv wid a = apply_wallpaper_core sv wid None a"

definition apply_wallpaper_to_displays ::
  "services \<Rightarrow> string \<Rightarrow> display_id list \<Rightarrow> app \<Rightarrow> (app_error + renderer_id \<times> wallpaper_entry) \<times> app" where
  "apply_wallpaper_to_displays sv wid target a =
     (if target = [] then (Inl (Internal ''apply_wallpaper_to_displays: empty target''), a)
      else apply_wallpaper_core sv wid (Some target) a)"

section \<open>The portal\<close>

definition uri_safe :: "char \<Rightarrow> bool" where
  "uri_safe c \<longleftrightarrow>
     (let n = of_char c :: nat in
      n \<in> {65..90} \<or> n \<in> {97..122} \<or> n \<in> {48..57}) \<or> c \<in> set ''-._~/:@!$&'' \<or> c = CHR 0x27 \<or> c \<in> set ''()*+,;=''"

definition upper_hex :: "nat \<Rightarrow> char" where
  "upper_hex d = char_of (if d < 10 then 48 + d else 55 + d)"

definition uri_char :: "char \<Rightarrow> string" where
  "uri_char c =
     (if uri_safe c then [c]
      else (let n = of_char c :: nat in [CHR ''%'', upper_hex (n div 16), upper_hex (n mod 16)]))"

definition file_uri_from_abs_path :: "string \<Rightarrow> string" where
  "file_uri_from_abs_path path = ''file://'' @ concat (map uri_char path)"

text \<open>\<open>portal\<close> is the answer of the desktop portal to the call with this address.\<close>

definition apply_via_portal_inner :: "services \<Rightarrow> (string \<Rightarrow> string option) \<Rightarrow> string \<Rightarrow> app_error + string \<times> string" where
  "apply_via_portal_inner sv portal wid =
     (case find_entry sv wid of
        Inl e \<Rightarrow> Inl e
      | Inr entry \<Rightarrow>
          if \<not> eq_ignore_ascii_case (we_wp_type entry) ''image'' then Inl (WallpaperTypeNotSupported (we_wp_type entry))
          else if take 1 (we_resource entry) \<noteq> ''/'' then Inl (InvalidArgument (we_resource entry))
          else (let uri = file_uri_from_abs_path (we_resource entry) in
                case portal uri of
                  Some e \<Rightarrow> Inl (PortalCallFailed e)
                | None \<Rightarrow> Inr (show_i64 (we_item_id entry), uri)))"

section \<open>Stopping and starting renderers\<close>

context route_table
begin

lemma drop_loop:
  assumes "ok t"
  shows "ok (fold drop_renderer rs t)"
    and "route (fold drop_renderer rs t) = (\<lambda>d. if route t d \<in> Some ` set rs then None else route t d)"
  using assms by (induction rs arbitrary: t) (auto simp: ok_drop_renderer route_drop_renderer fun_eq_iff)

end

lemma fold_renderer_ids:
  "table_ok t \<Longrightarrow>
    set (renderer_ids (fold (\<lambda>x t. snd (remove_renderer x t)) xs t)) = set (renderer_ids t) - set xs \<and>
    link_room (fold (\<lambda>x t. snd (remove_renderer x t)) xs t) = link_room t"
proof (induction xs arbitrary: t)
  case (Cons x xs)
  have ok: "table_ok (snd (remove_renderer x t))" by (rule rt.ok_drop_renderer [OF Cons.prems])
  have "next_link_id (snd (remove_renderer x t)) = next_link_id t"
    using remove_renderer_ok(5) [OF Cons.prems] by (cases "remove_renderer x t") simp
  then show ?case
    using Cons.IH [OF ok] renderer_ids_remove [OF Cons.prems, of x] by (auto simp: link_room_def)
qed simp

lemma fold_table:
  "r_table (fold unregister_renderer xs r) = fold (\<lambda>x t. snd (remove_renderer x t)) xs (r_table r)"
  "hm_keys (r_displays (fold unregister_renderer xs r)) = hm_keys (r_displays r)"
  "mg_live (r_mgr (fold unregister_renderer xs r)) = mg_live (r_mgr r)"
  "mg_handles (r_mgr (fold unregister_renderer xs r)) = mg_handles (r_mgr r)"
  by (induction xs arbitrary: r) simp_all

lemma begin_acks_keeps [simp]:
  "r_table (begin_unbind_ack_tracking x r) = r_table r" "r_displays (begin_unbind_ack_tracking x r) = r_displays r"
  "r_mgr (begin_unbind_ack_tracking x r) = r_mgr r"
  by (simp_all add: begin_unbind_ack_tracking_def split: option.split)

lemma ack_folds_keep [simp]:
  "r_table (fold begin_unbind_ack_tracking xs r) = r_table r" "r_displays (fold begin_unbind_ack_tracking xs r) = r_displays r"
  "r_mgr (fold begin_unbind_ack_tracking xs r) = r_mgr r"
  "r_table (fold record_unbind_done as r) = r_table r" "r_displays (fold record_unbind_done as r) = r_displays r"
  "r_mgr (fold record_unbind_done as r) = r_mgr r"
  "r_table (fold finish_unbind_acks xs r) = r_table r" "r_displays (fold finish_unbind_acks xs r) = r_displays r"
  "r_mgr (fold finish_unbind_acks xs r) = r_mgr r"
  by (simp_all add: fold_keeps [where f = begin_unbind_ack_tracking] fold_keeps [where f = record_unbind_done]
      fold_keeps [where f = finish_unbind_acks] record_unbind_done_def finish_unbind_acks_def)

lemma fold_kill_live:
  "live_ok r \<Longrightarrow> set (mg_live (r_mgr (fold kill_renderer xs r))) = set (mg_live (r_mgr r)) - set xs \<and> live_ok (fold kill_renderer xs r)"
proof (induction xs arbitrary: r)
  case (Cons x xs)
  then show ?case using kill_renderer_live [OF Cons.prems, of x] Cons.IH [of "kill_renderer x r"] by auto
qed simp

lemma fold_kill_keeps [simp]:
  "r_table (fold kill_renderer xs r) = r_table r" "r_displays (fold kill_renderer xs r) = r_displays r"
  by (simp_all add: fold_keeps [where f = kill_renderer])

text \<open>An orderly stop unroutes the displays of the renderers and takes these out of table and manager.\<close>

lemma stop_orderly_result:
  fixes r xs acks
  assumes "table_ok (r_table r)" and "live_ok r"
  defines "r' \<equiv> stop_renderers_orderly xs acks r"
  shows "route (r_table r') = (\<lambda>d. if route (r_table r) d \<in> Some ` set xs then None else route (r_table r) d)"
    and "set (renderer_ids (r_table r')) = set (renderer_ids (r_table r)) - set xs"
    and "set (mg_live (r_mgr r')) = set (mg_live (r_mgr r)) - set xs"
    and "hm_keys (r_displays r') = hm_keys (r_displays r)" and "link_room (r_table r') = link_room (r_table r)"
proof -
  let ?t = "fold (\<lambda>x t. snd (remove_renderer x t)) xs (r_table r)"
  have t: "r_table r' = ?t" by (simp add: r'_def stop_renderers_orderly_def Let_def fold_table)
  show "route (r_table r') = (\<lambda>d. if route (r_table r) d \<in> Some ` set xs then None else route (r_table r) d)"
    unfolding t by (rule rt.drop_loop(2) [OF assms(1)])
  show "set (renderer_ids (r_table r')) = set (renderer_ids (r_table r)) - set xs" "link_room (r_table r') = link_room (r_table r)"
    unfolding t using fold_renderer_ids [OF assms(1), of xs] by simp_all
  show "hm_keys (r_displays r') = hm_keys (r_displays r)"
    by (simp add: r'_def stop_renderers_orderly_def Let_def fold_table)
  let ?r4 = "fold finish_unbind_acks xs (fold record_unbind_done acks (fold unregister_renderer xs (fold begin_unbind_ack_tracking xs r)))"
  have "live_ok ?r4" using assms(2) by (simp add: live_ok_def fold_table)
  from fold_kill_live [OF this, of xs] show "set (mg_live (r_mgr r')) = set (mg_live (r_mgr r)) - set xs"
    by (simp add: r'_def stop_renderers_orderly_def Let_def fold_table)
qed

text \<open>Which renderers an apply replaces.\<close>

lemma replaced_iff:
  assumes "links_ok r"
  shows "x \<in> set (renderers_fully_replaced_by target r) \<longleftrightarrow>
    x \<in> set (renderer_ids (r_table r)) \<and>
    (\<forall>d. route (r_table r) d = Some x \<longrightarrow> (case target of None \<Rightarrow> True | Some ts \<Rightarrow> d \<in> set ts))"
proof -
  note ok = links_ok_table [OF assms]
  have l: "l \<in> set (active_links r x) \<longleftrightarrow> (\<exists>k. links_of (r_table r) k = Some l \<and> lk_renderer l = x)" for l
    using table_okD(3) [OF ok] by (auto simp: links_ok_enabled(2) [OF assms] set_links_for_renderer [OF ok])
  have "(\<forall>l \<in> set (active_links r x). P (lk_display l)) \<longleftrightarrow> (\<forall>d. route (r_table r) d = Some x \<longrightarrow> P d)" for P
    unfolding Ball_def l by (auto simp: route_Some_iff [OF ok])
  then have "(\<forall>l \<in> set (active_links r x). lk_display l \<in> set ts) \<longleftrightarrow> (\<forall>d. route (r_table r) d = Some x \<longrightarrow> d \<in> set ts)" for ts .
  then show ?thesis by (auto simp: renderers_fully_replaced_by_def split: option.split)
qed

lemma stop_replaced_result:
  fixes r sv target
  assumes "links_ok r" and "live_ok r"
  defines "r' \<equiv> stop_replaced sv target r" and "gone \<equiv> set (renderers_fully_replaced_by target r)"
  shows "route (r_table r') = (\<lambda>d. if route (r_table r) d \<in> Some ` gone then None else route (r_table r) d)"
    and "set (renderer_ids (r_table r')) = set (renderer_ids (r_table r)) - gone"
    and "set (mg_live (r_mgr r')) = set (mg_live (r_mgr r)) - gone"
    and "hm_keys (r_displays r') = hm_keys (r_displays r)" and "link_room (r_table r') = link_room (r_table r)"
  using stop_orderly_result [OF links_ok_table [OF assms(1)] assms(2), of "renderers_fully_replaced_by target r" "sv_acks sv"]
  by (auto simp: r'_def gone_def stop_replaced_def Let_def)

lemma register_keeps:
  "route (r_table (register_renderer rid r)) = route (r_table r)"
  "set (renderer_ids (r_table (register_renderer rid r))) = insert rid (set (renderer_ids (r_table r)))"
  "link_room (r_table (register_renderer rid r)) = link_room (r_table r)"
  "r_displays (register_renderer rid r) = r_displays r"
  by (simp_all add: register_renderer_def add_renderer_def route_def fun_eq_iff renderer_ids_def link_room_def links_for_display_def)

text \<open>A renderer that is there for a request: either it ran already, or it is a new one, registered.\<close>

lemma ensure_renderer_cases:
  assumes "ensure_renderer sv req r = (Inr rid, r')"
  obtains (reused) "find_reusable req (r_mgr r) = Some rid" "r' = r"
    | (spawned) h where "find_reusable req (r_mgr r) = None" "rh_id h = rid" "rid = sa_id (sv_spawn sv)"
      "r' = register_renderer rid (r\<lparr>r_mgr := insert_handle h (r_mgr r)\<rparr>)"
proof (cases "find_reusable req (r_mgr r)")
  case None
  obtain res mgr where sp: "mgr_spawn (sv_gpus sv) (sv_spawn sv) req (r_mgr r) = (res, mgr)" by force
  with assms None have "res = Inr rid" by (cases res) (auto simp: ensure_renderer_def)
  with sp obtain d req1 pid gpu where s: "rid = sa_id (sv_spawn sv)"
    "mgr = insert_handle (fresh_handle (sa_id (sv_spawn sv)) req1 d pid gpu (sa_reaper (sv_spawn sv))) (r_mgr r)"
    using mgr_spawn_result [of "sv_gpus sv" "sv_spawn sv" req "r_mgr r" rid mgr] by auto
  let ?h = "fresh_handle (sa_id (sv_spawn sv)) req1 d pid gpu (sa_reaper (sv_spawn sv))"
  have h: "rh_id ?h = rid" by (simp add: fresh_handle_def s(1))
  have "mgr_get mgr rid \<noteq> None" by (simp add: s(2) mgr_get_def insert_handle_def h)
  then have "r' = register_renderer rid (r\<lparr>r_mgr := mgr\<rparr>)"
    using assms None sp \<open>res = Inr rid\<close> by (simp add: ensure_renderer_def)
  with spawned [OF None h s(1)] s(2) show thesis by simp
next
  case (Some x)
  then have "x = rid \<and> r' = r" using assms by (simp add: ensure_renderer_def)
  with Some show thesis by (intro reused) simp_all
qed

lemma resync_keeps [simp]:
  "r_table (resync_display_set_config did r) = r_table r"
  "r_displays (resync_display_set_config did r) = r_displays r" "r_mgr (resync_display_set_config did r) = r_mgr r"
  by (auto simp: resync_display_set_config_def send_def Let_def split: option.split prod.split)

lemma override_keeps [simp]:
  "r_table (snd (set_renderer_wallpaper_layout_override rid layout r)) = r_table r"
  "r_displays (snd (set_renderer_wallpaper_layout_override rid layout r)) = r_displays r"
  "r_mgr (snd (set_renderer_wallpaper_layout_override rid layout r)) = r_mgr r"
  by (simp_all add: set_renderer_wallpaper_layout_override_def store_override_def Let_def
      fold_keeps [where f = resync_display_set_config])

lemma record_applied_keeps [simp]:
  "r_table (app_router (record_applied sv entry target a)) = r_table (app_router a)"
  "r_displays (app_router (record_applied sv entry target a)) = r_displays (app_router a)"
  "r_mgr (app_router (record_applied sv entry target a)) = r_mgr (app_router a)"
  by (simp_all add: record_applied_def flush_settings_def update_settings_def Let_def split: prod.split)

section \<open>An apply is a run of the router\<close>

definition fresh_spawn :: "services \<Rightarrow> router \<Rightarrow> bool" where
  "fresh_spawn sv r \<longleftrightarrow> hm_get (mg_handles (r_mgr r)) (sa_id (sv_spawn sv)) = None"

lemma runs_stop_replaced: "runs r (stop_replaced sv target r)"
  by (auto simp: stop_replaced_def Let_def intro: runs_stop_orderly)

lemma kill_handles: "hm_get (mg_handles (r_mgr (kill_renderer x r))) y = None \<longleftrightarrow> hm_get (mg_handles (r_mgr r)) y = None"
  by (auto simp: kill_renderer_def mgr_kill_def update_handle_def split: option.split)

lemma fold_kill_handles:
  "hm_get (mg_handles (r_mgr (fold kill_renderer xs r))) y = None \<longleftrightarrow> hm_get (mg_handles (r_mgr r)) y = None"
  by (induction xs arbitrary: r) (simp_all add: kill_handles)

lemma stop_replaced_fresh: "fresh_spawn sv (stop_replaced sv target r) = fresh_spawn sv r"
  by (simp add: fresh_spawn_def stop_replaced_def Let_def stop_renderers_orderly_def fold_kill_handles fold_table)

lemma runs_ensure_renderer:
  assumes "ensure_renderer sv req r = (res, r')" and "fresh_spawn sv r"
  shows "runs r r'"
proof (cases res)
  case (Inl e)
  then have "r' = r"
    using assms(1) mgr_spawn_failed [of "sv_gpus sv" "sv_spawn sv" req "r_mgr r"]
    by (auto simp: ensure_renderer_def split: option.splits sum.splits prod.splits)
  then show ?thesis by simp
next
  case (Inr rid)
  from assms(1) [unfolded Inr] show ?thesis
  proof (cases rule: ensure_renderer_cases)
    case (spawned h)
    let ?r1 = "serve (Spawned h) r"
    have "servable (Spawned h) r" using assms(2) spawned(2,3) by (simp add: fresh_spawn_def)
    moreover have "servable (RegisterRenderer rid) ?r1" using spawned(2) by (simp add: insert_handle_def)
    ultimately have "runs r (serve (RegisterRenderer rid) ?r1)" by (rule runs_trans [OF serve_runs serve_runs])
    then show ?thesis using spawned(4) by simp
  qed simp
qed

lemma runs_show_on:
  assumes "length (case target of None \<Rightarrow> hm_keys (r_displays r) | Some ids \<Rightarrow> ids) \<le> link_room (r_table r)"
  shows "runs r (show_on target rid layout r)"
proof -
  let ?r1 = "snd (set_renderer_wallpaper_layout_override rid layout r)"
  have "runs ?r1 (case target of None \<Rightarrow> relink_all_displays_to rid ?r1 | Some ids \<Rightarrow> relink_displays_to ids rid ?r1)"
    using assms by (cases target) (auto intro: runs_relink_all runs_relink)
  then show ?thesis unfolding show_on_def Let_def by (rule runs_trans [OF runs_override])
qed

lemma runs_record_applied: "runs (app_router a) (app_router (record_applied sv entry target a))"
proof -
  have "\<exists>st. app_router (record_applied sv entry target a) = (app_router a)\<lparr>r_settings := st\<rparr>"
    by (simp add: record_applied_def flush_settings_def update_settings_def Let_def split: prod.split) blast
  then show ?thesis using runs_settings by fastforce
qed

text \<open>The displays an apply is for, and the state it leaves.\<close>

definition target_displays :: "display_id list option \<Rightarrow> router \<Rightarrow> display_id list" where
  "target_displays target r =
     (case target of
        None \<Rightarrow> hm_keys (r_displays r)
      | Some ids \<Rightarrow> filter (\<lambda>d. hm_get (r_displays r) d \<noteq> None) ids)"

definition links_suffice :: "display_id list option \<Rightarrow> router \<Rightarrow> bool" where
  "links_suffice target r \<longleftrightarrow>
     length (case target of None \<Rightarrow> hm_keys (r_displays r) | Some ids \<Rightarrow> ids) \<le> link_room (r_table r)"

lemma show_on_eq:
  "show_on target rid layout r =
    (let r1 = snd (set_renderer_wallpaper_layout_override rid layout r); ds = target_displays target r1 in
     after_relink ds rid (r1\<lparr>r_table := fold (relink_one rid) ds (r_table r1)\<rparr>))"
  by (simp add: show_on_def target_displays_def relink_all_displays_to_def relink_displays_to_def relink_section_def
      Let_def split: option.split)

lemma keys_get: "hm_keys m = hm_keys n \<Longrightarrow> hm_get m k = None \<longleftrightarrow> hm_get n k = None"
  by (metis list.set_map map_of_eq_None_iff)

lemma target_displays_cong: "hm_keys (r_displays r') = hm_keys (r_displays r) \<Longrightarrow> target_displays target r' = target_displays target r"
  using keys_get [of "r_displays r'" "r_displays r"] by (auto simp: target_displays_def split: option.split)

lemma ensure_keeps:
  assumes "ensure_renderer sv req r = (Inr rid, r')"
  shows "route (r_table r') = route (r_table r)" and "link_room (r_table r') = link_room (r_table r)"
    and "r_displays r' = r_displays r"
    and "rid \<in> set (mg_live (r_mgr r)) \<longrightarrow> rid \<in> set (renderer_ids (r_table r)) \<Longrightarrow>
      find_reusable req (r_mgr r) = Some rid \<longrightarrow> rid \<in> set (mg_live (r_mgr r)) \<Longrightarrow> rid \<in> set (renderer_ids (r_table r'))"
  using assms by (cases rule: ensure_renderer_cases; simp add: register_keeps)+

lemma reusable_live:
  assumes "heap_ok r" and "find_reusable req (r_mgr r) = Some rid"
  shows "rid \<in> set (mg_live (r_mgr r))"
proof -
  obtain d h where d: "definition_for req (r_mgr r) = Inr d" "rid = rh_id h"
    "find (fits req d) (List.map_filter (hm_get (mg_handles (r_mgr r))) (mg_live (r_mgr r))) = Some h"
    using assms(2) by (auto simp: find_reusable_eq split: sum.splits)
  then have "h \<in> set (List.map_filter (hm_get (mg_handles (r_mgr r))) (mg_live (r_mgr r)))"
    by (auto simp: find_Some_iff)
  then obtain x where "x \<in> set (mg_live (r_mgr r))" "hm_get (mg_handles (r_mgr r)) x = Some h"
    by (auto simp: set_map_filter)
  moreover have "rh_id h = x" using assms(1) calculation(2) by (auto simp: heap_ok_def)
  ultimately show ?thesis using d(2) by simp
qed

lemma apply_core_success:
  assumes "apply_wallpaper_core sv wid target a = (Inr (rid, entry), a')"
  obtains d req layout r2 where "find_entry sv wid = Inr entry"
    and "ensure_renderer sv req (stop_replaced sv target (app_router a)) = (Inr rid, r2)"
    and "a' = record_applied sv entry target (a\<lparr>app_router := show_on target rid layout r2\<rparr>)"
  using assms unfolding apply_wallpaper_core_def Let_def
  by (simp split: sum.splits option.splits prod.splits) blast

lemma reachable_parts:
  assumes "router_reachable (manager_new reg) r"
  shows "links_ok r" and "heap_ok r" and "live_ok r"
  using reachable_ok [OF assms] by (simp_all add: router_ok_def heap_ok_def)

text \<open>After a successful apply, on any displays.\<close>

lemma apply_core_routes:
  assumes reach: "router_reachable (manager_new reg) (app_router a)"
    and res: "apply_wallpaper_core sv wid target a = (Inr (rid, entry), a')"
    and fresh: "fresh_spawn sv (app_router a)" and room: "links_suffice target (app_router a)"
    and live: "set (mg_live (r_mgr (app_router a))) \<subseteq> set (renderer_ids (r_table (app_router a)))"
  shows "router_reachable (manager_new reg) (app_router a')"
    and "route (r_table (app_router a')) =
      (\<lambda>d. if d \<in> set (target_displays target (app_router a)) then Some rid else route (r_table (app_router a)) d)"
    and "set (renderer_ids (r_table (app_router a'))) \<subseteq>
      {x. x = rid \<or> (\<exists>d. route (r_table (app_router a')) d = Some x)}"
    and "rid \<in> set (renderer_ids (r_table (app_router a')))"
proof -
  let ?r = "app_router a" and ?ds = "target_displays target (app_router a)"
  let ?gone = "set (renderers_fully_replaced_by target ?r)" and ?r1 = "stop_replaced sv target ?r"
  obtain req layout r2 where s: "ensure_renderer sv req ?r1 = (Inr rid, r2)"
    "a' = record_applied sv entry target (a\<lparr>app_router := show_on target rid layout r2\<rparr>)"
    using res by (rule apply_core_success)
  note ok = reachable_parts [OF reach]
  note st = stop_replaced_result [OF ok(1,3), of sv target]
  have reach1: "router_reachable (manager_new reg) ?r1" by (rule reachable_runs [OF reach runs_stop_replaced])
  have reach2: "router_reachable (manager_new reg) r2"
    by (rule reachable_runs [OF reach1 runs_ensure_renderer [OF s(1)]]) (simp add: stop_replaced_fresh fresh)
  note e = ensure_keeps [OF s(1)]
  have keys: "hm_keys (r_displays r2) = hm_keys (r_displays ?r)" using e(3) st(4) by simp
  have room2: "links_suffice target r2" using room keys e(2) st(5) by (simp add: links_suffice_def split: option.splits)
  have "set (mg_live (r_mgr ?r1)) \<subseteq> set (renderer_ids (r_table ?r1))" using live st(2,3) by auto
  then have rid: "rid \<in> set (renderer_ids (r_table r2))"
    using e(4) reusable_live [OF reachable_parts(2) [OF reach1]] by blast
  let ?r3 = "snd (set_renderer_wallpaper_layout_override rid layout r2)"
  have reach3: "router_reachable (manager_new reg) ?r3" by (rule reachable_runs [OF reach2 runs_override])
  have ds3: "target_displays target ?r3 = ?ds" using keys by (intro target_displays_cong) simp
  have shown: "show_on target rid layout r2 = after_relink ?ds rid (?r3\<lparr>r_table := fold (relink_one rid) ?ds (r_table ?r3)\<rparr>)"
    by (simp only: show_on_eq Let_def ds3)
  have D: "\<forall>d \<in> set ?ds. hm_get (r_displays ?r3) d \<noteq> None"
    using keys_get [OF keys] by (auto simp: target_displays_def map_of_eq_None_iff split: option.splits)
  have L: "length ?ds \<le> link_room (r_table ?r3)"
    using room2 keys length_filter_le [of _ "the target"]
    by (auto simp: links_suffice_def target_displays_def split: option.splits intro: order_trans [OF length_filter_le])
  have "rid \<in> set (renderer_ids (r_table ?r3))" using rid by simp
  note R = after_relink_result [OF reachable_parts(1,3) [OF reach3] this D L]
  have at: "app_router (a\<lparr>app_router := x\<rparr>) = x" for x by simp
  have kept: "route (r_table ?r1) d = route (r_table ?r) d" if "d \<notin> set ?ds" for d
  proof (cases "route (r_table ?r) d \<in> Some ` ?gone")
    case True
    then obtain x where x: "route (r_table ?r) d = Some x" "x \<in> ?gone" by auto
    then have "hm_get (r_displays ?r) d \<noteq> None" using links_ok_route [OF ok(1)] by fastforce
    then have "d \<in> set ?ds"
      using replaced_iff [OF ok(1), of x target] x
      by (auto simp: target_displays_def map_of_eq_None_iff split: option.splits)
    with that show ?thesis ..
  qed (simp add: st(1))
  show "route (r_table (app_router a')) = (\<lambda>d. if d \<in> set ?ds then Some rid else route (r_table ?r) d)"
  proof
    fix d
    have "route (r_table (app_router a')) d = (if d \<in> set ?ds then Some rid else route (r_table ?r3) d)"
      unfolding s(2) record_applied_keeps at shown R(1) by (rule refl)
    then show "route (r_table (app_router a')) d = (if d \<in> set ?ds then Some rid else route (r_table ?r) d)"
      using kept [of d] by (simp add: e(1))
  qed
  show "set (renderer_ids (r_table (app_router a'))) \<subseteq> {x. x = rid \<or> (\<exists>d. route (r_table (app_router a')) d = Some x)}"
    unfolding s(2) record_applied_keeps at shown R(2) R(1) by blast
  show "rid \<in> set (renderer_ids (r_table (app_router a')))"
    unfolding s(2) record_applied_keeps at shown R(2) using rid by simp
  have "runs r2 (show_on target rid layout r2)" using room2 by (intro runs_show_on) (simp add: links_suffice_def)
  from reachable_runs [OF reach2 runs_trans [OF this]] 
  show "router_reachable (manager_new reg) (app_router a')"
    using runs_record_applied [of "a\<lparr>app_router := show_on target rid layout r2\<rparr>" sv entry target] by (simp add: s(2))
qed

section \<open>What an apply achieves\<close>

lemma flush_inner [simp]: "st_inner (flush print dirs written renamed st) = st_inner st"
  by (auto simp: flush_def flush_begin_def flush_serialize_def flush_fail_def flush_write_def flush_rename_def Let_def
      split: option.split flush_phase.split)

lemma update_inner_simp [simp]: "st_inner (settings_update f st) = f (st_inner st)"
  by (simp add: settings_update_def update_inner_def update_mark_def Let_def)

lemma app_settings_flush [simp]: "app_settings (flush_settings sv r) = app_settings r"
  by (cases "sv_files sv") (simp add: app_settings_def flush_settings_def option.case_eq_if option.map_sel)

lemma app_settings_update: "r_settings r \<noteq> None \<Longrightarrow> app_settings (update_settings f r) = f (app_settings r)"
  by (auto simp: app_settings_def update_settings_def)

lemma remember_displays:
  "hm_get (set_displays (fold (remember_display wid) keys s)) k =
    (if k \<in> set keys
     then Some ((case hm_get (set_displays s) k of Some p \<Rightarrow> p | None \<Rightarrow> display_prefs_default)\<lparr>dp_last_wallpaper := Some wid\<rparr>)
     else hm_get (set_displays s) k)"
  by (induction keys arbitrary: s) (auto simp: remember_display_def)

lemma remember_result:
  "gs_last_wallpaper (set_global (remember wid keys s)) = Some wid"
  "k \<in> set keys \<Longrightarrow> map_option dp_last_wallpaper (hm_get (set_displays (remember wid keys s)) k) = Some (Some wid)"
  by (simp_all add: remember_def Let_def remember_displays)

lemma snapshot_ids: "set (map dn_id (snapshot_displays r)) = set (hm_keys (r_displays r))"
proof -
  have id: "dn_id (display_snapshot_of r d s) = d" for d s by (simp add: display_snapshot_of_def Let_def case_prod_beta)
  have get: "snapshot_display r d = Some sn \<Longrightarrow> dn_id sn = d \<and> hm_get (r_displays r) d \<noteq> None" for d sn
    using id by (auto simp: snapshot_display_def)
  have set: "set (snapshot_displays r) = {sn. \<exists>d \<in> set (hm_keys (r_displays r)). snapshot_display r d = Some sn}"
    by (auto simp: snapshot_displays_def set_map_filter image_iff)
  show ?thesis
  proof (intro equalityI subsetI)
    fix d assume "d \<in> set (map dn_id (snapshot_displays r))"
    then show "d \<in> set (hm_keys (r_displays r))" using get by (auto simp: set)
  next
    fix d assume d: "d \<in> set (hm_keys (r_displays r))"
    then obtain s where "hm_get (r_displays r) d = Some s" by (metis map_of_eq_None_iff list.set_map not_None_eq)
    then obtain sn where "snapshot_display r d = Some sn" by (simp add: snapshot_display_def)
    with d get show "d \<in> set (map dn_id (snapshot_displays r))" by (force simp: set)
  qed
qed

lemma settings_kept [simp]:
  "r_settings (unregister_renderer x r) = r_settings r" "r_settings (kill_renderer x r) = r_settings r"
  "r_settings (begin_unbind_ack_tracking x r) = r_settings r" "r_settings (finish_unbind_acks x r) = r_settings r"
  "r_settings (record_unbind_done p r) = r_settings r" "r_settings (resync_display_set_config d r) = r_settings r"
  "r_settings (register_renderer x r) = r_settings r" "r_settings (reconcile_buffer_flags r) = r_settings r"
  by (auto simp: unregister_renderer_def drop_renderer_def abort_timer_def kill_renderer_def begin_unbind_ack_tracking_def
      finish_unbind_acks_def record_unbind_done_def resync_display_set_config_def register_renderer_def emit_def send_def
      reconcile_buffer_flags_def dispatch_def Let_def fold_keeps [where f = sync_display] fold_keeps [where f = dispatch]
      split: option.splits prod.splits)

lemma settings_kept_orphans [simp]: "r_settings (snd (mark_orphans keep r)) = r_settings r"
  by (auto simp: mark_orphans_def schedule_orphan_grace_def kill_orphan_now_def cancel_orphan_timer_def abort_timer_def
      emit_def Let_def fold_keeps split: option.splits)

lemma settings_kept_stop [simp]: "r_settings (stop_replaced sv target r) = r_settings r"
  by (simp add: stop_replaced_def stop_renderers_orderly_def Let_def fold_keeps [where f = unregister_renderer]
      fold_keeps [where f = kill_renderer] fold_keeps [where f = begin_unbind_ack_tracking]
      fold_keeps [where f = finish_unbind_acks] fold_keeps [where f = record_unbind_done])

lemma settings_kept_relink [simp]: "r_settings (after_relink ds rid r) = r_settings r"
  by (simp add: after_relink_def Let_def emit_def fold_keeps [where f = sync_display and g = r_settings])

lemma settings_kept_override [simp]: "r_settings (snd (set_renderer_wallpaper_layout_override rid layout r)) = r_settings r"
  by (simp add: set_renderer_wallpaper_layout_override_def store_override_def Let_def emit_def
      fold_keeps [where f = resync_display_set_config and g = r_settings])

lemma settings_kept_show: "r_settings (show_on target rid layout r) = r_settings r"
  by (simp add: show_on_eq Let_def)

lemma settings_kept_ensure:
  assumes "ensure_renderer sv req r = (Inr rid, r')"
  shows "r_settings r' = r_settings r"
  using assms by (cases rule: ensure_renderer_cases) simp_all

lemma failed_apply_state:
  assumes "apply_wallpaper_core sv wid target a = (Inl e, a')"
    and "find_entry sv wid = Inr entry" and "resolve (mg_registry (r_mgr (app_router a))) (we_wp_type entry) \<noteq> None"
  shows "a' = a\<lparr>app_router := stop_replaced sv target (app_router a)\<rparr>"
proof -
  obtain d where d: "resolve (mg_registry (r_mgr (app_router a))) (we_wp_type entry) = Some d" using assms(3) by blast
  let ?r1 = "stop_replaced sv target (app_router a)"
  show ?thesis
  proof (cases "build_request sv entry (rd_name d) (app_settings ?r1)")
    case (Inl x)
    then show ?thesis using assms(1) by (simp add: apply_wallpaper_core_def assms(2) d Let_def)
  next
    case (Inr x)
    obtain req layout where b: "build_request sv entry (rd_name d) (app_settings ?r1) = Inr (req, layout)"
      using Inr by (cases x) simp
    obtain res r2 where e: "ensure_renderer sv req ?r1 = (res, r2)" by force
    with assms(1) b have res: "res = Inl e" "a' = a\<lparr>app_router := r2\<rparr>"
      by (cases res; simp add: apply_wallpaper_core_def assms(2) d Let_def)+
    have "r2 = ?r1"
      using e [unfolded res(1)] mgr_spawn_failed [of "sv_gpus sv" "sv_spawn sv" req "r_mgr ?r1"]
      by (auto simp: ensure_renderer_def split: option.splits sum.splits prod.splits)
    with res(2) show ?thesis by simp
  qed
qed

lemma replaced_by_global: "renderers_fully_replaced_by None r = renderer_ids (r_table r)"
  by (simp add: renderers_fully_replaced_by_def)

text \<open>
  C4: a successful apply shows the renderer it returns on exactly the displays it is for, leaves
  every other display alone, keeps no renderer without a display but that one, and makes the
  wallpaper the queue's current one, the global one and that of every target display.
\<close>

theorem apply_shows_wallpaper:
  assumes "router_reachable (manager_new reg) (app_router a)"
    and "apply_wallpaper_core sv wid target a = (Inr (rid, entry), a')"
    and "fresh_spawn sv (app_router a)" and "links_suffice target (app_router a)"
    and "set (mg_live (r_mgr (app_router a))) \<subseteq> set (renderer_ids (r_table (app_router a)))"
  shows "router_reachable (manager_new reg) (app_router a') \<and>
    (\<forall>d. route (r_table (app_router a')) d =
      (if d \<in> set (target_displays target (app_router a)) then Some rid else route (r_table (app_router a)) d)) \<and>
    rid \<in> set (renderer_ids (r_table (app_router a'))) \<and>
    (\<forall>x \<in> set (renderer_ids (r_table (app_router a'))). x = rid \<or> (\<exists>d. route (r_table (app_router a')) d = Some x)) \<and>
    qs_current (app_queue a') = Some (show_i64 (we_item_id entry))"
proof -
  note r = apply_core_routes [OF assms]
  have "qs_current (app_queue a') = Some (show_i64 (we_item_id entry))"
    using assms(2) by (rule apply_core_success) (simp add: record_applied_def Let_def)
  with r show ?thesis by (simp add: subset_eq)
qed

text \<open>
  C25: an apply that fails after its renderer type was found, be it that the source's script, the
  database or the spawn failed, has already stopped the renderers it was to replace: their
  displays show nothing, and a failed apply to all displays leaves no renderer at all.
\<close>

theorem failed_apply_blanks:
  assumes "router_reachable (manager_new reg) (app_router a)"
    and "apply_wallpaper_core sv wid target a = (Inl e, a')"
    and "find_entry sv wid = Inr entry" and "resolve (mg_registry (r_mgr (app_router a))) (we_wp_type entry) \<noteq> None"
  shows "(\<forall>d x. route (r_table (app_router a)) d = Some x \<longrightarrow>
      route (r_table (app_router a')) d = (if x \<in> set (renderers_fully_replaced_by target (app_router a)) then None else Some x)) \<and>
    set (mg_live (r_mgr (app_router a'))) =
      set (mg_live (r_mgr (app_router a))) - set (renderers_fully_replaced_by target (app_router a)) \<and>
    (target = None \<longrightarrow> renderer_ids (r_table (app_router a')) = [])"
proof -
  note ok = reachable_parts [OF assms(1)]
  note st = stop_replaced_result [OF ok(1,3), of sv target]
  have a': "app_router a' = stop_replaced sv target (app_router a)" using failed_apply_state [OF assms(2-4)] by simp
  have "target = None \<Longrightarrow> set (renderer_ids (r_table (stop_replaced sv target (app_router a)))) = {}"
    using st(2) by (simp add: replaced_by_global)
  then show ?thesis unfolding a' using st(1,3) by (auto simp: image_iff)
qed

text \<open>
  an apply to all displays always starts a new renderer: by the time it looks for one to
  reuse, it has stopped them all.
\<close>

theorem global_apply_spawns:
  assumes "router_reachable (manager_new reg) (app_router a)"
    and "apply_wallpaper_by_id sv wid a = (Inr (rid, entry), a')"
    and "set (mg_live (r_mgr (app_router a))) \<subseteq> set (renderer_ids (r_table (app_router a)))"
  shows "rid = sa_id (sv_spawn sv)"
proof -
  let ?r1 = "stop_replaced sv None (app_router a)"
  obtain req layout r2 where e: "ensure_renderer sv req ?r1 = (Inr rid, r2)"
    using assms(2) [unfolded apply_wallpaper_by_id_def] by (rule apply_core_success)
  note ok = reachable_parts [OF assms(1)]
  have "set (mg_live (r_mgr ?r1)) = {}"
    using stop_replaced_result(3) [OF ok(1,3), of sv None] assms(3) by (simp add: replaced_by_global)
  then have "mg_live (r_mgr ?r1) = []" by simp
  then have "find_reusable req (r_mgr ?r1) = None"
    by (simp add: find_reusable_eq List.map_filter_simps split: sum.split)
  with e show ?thesis by (cases rule: ensure_renderer_cases) simp_all
qed

text \<open>
  whatever was remembered before, after a successful apply the settings name the wallpaper as
  the last one, globally and for every display it was applied to.
\<close>

theorem applied_is_remembered:
  assumes "apply_wallpaper_core sv wid target a = (Inr (rid, entry), a')" and "r_settings (app_router a) \<noteq> None"
  shows "gs_last_wallpaper (set_global (app_settings (app_router a'))) = Some (show_i64 (we_item_id entry)) \<and>
    (\<forall>d s. (case target of None \<Rightarrow> True | Some ids \<Rightarrow> d \<in> set ids) \<and> hm_get (r_displays (app_router a')) d = Some s \<longrightarrow>
      map_option dp_last_wallpaper (display_prefs_of (app_settings (app_router a')) (settings_key_for (ds_info s))) = Some (Some (show_i64 (we_item_id entry))))"
proof -
  let ?wid = "show_i64 (we_item_id entry)"
  obtain req layout r2 where e: "ensure_renderer sv req (stop_replaced sv target (app_router a)) = (Inr rid, r2)"
    and a2: "a' = record_applied sv entry target (a\<lparr>app_router := show_on target rid layout r2\<rparr>)"
    using assms(1) by (rule apply_core_success)
  let ?A = "a\<lparr>app_router := show_on target rid layout r2\<rparr>"
  have A: "r_settings (app_router ?A) \<noteq> None" using assms(2) settings_kept_ensure [OF e] by (simp add: settings_kept_show)
  obtain A where A: "a' = record_applied sv entry target A" "r_settings (app_router A) \<noteq> None" using a2 A by blast
  note a' = A(1)
  let ?ids = "case target of None \<Rightarrow> map dn_id (snapshot_displays (app_router A)) | Some ids \<Rightarrow> ids"
  let ?keys = "map snd (display_settings_keys (app_router A) ?ids)"
  have r: "app_router a' = flush_settings sv (update_settings (remember ?wid ?keys) (app_router A))"
    by (simp add: a' record_applied_def Let_def)
  then have s: "app_settings (app_router a') = remember ?wid ?keys (app_settings (app_router A))"
    by (simp add: r app_settings_update A(2))
  have "settings_key_for (ds_info x) \<in> set ?keys"
    if t: "case target of None \<Rightarrow> True | Some ids \<Rightarrow> d \<in> set ids" and x: "hm_get (r_displays (app_router a')) d = Some x" for d x
  proof -
    have x': "hm_get (r_displays (app_router A)) d = Some x" using x by (simp add: a')
    then have "d \<in> set (hm_keys (r_displays (app_router A)))" by (force dest: map_of_SomeD)
    then have "d \<in> set ?ids" using t snapshot_ids [of "app_router A"] by (cases target) simp_all
    then have "(d, settings_key_for (ds_info x)) \<in> set (display_settings_keys (app_router A) ?ids)"
      using x' by (auto simp: display_settings_keys_def set_map_filter)
    then show ?thesis by (force simp: image_iff)
  qed
  then show ?thesis
    unfolding s display_prefs_of_def using remember_result(1) remember_result(2) [where keys = ?keys] by blast
qed

section \<open>Witnesses\<close>

definition desk_renderers :: registry where
  "desk_renderers = [(''video'', [toy_renderer ''a'' 50])]"

definition desk_entry :: wallpaper_entry where
  "desk_entry = \<lparr>we_item_id = 7, we_name = ''clip'', we_wp_type = ''video'', we_resource = ''/v/clip.mp4'', we_preview = None,
     we_description = None, we_tags = [], we_external_id = None, we_size = None, we_width = None, we_height = None,
     we_content_rating = None, we_modified_at = None, we_plugin_name = ''local'', we_library_root = ''/v''\<rparr>"

definition desk_services :: services where
  "desk_services = \<lparr>sv_entry = (\<lambda>_. Inr (Some desk_entry)), sv_extras = (\<lambda>_. Inr []), sv_properties = (\<lambda>_. Inr (None, override_default)),
     sv_entries = Inr [desk_entry], sv_keys = (\<lambda>_ _. Inr []), sv_random = (\<lambda>_ _ _. Inr (Some 7)), sv_ids = (\<lambda>_ _. Inr [7]),
     sv_item = (\<lambda>i. Inr (Some i)), sv_lower = id, sv_spawn = ex_answers, sv_gpus = None, sv_acks = [], sv_print = (\<lambda>_. None),
     sv_files = (True, True, True), sv_now = 1\<rparr>"

definition desk_display :: display_registration where
  "desk_display = \<lparr>dr_name = ''DP-1'', dr_instance_id = None, dr_width = 1920, dr_height = 1080, dr_refresh_mhz = 60000,
     dr_gpu = DRM_UNKNOWN, dr_properties = [], dr_caps = None\<rparr>"

definition desk_router :: router where
  "desk_router = (snd (snd (add_display desk_display (router_new (manager_new desk_renderers)))))
     \<lparr>r_settings := Some (load_or_default (\<lambda>_. None) NotFound None)\<rparr>"

definition desk :: app where
  "desk = \<lparr>app_router = desk_router, app_queue = queue_state_default, app_rotation = make_handle\<rparr>"

lemma desk_reachable: "router_reachable (manager_new desk_renderers) desk_router"
proof -
  let ?r = "snd (snd (add_display desk_display (router_new (manager_new desk_renderers))))"
  have "router_step (router_new (manager_new desk_renderers)) ?r"
    by (rule router_step.arrive) (simp_all add: router_new_def table_new_def link_room_def unat_gt_0)
  with router_reachable.init have "router_reachable (manager_new desk_renderers) ?r" by (rule router_reachable.step)
  moreover have "router_step ?r desk_router" unfolding desk_router_def by (rule router_step.settings)
  ultimately show ?thesis by (rule router_reachable.step)
qed

lemma desk_facts [simp]:
  "app_router desk = desk_router" "r_mgr desk_router = manager_new desk_renderers" "r_table desk_router = table_new"
  "hm_keys (r_displays desk_router) = [1]" "r_settings desk_router \<noteq> None"
  by (simp_all add: desk_def desk_router_def add_display_def router_new_def Let_def first_renderer_def table_new_def
      renderer_ids_def split: option.split)

lemma desk_services_simps [simp]:
  "sv_spawn desk_services = ex_answers" "sv_extras desk_services e = Inr []" "sv_gpus desk_services = None"
  "sv_properties desk_services i = Inr (None, override_default)"
  by (simp_all add: desk_services_def)

lemma desk_fresh: "fresh_spawn desk_services desk_router" "links_suffice None desk_router"
proof -
  have "length (r_displays desk_router) = 1" using arg_cong [where f = length, OF desk_facts(4)] unfolding length_map by simp
  then show "fresh_spawn desk_services desk_router" "links_suffice None desk_router"
    by (simp_all add: fresh_spawn_def links_suffice_def manager_new_def table_new_def link_room_def Suc_le_eq unat_gt_0)
qed

lemma desk_entry_found: "find_entry desk_services (show_i64 7) = Inr desk_entry"
  by (simp add: find_entry_def desk_services_def parse_show_i64)

lemma desk_resolves: "resolve desk_renderers ''video'' = Some (toy_renderer ''a'' 50)"
  by (simp add: resolve_def desk_renderers_def)

lemma desk_stop: "stop_replaced desk_services None desk_router = desk_router"
  by (simp add: stop_replaced_def renderers_fully_replaced_by_def table_new_def renderer_ids_def)

lemma desk_ensure: "we_wp_type desk_entry = ''video''"
    "sp_wp_type req = ''video'' \<Longrightarrow> sp_renderer_name req = None \<Longrightarrow> \<exists>r2. ensure_renderer desk_services req desk_router = (Inr ''r1'', r2)"
proof -
  show "we_wp_type desk_entry = ''video''" by (simp add: desk_entry_def)
  assume req: "sp_wp_type req = ''video''" "sp_renderer_name req = None"
  let ?m = "manager_new desk_renderers"
  have none: "find_reusable req ?m = None"
    by (simp add: find_reusable_eq manager_new_def List.map_filter_simps split: sum.split)
  have "fst (mgr_spawn None ex_answers req ?m) = Inr ''r1''"
    by (simp add: mgr_spawn_def ex_answers_def definition_for_def req manager_new_def desk_resolves
        start_child_def init_handshake_def Let_def)
  with none show "\<exists>r2. ensure_renderer desk_services req desk_router = (Inr ''r1'', r2)"
    by (cases "mgr_spawn None ex_answers req ?m") (simp add: ensure_renderer_def)
qed

lemma desk_applies: "\<exists>a'. apply_wallpaper_core desk_services (show_i64 7) None desk = (Inr (''r1'', desk_entry), a')"
proof -
  obtain req layout where b: "build_request desk_services desk_entry ''a'' (app_settings desk_router) = Inr (req, layout)"
    "sp_wp_type req = ''video''" "sp_renderer_name req = None"
    by (simp add: build_request_def desk_ensure(1))
  obtain r2 where "ensure_renderer desk_services req desk_router = (Inr ''r1'', r2)"
    using desk_ensure(2) [OF b(2,3)] by blast
  then show ?thesis
    by (simp add: apply_wallpaper_core_def desk_entry_found desk_ensure(1) manager_new_def desk_resolves desk_stop Let_def b(1) toy_renderer_def)
qed

theorem apply_shows_wallpaper_witness:
  "route (r_table (app_router (snd (apply_wallpaper_core desk_services (show_i64 7) None desk)))) 1 = Some ''r1''"
proof -
  obtain a' where a: "apply_wallpaper_core desk_services (show_i64 7) None desk = (Inr (''r1'', desk_entry), a')"
    using desk_applies by blast
  have "router_reachable (manager_new desk_renderers) (app_router desk)" by (simp add: desk_reachable)
  from apply_shows_wallpaper [OF this a] have "route (r_table (app_router a')) 1 = Some ''r1''"
    by (simp add: desk_fresh manager_new_def target_displays_def)
  with a show ?thesis by simp
qed

theorem failed_apply_blanks_witness:
  "renderer_ids (r_table (app_router (snd (apply_wallpaper_core (desk_services\<lparr>sv_extras := \<lambda>_. Inl (Internal ''script'')\<rparr>)
     (show_i64 7) None desk)))) = []"
proof -
  let ?sv = "desk_services\<lparr>sv_extras := \<lambda>_. Inl (Internal ''script'')\<rparr>"
  have e: "find_entry ?sv (show_i64 7) = Inr desk_entry"
    using desk_entry_found by (simp add: find_entry_def desk_services_def)
  have "fst (apply_wallpaper_core ?sv (show_i64 7) None desk) = Inl (Internal ''script'')"
    by (simp add: apply_wallpaper_core_def e desk_ensure(1) manager_new_def desk_resolves Let_def build_request_def)
  then have a: "apply_wallpaper_core ?sv (show_i64 7) None desk =
      (Inl (Internal ''script''), snd (apply_wallpaper_core ?sv (show_i64 7) None desk))" by (metis prod.collapse)
  have "router_reachable (manager_new desk_renderers) (app_router desk)" by (simp add: desk_reachable)
  from failed_apply_blanks [OF this a e] show ?thesis by (simp add: desk_ensure(1) manager_new_def desk_resolves)
qed

theorem global_apply_spawns_witness:
  "\<exists>a'. apply_wallpaper_by_id desk_services (show_i64 7) desk = (Inr (sa_id ex_answers, desk_entry), a')"
proof -
  obtain a' where a: "apply_wallpaper_by_id desk_services (show_i64 7) desk = (Inr (''r1'', desk_entry), a')"
    using desk_applies by (auto simp: apply_wallpaper_by_id_def)
  have "router_reachable (manager_new desk_renderers) (app_router desk)" by (simp add: desk_reachable)
  from global_apply_spawns [OF this a] a show ?thesis by (simp add: manager_new_def)
qed

theorem applied_is_remembered_witness:
  "gs_last_wallpaper (set_global (app_settings (app_router
     (snd (apply_wallpaper_core desk_services (show_i64 7) None desk))))) = Some (show_i64 (we_item_id desk_entry))"
proof -
  obtain a' where a: "apply_wallpaper_core desk_services (show_i64 7) None desk = (Inr (''r1'', desk_entry), a')"
    using desk_applies by blast
  then show ?thesis using applied_is_remembered [OF a] desk_facts(5) by simp
qed

end
