(* ===== verification/Stepping.thy ===== *)
theory Stepping
  imports Control "HOL-Library.Sublist"
begin

text \<open>
  The rest of \<open>src/control.rs\<close>: picking the next wallpaper of the queue by its mode, the mode and
  the cadence with what of them survives a restart, the rotator's tick, and the list helpers of
  the library commands. The list the sequential mode walks is that of \<open>wallpaper/sort.rs\<close>.
\<close>

section \<open>The ordered list\<close>

definition in_keys :: "(string \<times> string) list \<Rightarrow> wallpaper_entry \<Rightarrow> bool" where
  "in_keys keys e =
     (case relative_under_root (we_library_root e) (we_resource e) of
        None \<Rightarrow> False
      | Some rel \<Rightarrow> (we_library_root e, rel) \<in> set keys)"

definition ordered_entry_ids ::
  "services \<Rightarrow> filter_rule list \<Rightarrow> filter_logic list \<Rightarrow> sort_rule list \<Rightarrow> app_error + string list" where
  "ordered_entry_ids sv filters logics sorts =
     (case sv_entries sv of
        Inl e \<Rightarrow> Inl e
      | Inr all \<Rightarrow>
          (case (if filters = [] then Inr None else map_sum id Some (sv_keys sv filters logics)) of
             Inl e \<Rightarrow> Inl e
           | Inr matched \<Rightarrow>
               (let filtered = (case matched of None \<Rightarrow> all | Some keys \<Rightarrow> filter (in_keys keys) all);
                    sorted = (if sorts = [] then filtered else apply_wallpaper_sorts (sv_lower sv) sorts filtered)
                in Inr (map (\<lambda>e. show_i64 (we_item_id e)) sorted))))"

section \<open>Picking\<close>

text \<open>
  The index arithmetic is in \<open>i64\<close>, on a list that fits in memory and a 32-bit step, so it cannot
  overflow; \<open>rem_euclid\<close> by a positive length is \<open>mod\<close>.
\<close>

definition next_index :: "nat \<Rightarrow> nat option \<Rightarrow> i32 \<Rightarrow> nat" where
  "next_index len cur delta =
     (case cur of
        Some i \<Rightarrow> nat ((int i + sint delta) mod int len)
      | None \<Rightarrow> if 0 \<le> sint delta then 0 else len - 1)"

definition step_sequential ::
  "services \<Rightarrow> i32 \<Rightarrow> filter_rule list \<Rightarrow> filter_logic list \<Rightarrow> sort_rule list \<Rightarrow> queue_state \<Rightarrow> app_error + string" where
  "step_sequential sv delta filters logics sorts q =
     (case ordered_entry_ids sv filters logics sorts of
        Inl e \<Rightarrow> Inl e
      | Inr ordered \<Rightarrow>
          if ordered = [] then Inl (FailedPrecondition ''queue is empty'')
          else (let cur = Option.bind (qs_current q) (\<lambda>c. position (\<lambda>i. i = c) ordered)
                in Inr (ordered ! next_index (length ordered) cur delta)))"

text \<open>
  A shuffled step has two sections on the queue with database calls before and between them. The
  second sections, with \<open>None\<close> for a panic of the index operation.
\<close>

definition shuffle_start :: "u64 \<Rightarrow> i64 list \<Rightarrow> queue_state \<Rightarrow> (i64 \<times> queue_state) option" where
  "shuffle_start now ids q =
     (case build_shuffle_round now ids (qs_last_db_id q) 0 q of
        None \<Rightarrow> None
      | Some q1 \<Rightarrow> map_option (\<lambda>chosen. (chosen, q1\<lparr>qs_shuffle_pos := 0\<rparr>)) (vec_get (qs_shuffle_round q1) 0))"

definition shuffle_advance :: "u64 \<Rightarrow> i32 \<Rightarrow> queue_state \<Rightarrow> (i64 \<times> queue_state) option" where
  "shuffle_advance now delta q =
     (let len = length (qs_shuffle_round q);
          raw = int (qs_shuffle_pos q) + sint delta;
          moved = (if int len \<le> raw \<or> raw < 0 then
                     (let t = (if int len \<le> raw then 0 else len - 1) in
                      map_option (\<lambda>q1. q1\<lparr>qs_shuffle_pos := t\<rparr>)
                        (build_shuffle_round now (qs_shuffle_round q) (qs_last_db_id q) t q))
                   else Some (q\<lparr>qs_shuffle_pos := nat raw\<rparr>))
      in case moved of
           None \<Rightarrow> None
         | Some q1 \<Rightarrow> map_option (\<lambda>chosen. (chosen, q1)) (vec_get (qs_shuffle_round q1) (qs_shuffle_pos q1)))"

definition picked_row :: "services \<Rightarrow> i64 \<Rightarrow> app_error + i64" where
  "picked_row sv chosen =
     (case sv_item sv chosen of
        Inl e \<Rightarrow> Inl e
      | Inr None \<Rightarrow> Inl (FailedPrecondition ''queue is empty'')
      | Inr (Some i) \<Rightarrow> Inr i)"

text \<open>\<open>between\<close> is what other tasks do to the queue from the first section to the second.\<close>

definition step_shuffle ::
  "services \<Rightarrow> filter_rule list \<Rightarrow> filter_logic list \<Rightarrow> i32 \<Rightarrow> (queue_state \<Rightarrow> queue_state) \<Rightarrow> queue_state \<Rightarrow>
     ((app_error + i64) \<times> queue_state) option" where
  "step_shuffle sv filters logics delta between q =
     (if qs_shuffle_round q = [] then
        (case sv_ids sv filters logics of
           Inl e \<Rightarrow> Some (Inl e, between q)
         | Inr ids \<Rightarrow>
             if ids = [] then Some (Inl (FailedPrecondition ''queue is empty''), between q)
             else map_option (\<lambda>(chosen, q1). (picked_row sv chosen, q1)) (shuffle_start (sv_now sv) ids (between q)))
      else map_option (\<lambda>(chosen, q1). (picked_row sv chosen, q1)) (shuffle_advance (sv_now sv) delta (between q)))"

definition step_pick ::
  "services \<Rightarrow> i32 \<Rightarrow> (queue_state \<Rightarrow> queue_state) \<Rightarrow> app \<Rightarrow> ((app_error + string) \<times> app) option" where
  "step_pick sv delta between a =
     (let g = set_global (app_settings (app_router a));
          (filters, logics) = wallpaper_queue_filter g;
          q = app_queue a
      in case qs_mode q of
           Sequential \<Rightarrow> Some (step_sequential sv delta filters logics (gs_wallpaper_sorts g) q, a)
         | Random \<Rightarrow>
             Some ((case sv_random sv filters logics (qs_last_db_id q) of
                      Inl e \<Rightarrow> Inl e
                    | Inr None \<Rightarrow> Inl (FailedPrecondition ''queue is empty'')
                    | Inr (Some i) \<Rightarrow> Inr (show_i64 i)), a)
         | Shuffle \<Rightarrow>
             map_option (\<lambda>(res, q1). (map_sum id show_i64 res, a\<lparr>app_queue := q1\<rparr>))
               (step_shuffle sv filters logics delta between q))"

text \<open>A step applies what it picked, to all displays, and restarts the rotator's interval.\<close>

definition step :: "services \<Rightarrow> i32 \<Rightarrow> (queue_state \<Rightarrow> queue_state) \<Rightarrow> app \<Rightarrow> ((app_error + string) \<times> app) option" where
  "step sv delta between a =
     (case step_pick sv delta between a of
        None \<Rightarrow> None
      | Some (Inl e, a1) \<Rightarrow> Some (Inl e, a1)
      | Some (Inr i, a1) \<Rightarrow>
          (case apply_wallpaper_by_id sv i a1 of
             (Inl e, a2) \<Rightarrow> Some (Inl e, a2)
           | (Inr _, a2) \<Rightarrow> Some (Inr i, a2\<lparr>app_rotation := kick (app_rotation a2)\<rparr>)))"

section \<open>Mode, cadence, restart\<close>

definition control_set_mode :: "mode \<Rightarrow> app \<Rightarrow> app" where
  "control_set_mode m a =
     a\<lparr>app_queue := set_mode m (app_queue a),
       app_router := update_settings (\<lambda>s. s\<lparr>set_global := (set_global s)\<lparr>gs_queue_mode := mode_as_str m\<rparr>\<rparr>) (app_router a)\<rparr>"

definition set_rotation_interval :: "u32 \<Rightarrow> app \<Rightarrow> app" where
  "set_rotation_interval secs a =
     a\<lparr>app_rotation := set_interval secs (app_rotation a),
       app_router := update_settings (\<lambda>s. s\<lparr>set_global := (set_global s)\<lparr>gs_rotation_secs := secs\<rparr>\<rparr>) (app_router a)\<rparr>"

definition set_shuffle :: "bool \<Rightarrow> app \<Rightarrow> app" where
  "set_shuffle on a = control_set_mode (if on then Shuffle else Sequential) a"

record queue_status =
  qu_active_id :: "i64 option"
  qu_mode :: string
  qu_interval_secs :: u32
  qu_current :: "string option"
  qu_position :: "u32 option"
  qu_count :: u32
  qu_is_smart :: bool

text \<open>\<open>counted\<close> is the database's answer to the count of the filter.\<close>

definition queue_status_of :: "(filter_rule list \<Rightarrow> filter_logic list \<Rightarrow> app_error + u64) \<Rightarrow> app \<Rightarrow> queue_status" where
  "queue_status_of counted a =
     (let g = set_global (app_settings (app_router a));
          (filters, logics) = wallpaper_queue_filter g
      in \<lparr>qu_active_id = None, qu_mode = mode_as_str (qs_mode (app_queue a)), qu_interval_secs = interval (app_rotation a),
          qu_current = qs_current (app_queue a), qu_position = None,
          qu_count = (case counted filters logics of Inl _ \<Rightarrow> 0 | Inr n \<Rightarrow> ucast n),
          qu_is_smart = (fs_filters (gs_wallpaper_filter g) \<noteq> [])\<rparr>)"

definition run_restore :: "app \<Rightarrow> app" where
  "run_restore a =
     (let g = set_global (app_settings (app_router a));
          a1 = (case mode_from_str (gs_queue_mode g) of
                  Some m \<Rightarrow> a\<lparr>app_queue := set_mode m (app_queue a)\<rparr>
                | None \<Rightarrow> a)
      in if 0 < gs_rotation_secs g then a1\<lparr>app_rotation := set_interval (gs_rotation_secs g) (app_rotation a1)\<rparr> else a1)"

definition pause_all :: "app \<Rightarrow> app" where
  "pause_all a = a\<lparr>app_router := set_manual_pause True (app_router a)\<rparr>"

definition resume_all :: "app \<Rightarrow> app" where
  "resume_all a = a\<lparr>app_router := set_manual_pause False (app_router a)\<rparr>"

text \<open>After the sources changed the shuffle round is dropped, so that the next one has the new items.\<close>

definition wallpaper_db_changed :: "app \<Rightarrow> app" where
  "wallpaper_db_changed a = a\<lparr>app_queue := reset_shuffle_round (app_queue a)\<rparr>"

section \<open>The rotator\<close>

text \<open>
  \<open>owned\<close> are the displays a playlist drives. The tick is for the others, and only when the
  cadence has not been switched off while it slept.
\<close>

definition rotator_tick :: "services \<Rightarrow> display_id list \<Rightarrow> (queue_state \<Rightarrow> queue_state) \<Rightarrow> app \<Rightarrow> app option" where
  "rotator_tick sv owned between a =
     (if interval (app_rotation a) = 0 then Some a
      else (let unowned = filter (\<lambda>d. d \<notin> set owned) (map dn_id (snapshot_displays (app_router a)))
            in if unowned = [] then Some a
               else (case step_pick sv 1 between a of
                       None \<Rightarrow> None
                     | Some (Inl _, a1) \<Rightarrow> Some a1
                     | Some (Inr i, a1) \<Rightarrow> Some (snd (apply_wallpaper_to_displays sv i unowned a1)))))"

section \<open>Libraries\<close>

text \<open>\<open>canonical\<close> is \<open>fs::canonicalize\<close>.\<close>

fun dedup_loop :: "(string \<Rightarrow> string option) \<Rightarrow> string set \<Rightarrow> string list \<Rightarrow> string list" where
  "dedup_loop canonical seen [] = []"
| "dedup_loop canonical seen (p # ps) =
     (let c = (case canonical p of Some c \<Rightarrow> c | None \<Rightarrow> p) in
      if c \<in> seen then dedup_loop canonical seen ps else p # dedup_loop canonical (insert c seen) ps)"

definition dedup_paths_by_canonical :: "(string \<Rightarrow> string option) \<Rightarrow> string list \<Rightarrow> string list" where
  "dedup_paths_by_canonical canonical paths = dedup_loop canonical {} paths"

section \<open>Stepping in order\<close>

lemma next_index_less: "0 < len \<Longrightarrow> cur = None \<or> (\<exists>i. cur = Some i) \<Longrightarrow> next_index len cur delta < len"
  by (auto simp: next_index_def nat_less_iff split: option.split)

lemma position_nth: "distinct xs \<Longrightarrow> i < length xs \<Longrightarrow> position (\<lambda>x. x = xs ! i) xs = Some i"
  using position_Some [of "\<lambda>x. x = xs ! i" xs] position_None [of "\<lambda>x. x = xs ! i" xs]
  by (cases "position (\<lambda>x. x = xs ! i) xs") (auto simp: nth_eq_iff_index_eq)

lemma step_at:
  assumes "ordered_entry_ids sv filters logics sorts = Inr ids" and "distinct ids" and "i < length ids"
    and "qs_current q = Some (ids ! i)"
  shows "step_sequential sv delta filters logics sorts q = Inr (ids ! nat ((int i + sint delta) mod int (length ids)))"
proof -
  have "ids \<noteq> []" using assms(3) by (cases ids) simp_all
  then show ?thesis using assms by (simp add: step_sequential_def next_index_def position_nth Let_def)
qed

text \<open>
  C35: in sequential mode a step goes that many places along the ordered list and around its end,
  and the opposite step comes back; a wallpaper that is no longer in the list is followed by the
  first, going forward, or the last, going back.
\<close>

theorem sequential_step_and_back:
  assumes "ordered_entry_ids sv filters logics sorts = Inr ids" and "distinct ids" and "ids \<noteq> []"
  shows "(\<forall>i < length ids. \<forall>delta. qs_current q = Some (ids ! i) \<longrightarrow>
      (\<exists>next. step_sequential sv delta filters logics sorts q = Inr next \<and>
        next = ids ! nat ((int i + sint delta) mod int (length ids)) \<and>
        (sint delta \<noteq> - (2 ^ 31) \<longrightarrow>
          step_sequential sv (- delta) filters logics sorts (q\<lparr>qs_current := Some next\<rparr>) = Inr (ids ! i)))) \<and>
    (qs_current q \<notin> Some ` set ids \<longrightarrow>
      step_sequential sv delta filters logics sorts q = Inr (if 0 \<le> sint delta then hd ids else last ids))"
proof (intro conjI allI impI)
  fix i and delta :: i32
  assume i: "i < length ids" and q: "qs_current q = Some (ids ! i)"
  let ?n = "int (length ids)" and ?j = "nat ((int i + sint delta) mod int (length ids))"
  have pos: "0 < ?n" using i by linarith
  have j: "?j < length ids" using pos by (simp add: nat_less_iff)
  have "step_sequential sv (- delta) filters logics sorts (q\<lparr>qs_current := Some (ids ! ?j)\<rparr>) = Inr (ids ! i)"
    if "sint delta \<noteq> - (2 ^ 31)"
  proof -
    have s: "sint (- delta) = - sint delta" using that sint_ge [of delta] sint_lt [of delta]
      by (simp add: sint_word_ariths signed_take_bit_int_eq_self)
    have "int ?j = (int i + sint delta) mod ?n" using pos by simp
    then have "nat ((int ?j + sint (- delta)) mod ?n) = i" using i by (simp add: s mod_diff_left_eq mod_simps)
    then show ?thesis using step_at [OF assms(1,2) j, of "q\<lparr>qs_current := Some (ids ! ?j)\<rparr>" "- delta"] by simp
  qed
  then show "\<exists>next. step_sequential sv delta filters logics sorts q = Inr next \<and>
        next = ids ! nat ((int i + sint delta) mod int (length ids)) \<and>
        (sint delta \<noteq> - (2 ^ 31) \<longrightarrow>
          step_sequential sv (- delta) filters logics sorts (q\<lparr>qs_current := Some next\<rparr>) = Inr (ids ! i))"
    using step_at [OF assms(1,2) i q] by blast
next
  assume "qs_current q \<notin> Some ` set ids"
  then have "Option.bind (qs_current q) (\<lambda>c. position (\<lambda>i. i = c) ids) = None"
    by (cases "qs_current q") (auto simp: position_None)
  then show "step_sequential sv delta filters logics sorts q = Inr (if 0 \<le> sint delta then hd ids else last ids)"
    using assms(3) by (simp add: step_sequential_def assms(1) next_index_def hd_conv_nth last_conv_nth)
qed

section \<open>Shuffling\<close>

lemma shuffle_start_ok:
  assumes "ids \<noteq> []"
  shows "shuffle_start now ids q \<noteq> None"
proof -
  obtain r x where "build_shuffle_round now ids (qs_last_db_id q) 0 q = Some (q\<lparr>qs_shuffle_round := r, qs_rng := x\<rparr>)"
    and "mset r = mset ids"
    by (rule build_shuffle_round_ok)
  moreover from this(2) have "length r = length ids" by (rule mset_eq_length)
  ultimately show ?thesis using assms by (auto simp: shuffle_start_def vec_get_def)
qed

lemma shuffle_advance_ok: "shuffle_advance now delta q = None \<longleftrightarrow> qs_shuffle_round q = []"
proof -
  let ?len = "length (qs_shuffle_round q)" and ?raw = "int (qs_shuffle_pos q) + sint delta"
  show ?thesis
  proof (cases "int ?len \<le> ?raw \<or> ?raw < 0")
    case True
    let ?t = "if int ?len \<le> ?raw then 0 else ?len - 1"
    obtain r x where b: "build_shuffle_round now (qs_shuffle_round q) (qs_last_db_id q) ?t q =
        Some (q\<lparr>qs_shuffle_round := r, qs_rng := x\<rparr>)" and "mset r = mset (qs_shuffle_round q)"
      by (rule build_shuffle_round_ok)
    then have "length r = ?len" by (metis mset_eq_length)
    moreover have "?t < ?len \<longleftrightarrow> qs_shuffle_round q \<noteq> []" by (cases "qs_shuffle_round q") auto
    ultimately show ?thesis using True b by (auto simp: shuffle_advance_def Let_def vec_get_def)
  next
    case False
    then show ?thesis by (auto simp: shuffle_advance_def Let_def vec_get_def)
  qed
qed

text \<open>
  C28: a shuffled step panics exactly when the round was there when it looked and has been dropped
  by the time it takes the lock again, which a rescan or a change of the mode does.
\<close>

theorem shuffle_step_panics:
  "step_shuffle sv filters logics delta between q = None \<longleftrightarrow>
     qs_shuffle_round q \<noteq> [] \<and> qs_shuffle_round (between q) = []"
  using shuffle_start_ok [of "projr (sv_ids sv filters logics)" "sv_now sv" "between q"]
    shuffle_advance_ok [of "sv_now sv" delta "between q"]
  by (auto simp: step_shuffle_def split: sum.split)

section \<open>A restart\<close>

text \<open>
  the mode and the cadence set before a restart are the ones in force after it, once the
  settings are read back; a cadence of zero, which means off, too.
\<close>

theorem restart_restores:
  assumes "r_settings (app_router a) \<noteq> None"
    and "app_settings (app_router b) = app_settings (app_router (set_rotation_interval secs (control_set_mode m a)))"
    and "app_queue b = queue_state_default" and "app_rotation b = make_handle"
  shows "qs_mode (app_queue (run_restore b)) = m \<and> interval (app_rotation (run_restore b)) = secs"
proof -
  have g: "set_global (app_settings (app_router b)) =
      (set_global (app_settings (app_router a)))\<lparr>gs_queue_mode := mode_as_str m, gs_rotation_secs := secs\<rparr>"
    using assms(1) unfolding assms(2)
    by (auto simp: set_rotation_interval_def control_set_mode_def app_settings_def update_settings_def)
  have "interval make_handle = 0" "rh_receivers make_handle = 1" by (simp_all add: make_handle_def interval_def)
  then show ?thesis
    by (auto simp: run_restore_def Let_def g assms(3,4) set_mode_def queue_state_default_def interval_set_interval word_gt_0)
qed

section \<open>Applies keep to their displays\<close>

text \<open>Whatever becomes of it, an apply to some displays leaves the route of every other one.\<close>

lemma apply_confined:
  assumes reach: "router_reachable (manager_new reg) (app_router a)"
    and res: "apply_wallpaper_core sv wid (Some ts) a = (res, a')" and d: "d \<notin> set ts"
    and fresh: "fresh_spawn sv (app_router a)" and room: "links_suffice (Some ts) (app_router a)"
    and live: "set (mg_live (r_mgr (app_router a))) \<subseteq> set (renderer_ids (r_table (app_router a)))"
  shows "route (r_table (app_router a')) d = route (r_table (app_router a)) d"
proof (cases res)
  case (Inr x)
  obtain rid entry where "res = Inr (rid, entry)" using Inr by (cases x) simp
  from apply_core_routes(2) [OF reach res [unfolded this] fresh room live] d show ?thesis
    by (simp add: target_displays_def)
next
  case (Inl e)
  note ok = reachable_parts [OF reach]
  have "app_router a' = app_router a \<or> app_router a' = stop_replaced sv (Some ts) (app_router a)"
  proof (cases "find_entry sv wid")
    case (Inr entry)
    then show ?thesis
      using failed_apply_state [OF res [unfolded Inl] Inr] res Inl
      by (cases "resolve (mg_registry (r_mgr (app_router a))) (we_wp_type entry)") (auto simp: apply_wallpaper_core_def)
  qed (use res in \<open>simp add: apply_wallpaper_core_def\<close>)
  moreover have "route (r_table (app_router a)) d \<notin> Some ` set (renderers_fully_replaced_by (Some ts) (app_router a))"
    using replaced_iff [OF ok(1), of _ "Some ts"] d by auto
  ultimately show ?thesis using stop_replaced_result(1) [OF ok(1,3), of sv "Some ts"] by auto
qed

lemma step_pick_router: "step_pick sv delta between a = Some (res, a1) \<Longrightarrow> app_router a1 = app_router a"
  by (auto simp: step_pick_def Let_def split: mode.splits prod.splits)

text \<open>
  C22: the tick of the queue's rotator never changes what a display driven by a playlist shows,
  whether the step succeeds or fails.
\<close>

theorem rotator_leaves_owned:
  assumes "router_reachable (manager_new reg) (app_router a)" and "rotator_tick sv owned between a = Some a'"
    and "d \<in> set owned" and "fresh_spawn sv (app_router a)"
    and "length (r_displays (app_router a)) \<le> link_room (r_table (app_router a))"
    and "set (mg_live (r_mgr (app_router a))) \<subseteq> set (renderer_ids (r_table (app_router a)))"
  shows "route (r_table (app_router a')) d = route (r_table (app_router a)) d"
proof -
  define un where "un = filter (\<lambda>d. d \<notin> set owned) (map dn_id (snapshot_displays (app_router a)))"
  note tick = assms(2) [unfolded rotator_tick_def Let_def, folded un_def]
  consider "a' = a" | i a1 where "step_pick sv 1 between a = Some (Inl i, a1)" "a' = a1"
    | i a1 where "step_pick sv 1 between a = Some (Inr i, a1)" "a' = snd (apply_wallpaper_to_displays sv i un a1)" "un \<noteq> []"
  proof (cases "interval (app_rotation a) = 0 \<or> un = []")
    case True
    then have "a' = a" using tick by (auto split: if_splits)
    then show thesis by (rule that(1))
  next
    case False
    obtain res a1 where p: "step_pick sv 1 between a = Some (res, a1)"
      using False tick by (cases "step_pick sv 1 between a") auto
    have "(case res of Inl _ \<Rightarrow> Some a1 | Inr i \<Rightarrow> Some (snd (apply_wallpaper_to_displays sv i un a1))) = Some a'"
      using False tick by (simp add: p)
    then show thesis using that(2) that(3) p False by (cases res) simp_all
  qed
  then show ?thesis
  proof cases
    case (3 i a1)
    have r: "app_router a1 = app_router a" using 3(1) by (rule step_pick_router)
    obtain res where ap: "apply_wallpaper_core sv i (Some un) a1 = (res, a')"
      using 3(2,3) by (cases "apply_wallpaper_core sv i (Some un) a1") (simp add: apply_wallpaper_to_displays_def)
    have "length (snapshot_displays (app_router a)) \<le> length (r_displays (app_router a))"
      by (simp add: snapshot_displays_def length_map_filter_le [THEN order_trans])
    then have "length un \<le> link_room (r_table (app_router a))"
      using assms(5) length_filter_le [of "\<lambda>d. d \<notin> set owned" "map dn_id (snapshot_displays (app_router a))"]
      unfolding un_def length_map by linarith
    then have "links_suffice (Some un) (app_router a1)" by (simp add: links_suffice_def r)
    moreover have "d \<notin> set un" using assms(3) by (simp add: un_def)
    ultimately show ?thesis
      using apply_confined [of reg a1 sv i un res a' d] ap assms by (simp add: r)
  qed (simp_all add: step_pick_router)
qed

section \<open>File addresses\<close>

text \<open>Reading percent escapes back, as the receiver of an address does.\<close>

definition hex_value :: "char \<Rightarrow> nat option" where
  "hex_value c =
     (let n = of_char c :: nat in
      if n \<in> {48..57} then Some (n - 48) else if n \<in> {65..70} then Some (n - 55) else None)"

fun percent_decode :: "string \<Rightarrow> string option" where
  "percent_decode [] = Some []"
| "percent_decode (c # s) =
     (if c = CHR ''%'' then
        (case s of
           a # b # s' \<Rightarrow>
             (case (hex_value a, hex_value b) of
                (Some x, Some y) \<Rightarrow> map_option ((#) (char_of (16 * x + y))) (percent_decode s')
              | _ \<Rightarrow> None)
         | _ \<Rightarrow> None)
      else map_option ((#) c) (percent_decode s))"

lemma hex_value_upper: "d < 16 \<Longrightarrow> hex_value (upper_hex d) = Some d"
  by (auto simp: hex_value_def upper_hex_def Let_def of_char_of)

lemma of_char_digits: "(of_char c :: nat) div 16 < 16"
proof -
  have "(of_char c :: nat) mod 256 < 256" by simp
  then have "(of_char c :: nat) < 16 * 16" by simp
  then show ?thesis by (rule less_mult_imp_div_less)
qed

lemma percent_decode_char: "percent_decode (uri_char c @ s) = map_option ((#) c) (percent_decode s)"
proof (cases "uri_safe c")
  case True
  then have "c \<noteq> CHR ''%''" by (auto simp: uri_safe_def)
  with True show ?thesis by (simp add: uri_char_def)
qed (simp add: uri_char_def hex_value_upper of_char_digits Let_def)

lemma upper_hex_safe: "d < 16 \<Longrightarrow> uri_safe (upper_hex d)"
  by (auto simp: uri_safe_def upper_hex_def Let_def of_char_of)

lemma uri_char_set: "c \<in> set (uri_char x) \<Longrightarrow> uri_safe c \<or> c = CHR ''%''"
  using upper_hex_safe of_char_digits [of x] by (auto simp: uri_char_def Let_def split: if_splits)

text \<open>
  the address handed to the portal stands for exactly the path: taking the percent escapes
  back yields it, whatever bytes it has, and nothing but unreserved characters and escapes is in it.
\<close>

theorem file_uri_round_trip:
  "\<exists>rest. file_uri_from_abs_path path = ''file://'' @ rest \<and> percent_decode rest = Some path \<and>
     (\<forall>c \<in> set rest. uri_safe c \<or> c = CHR ''%'')"
proof -
  have "percent_decode (concat (map uri_char path)) = Some path"
    by (induction path) (simp_all add: percent_decode_char)
  moreover have "\<forall>c \<in> set (concat (map uri_char path)). uri_safe c \<or> c = CHR ''%''"
    using uri_char_set by fastforce
  ultimately show ?thesis unfolding file_uri_from_abs_path_def by blast
qed

section \<open>Directories\<close>

lemma dedup_loop_result:
  fixes canonical :: "string \<Rightarrow> string option"
  defines "resolved p \<equiv> case canonical p of Some c \<Rightarrow> c | None \<Rightarrow> p"
  shows "distinct (map resolved (dedup_loop canonical seen ps))"
    and "resolved ` set (dedup_loop canonical seen ps) = resolved ` set ps - seen"
    and "subseq (dedup_loop canonical seen ps) ps"
proof (induction ps arbitrary: seen)
  case (Cons p ps)
  { case 1 then show ?case using Cons(1,2) by (auto simp: resolved_def Let_def) }
  { case 2 then show ?case using Cons(2) by (auto simp: resolved_def Let_def) }
  { case 3 then show ?case using Cons(3) by (auto simp: Let_def) }
qed simp_all

text \<open>
  of several paths to one directory, the first is kept: no directory is scanned twice and none
  is left out, and the order stays.
\<close>

theorem each_directory_once:
  fixes canonical :: "string \<Rightarrow> string option"
  defines "resolved \<equiv> \<lambda>p. case canonical p of Some c \<Rightarrow> c | None \<Rightarrow> p"
  shows "distinct (map resolved (dedup_paths_by_canonical canonical paths)) \<and>
    resolved ` set (dedup_paths_by_canonical canonical paths) = resolved ` set paths \<and>
    subseq (dedup_paths_by_canonical canonical paths) paths"
  using dedup_loop_result [where seen = "{}" and canonical = canonical]
  by (simp add: dedup_paths_by_canonical_def resolved_def)

section \<open>Witnesses\<close>

theorem sequential_step_and_back_witness:
  "step_sequential desk_services 1 [] [] [] (queue_state_default\<lparr>qs_current := Some (show_i64 7)\<rparr>) = Inr (show_i64 7)"
proof -
  have "ordered_entry_ids desk_services [] [] [] = Inr [show_i64 7]"
    by (simp add: ordered_entry_ids_def desk_services_def desk_entry_def)
  from sequential_step_and_back [OF this, of "queue_state_default\<lparr>qs_current := Some (show_i64 7)\<rparr>", THEN conjunct1]
  show ?thesis by auto
qed

theorem restart_restores_witness:
  "interval (app_rotation (run_restore (desk\<lparr>app_router := app_router (set_rotation_interval 30 (control_set_mode Shuffle desk))\<rparr>))) = 30"
  using restart_restores [of desk "desk\<lparr>app_router := app_router (set_rotation_interval 30 (control_set_mode Shuffle desk))\<rparr>" 30 Shuffle]
    desk_facts(5) by (simp add: desk_def)

theorem rotator_leaves_owned_witness:
  "\<exists>a'. rotator_tick desk_services [1] id (desk\<lparr>app_rotation := set_interval 30 make_handle\<rparr>) = Some a' \<and>
     route (r_table (app_router a')) 1 = None"
proof -
  let ?a = "desk\<lparr>app_rotation := set_interval 30 make_handle\<rparr>"
  have "set (map dn_id (snapshot_displays desk_router)) = {1}" using snapshot_ids [of desk_router] by simp
  then have "filter (\<lambda>d. d \<notin> set [1]) (map dn_id (snapshot_displays desk_router)) = []" by (auto simp: filter_empty_conv)
  then obtain a' where t: "rotator_tick desk_services [1] id ?a = Some a'" by (auto simp: rotator_tick_def Let_def)
  have "router_reachable (manager_new desk_renderers) (app_router ?a)" by (simp add: desk_reachable)
  moreover have "length (r_displays desk_router) = 1"
    using arg_cong [where f = length, OF desk_facts(4)] unfolding length_map by simp
  ultimately have "route (r_table (app_router a')) 1 = route (r_table desk_router) 1"
    using rotator_leaves_owned [OF _ t, of desk_renderers 1] desk_fresh by (simp add: links_suffice_def manager_new_def)
  with t show ?thesis by (simp add: route_def table_new_def links_for_display_def hm_list_def)
qed

end
