(* ===== verification/Playlist.thy ===== *)
theory Playlist
  imports Stepping
begin

text \<open>
  The playlist engine, \<open>src/playlist/\<close>: which displays a playlist drives, the cursor and rotation
  handle each of them has (\<open>engine.rs\<close>), the entries of a playlist (\<open>resolve.rs\<close>), and the
  restoration of the assignments at startup and when displays come and go (\<open>restore.rs\<close>).

  A method is served in one go. \<open>None\<close> is a panic of the cursor it uses; that there is none is a
  theorem. The playlist tables of the database and the clocks answer through \<open>playlist_services\<close>.
\<close>

section \<open>State\<close>

text \<open>\<open>ps_row\<close> and \<open>ps_ids\<close>: \<open>plrepo::get\<close> and \<open>plrepo::entry_ids\<close>.\<close>

record playlist_row =
  pr_mode :: mode
  pr_interval_secs :: i64

record playlist_services =
  ps_row :: "i64 \<Rightarrow> app_error + playlist_row option"
  ps_ids :: "i64 \<Rightarrow> app_error + i64 list"
  ps_nanos :: u64
  ps_instant :: nat

text \<open>
  The cursor is shared by the engine and the display's task, which ends when the rotation is
  dropped; so it is kept in the rotation. \<open>ro_deadline\<close> is in nanoseconds of the monotonic clock.
\<close>

record display_rotation =
  ro_playlist :: i64
  ro_cursor :: playlist_cursor
  ro_handle :: rotation_handle
  ro_deadline :: "nat option"

record player =
  pl_app :: app
  pl_rotations :: "(display_id, display_rotation) hmap"

definition owned_display_ids :: "player \<Rightarrow> display_id list" where
  "owned_display_ids p = hm_keys (pl_rotations p)"

definition is_owned :: "display_id \<Rightarrow> player \<Rightarrow> bool" where
  "is_owned did p \<longleftrightarrow> hm_get (pl_rotations p) did \<noteq> None"

definition rotations_of :: "i64 \<Rightarrow> player \<Rightarrow> (display_id \<times> display_rotation) list" where
  "rotations_of pid p = filter (\<lambda>(_, ro). ro_playlist ro = pid) (pl_rotations p)"

section \<open>Entries of a playlist (resolve.rs)\<close>

fun existing_entries :: "services \<Rightarrow> i64 list \<Rightarrow> app_error + string list" where
  "existing_entries sv [] = Inr []"
| "existing_entries sv (i # is) =
     (case sv_entry sv i of
        Inl e \<Rightarrow> Inl e
      | Inr found \<Rightarrow>
          (case existing_entries sv is of
             Inl e \<Rightarrow> Inl e
           | Inr rest \<Rightarrow> Inr (if found \<noteq> None then show_i64 i # rest else rest)))"

definition resolve_items :: "services \<Rightarrow> playlist_services \<Rightarrow> i64 \<Rightarrow> app_error + string list" where
  "resolve_items sv ps pid =
     (case ps_ids ps pid of
        Inl e \<Rightarrow> Inl e
      | Inr ids \<Rightarrow>
          map_sum id (\<lambda>kept. if kept = [] then map show_i64 ids else kept) (existing_entries sv ids))"

section \<open>What is remembered of an assignment\<close>

definition lookup_settings_key :: "router \<Rightarrow> display_id \<Rightarrow> string option" where
  "lookup_settings_key r did =
     map_option (\<lambda>d. case dn_instance_id d of Some i \<Rightarrow> i | None \<Rightarrow> dn_name d)
       (find (\<lambda>d. dn_id d = did) (snapshot_displays r))"

definition assign_playlist :: "string \<Rightarrow> i64 option \<Rightarrow> settings \<Rightarrow> settings" where
  "assign_playlist k pid s =
     s\<lparr>set_displays := hm_insert k
        ((case hm_get (set_displays s) k of Some p \<Rightarrow> p | None \<Rightarrow> display_prefs_default)\<lparr>dp_active_playlist_id := pid\<rparr>)
        (set_displays s)\<rparr>"

definition persist_assignment :: "services \<Rightarrow> display_id \<Rightarrow> i64 option \<Rightarrow> player \<Rightarrow> player" where
  "persist_assignment sv did pid p =
     (let r = app_router (pl_app p) in
      case lookup_settings_key r did of
        None \<Rightarrow> p
      | Some k \<Rightarrow>
          p\<lparr>pl_app := (pl_app p)\<lparr>app_router := flush_settings sv (update_settings (assign_playlist k pid) r)\<rparr>\<rparr>)"

definition apply_on :: "services \<Rightarrow> string \<Rightarrow> display_id \<Rightarrow> player \<Rightarrow> player" where
  "apply_on sv i did p = p\<lparr>pl_app := snd (apply_wallpaper_to_displays sv i [did] (pl_app p))\<rparr>"

section \<open>Activating\<close>

definition start_cursor :: "string list \<Rightarrow> mode \<Rightarrow> u64 \<Rightarrow> string option \<Rightarrow> (string option \<times> playlist_cursor) option" where
  "start_cursor items m seed resume_id =
     (case cursor_new items m seed of
        None \<Rightarrow> None
      | Some c \<Rightarrow>
          (case resume_id of
             Some i \<Rightarrow> map_option (\<lambda>(_, c1). (Some i, c1)) (set_current i c)
           | None \<Rightarrow> first c))"

definition resume_point :: "display_id \<Rightarrow> mode \<Rightarrow> string list \<Rightarrow> bool \<Rightarrow> player \<Rightarrow> string option" where
  "resume_point did m items resume p =
     (if resume \<and> m \<noteq> Random then
        (case lookup_settings_key (app_router (pl_app p)) did of
           None \<Rightarrow> None
         | Some k \<Rightarrow>
             (case Option.bind (display_prefs_of (app_settings (app_router (pl_app p))) k) dp_last_wallpaper of
                Some i \<Rightarrow> if i \<in> set items then Some i else None
              | None \<Rightarrow> None))
      else None)"

definition activate_one ::
  "services \<Rightarrow> playlist_services \<Rightarrow> display_id \<Rightarrow> i64 \<Rightarrow> mode \<Rightarrow> u32 \<Rightarrow> string list \<Rightarrow> bool \<Rightarrow> player \<Rightarrow> player option" where
  "activate_one sv ps did pid m secs items resume p =
     (let p1 = p\<lparr>pl_rotations := hm_remove did (pl_rotations p)\<rparr>;
          seed = max (ps_nanos ps XOR (did * 0x9E3779B97F4A7C15)) 1
      in case start_cursor items m seed (resume_point did m items resume p1) of
           None \<Rightarrow> None
         | Some (shown, c) \<Rightarrow>
             (let p2 = (case shown of Some i \<Rightarrow> apply_on sv i did p1 | None \<Rightarrow> p1) in
              Some (p2\<lparr>pl_rotations := hm_insert did
                \<lparr>ro_playlist = pid, ro_cursor = c, ro_handle = set_interval secs make_handle, ro_deadline = None\<rparr>
                (pl_rotations p2)\<rparr>)))"

fun activate_loop ::
  "services \<Rightarrow> playlist_services \<Rightarrow> i64 \<Rightarrow> mode \<Rightarrow> u32 \<Rightarrow> string list \<Rightarrow> bool \<Rightarrow> display_id list \<Rightarrow> player \<Rightarrow> player option" where
  "activate_loop sv ps pid m secs items resume [] p = Some p"
| "activate_loop sv ps pid m secs items resume (did # ds) p =
     (case activate_one sv ps did pid m secs items resume p of
        None \<Rightarrow> None
      | Some p1 \<Rightarrow> activate_loop sv ps pid m secs items resume ds (persist_assignment sv did (Some pid) p1))"

definition activation_targets :: "display_id list \<Rightarrow> player \<Rightarrow> display_id list" where
  "activation_targets dids p =
     (if dids = [] then map dn_id (snapshot_displays (app_router (pl_app p))) else dids)"

text \<open>\<open>activate\<close> is the case without \<open>resume\<close>, \<open>activate_resuming\<close> the one with it.\<close>

definition activate_inner ::
  "services \<Rightarrow> playlist_services \<Rightarrow> display_id list \<Rightarrow> i64 \<Rightarrow> bool \<Rightarrow> player \<Rightarrow> ((app_error + unit) \<times> player) option" where
  "activate_inner sv ps dids pid resume p =
     (case ps_row ps pid of
        Inl e \<Rightarrow> Some (Inl e, p)
      | Inr None \<Rightarrow> Some (Inl (PlaylistNotFound (show_i64 pid)), p)
      | Inr (Some row) \<Rightarrow>
          (case resolve_items sv ps pid of
             Inl e \<Rightarrow> Some (Inl e, p)
           | Inr items \<Rightarrow>
               if items = [] then Some (Inl (PlaylistInvalid ''playlist has no wallpapers''), p)
               else map_option (Pair (Inr ()))
                 (activate_loop sv ps pid (pr_mode row) (ucast (pr_interval_secs row)) items resume
                   (activation_targets dids p) p)))"

section \<open>Deactivating\<close>

definition deactivate_one :: "services \<Rightarrow> display_id \<Rightarrow> player \<Rightarrow> player" where
  "deactivate_one sv did p =
     persist_assignment sv did None (p\<lparr>pl_rotations := hm_remove did (pl_rotations p)\<rparr>)"

definition deactivate :: "services \<Rightarrow> display_id list \<Rightarrow> player \<Rightarrow> player" where
  "deactivate sv dids p = fold (deactivate_one sv) (if dids = [] then owned_display_ids p else dids) p"

definition drop_rotation :: "display_id \<Rightarrow> player \<Rightarrow> player" where
  "drop_rotation did p = p\<lparr>pl_rotations := hm_remove did (pl_rotations p)\<rparr>"

definition deactivate_for_playlist :: "services \<Rightarrow> i64 \<Rightarrow> player \<Rightarrow> player" where
  "deactivate_for_playlist sv pid p =
     (let owned = map fst (rotations_of pid p) in if owned = [] then p else deactivate sv owned p)"

section \<open>Stepping\<close>

definition change_rotation :: "display_id \<Rightarrow> (display_rotation \<Rightarrow> display_rotation) \<Rightarrow> player \<Rightarrow> player" where
  "change_rotation did f p = p\<lparr>pl_rotations := hm_modify did f (pl_rotations p)\<rparr>"

definition kick_rotation :: "display_rotation \<Rightarrow> display_rotation" where
  "kick_rotation ro = ro\<lparr>ro_handle := kick (ro_handle ro)\<rparr>"

text \<open>The apply, with a kick of the rotation when it succeeds, as \<open>step\<close> and \<open>jump_to\<close> have it.\<close>

definition apply_and_kick :: "services \<Rightarrow> string \<Rightarrow> display_id \<Rightarrow> player \<Rightarrow> (app_error + unit) \<times> player" where
  "apply_and_kick sv i did p =
     (case apply_wallpaper_to_displays sv i [did] (pl_app p) of
        (Inl e, a) \<Rightarrow> (Inl e, p\<lparr>pl_app := a\<rparr>)
      | (Inr _, a) \<Rightarrow> (Inr (), change_rotation did kick_rotation (p\<lparr>pl_app := a\<rparr>)))"

definition engine_step :: "services \<Rightarrow> display_id \<Rightarrow> i32 \<Rightarrow> player \<Rightarrow> ((app_error + unit) \<times> player) option" where
  "engine_step sv did delta p =
     (case hm_get (pl_rotations p) did of
        None \<Rightarrow> Some (Inr (), p)
      | Some ro \<Rightarrow>
          (case cursor_next delta (ro_cursor ro) of
             None \<Rightarrow> None
           | Some (next, c) \<Rightarrow>
               (let p1 = change_rotation did (\<lambda>ro. ro\<lparr>ro_cursor := c\<rparr>) p in
                case next of
                  None \<Rightarrow> Some (Inr (), p1)
                | Some i \<Rightarrow> Some (apply_and_kick sv i did p1))))"

fun jump_loop :: "services \<Rightarrow> string \<Rightarrow> (display_id \<times> playlist_cursor) list \<Rightarrow> player \<Rightarrow> ((app_error + unit) \<times> player) option" where
  "jump_loop sv i [] p = Some (Inr (), p)"
| "jump_loop sv i ((did, c) # rest) p =
     (case set_current i c of
        None \<Rightarrow> None
      | Some (False, _) \<Rightarrow> jump_loop sv i rest p
      | Some (True, c1) \<Rightarrow>
          (case apply_and_kick sv i did (change_rotation did (\<lambda>ro. ro\<lparr>ro_cursor := c1\<rparr>) p) of
             (Inl e, p1) \<Rightarrow> Some (Inl e, p1)
           | (Inr _, p1) \<Rightarrow> jump_loop sv i rest p1))"

definition jump_to :: "services \<Rightarrow> i64 \<Rightarrow> string \<Rightarrow> player \<Rightarrow> ((app_error + unit) \<times> player) option" where
  "jump_to sv pid i p = jump_loop sv i (map (\<lambda>(d, ro). (d, ro_cursor ro)) (rotations_of pid p)) p"

text \<open>One turn of a display's task: the deadline at the head of the loop, and the tick.\<close>

definition arm_deadline :: "nat \<Rightarrow> display_rotation \<Rightarrow> display_rotation" where
  "arm_deadline now ro =
     ro\<lparr>ro_deadline := (let secs = interval (ro_handle ro) in
        if secs = 0 then None else Some (now + unat secs * 10 ^ 9))\<rparr>"

definition display_tick :: "services \<Rightarrow> display_id \<Rightarrow> player \<Rightarrow> player option" where
  "display_tick sv did p =
     (case hm_get (pl_rotations p) did of
        None \<Rightarrow> Some p
      | Some ro \<Rightarrow>
          if interval (ro_handle ro) = 0 then Some p
          else (case cursor_next 1 (ro_cursor ro) of
                  None \<Rightarrow> None
                | Some (next, c) \<Rightarrow>
                    (let p1 = change_rotation did (\<lambda>ro. ro\<lparr>ro_cursor := c\<rparr>) p in
                     Some (case next of None \<Rightarrow> p1 | Some i \<Rightarrow> apply_on sv i did p1))))"

section \<open>A playlist changes\<close>

text \<open>The cursor of one display gets the new items and mode; the id, and whether it is to be applied.\<close>

definition rebuild_cursor :: "string list \<Rightarrow> mode \<Rightarrow> playlist_cursor \<Rightarrow> ((string \<times> bool) \<times> playlist_cursor) option" where
  "rebuild_cursor items m c =
     (let c1 = c\<lparr>pc_items := items, pc_mode := m\<rparr> in
      case pc_current c of
        Some i \<Rightarrow>
          if i \<in> set items then map_option (\<lambda>(_, c2). ((i, False), c2)) (set_current i c1)
          else map_option (\<lambda>(shown, c2). ((case shown of Some j \<Rightarrow> j | None \<Rightarrow> [], True), c2)) (first c1)
      | None \<Rightarrow> map_option (\<lambda>(shown, c2). ((case shown of Some j \<Rightarrow> j | None \<Rightarrow> [], True), c2)) (first c1))"

fun rebuild_loop ::
  "services \<Rightarrow> string list \<Rightarrow> mode \<Rightarrow> u32 \<Rightarrow> (display_id \<times> playlist_cursor) list \<Rightarrow> player \<Rightarrow> player option" where
  "rebuild_loop sv items m secs [] p = Some p"
| "rebuild_loop sv items m secs ((did, c) # rest) p =
     (case rebuild_cursor items m c of
        None \<Rightarrow> None
      | Some ((i, need_apply), c1) \<Rightarrow>
          (let p1 = change_rotation did (\<lambda>ro. ro\<lparr>ro_cursor := c1, ro_handle := set_interval secs (ro_handle ro)\<rparr>) p;
               p2 = (if need_apply \<and> i \<noteq> [] then change_rotation did kick_rotation (apply_on sv i did p1) else p1)
           in rebuild_loop sv items m secs rest p2))"

definition rebuild_for_playlist :: "services \<Rightarrow> playlist_services \<Rightarrow> i64 \<Rightarrow> player \<Rightarrow> player option" where
  "rebuild_for_playlist sv ps pid p =
     (let affected = rotations_of pid p in
      if affected = [] then Some p
      else (case ps_row ps pid of
              Inr (Some row) \<Rightarrow>
                (let items = (case resolve_items sv ps pid of Inl _ \<Rightarrow> [] | Inr is \<Rightarrow> is) in
                 if items = [] then Some (deactivate sv (map fst affected) p)
                 else rebuild_loop sv items (pr_mode row) (ucast (pr_interval_secs row))
                        (map (\<lambda>(d, ro). (d, ro_cursor ro)) affected) p)
            | _ \<Rightarrow> Some p))"

definition set_interval_for_playlist :: "i64 \<Rightarrow> u32 \<Rightarrow> player \<Rightarrow> player" where
  "set_interval_for_playlist pid secs p =
     p\<lparr>pl_rotations := hm_map_values
        (\<lambda>ro. if ro_playlist ro = pid then ro\<lparr>ro_handle := set_interval secs (ro_handle ro)\<rparr> else ro) (pl_rotations p)\<rparr>"

section \<open>Status\<close>

record display_status =
  sa_display :: display_id
  sa_active :: i64
  sa_mode :: mode
  sa_interval_secs :: u32
  sa_current :: "string option"
  sa_position :: u32
  sa_count :: u32
  sa_remaining_secs :: u32

definition status_of :: "nat \<Rightarrow> display_id \<times> display_rotation \<Rightarrow> display_status" where
  "status_of now = (\<lambda>(did, ro).
     \<lparr>sa_display = did, sa_active = ro_playlist ro, sa_mode = pc_mode (ro_cursor ro),
      sa_interval_secs = interval (ro_handle ro), sa_current = pc_current (ro_cursor ro),
      sa_position = of_nat (pc_pos (ro_cursor ro)), sa_count = of_nat (length (pc_items (ro_cursor ro))),
      sa_remaining_secs = (case ro_deadline ro of Some t \<Rightarrow> of_nat ((t - now) div 10 ^ 9) | None \<Rightarrow> 0)\<rparr>)"

definition engine_status :: "playlist_services \<Rightarrow> player \<Rightarrow> display_status list" where
  "engine_status ps p = map (status_of (ps_instant ps)) (pl_rotations p)"

section \<open>Restoring (restore.rs)\<close>

definition resolve_pid :: "string \<Rightarrow> player \<Rightarrow> i64 option" where
  "resolve_pid k p =
     (let s = app_settings (app_router (pl_app p)) in
      case Option.bind (display_prefs_of s k) dp_active_playlist_id of
        Some pid \<Rightarrow> Some pid
      | None \<Rightarrow> gs_auto_attach_playlist_id (set_global s))"

definition snapshot_key :: "display_snapshot \<Rightarrow> string" where
  "snapshot_key d = (case dn_instance_id d of Some i \<Rightarrow> i | None \<Rightarrow> dn_name d)"

text \<open>A failed activation is logged.\<close>

definition restore_display :: "services \<Rightarrow> playlist_services \<Rightarrow> display_snapshot \<Rightarrow> player \<Rightarrow> player option" where
  "restore_display sv ps d p =
     (case resolve_pid (snapshot_key d) p of
        None \<Rightarrow> Some p
      | Some pid \<Rightarrow> map_option snd (activate_inner sv ps [dn_id d] pid True p))"

fun restore_loop :: "services \<Rightarrow> playlist_services \<Rightarrow> (display_snapshot \<Rightarrow> player \<Rightarrow> bool) \<Rightarrow> display_snapshot list \<Rightarrow> player \<Rightarrow> player option" where
  "restore_loop sv ps skip [] p = Some p"
| "restore_loop sv ps skip (d # ds) p =
     (if skip d p then restore_loop sv ps skip ds p
      else (case restore_display sv ps d p of None \<Rightarrow> None | Some p1 \<Rightarrow> restore_loop sv ps skip ds p1))"

definition restore_all :: "services \<Rightarrow> playlist_services \<Rightarrow> player \<Rightarrow> player option" where
  "restore_all sv ps p = restore_loop sv ps (\<lambda>_ _. False) (snapshot_displays (app_router (pl_app p))) p"

text \<open>What the watcher does with what it receives: an event, or how many it missed.\<close>

datatype hotplug = Received router_event | Lagged u64

fun hotplug_turn :: "services \<Rightarrow> playlist_services \<Rightarrow> hotplug \<Rightarrow> player \<Rightarrow> player option" where
  "hotplug_turn sv ps (Received (DisplayUpsert d)) p = (if is_owned (dn_id d) p then Some p else restore_display sv ps d p)"
| "hotplug_turn sv ps (Received (DisplayRemoved did)) p = Some (drop_rotation did p)"
| "hotplug_turn sv ps (Received _) p = Some p"
| "hotplug_turn sv ps (Lagged n) p =
     restore_loop sv ps (\<lambda>d p. is_owned (dn_id d) p) (snapshot_displays (app_router (pl_app p))) p"

section \<open>Everything the engine does\<close>

datatype engine_op =
    OpActivate "display_id list" i64 bool
  | OpDeactivate "display_id list"
  | OpStep display_id i32
  | OpJump i64 string
  | OpDrop display_id
  | OpDeactivateFor i64
  | OpRebuild i64
  | OpInterval i64 u32
  | OpArm display_id
  | OpTick display_id
  | OpRestoreAll
  | OpHotplug hotplug

fun engine_run :: "services \<Rightarrow> playlist_services \<Rightarrow> engine_op \<Rightarrow> player \<Rightarrow> player option" where
  "engine_run sv ps (OpActivate dids pid resume) p = map_option snd (activate_inner sv ps dids pid resume p)"
| "engine_run sv ps (OpDeactivate dids) p = Some (deactivate sv dids p)"
| "engine_run sv ps (OpStep did delta) p = map_option snd (engine_step sv did delta p)"
| "engine_run sv ps (OpJump pid i) p = map_option snd (jump_to sv pid i p)"
| "engine_run sv ps (OpDrop did) p = Some (drop_rotation did p)"
| "engine_run sv ps (OpDeactivateFor pid) p = Some (deactivate_for_playlist sv pid p)"
| "engine_run sv ps (OpRebuild pid) p = rebuild_for_playlist sv ps pid p"
| "engine_run sv ps (OpInterval pid secs) p = Some (set_interval_for_playlist pid secs p)"
| "engine_run sv ps (OpArm did) p = Some (change_rotation did (arm_deadline (ps_instant ps)) p)"
| "engine_run sv ps (OpTick did) p = display_tick sv did p"
| "engine_run sv ps OpRestoreAll p = restore_all sv ps p"
| "engine_run sv ps (OpHotplug h) p = hotplug_turn sv ps h p"

section \<open>The invariant\<close>

text \<open>
  Every rotation has a cursor over some items, with an order that is a permutation, and what it
  names as current is one of them; its task receives from its handle.
\<close>

definition rotation_ok :: "display_rotation \<Rightarrow> bool" where
  "rotation_ok ro \<longleftrightarrow>
     order_ok (ro_cursor ro) \<and> pc_items (ro_cursor ro) \<noteq> [] \<and> length (pc_items (ro_cursor ro)) < 2 ^ 31 \<and>
     (\<exists>i \<in> set (pc_items (ro_cursor ro)). pc_current (ro_cursor ro) = Some i) \<and> rh_receivers (ro_handle ro) = 1"

definition engine_ok :: "player \<Rightarrow> bool" where
  "engine_ok p \<longleftrightarrow> hm_ok (pl_rotations p) \<and> (\<forall>did ro. hm_get (pl_rotations p) did = Some ro \<longrightarrow> rotation_ok ro)"

definition engine_answers_ok :: "playlist_services \<Rightarrow> bool" where
  "engine_answers_ok ps \<longleftrightarrow> (\<forall>pid ids. ps_ids ps pid = Inr ids \<longrightarrow> length ids < 2 ^ 31)"

lemma engine_okD: "engine_ok p \<Longrightarrow> hm_get (pl_rotations p) did = Some ro \<Longrightarrow> rotation_ok ro"
  by (simp add: engine_ok_def)

lemma same_rotations: "pl_rotations p' = pl_rotations p \<Longrightarrow> engine_ok p' = engine_ok p"
  by (simp add: engine_ok_def)

lemma rotations_app [simp]:
  "pl_rotations (persist_assignment sv did pid p) = pl_rotations p" "pl_rotations (apply_on sv i did p) = pl_rotations p"
  by (cases "lookup_settings_key (app_router (pl_app p)) did"; simp add: persist_assignment_def apply_on_def Let_def)+

lemma engine_ok_app [simp]:
  "engine_ok (persist_assignment sv did pid p) = engine_ok p" "engine_ok (apply_on sv i did p) = engine_ok p"
  "engine_ok (p\<lparr>pl_app := a\<rparr>) = engine_ok p"
  by (rule same_rotations; simp)+

lemma engine_ok_remove: "engine_ok p \<Longrightarrow> engine_ok (p\<lparr>pl_rotations := hm_remove did (pl_rotations p)\<rparr>)"
  by (simp add: engine_ok_def)

lemma engine_ok_change:
  "engine_ok p \<Longrightarrow> (\<And>ro. rotation_ok ro \<Longrightarrow> rotation_ok (f ro)) \<Longrightarrow> engine_ok (change_rotation did f p)"
  by (auto simp: engine_ok_def change_rotation_def)

lemma rotation_ok_kick: "rotation_ok ro \<Longrightarrow> rotation_ok (kick_rotation ro)"
  by (simp add: rotation_ok_def kick_rotation_def)

lemma engine_ok_insert:
  "engine_ok p \<Longrightarrow> rotation_ok ro \<Longrightarrow> engine_ok (p\<lparr>pl_rotations := hm_insert did ro (pl_rotations p)\<rparr>)"
  by (simp add: engine_ok_def)

text \<open>A cursor put in place of another one is fine when it is.\<close>

definition cursor_ok :: "playlist_cursor \<Rightarrow> bool" where
  "cursor_ok c \<longleftrightarrow>
     order_ok c \<and> pc_items c \<noteq> [] \<and> length (pc_items c) < 2 ^ 31 \<and> (\<exists>i \<in> set (pc_items c). pc_current c = Some i)"

lemma rotation_ok_cursor: "rotation_ok ro \<longleftrightarrow> cursor_ok (ro_cursor ro) \<and> rh_receivers (ro_handle ro) = 1"
  by (simp add: rotation_ok_def cursor_ok_def)

lemma rotation_ok_put: "rotation_ok ro \<Longrightarrow> cursor_ok c \<Longrightarrow> rotation_ok (ro\<lparr>ro_cursor := c\<rparr>)"
  by (simp add: rotation_ok_cursor)

lemma rotations_of_ok: "engine_ok p \<Longrightarrow> (d, ro) \<in> set (rotations_of pid p) \<Longrightarrow> rotation_ok ro"
  by (auto simp: rotations_of_def engine_ok_def dest: hm_get_in_set [THEN iffD1])

section \<open>The cursors never panic\<close>

lemma next_keeps:
  assumes "cursor_ok c"
  obtains i c' where "cursor_next delta c = Some (Some i, c')" "cursor_ok c'" "pc_current c' = Some i"
    "pc_items c' = pc_items c"
  using assms cursor_next_ok [of c delta] unfolding cursor_ok_def cursor_keeps_def
  by (metis length_greater_0_conv)

lemma set_current_keeps:
  assumes "order_ok c" and "i \<in> set (pc_items c)" and "length (pc_items c) < 2 ^ 31"
  obtains c' where "set_current i c = Some (True, c')" "cursor_ok c'" "pc_current c' = Some i"
    "pc_items c' = pc_items c" "pc_mode c' = pc_mode c"
proof -
  obtain c' where "set_current i c = Some (i \<in> set (pc_items c), c')" "cursor_keeps c c'"
    "pc_current c' = (if i \<in> set (pc_items c) then Some i else pc_current c)"
    by (rule set_current_ok [OF assms(1)])
  moreover have "pc_items c \<noteq> []" using assms(2) by auto
  ultimately show thesis using assms that by (auto simp: cursor_ok_def cursor_keeps_def)
qed

lemma first_keeps:
  assumes "order_ok c" and "pc_items c \<noteq> []" and "length (pc_items c) < 2 ^ 31"
  obtains i c' where "first c = Some (Some i, c')" "cursor_ok c'" "pc_current c' = Some i"
    "pc_items c' = pc_items c" "pc_mode c' = pc_mode c"
proof -
  have "0 < length (pc_items c)" using assms(2) by simp
  from first_ok [OF assms(1) this] obtain i c' where "first c = Some (Some i, c')" "i \<in> set (pc_items c)"
    "pc_current c' = Some i" "cursor_keeps c c'" by metis
  with assms that show thesis by (auto simp: cursor_ok_def cursor_keeps_def)
qed

lemma start_cursor_ok:
  assumes "items \<noteq> []" and "length items < 2 ^ 31" and "\<forall>i. resume_id = Some i \<longrightarrow> i \<in> set items"
  obtains i c where "start_cursor items m seed resume_id = Some (Some i, c)" "cursor_ok c" "pc_current c = Some i"
    "pc_items c = items" "pc_mode c = m" "\<forall>j. resume_id = Some j \<longrightarrow> i = j"
proof -
  obtain c where c: "cursor_new items m seed = Some c" "pc_items c = items" "pc_mode c = m" "order_ok c"
    using cursor_new_ok [of items m seed] by blast
  show thesis
  proof (cases resume_id)
    case None
    obtain i c' where "first c = Some (Some i, c')" "cursor_ok c'" "pc_current c' = Some i" "pc_items c' = items" "pc_mode c' = m"
      using first_keeps [of c] c assms(1,2) by metis
    with None c(1) that show thesis by (simp add: start_cursor_def)
  next
    case (Some i)
    obtain c' where "set_current i c = Some (True, c')" "cursor_ok c'" "pc_current c' = Some i" "pc_items c' = items" "pc_mode c' = m"
      using set_current_keeps [of c i] c assms Some by metis
    with Some c(1) that show thesis by (simp add: start_cursor_def)
  qed
qed

lemma rebuild_cursor_ok:
  assumes "cursor_ok c" and "items \<noteq> []" and "length items < 2 ^ 31"
  obtains i c' where "rebuild_cursor items m c = Some ((i, pc_current c \<notin> Some ` set items), c')" "cursor_ok c'"
    "pc_current c' = Some i" "pc_items c' = items" "pc_mode c' = m" "pc_current c \<in> Some ` set items \<Longrightarrow> pc_current c' = pc_current c"
proof -
  let ?c1 = "c\<lparr>pc_items := items, pc_mode := m\<rparr>"
  have ok: "order_ok ?c1" using assms(1) by (simp add: cursor_ok_def order_ok_def)
  obtain cur where cur: "pc_current c = Some cur" using assms(1) by (auto simp: cursor_ok_def)
  show thesis
  proof (cases "cur \<in> set items")
    case True
    obtain c' where "set_current cur ?c1 = Some (True, c')" "cursor_ok c'" "pc_current c' = Some cur" "pc_items c' = items" "pc_mode c' = m"
      using set_current_keeps [OF ok, of cur] True assms(3) by auto
    with True cur that show thesis by (simp add: rebuild_cursor_def Let_def)
  next
    case False
    obtain i c' where "first ?c1 = Some (Some i, c')" "cursor_ok c'" "pc_current c' = Some i" "pc_items c' = items" "pc_mode c' = m"
      using first_keeps [OF ok] assms(2,3) by auto
    with False cur that show thesis by (auto simp: rebuild_cursor_def Let_def image_iff)
  qed
qed

section \<open>Every operation keeps the invariant\<close>

lemma existing_length: "existing_entries sv is = Inr kept \<Longrightarrow> length kept \<le> length is"
  by (induction "is" arbitrary: kept) (fastforce split: sum.splits if_splits)+

lemma resolve_items_length:
  assumes "engine_answers_ok ps" and "resolve_items sv ps pid = Inr items"
  shows "length items < 2 ^ 31"
proof -
  obtain ids where ids: "ps_ids ps pid = Inr ids" using assms(2) by (cases "ps_ids ps pid") (simp_all add: resolve_items_def)
  obtain kept where kept: "existing_entries sv ids = Inr kept"
    using assms(2) ids by (cases "existing_entries sv ids") (simp_all add: resolve_items_def)
  have "length items \<le> length ids"
    using assms(2) existing_length [OF kept] by (cases "kept = []") (auto simp: resolve_items_def ids kept)
  also have "\<dots> < 2 ^ 31" using assms(1) ids by (simp add: engine_answers_ok_def)
  finally show ?thesis .
qed

lemma resume_point_item: "resume_point did m items resume p = Some i \<Longrightarrow> i \<in> set items"
  by (auto simp: resume_point_def split: if_splits option.splits)

lemma activate_one_ok:
  assumes "engine_ok p" and "items \<noteq> []" and "length items < 2 ^ 31"
  obtains i c p2 where "activate_one sv ps did pid m secs items resume p = Some p2" "engine_ok p2"
    "hm_get (pl_rotations p2) did = Some \<lparr>ro_playlist = pid, ro_cursor = c, ro_handle = set_interval secs make_handle, ro_deadline = None\<rparr>"
    "pc_items c = items" "pc_mode c = m" "pc_current c = Some i"
    "\<forall>j. resume_point did m items resume p = Some j \<longrightarrow> i = j"
    "\<forall>d. d \<noteq> did \<longrightarrow> hm_get (pl_rotations p2) d = hm_get (pl_rotations p) d"
proof -
  let ?p1 = "p\<lparr>pl_rotations := hm_remove did (pl_rotations p)\<rparr>"
  have "pl_app ?p1 = pl_app p" by simp
  then have rp: "resume_point did m items resume ?p1 = resume_point did m items resume p" unfolding resume_point_def by (simp only:)
  have "\<forall>i. resume_point did m items resume p = Some i \<longrightarrow> i \<in> set items" by (simp add: resume_point_item)
  from start_cursor_ok [OF assms(2,3) this, of m "max (ps_nanos ps XOR (did * 0x9E3779B97F4A7C15)) 1"]
  obtain i c where c: "start_cursor items m (max (ps_nanos ps XOR (did * 0x9E3779B97F4A7C15)) 1) (resume_point did m items resume p) = Some (Some i, c)"
    "cursor_ok c" "pc_current c = Some i" "pc_items c = items" "pc_mode c = m"
    "\<forall>j. resume_point did m items resume p = Some j \<longrightarrow> i = j" by metis
  let ?ro = "\<lparr>ro_playlist = pid, ro_cursor = c, ro_handle = set_interval secs make_handle, ro_deadline = None\<rparr>"
  have "rotation_ok ?ro" using c(2) by (simp add: rotation_ok_cursor) (simp add: make_handle_def)
  moreover have "engine_ok (apply_on sv i did ?p1)" using engine_ok_remove [OF assms(1), of did] by simp
  ultimately have ok: "engine_ok ((apply_on sv i did ?p1)\<lparr>pl_rotations := hm_insert did ?ro (pl_rotations (apply_on sv i did ?p1))\<rparr>)"
    by (intro engine_ok_insert)
  let ?p2 = "(apply_on sv i did ?p1)\<lparr>pl_rotations := hm_insert did ?ro (pl_rotations (apply_on sv i did ?p1))\<rparr>"
  have "activate_one sv ps did pid m secs items resume p = Some ?p2" by (simp add: activate_one_def Let_def rp c(1))
  from that [OF this ok _ c(4,5,3,6)] show thesis by simp
qed

lemma activate_loop_ok:
  assumes "engine_ok p" and "items \<noteq> []" and "length items < 2 ^ 31"
  shows "\<exists>p'. activate_loop sv ps pid m secs items resume ds p = Some p' \<and> engine_ok p' \<and>
    (\<forall>d \<in> set ds. \<exists>ro. hm_get (pl_rotations p') d = Some ro \<and> ro_playlist ro = pid \<and> pc_items (ro_cursor ro) = items) \<and>
    (\<forall>d. d \<notin> set ds \<longrightarrow> hm_get (pl_rotations p') d = hm_get (pl_rotations p) d)"
  using assms(1)
proof (induction ds arbitrary: p)
  case (Cons d ds)
  obtain c p2 where a: "activate_one sv ps d pid m secs items resume p = Some p2" "engine_ok p2"
    "hm_get (pl_rotations p2) d = Some \<lparr>ro_playlist = pid, ro_cursor = c, ro_handle = set_interval secs make_handle, ro_deadline = None\<rparr>"
    "pc_items c = items" "\<forall>x. x \<noteq> d \<longrightarrow> hm_get (pl_rotations p2) x = hm_get (pl_rotations p) x"
    by (rule activate_one_ok [OF Cons.prems assms(2,3)])
  have "engine_ok (persist_assignment sv d (Some pid) p2)" using a(2) by simp
  from Cons.IH [OF this] obtain p' where p': "activate_loop sv ps pid m secs items resume ds (persist_assignment sv d (Some pid) p2) = Some p'"
    "engine_ok p'" "\<forall>x \<in> set ds. \<exists>ro. hm_get (pl_rotations p') x = Some ro \<and> ro_playlist ro = pid \<and> pc_items (ro_cursor ro) = items"
    "\<forall>x. x \<notin> set ds \<longrightarrow> hm_get (pl_rotations p') x = hm_get (pl_rotations p2) x" by auto
  have "\<exists>ro. hm_get (pl_rotations p') d = Some ro \<and> ro_playlist ro = pid \<and> pc_items (ro_cursor ro) = items"
    using p'(3,4) a(3,4) by (cases "d \<in> set ds") auto
  then show ?case using p' a(1,5) by auto
qed simp

lemma activate_inner_ok:
  assumes "engine_answers_ok ps" and "engine_ok p"
  obtains res p' where "activate_inner sv ps dids pid resume p = Some (res, p')" "engine_ok p'"
proof -
  show thesis
  proof (cases "ps_row ps pid")
    case (Inr row)
    show thesis
    proof (cases row)
      case (Some rw)
      show thesis
      proof (cases "resolve_items sv ps pid")
        case (Inr items)
        let ?ts = "activation_targets dids p"
        show thesis
        proof (cases "items = []")
          case False
          obtain p' where "activate_loop sv ps pid (pr_mode rw) (ucast (pr_interval_secs rw)) items resume ?ts p = Some p'" "engine_ok p'"
            using activate_loop_ok [OF assms(2) False resolve_items_length [OF assms(1) Inr], of sv ps pid "pr_mode rw" "ucast (pr_interval_secs rw)" resume ?ts]
            by blast
          with False Inr Some \<open>ps_row ps pid = Inr row\<close> that show thesis by (simp add: activate_inner_def Let_def)
        qed (use Inr Some \<open>ps_row ps pid = Inr row\<close> assms(2) that in \<open>simp add: activate_inner_def\<close>)
      qed (use Some Inr assms(2) that in \<open>simp add: activate_inner_def\<close>)
    qed (use Inr assms(2) that in \<open>simp add: activate_inner_def\<close>)
  qed (use assms(2) that in \<open>simp add: activate_inner_def\<close>)
qed

lemma deactivate_one_rotations: "pl_rotations (deactivate_one sv did p) = hm_remove did (pl_rotations p)"
  by (simp add: deactivate_one_def)

lemma deactivate_rotations: "pl_rotations (fold (deactivate_one sv) ds p) = fold hm_remove ds (pl_rotations p)"
  by (induction ds arbitrary: p) (simp_all add: deactivate_one_rotations)

lemma deactivate_ok: "engine_ok p \<Longrightarrow> engine_ok (deactivate sv dids p)"
  by (simp add: engine_ok_def deactivate_def deactivate_rotations hm_get_fold_remove hm_ok_fold_remove)

lemma apply_and_kick_ok:
  assumes "engine_ok p"
  shows "engine_ok (snd (apply_and_kick sv i did p))"
proof -
  obtain res a where r: "apply_wallpaper_to_displays sv i [did] (pl_app p) = (res, a)" by force
  have "engine_ok (change_rotation did kick_rotation (p\<lparr>pl_app := a\<rparr>))"
    using assms by (intro engine_ok_change) (simp_all add: rotation_ok_kick)
  then show ?thesis using assms by (cases res) (simp_all add: apply_and_kick_def r)
qed

lemma put_cursor_ok: "engine_ok p \<Longrightarrow> cursor_ok c \<Longrightarrow> engine_ok (change_rotation did (\<lambda>ro. ro\<lparr>ro_cursor := c\<rparr>) p)"
  by (simp add: engine_ok_change rotation_ok_put)

lemma jump_loop_ok:
  assumes "engine_ok p" and "\<forall>(d, c) \<in> set cs. cursor_ok c"
  shows "\<exists>res p'. jump_loop sv i cs p = Some (res, p') \<and> engine_ok p'"
  using assms
proof (induction cs arbitrary: p)
  case (Cons x cs)
  obtain d c where x: "x = (d, c)" by force
  have c: "cursor_ok c" "order_ok c" using Cons.prems(2) by (simp_all add: x cursor_ok_def)
  show ?case
  proof (cases "i \<in> set (pc_items c)")
    case True
    obtain c1 where c1: "set_current i c = Some (True, c1)" "cursor_ok c1"
      by (rule set_current_keeps [OF c(2) True]) (use c(1) in \<open>simp add: cursor_ok_def\<close>)
    let ?q = "change_rotation d (\<lambda>ro. ro\<lparr>ro_cursor := c1\<rparr>) p"
    obtain res p1 where a: "apply_and_kick sv i d ?q = (res, p1)" by force
    have ok: "engine_ok p1" using apply_and_kick_ok [OF put_cursor_ok [OF Cons.prems(1) c1(2), of d], of sv i d] a by simp
    have rest: "\<forall>(d, c) \<in> set cs. cursor_ok c" using Cons.prems(2) by simp
    show ?thesis
    proof (cases res)
      case (Inl e)
      then show ?thesis using ok by (simp add: x c1(1) a)
    next
      case (Inr u)
      then have "res = Inr ()" by simp
      then have "jump_loop sv i ((d, c) # cs) p = jump_loop sv i cs p1" by (simp add: c1(1) a)
      with Cons.IH [OF ok rest] show ?thesis by (simp only: x)
    qed
  next
    case False
    obtain c' where "set_current i c = Some (False, c')" using set_current_ok [OF c(2), of i] False by metis
    with Cons.IH [OF Cons.prems(1)] Cons.prems(2) show ?thesis by (auto simp: x)
  qed
qed simp

lemma rebuild_loop_ok:
  assumes "engine_ok p" and "\<forall>(d, c) \<in> set cs. cursor_ok c" and "items \<noteq> []" and "length items < 2 ^ 31"
  shows "\<exists>p'. rebuild_loop sv items m secs cs p = Some p' \<and> engine_ok p'"
  using assms(1,2)
proof (induction cs arbitrary: p)
  case (Cons x cs)
  obtain d c where x: "x = (d, c)" by force
  have c: "cursor_ok c" using Cons.prems(2) by (simp add: x)
  obtain i b c1 where r: "rebuild_cursor items m c = Some ((i, b), c1)" "cursor_ok c1"
    by (rule rebuild_cursor_ok [OF c assms(3,4), of m])
  let ?p1 = "change_rotation d (\<lambda>ro. ro\<lparr>ro_cursor := c1, ro_handle := set_interval secs (ro_handle ro)\<rparr>) p"
  let ?p2 = "if b \<and> i \<noteq> [] then change_rotation d kick_rotation (apply_on sv i d ?p1) else ?p1"
  have ok1: "engine_ok ?p1" using Cons.prems(1) by (rule engine_ok_change) (simp add: rotation_ok_cursor r(2))
  then have "engine_ok (apply_on sv i d ?p1)" by simp
  then have "engine_ok (change_rotation d kick_rotation (apply_on sv i d ?p1))" by (rule engine_ok_change) (rule rotation_ok_kick)
  with ok1 have ok2: "engine_ok ?p2" by simp
  have rest: "\<forall>(d, c) \<in> set cs. cursor_ok c" using Cons.prems(2) by simp
  have "rebuild_loop sv items m secs ((d, c) # cs) p = rebuild_loop sv items m secs cs ?p2" by (simp add: r(1) Let_def)
  with Cons.IH [OF ok2 rest] show ?case by (simp only: x)
qed simp

lemma affected_cursors: "engine_ok p \<Longrightarrow> \<forall>(d, c) \<in> set (map (\<lambda>(d, ro). (d, ro_cursor ro)) (rotations_of pid p)). cursor_ok c"
  using rotations_of_ok [of p _ _ pid] by (fastforce simp: rotation_ok_cursor)

lemma rebuild_ok:
  assumes "engine_answers_ok ps" and "engine_ok p"
  shows "\<exists>p'. rebuild_for_playlist sv ps pid p = Some p' \<and> engine_ok p'"
proof (cases "rotations_of pid p = [] \<or> (\<forall>row. ps_row ps pid \<noteq> Inr (Some row))")
  case True
  then show ?thesis using assms(2) by (auto simp: rebuild_for_playlist_def Let_def split: sum.split option.split)
next
  case False
  then obtain row where row: "ps_row ps pid = Inr (Some row)" and ne: "rotations_of pid p \<noteq> []" by blast
  let ?items = "case resolve_items sv ps pid of Inl _ \<Rightarrow> [] | Inr is \<Rightarrow> is"
  show ?thesis
  proof (cases "?items = []")
    case True
    then show ?thesis using assms(2) by (simp add: rebuild_for_playlist_def Let_def row ne deactivate_ok)
  next
    case False
    then obtain "items" where items: "resolve_items sv ps pid = Inr items" "items \<noteq> []" by (auto split: sum.splits)
    have "length items < 2 ^ 31" by (rule resolve_items_length [OF assms(1) items(1)])
    from rebuild_loop_ok [OF assms(2) affected_cursors [OF assms(2), of pid] items(2) this]
    show ?thesis by (simp add: rebuild_for_playlist_def Let_def row ne items)
  qed
qed

lemma engine_step_ok:
  assumes "engine_ok p"
  shows "\<exists>res p'. engine_step sv did delta p = Some (res, p') \<and> engine_ok p'"
proof (cases "hm_get (pl_rotations p) did")
  case (Some ro)
  have c: "cursor_ok (ro_cursor ro)" using engine_okD [OF assms Some] by (simp add: rotation_ok_cursor)
  obtain i c' where n: "cursor_next delta (ro_cursor ro) = Some (Some i, c')" "cursor_ok c'" by (rule next_keeps [OF c])
  have "engine_ok (snd (apply_and_kick sv i did (change_rotation did (\<lambda>ro. ro\<lparr>ro_cursor := c'\<rparr>) p)))"
    by (rule apply_and_kick_ok [OF put_cursor_ok [OF assms n(2)]])
  then show ?thesis by (simp add: engine_step_def Some n(1) Let_def) (metis prod.collapse)
qed (simp add: engine_step_def assms)

lemma display_tick_ok:
  assumes "engine_ok p"
  shows "\<exists>p'. display_tick sv did p = Some p' \<and> engine_ok p'"
proof (cases "hm_get (pl_rotations p) did")
  case (Some ro)
  have c: "cursor_ok (ro_cursor ro)" using engine_okD [OF assms Some] by (simp add: rotation_ok_cursor)
  obtain i c' where n: "cursor_next 1 (ro_cursor ro) = Some (Some i, c')" "cursor_ok c'" by (rule next_keeps [OF c])
  have "engine_ok (apply_on sv i did (change_rotation did (\<lambda>ro. ro\<lparr>ro_cursor := c'\<rparr>) p))"
    using put_cursor_ok [OF assms n(2), of did] by simp
  then show ?thesis using assms by (simp add: display_tick_def Some n(1) Let_def)
qed (simp add: display_tick_def assms)

lemma restore_display_ok:
  assumes "engine_answers_ok ps" and "engine_ok p"
  shows "\<exists>p'. restore_display sv ps d p = Some p' \<and> engine_ok p'"
proof (cases "resolve_pid (snapshot_key d) p")
  case (Some pid)
  obtain res p' where "activate_inner sv ps [dn_id d] pid True p = Some (res, p')" "engine_ok p'"
    by (rule activate_inner_ok [OF assms])
  then show ?thesis by (simp add: restore_display_def Some)
qed (simp add: restore_display_def assms)

lemma restore_loop_ok:
  assumes "engine_answers_ok ps" and "engine_ok p"
  shows "\<exists>p'. restore_loop sv ps skip ds p = Some p' \<and> engine_ok p'"
  using assms(2)
proof (induction ds arbitrary: p)
  case (Cons d ds)
  show ?case using restore_display_ok [OF assms(1) Cons.prems, of sv d] Cons by auto
qed simp

text \<open>
  C13: no operation of the engine panics, in whatever order they come, and each keeps every
  display's rotation whole: its cursor is over some wallpapers in an order that is a permutation,
  what it names as current is one of them, and its task still hears its handle.
\<close>

theorem engine_never_panics:
  assumes "engine_answers_ok ps" and "engine_ok p"
  shows "\<exists>p'. engine_run sv ps op p = Some p' \<and> engine_ok p'"
proof (cases op)
  case (OpActivate dids pid resume)
  obtain res p' where "activate_inner sv ps dids pid resume p = Some (res, p')" "engine_ok p'"
    by (rule activate_inner_ok [OF assms])
  then show ?thesis by (simp add: OpActivate)
next
  case (OpDeactivateFor pid)
  then show ?thesis using assms(2) by (simp add: deactivate_for_playlist_def Let_def deactivate_ok)
next
  case (OpStep did delta)
  then show ?thesis using engine_step_ok [OF assms(2), of sv did delta] by auto
next
  case (OpJump pid i)
  then show ?thesis using jump_loop_ok [OF assms(2) affected_cursors [OF assms(2), of pid], of sv i] by (auto simp: jump_to_def)
next
  case (OpInterval pid secs)
  then show ?thesis using assms(2) by (auto simp: set_interval_for_playlist_def engine_ok_def rotation_ok_def)
next
  case (OpArm did)
  then show ?thesis using engine_ok_change [OF assms(2), of "arm_deadline (ps_instant ps)" did]
    by (auto simp: arm_deadline_def rotation_ok_def)
next
  case (OpHotplug h)
  show ?thesis
  proof (cases h)
    case (Received ev)
    then show ?thesis using assms restore_display_ok [OF assms] OpHotplug
      by (cases ev) (auto simp: drop_rotation_def engine_ok_remove)
  next
    case (Lagged n)
    then show ?thesis using restore_loop_ok [OF assms] OpHotplug by simp
  qed
qed (use assms in \<open>simp_all add: deactivate_ok rebuild_ok display_tick_ok restore_loop_ok restore_all_def drop_rotation_def engine_ok_remove\<close>)

section \<open>What activating achieves\<close>

text \<open>
  C23: activating a playlist, with every way it fails: an error of a query is passed on, a playlist
  the database does not have is not found, one without entries is invalid, and each of these changes
  nothing. Otherwise exactly the target displays, all that are connected when none is named, come
  to be driven by it, over the entries whose wallpapers exist, or over all of them when none does:
  a playlist whose wallpapers are all gone takes the displays over with nothing to show on them.
\<close>

theorem activate_exact:
  assumes "engine_answers_ok ps" and "engine_ok p"
  shows "\<exists>res p'. activate_inner sv ps dids pid resume p = Some (res, p') \<and>
    (case ps_row ps pid of
       Inl err \<Rightarrow> res = Inl err \<and> p' = p
     | Inr None \<Rightarrow> res = Inl (PlaylistNotFound (show_i64 pid)) \<and> p' = p
     | Inr (Some row) \<Rightarrow>
         (case ps_ids ps pid of
            Inl err \<Rightarrow> res = Inl err \<and> p' = p
          | Inr ids \<Rightarrow>
              (case existing_entries sv ids of
                 Inl err \<Rightarrow> res = Inl err \<and> p' = p
               | Inr kept \<Rightarrow>
                   if ids = [] then res = Inl (PlaylistInvalid ''playlist has no wallpapers'') \<and> p' = p
                   else res = Inr () \<and>
                     (\<forall>d \<in> set (activation_targets dids p). \<exists>ro. hm_get (pl_rotations p') d = Some ro \<and> ro_playlist ro = pid \<and>
                       pc_items (ro_cursor ro) = (if kept = [] then map show_i64 ids else kept)) \<and>
                     (\<forall>d. d \<notin> set (activation_targets dids p) \<longrightarrow> hm_get (pl_rotations p') d = hm_get (pl_rotations p) d))))"
proof -
  consider (row_error) err where "ps_row ps pid = Inl err" | (absent) "ps_row ps pid = Inr None"
    | (ids_error) row err where "ps_row ps pid = Inr (Some row)" "ps_ids ps pid = Inl err"
    | (entry_error) row ids err where "ps_row ps pid = Inr (Some row)" "ps_ids ps pid = Inr ids" "existing_entries sv ids = Inl err"
    | (none) row where "ps_row ps pid = Inr (Some row)" "ps_ids ps pid = Inr []"
    | (some) row ids kept where "ps_row ps pid = Inr (Some row)" "ps_ids ps pid = Inr ids"
        "existing_entries sv ids = Inr kept" "ids \<noteq> []"
    by (metis sum.exhaust option.exhaust)
  then show ?thesis
  proof cases
    case (some row ids kept)
    note db = this
    let ?targets = "activation_targets dids p"
    let ?items = "if kept = [] then map show_i64 ids else kept"
    have items: "resolve_items sv ps pid = Inr ?items" by (simp add: resolve_items_def db)
    have ne: "?items \<noteq> []" using db(4) by simp
    from activate_loop_ok [OF assms(2) ne resolve_items_length [OF assms(1) items], of sv ps pid "pr_mode row" "ucast (pr_interval_secs row)" resume ?targets]
    obtain p' where p': "activate_loop sv ps pid (pr_mode row) (ucast (pr_interval_secs row)) ?items resume ?targets p = Some p'"
      "\<forall>d \<in> set ?targets. \<exists>ro. hm_get (pl_rotations p') d = Some ro \<and> ro_playlist ro = pid \<and> pc_items (ro_cursor ro) = ?items"
      "\<forall>d. d \<notin> set ?targets \<longrightarrow> hm_get (pl_rotations p') d = hm_get (pl_rotations p) d" by blast
    have "activate_inner sv ps dids pid resume p = Some (Inr (), p')"
      using ne p'(1) unfolding activate_inner_def db(1) items sum.case option.case by simp
    then show ?thesis unfolding db sum.case option.case using p'(2,3) db(4)
      by (intro exI [of _ "Inr ()"] exI [of _ p']) simp
  qed (simp_all add: activate_inner_def resolve_items_def)
qed

text \<open>
  C24: a display that comes back is driven by the playlist it was assigned, or the one new displays
  get, and, unless that plays at random, goes on with the wallpaper it showed last when that is
  still in the playlist.
\<close>

theorem display_resumes:
  assumes "engine_answers_ok ps" and "engine_ok p" and "\<not> is_owned (dn_id d) p"
    and "resolve_pid (snapshot_key d) p = Some pid" and "ps_row ps pid = Inr (Some row)"
    and "resolve_items sv ps pid = Inr items" and "items \<noteq> []"
  shows "\<exists>p' ro. hotplug_turn sv ps (Received (DisplayUpsert d)) p = Some p' \<and>
    hm_get (pl_rotations p') (dn_id d) = Some ro \<and> ro_playlist ro = pid \<and> pc_items (ro_cursor ro) = items \<and>
    (\<forall>k w. pr_mode row \<noteq> Random \<and> lookup_settings_key (app_router (pl_app p)) (dn_id d) = Some k \<and>
      Option.bind (display_prefs_of (app_settings (app_router (pl_app p))) k) dp_last_wallpaper = Some w \<and> w \<in> set items \<longrightarrow>
      pc_current (ro_cursor ro) = Some w)"
proof -
  obtain i c p2 where a:
    "activate_one sv ps (dn_id d) pid (pr_mode row) (ucast (pr_interval_secs row)) items True p = Some p2"
    "hm_get (pl_rotations p2) (dn_id d) = Some \<lparr>ro_playlist = pid, ro_cursor = c,
       ro_handle = set_interval (ucast (pr_interval_secs row)) make_handle, ro_deadline = None\<rparr>"
    "pc_items c = items" "pc_current c = Some i" "\<forall>j. resume_point (dn_id d) (pr_mode row) items True p = Some j \<longrightarrow> i = j"
    by (rule activate_one_ok [OF assms(2,7) resolve_items_length [OF assms(1,6)]])
  let ?p' = "persist_assignment sv (dn_id d) (Some pid) p2"
  have "hotplug_turn sv ps (Received (DisplayUpsert d)) p = Some ?p'"
    using assms(3,7) by (simp add: activation_targets_def restore_display_def activate_inner_def assms(4-6) a(1))
  moreover have "\<forall>k w. pr_mode row \<noteq> Random \<and> lookup_settings_key (app_router (pl_app p)) (dn_id d) = Some k \<and>
      Option.bind (display_prefs_of (app_settings (app_router (pl_app p))) k) dp_last_wallpaper = Some w \<and> w \<in> set items \<longrightarrow>
      pc_current c = Some w"
    using a(4,5) by (auto simp: resume_point_def simp del: Option.bind_assoc)
  ultimately show ?thesis using a(2,3) by (intro exI [of _ ?p']) auto
qed

section \<open>Where it goes wrong\<close>

text \<open>
  the position a display's status reports does not move while its playlist is shuffled: it is
  the place of the sequential walk, which a shuffled step leaves alone.
\<close>

theorem shuffled_position_is_stale:
  assumes "engine_ok p" and "hm_get (pl_rotations p) did = Some ro" and "pc_mode (ro_cursor ro) = Shuffle"
    and "engine_step sv did delta p = Some (res, p')"
  shows "\<exists>ro'. hm_get (pl_rotations p') did = Some ro' \<and>
    sa_position (status_of now (did, ro')) = sa_position (status_of now (did, ro))"
proof -
  have c: "cursor_ok (ro_cursor ro)" using engine_okD [OF assms(1,2)] by (simp add: rotation_ok_cursor)
  obtain idx c1 where i: "pick_index delta (ro_cursor ro) = Some (idx, c1)" "idx < length (pc_items (ro_cursor ro))"
    "cursor_keeps (ro_cursor ro) c1" "pc_pos c1 = pc_pos (ro_cursor ro)"
    using pick_index_shuffle [OF _ assms(3), of delta] c unfolding cursor_ok_def by (metis length_greater_0_conv)
  let ?i = "pc_items (ro_cursor ro) ! idx" let ?c = "c1\<lparr>pc_current := Some ?i\<rparr>"
  have "cursor_next delta (ro_cursor ro) = Some (Some ?i, ?c)"
    using i c by (simp add: cursor_next_def cursor_ok_def vec_get_def cursor_keeps_def)
  then have p': "p' = snd (apply_and_kick sv ?i did (change_rotation did (\<lambda>ro. ro\<lparr>ro_cursor := ?c\<rparr>) p))"
    using assms(4) by (simp add: engine_step_def assms(2) Let_def)
  obtain ans a where "apply_wallpaper_to_displays sv ?i [did] (pl_app (change_rotation did (\<lambda>ro. ro\<lparr>ro_cursor := ?c\<rparr>) p)) = (ans, a)"
    by force
  then show ?thesis
    using i(4) by (cases ans)
      (simp_all add: p' apply_and_kick_def change_rotation_def assms(2) kick_rotation_def status_of_def)
qed

section \<open>Witnesses\<close>

definition ex_playlists :: playlist_services where
  "ex_playlists = \<lparr>ps_row = (\<lambda>_. Inr (Some \<lparr>pr_mode = Shuffle, pr_interval_secs = 60\<rparr>)), ps_ids = (\<lambda>_. Inr [7, 8]),
     ps_nanos = 5, ps_instant = 0\<rparr>"

definition ex_player :: player where
  "ex_player = \<lparr>pl_app = desk\<lparr>app_router := update_settings
      (\<lambda>s. s\<lparr>set_global := (set_global s)\<lparr>gs_auto_attach_playlist_id := Some 3\<rparr>\<rparr>) desk_router\<rparr>, pl_rotations = []\<rparr>"

lemma ex_playlists_ok: "engine_answers_ok ex_playlists"
  by (simp add: engine_answers_ok_def ex_playlists_def)

lemma ex_player_ok: "engine_ok ex_player" "\<not> is_owned d ex_player"
  by (simp_all add: engine_ok_def is_owned_def ex_player_def)

lemma ex_items: "existing_entries desk_services [7, 8] = Inr [show_i64 7, show_i64 8]"
  by (simp add: desk_services_def)

theorem engine_never_panics_witness:
  "\<exists>p'. engine_run desk_services ex_playlists (OpActivate [1] 3 False) ex_player = Some p' \<and> engine_ok p'"
  by (rule engine_never_panics [OF ex_playlists_ok ex_player_ok(1)])

theorem activate_exact_witness:
  "(\<exists>p' ro. activate_inner desk_services ex_playlists [1] 3 False ex_player = Some (Inr (), p') \<and>
     hm_get (pl_rotations p') 1 = Some ro \<and> pc_items (ro_cursor ro) = [show_i64 7, show_i64 8]) \<and>
   activate_inner desk_services (ex_playlists\<lparr>ps_row := \<lambda>_. Inr None\<rparr>) [] 3 False ex_player =
     Some (Inl (PlaylistNotFound (show_i64 3)), ex_player)"
proof -
  have row: "ps_row ex_playlists 3 = Inr (Some \<lparr>pr_mode = Shuffle, pr_interval_secs = 60\<rparr>)" and ids: "ps_ids ex_playlists 3 = Inr [7, 8]"
    by (simp_all add: ex_playlists_def)
  have "engine_answers_ok (ex_playlists\<lparr>ps_row := \<lambda>_. Inr None\<rparr>)" by (simp add: engine_answers_ok_def ex_playlists_def)
  from activate_exact [OF this ex_player_ok(1), of desk_services "[]" 3 False]
  have "activate_inner desk_services (ex_playlists\<lparr>ps_row := \<lambda>_. Inr None\<rparr>) [] 3 False ex_player =
     Some (Inl (PlaylistNotFound (show_i64 3)), ex_player)" by simp
  moreover from activate_exact [OF ex_playlists_ok ex_player_ok(1), of desk_services "[1]" 3 False]
  have "\<exists>p' ro. activate_inner desk_services ex_playlists [1] 3 False ex_player = Some (Inr (), p') \<and>
     hm_get (pl_rotations p') 1 = Some ro \<and> pc_items (ro_cursor ro) = [show_i64 7, show_i64 8]"
    unfolding row ids sum.case option.case ex_items by (auto simp: activation_targets_def)
  ultimately show ?thesis by blast
qed

theorem display_resumes_witness:
  "\<exists>p'. hotplug_turn desk_services ex_playlists
     (Received (DisplayUpsert (display_snapshot_of desk_router 1 (the (hm_get (r_displays desk_router) 1))))) ex_player = Some p' \<and>
     is_owned 1 p'"
proof -
  let ?d = "display_snapshot_of desk_router 1 (the (hm_get (r_displays desk_router) 1))"
  have d: "dn_id ?d = 1" by (simp add: display_snapshot_of_def Let_def case_prod_beta)
  have r: "r_settings desk_router = Some (load_or_default (\<lambda>_. None) NotFound None)" by (simp add: desk_router_def)
  have "app_settings (app_router (pl_app ex_player)) =
      settings_default\<lparr>set_global := global_settings_default\<lparr>gs_auto_attach_playlist_id := Some 3\<rparr>\<rparr>"
    by (simp add: ex_player_def app_settings_update r) (simp add: app_settings_def r load_or_default_def settings_default_def)
  then have pid: "resolve_pid (snapshot_key ?d) ex_player = Some 3"
    by (simp add: resolve_pid_def Let_def display_prefs_of_def settings_default_def)
  have row: "ps_row ex_playlists 3 = Inr (Some \<lparr>pr_mode = Shuffle, pr_interval_secs = 60\<rparr>)" by (simp add: ex_playlists_def)
  have items: "resolve_items desk_services ex_playlists 3 = Inr [show_i64 7, show_i64 8]"
    using ex_items by (simp add: resolve_items_def ex_playlists_def)
  from display_resumes [OF ex_playlists_ok ex_player_ok(1) ex_player_ok(2) pid row items] show ?thesis
    by (auto simp: is_owned_def d)
qed

definition ex_rotation :: display_rotation where
  "ex_rotation = \<lparr>ro_playlist = 3, ro_cursor = \<lparr>pc_items = [''7''], pc_mode = Shuffle, pc_pos = 0, pc_order = [0],
     pc_order_pos = 0, pc_rng = 1, pc_current = Some ''7''\<rparr>, ro_handle = make_handle, ro_deadline = None\<rparr>"

theorem shuffled_position_is_stale_witness:
  "\<exists>(p' :: player) ro'. hm_get (pl_rotations p') 1 = Some ro' \<and> sa_position (status_of 0 (1, ro')) = 0"
proof -
  let ?p = "ex_player\<lparr>pl_rotations := [(1, ex_rotation)]\<rparr>"
  have ok: "engine_ok ?p"
    by (simp add: engine_ok_def rotation_ok_def ex_rotation_def order_ok_def make_handle_def)
  obtain res p' where s: "engine_step desk_services 1 1 ?p = Some (res, p')"
    using engine_step_ok [OF ok] by blast
  have "hm_get (pl_rotations ?p) 1 = Some ex_rotation" "pc_mode (ro_cursor ex_rotation) = Shuffle"
    by (simp_all add: ex_rotation_def)
  from shuffled_position_is_stale [OF ok this s, of 0] show ?thesis by (simp add: status_of_def ex_rotation_def) blast
qed

end
