(* ===== verification/Recall.thy ===== *)
theory Recall
  imports Playlist
begin

text \<open>
  The event bus with its readiness latches (\<open>src/events.rs\<close>) and what runs on it
  (\<open>src/event_process.rs\<close>): the dispatcher that starts the recall of wallpapers once the sources
  are ready, and the recall itself, which gives every display that appears its last wallpaper.
  At the end, what happens when two applies run at the same time, as recalls do.
\<close>

section \<open>The event bus\<close>

datatype global_event =
    SourcesReady
  | DisplayReady
  | RestoreApplied "string option"
  | RestoreFailed string
  | DaemonReady
  | SyncFinished nat
  | SyncFailed string
  | LibrariesAdded "string list"
  | StatusChanged
  | SettingsChanged
  | DisplayConnectionFailed string u32 u32 string
  | RemoteDownloadProgress string string i32 string
  | PlaylistChanged

text \<open>\<open>eb_sent\<close> is everything that was broadcast; a receiver is a position in it.\<close>

record event_bus =
  eb_capacity :: nat
  eb_sent :: "global_event list"
  eb_sources_ready :: bool
  eb_display_ready :: bool
  eb_daemon_ready :: bool

definition with_capacity :: "nat \<Rightarrow> event_bus" where
  "with_capacity cap =
     \<lparr>eb_capacity = cap, eb_sent = [], eb_sources_ready = False, eb_display_ready = False, eb_daemon_ready = False\<rparr>"

definition bus_default :: event_bus where
  "bus_default = with_capacity 64"

text \<open>\<open>publish\<close> sets the latch, if the event has one, and then broadcasts the event.\<close>

definition set_latch :: "global_event \<Rightarrow> event_bus \<Rightarrow> event_bus" where
  "set_latch e b =
     (case e of
        SourcesReady \<Rightarrow> b\<lparr>eb_sources_ready := True\<rparr>
      | DisplayReady \<Rightarrow> b\<lparr>eb_display_ready := True\<rparr>
      | DaemonReady \<Rightarrow> b\<lparr>eb_daemon_ready := True\<rparr>
      | _ \<Rightarrow> b)"

definition broadcast :: "global_event \<Rightarrow> event_bus \<Rightarrow> event_bus" where
  "broadcast e b = b\<lparr>eb_sent := eb_sent b @ [e]\<rparr>"

definition publish :: "global_event \<Rightarrow> event_bus \<Rightarrow> event_bus" where
  "publish e b = broadcast e (set_latch e b)"

definition subscribe :: "event_bus \<Rightarrow> nat" where
  "subscribe b = length (eb_sent b)"

text \<open>
  What a receiver is told: the next event, or that it missed some. The channel drops the oldest
  events of a receiver that lags; when that happens is left open, so the capacity does not matter.
\<close>

datatype received = Got global_event | Missed nat

section \<open>The dispatcher\<close>

text \<open>
  It subscribes, looks at the latch, and loops. \<open>di_started\<close> counts how often it started the
  recall; \<open>di_done\<close> is its variable \<open>recall_started\<close>.
\<close>

datatype disp_phase = Starting | Subscribed nat | Looping nat

record dispatcher =
  di_bus :: event_bus
  di_publishing :: "global_event list"
  di_phase :: disp_phase
  di_done :: bool
  di_started :: nat

definition dispatcher_new :: "bool \<Rightarrow> event_bus \<Rightarrow> dispatcher" where
  "dispatcher_new restore_last b =
     \<lparr>di_bus = b, di_publishing = [], di_phase = Starting, di_done = (\<not> restore_last), di_started = 0\<rparr>"

definition start_recall :: "dispatcher \<Rightarrow> dispatcher" where
  "start_recall s = (if di_done s then s else s\<lparr>di_done := True, di_started := Suc (di_started s)\<rparr>)"

definition on_received :: "received \<Rightarrow> dispatcher \<Rightarrow> dispatcher" where
  "on_received m s =
     (case m of
        Got e \<Rightarrow> if e = SourcesReady then start_recall s else s
      | Missed _ \<Rightarrow> if eb_sources_ready (di_bus s) then start_recall s else s)"

text \<open>
  The steps of the dispatcher and of any number of tasks that publish; each of these has set the
  latch when it comes to broadcast.
\<close>

inductive disp_step :: "dispatcher \<Rightarrow> dispatcher \<Rightarrow> bool" where
  latch: "disp_step s (s\<lparr>di_bus := set_latch e (di_bus s), di_publishing := e # di_publishing s\<rparr>)"
| send: "e \<in> set (di_publishing s) \<Longrightarrow>
    disp_step s (s\<lparr>di_bus := broadcast e (di_bus s), di_publishing := remove1 e (di_publishing s)\<rparr>)"
| subscribe: "di_phase s = Starting \<Longrightarrow> disp_step s (s\<lparr>di_phase := Subscribed (subscribe (di_bus s))\<rparr>)"
| look: "di_phase s = Subscribed pos \<Longrightarrow>
    disp_step s ((if eb_sources_ready (di_bus s) then start_recall s else s)\<lparr>di_phase := Looping pos\<rparr>)"
| recv: "di_phase s = Looping pos \<Longrightarrow> pos < length (eb_sent (di_bus s)) \<Longrightarrow>
    disp_step s ((on_received (Got (eb_sent (di_bus s) ! pos)) s)\<lparr>di_phase := Looping (Suc pos)\<rparr>)"
| lag: "di_phase s = Looping pos \<Longrightarrow> pos + n \<le> length (eb_sent (di_bus s)) \<Longrightarrow>
    disp_step s ((on_received (Missed n) s)\<lparr>di_phase := Looping (pos + n)\<rparr>)"

inductive disp_reachable :: "bool \<Rightarrow> dispatcher \<Rightarrow> bool" for restore_last where
  init: "disp_reachable restore_last (dispatcher_new restore_last bus_default)"
| step: "disp_reachable restore_last s \<Longrightarrow> disp_step s s' \<Longrightarrow> disp_reachable restore_last s'"

text \<open>What has been broadcast or is about to be has its latch set; what is not yet received is.\<close>

definition disp_ok :: "bool \<Rightarrow> dispatcher \<Rightarrow> bool" where
  "disp_ok restore_last s \<longleftrightarrow>
     (SourcesReady \<in> set (di_publishing s) \<union> set (eb_sent (di_bus s)) \<longrightarrow> eb_sources_ready (di_bus s)) \<and>
     di_started s = (if restore_last \<and> di_done s then 1 else 0) \<and> (\<not> restore_last \<longrightarrow> di_done s) \<and>
     (case di_phase s of
        Starting \<Rightarrow> True
      | Subscribed pos \<Rightarrow> pos \<le> length (eb_sent (di_bus s))
      | Looping pos \<Rightarrow> pos \<le> length (eb_sent (di_bus s)) \<and>
          (\<not> di_done s \<longrightarrow> SourcesReady \<notin> set (take pos (eb_sent (di_bus s)))))"

lemma set_latch_simps [simp]:
  "eb_sent (set_latch e b) = eb_sent b"
  "eb_sources_ready (set_latch e b) = (e = SourcesReady \<or> eb_sources_ready b)"
  by (cases e; simp add: set_latch_def)+

lemma broadcast_simps [simp]:
  "eb_sent (broadcast e b) = eb_sent b @ [e]" "eb_sources_ready (broadcast e b) = eb_sources_ready b"
  by (simp_all add: broadcast_def)

lemma start_recall_simps [simp]:
  "di_bus (start_recall s) = di_bus s" "di_publishing (start_recall s) = di_publishing s" "di_done (start_recall s)"
  "di_started (start_recall s) = (if di_done s then di_started s else Suc (di_started s))"
  by (simp_all add: start_recall_def)

lemma disp_ok_look:
  assumes "disp_ok rl s" and "di_phase s = Subscribed pos"
  shows "disp_ok rl ((if eb_sources_ready (di_bus s) then start_recall s else s)\<lparr>di_phase := Looping pos\<rparr>)"
  using assms by (auto simp: disp_ok_def dest: in_set_takeD)

lemma disp_ok_recv:
  assumes "disp_ok rl s" and "di_phase s = Looping pos" and "pos < length (eb_sent (di_bus s))"
  shows "disp_ok rl ((on_received (Got (eb_sent (di_bus s) ! pos)) s)\<lparr>di_phase := Looping (Suc pos)\<rparr>)"
  using assms by (auto simp: disp_ok_def on_received_def take_Suc_conv_app_nth)

lemma disp_ok_lag:
  assumes "disp_ok rl s" and "di_phase s = Looping pos" and "pos + n \<le> length (eb_sent (di_bus s))"
  shows "disp_ok rl ((on_received (Missed n) s)\<lparr>di_phase := Looping (pos + n)\<rparr>)"
  using assms by (auto simp: disp_ok_def on_received_def dest: in_set_takeD)

lemma disp_ok_step: "disp_step s s' \<Longrightarrow> disp_ok rl s \<Longrightarrow> disp_ok rl s'"
proof (induction rule: disp_step.induct)
  case (latch s e)
  then show ?case by (auto simp: disp_ok_def split: disp_phase.splits)
next
  case (send e s)
  then show ?case by (auto simp: disp_ok_def split: disp_phase.splits dest: notin_set_remove1)
next
  case (subscribe s)
  then show ?case by (simp add: disp_ok_def Recall.subscribe_def)
next
  case (look s pos)
  then show ?case using disp_ok_look by blast
next
  case (recv s pos)
  then show ?case using disp_ok_recv by blast
next
  case (lag s pos n)
  then show ?case using disp_ok_lag by blast
qed

lemma disp_reachable_ok: "disp_reachable rl s \<Longrightarrow> disp_ok rl s"
proof (induction rule: disp_reachable.induct)
  case init
  show ?case by (simp add: disp_ok_def dispatcher_new_def bus_default_def with_capacity_def)
next
  case (step s s')
  then show ?case using disp_ok_step by blast
qed

text \<open>
  C26: the recall is started at most once and is not missed: however publishers and dispatcher
  interleave, even when the dispatcher lags behind the bus, once it has caught up with what was
  broadcast and the sources have been announced, the recall runs, if it is enabled at all.
\<close>

theorem recall_not_missed:
  assumes "disp_reachable restore_last s"
  shows "di_started s \<le> 1 \<and> (\<not> restore_last \<longrightarrow> di_started s = 0) \<and>
    (restore_last \<and> di_phase s = Looping (length (eb_sent (di_bus s))) \<and>
      SourcesReady \<in> set (eb_sent (di_bus s)) \<longrightarrow> di_started s = 1)"
proof -
  have "disp_ok restore_last s" using assms by (rule disp_reachable_ok)
  then show ?thesis by (auto simp: disp_ok_def)
qed

section \<open>Recalling wallpapers\<close>

text \<open>Times are in milliseconds of the monotonic clock.\<close>

definition SETTLE :: nat where "SETTLE = 2000"

text \<open>For each wallpaper to apply: when, and to which displays.\<close>

record recall =
  rc_seen :: "display_id set"
  rc_pending :: "(string, nat \<times> display_id list) hmap"

definition recall_new :: recall where
  "recall_new = \<lparr>rc_seen = {}, rc_pending = []\<rparr>"

definition wanted_wallpaper :: "settings \<Rightarrow> display_snapshot \<Rightarrow> string option" where
  "wanted_wallpaper st snap =
     (let k = snapshot_key snap;
          own = Option.bind (display_prefs_of st k) dp_active_playlist_id
      in if own \<noteq> None \<or> gs_auto_attach_playlist_id (set_global st) \<noteq> None then None
         else resolved_last_wallpaper st k)"

definition record_display :: "settings \<Rightarrow> nat \<Rightarrow> display_snapshot \<Rightarrow> (string, nat \<times> display_id list) hmap \<Rightarrow> (string, nat \<times> display_id list) hmap" where
  "record_display st now snap pending =
     (case wanted_wallpaper st snap of
        None \<Rightarrow> pending
      | Some w \<Rightarrow>
          (if hm_get pending w = None then hm_insert w (now + SETTLE, [dn_id snap]) pending
           else hm_modify w (\<lambda>(t, ids). (t, ids @ [dn_id snap])) pending))"

definition see_display :: "settings \<Rightarrow> nat \<Rightarrow> display_snapshot \<Rightarrow> recall \<Rightarrow> recall" where
  "see_display st now snap rc =
     (if dn_id snap \<in> rc_seen rc then rc
      else \<lparr>rc_seen = insert (dn_id snap) (rc_seen rc), rc_pending = record_display st now snap (rc_pending rc)\<rparr>)"

text \<open>What wakes the task: displays, from an event or, at the start and after a lag, all of them; or the timer.\<close>

datatype recall_input = Appeared settings nat "display_snapshot list" | Timer nat

definition recall_due :: "nat \<Rightarrow> recall \<Rightarrow> (string \<times> display_id list) list" where
  "recall_due now rc = map (\<lambda>(w, _, ids). (w, ids)) (filter (\<lambda>(_, t, _). t \<le> now) (rc_pending rc))"

fun recall_step :: "recall_input \<Rightarrow> recall \<Rightarrow> (string \<times> display_id list) list \<times> recall" where
  "recall_step (Appeared st now snaps) rc = ([], fold (see_display st now) snaps rc)"
| "recall_step (Timer now) rc =
     (recall_due now rc, rc\<lparr>rc_pending := filter (\<lambda>(_, t, _). \<not> t \<le> now) (rc_pending rc)\<rparr>)"

fun recall_run :: "recall_input list \<Rightarrow> recall \<Rightarrow> (string \<times> display_id list) list \<times> recall" where
  "recall_run [] rc = ([], rc)"
| "recall_run (i # is) rc =
     (let (out, rc1) = recall_step i rc; (rest, rc2) = recall_run is rc1 in (out @ rest, rc2))"

text \<open>What ought to be applied: each display, when it is first seen, gets the wallpaper it wants then.\<close>

fun sightings :: "recall_input \<Rightarrow> (settings \<times> display_snapshot) list" where
  "sightings (Appeared st now snaps) = map (Pair st) snaps"
| "sightings (Timer now) = []"

fun first_wishes :: "display_id set \<Rightarrow> (settings \<times> display_snapshot) list \<Rightarrow> (string \<times> display_id) list" where
  "first_wishes seen [] = []"
| "first_wishes seen ((st, snap) # xs) =
     (if dn_id snap \<in> seen then first_wishes seen xs
      else (case wanted_wallpaper st snap of None \<Rightarrow> [] | Some w \<Rightarrow> [(w, dn_id snap)]) @
        first_wishes (insert (dn_id snap) seen) xs)"

definition each_pair :: "(string \<times> display_id list) list \<Rightarrow> (string \<times> display_id) list" where
  "each_pair gs = concat (map (\<lambda>(w, ids). map (Pair w) ids) gs)"

definition pending_pairs :: "(string, nat \<times> display_id list) hmap \<Rightarrow> (string \<times> display_id) list" where
  "pending_pairs m = each_pair (map (\<lambda>(w, _, ids). (w, ids)) m)"

lemma each_pair_simps [simp]:
  "each_pair [] = []" "each_pair ((w, ids) # gs) = map (Pair w) ids @ each_pair gs"
  "each_pair (xs @ ys) = each_pair xs @ each_pair ys"
  by (simp_all add: each_pair_def)

lemma pending_pairs_simps [simp]:
  "pending_pairs [] = []" "pending_pairs ((w, t, ids) # m) = map (Pair w) ids @ pending_pairs m"
  by (simp_all add: pending_pairs_def)

lemma pending_insert: "hm_get m w = None \<Longrightarrow> mset (pending_pairs (hm_insert w (t, [d]) m)) = mset (pending_pairs m) + {#(w, d)#}"
  by (induction m) (auto split: if_splits)

lemma modify_absent: "hm_get m w = None \<Longrightarrow> hm_modify w f m = m"
  by (induction m) (auto simp: hm_modify_def split: if_splits)

lemma pending_modify:
  "hm_ok m \<Longrightarrow> hm_get m w \<noteq> None \<Longrightarrow>
    mset (pending_pairs (hm_modify w (\<lambda>(t, ids). (t, ids @ [d])) m)) = mset (pending_pairs m) + {#(w, d)#}"
proof (induction m)
  case (Cons x m)
  obtain k t ids where x: "x = (k, t, ids)" by (cases x) auto
  show ?case
  proof (cases "k = w")
    case True
    then have "hm_get m w = None" using Cons.prems(1) by (simp add: x map_of_eq_None_iff)
    from modify_absent [OF this] have "hm_modify w (\<lambda>(t, ids). (t, ids @ [d])) (x # m) = (w, t, ids @ [d]) # m"
      by (simp add: hm_modify_def x True)
    then show ?thesis by (simp add: x True)
  next
    case False
    have "hm_modify w f (x # m) = x # hm_modify w f m" for f using False by (simp add: hm_modify_def x)
    then show ?thesis using Cons False by (simp add: x)
  qed
qed simp

lemma see_display_pairs:
  assumes "hm_ok (rc_pending rc)"
  shows "mset (pending_pairs (rc_pending (see_display st now snap rc))) =
      mset (pending_pairs (rc_pending rc)) + mset (first_wishes (rc_seen rc) [(st, snap)])"
    and "hm_ok (rc_pending (see_display st now snap rc))"
    and "rc_seen (see_display st now snap rc) = insert (dn_id snap) (rc_seen rc)"
proof -
  have rec: "mset (pending_pairs (record_display st now snap (rc_pending rc))) = mset (pending_pairs (rc_pending rc)) +
      mset (case wanted_wallpaper st snap of None \<Rightarrow> [] | Some w \<Rightarrow> [(w, dn_id snap)])"
    and ok: "hm_ok (record_display st now snap (rc_pending rc))"
  proof (atomize (full), cases "wanted_wallpaper st snap")
    case (Some w)
    then show "mset (pending_pairs (record_display st now snap (rc_pending rc))) = mset (pending_pairs (rc_pending rc)) +
        mset (case wanted_wallpaper st snap of None \<Rightarrow> [] | Some w \<Rightarrow> [(w, dn_id snap)]) \<and>
      hm_ok (record_display st now snap (rc_pending rc))"
      using assms pending_insert [of "rc_pending rc" w] pending_modify [OF assms, of w]
      by (cases "hm_get (rc_pending rc) w") (simp_all add: record_display_def)
  qed (simp add: record_display_def assms)
  show "mset (pending_pairs (rc_pending (see_display st now snap rc))) =
      mset (pending_pairs (rc_pending rc)) + mset (first_wishes (rc_seen rc) [(st, snap)])"
    using rec by (simp add: see_display_def)
  show "hm_ok (rc_pending (see_display st now snap rc))" using ok assms by (simp add: see_display_def)
  show "rc_seen (see_display st now snap rc) = insert (dn_id snap) (rc_seen rc)" by (auto simp: see_display_def)
qed

lemma first_wishes_append:
  "first_wishes seen (xs @ ys) = first_wishes seen xs @ first_wishes (seen \<union> (dn_id \<circ> snd) ` set xs) ys"
  by (induction seen xs rule: first_wishes.induct) (auto simp: insert_absorb Un_insert_left)

lemma see_all_pairs:
  assumes "hm_ok (rc_pending rc)"
  shows "mset (pending_pairs (rc_pending (fold (see_display st now) snaps rc))) =
      mset (pending_pairs (rc_pending rc)) + mset (first_wishes (rc_seen rc) (map (Pair st) snaps)) \<and>
    hm_ok (rc_pending (fold (see_display st now) snaps rc)) \<and>
    rc_seen (fold (see_display st now) snaps rc) = rc_seen rc \<union> dn_id ` set snaps"
  using assms
proof (induction snaps arbitrary: rc)
  case (Cons s snaps)
  note one = see_display_pairs [OF Cons.prems, of st now s]
  have "first_wishes (rc_seen rc) (map (Pair st) (s # snaps)) =
      first_wishes (rc_seen rc) [(st, s)] @ first_wishes (insert (dn_id s) (rc_seen rc)) (map (Pair st) snaps)"
    using first_wishes_append [of "rc_seen rc" "[(st, s)]" "map (Pair st) snaps"] by simp
  with Cons.IH [OF one(2)] one show ?case by (simp add: ac_simps)
qed simp

lemma timer_pairs:
  "mset (each_pair (recall_due now rc)) + mset (pending_pairs (filter (\<lambda>(_, t, _). \<not> t \<le> now) (rc_pending rc))) =
    mset (pending_pairs (rc_pending rc))"
proof -
  have "mset (each_pair (map (\<lambda>(w, _, ids). (w, ids)) (filter (\<lambda>(_, t, _). t \<le> now) m))) +
      mset (pending_pairs (filter (\<lambda>(_, t, _). \<not> t \<le> now) m)) = mset (pending_pairs m)" for m
    by (induction m) (auto simp: ac_simps)
  then show ?thesis by (simp add: recall_due_def)
qed

lemma recall_run_pairs:
  "hm_ok (rc_pending rc) \<Longrightarrow>
    mset (each_pair (fst (recall_run is rc))) + mset (pending_pairs (rc_pending (snd (recall_run is rc)))) =
    mset (pending_pairs (rc_pending rc)) + mset (first_wishes (rc_seen rc) (concat (map sightings is)))"
proof (induction "is" arbitrary: rc)
  case (Cons i "is")
  obtain out rc1 where st: "recall_step i rc = (out, rc1)" by force
  obtain rest rc2 where run: "recall_run is rc1 = (rest, rc2)" by force
  have r: "recall_run (i # is) rc = (out @ rest, rc2)" by (simp add: st run)
  have one: "mset (each_pair out) + mset (pending_pairs (rc_pending rc1)) =
      mset (pending_pairs (rc_pending rc)) + mset (first_wishes (rc_seen rc) (sightings i)) \<and>
      hm_ok (rc_pending rc1) \<and> rc_seen rc1 = rc_seen rc \<union> (dn_id \<circ> snd) ` set (sightings i)"
  proof (cases i)
    case (Appeared s now snaps)
    then show ?thesis using st see_all_pairs [OF Cons.prems, of s now snaps] by (auto simp: image_image)
  next
    case (Timer now)
    then show ?thesis using st timer_pairs [of now rc] Cons.prems by (auto simp: distinct_map_filter)
  qed
  then have IH: "mset (each_pair rest) + mset (pending_pairs (rc_pending rc2)) =
      mset (pending_pairs (rc_pending rc1)) + mset (first_wishes (rc_seen rc1) (concat (map sightings is)))"
    using Cons.IH [of rc1] run by simp
  have seen: "first_wishes (rc_seen rc) (concat (map sightings (i # is))) =
      first_wishes (rc_seen rc) (sightings i) @ first_wishes (rc_seen rc1) (concat (map sightings is))"
    using one by (simp add: first_wishes_append)
  have "mset (each_pair (out @ rest)) + mset (pending_pairs (rc_pending rc2)) =
      mset (each_pair out) + (mset (each_pair rest) + mset (pending_pairs (rc_pending rc2)))" by (simp add: add.assoc)
  also have "\<dots> = (mset (each_pair out) + mset (pending_pairs (rc_pending rc1))) + mset (first_wishes (rc_seen rc1) (concat (map sightings is)))"
    unfolding IH by (simp only: add.assoc)
  also have "\<dots> = mset (pending_pairs (rc_pending rc)) +
      (mset (first_wishes (rc_seen rc) (sightings i)) + mset (first_wishes (rc_seen rc1) (concat (map sightings is))))"
    using one by (simp only: add.assoc)
  finally show ?case unfolding r seen fst_conv snd_conv by (simp only: mset_append)
qed simp

lemma timer_clears: "filter (\<lambda>(_, t, _). t \<le> now) (rc_pending (snd (recall_step (Timer now) rc))) = []"
  by (auto simp: filter_empty_conv)

text \<open>
  C27: every display gets its last wallpaper once: what has been applied and what is still waiting
  are together, wallpaper by wallpaper and display by display, what the displays wanted when they
  were first seen, unless a playlist has them; and a timer leaves nothing waiting that was due.
\<close>

theorem recalled_once:
  "mset (each_pair (fst (recall_run is recall_new))) + mset (pending_pairs (rc_pending (snd (recall_run is recall_new)))) =
     mset (first_wishes {} (concat (map sightings is))) \<and>
   filter (\<lambda>(_, t, _). t \<le> now) (rc_pending (snd (recall_step (Timer now) rc))) = []"
  using recall_run_pairs [of recall_new "is"] timer_clears by (simp add: recall_new_def)

section \<open>Two applies at the same time\<close>

text \<open>
  C29: an apply whose renderer is registered and not yet linked takes the renderer for one that
  nobody uses when another apply comes in between: that one stops it, for whatever displays it is,
  and the first then links its displays to a renderer that is neither registered nor running.
\<close>

theorem concurrent_applies_race:
  assumes "router_reachable (manager_new reg) r" and "rid \<in> set (renderer_ids (r_table r))"
    and "\<forall>d. route (r_table r) d \<noteq> Some rid"
    and "d \<in> set ts" and "hm_get (r_displays r) d \<noteq> None" and "length ts \<le> link_room (r_table r)"
  shows "let r' = snd (relink_section ts rid (stop_replaced sv target r)) in
    route (r_table r') d = Some rid \<and> rid \<notin> set (renderer_ids (r_table r')) \<and> rid \<notin> set (mg_live (r_mgr r'))"
proof -
  let ?r1 = "stop_replaced sv target r"
  let ?ds = "filter (\<lambda>d. hm_get (r_displays ?r1) d \<noteq> None) ts" let ?t = "fold (relink_one rid) ?ds (r_table ?r1)"
  note ok = reachable_parts [OF assms(1)]
  note st = stop_replaced_result [OF ok(1,3), of sv target]
  have reach1: "router_reachable (manager_new reg) ?r1" by (rule reachable_runs [OF assms(1) runs_stop_replaced])
  note ok1 = reachable_parts [OF reach1]
  have gone: "rid \<in> set (renderers_fully_replaced_by target r)"
    using replaced_iff [OF ok(1), of rid target] assms(2,3) by simp
  have room: "length ?ds \<le> link_room (r_table ?r1)"
    unfolding st(5) using assms(6) by (rule order_trans [OF length_filter_le])
  have "route ?t d = Some rid"
    using relink.relink_loop(2) [OF links_ok_table [OF ok1(1)] room, of rid] assms(4,5) keys_get [OF st(4), of d]
    by (simp del: not_None_eq)
  moreover have "renderer_ids ?t = renderer_ids (r_table ?r1)"
  proof -
    have "links_lead (\<lambda>d. hm_get (r_displays ?r1) d \<noteq> None) (r_table ?r1)" using ok1(1) by (simp add: links_ok_def)
    moreover have "\<forall>d \<in> set ?ds. hm_get (r_displays ?r1) d \<noteq> None" by simp
    ultimately have "rt_renderers ?t = rt_renderers (r_table ?r1)"
      using fold_relink_links [OF links_ok_table [OF ok1(1)] room] by blast
    then show ?thesis by (simp add: renderer_ids_def)
  qed
  ultimately show ?thesis using st(2,3) gone by (simp add: relink_section_def Let_def)
qed

section \<open>Witnesses\<close>

text \<open>The sources are ready before the dispatcher subscribes.\<close>

definition ex_announced :: dispatcher where
  "ex_announced = (dispatcher_new True bus_default)\<lparr>di_bus := publish SourcesReady bus_default\<rparr>"

lemma ex_announced_reachable: "disp_reachable True ex_announced"
proof -
  let ?s1 = "(dispatcher_new True bus_default)\<lparr>di_bus := set_latch SourcesReady bus_default, di_publishing := [SourcesReady]\<rparr>"
  have "disp_step (dispatcher_new True bus_default) ?s1"
    using disp_step.latch [of "dispatcher_new True bus_default" SourcesReady] by (simp add: dispatcher_new_def)
  with disp_reachable.init have "disp_reachable True ?s1" by (rule disp_reachable.step)
  moreover have "disp_step ?s1 ex_announced"
    using disp_step.send [of SourcesReady ?s1] by (simp add: ex_announced_def publish_def dispatcher_new_def)
  ultimately show ?thesis by (rule disp_reachable.step)
qed

theorem recall_not_missed_witness:
  "di_started (start_recall (ex_announced\<lparr>di_phase := Subscribed 1\<rparr>)\<lparr>di_phase := Looping 1\<rparr>) = 1"
proof -
  let ?s2 = "ex_announced\<lparr>di_phase := Subscribed 1\<rparr>" let ?s3 = "(start_recall ?s2)\<lparr>di_phase := Looping 1\<rparr>"
  have "disp_step ex_announced ?s2"
    using disp_step.subscribe [of ex_announced] by (simp add: ex_announced_def dispatcher_new_def subscribe_def publish_def bus_default_def with_capacity_def)
  with ex_announced_reachable have "disp_reachable True ?s2" by (rule disp_reachable.step)
  moreover have "disp_step ?s2 ?s3"
    using disp_step.look [of ?s2 1] by (simp add: ex_announced_def publish_def)
  ultimately have "disp_reachable True ?s3" by (rule disp_reachable.step)
  from recall_not_missed [OF this] show ?thesis
    by (simp add: ex_announced_def dispatcher_new_def start_recall_def publish_def bus_default_def with_capacity_def)
qed

theorem concurrent_applies_race_witness:
  "\<exists>r. route (r_table (snd (relink_section [1] ''r1'' (stop_replaced desk_services (Some [2]) r)))) 1 = Some ''r1'' \<and>
     ''r1'' \<notin> set (renderer_ids (r_table (snd (relink_section [1] ''r1'' (stop_replaced desk_services (Some [2]) r)))))"
proof -
  let ?req = "\<lparr>sp_wp_type = ''video'', sp_extras = [], sp_settings = [], sp_test_pattern = False, sp_renderer_name = None,
    sp_user_properties = None\<rparr>"
  obtain r where e: "ensure_renderer desk_services ?req desk_router = (Inr ''r1'', r)"
    using desk_ensure(2) [of ?req] by auto
  note k = ensure_keeps [OF e]
  have reach: "router_reachable (manager_new desk_renderers) r"
    by (rule reachable_runs [OF desk_reachable runs_ensure_renderer [OF e desk_fresh(1)]])
  have "find_reusable ?req (r_mgr desk_router) = None"
    by (simp add: find_reusable_eq List.map_filter_simps manager_new_def split: sum.split)
  then have ids: "''r1'' \<in> set (renderer_ids (r_table r))" by (intro k(4)) (simp_all add: manager_new_def)
  have none: "\<forall>d. route (r_table r) d \<noteq> Some ''r1''"
    by (simp add: k(1)) (simp add: route_def table_new_def links_for_display_def hm_list_def)
  have disp: "hm_get (r_displays r) 1 \<noteq> None"
    using desk_facts(4) keys_get [of "r_displays desk_router" "[(1, undefined)]" 1] by (simp add: k(3))
  have room: "length [1 :: display_id] \<le> link_room (r_table r)" by (simp add: k(2)) (simp add: link_room_def table_new_def Suc_le_eq unat_gt_0)
  from concurrent_applies_race [OF reach ids none _ disp room, of desk_services "Some [2]"] show ?thesis
    by (auto simp: Let_def)
qed

end
