(* ===== verification/Spec2Isabelle.thy ===== *)
theory Spec2Isabelle
  imports Cursor Scheduler Layout Hotkeys Settings Negotiate Sorts Registry Renderer Router_Promises Reaper Ipc_Wire Tasks Wallpaper_Filter Displays Recall
begin

text \<open>
  A verification library for \<^bold>\<open>waywallen\<close>, the wallpaper daemon of this repository
  (the Rust crate under \<open>src/\<close>, paths below are relative to it).

  \<^bold>\<open>The program.\<close> Renderer processes draw wallpapers into pools of GPU buffers; display clients
  show them. The daemon stands between: a \<^emph>\<open>manager\<close> starts renderers and reads what they report
  (\<open>renderer_manager.rs\<close>), a \<^emph>\<open>router\<close> (\<open>routing/\<close>) decides which renderer feeds which display,
  which pool both can use (\<open>dma/negotiate.rs\<close>), how the picture is laid out
  (\<open>display/layout.rs\<close>) and who is paused; an \<^emph>\<open>endpoint\<close> per display (\<open>display/endpoint.rs\<close>)
  turns the router's messages into the display protocol, and a \<^emph>\<open>reaper\<close> per renderer
  (\<open>sync/reaper.rs\<close>) gives buffers back. Around it are the settings and their file
  (\<open>settings.rs\<close>), the plugins (\<open>plugin/\<close>), playlists (\<open>playlist/\<close>, \<open>queue/\<close>), the library and
  its database (\<open>model/\<close>), and the surfaces that control it.

  \<^bold>\<open>Conventions.\<close> A struct is a record, an enum a datatype, an integer a word of its width. A
  \<open>HashMap\<close> is an association list with distinct keys (\<open>hmap\<close> in \<open>Prelude\<close>): what the code does
  with the order of its entries is written for the order of the list, and the theorems hold for
  every list. \<open>f32\<close> is modelled by exact rounding of rationals (\<open>F32\<close>; no NaN, infinities,
  subnormals or signed zeros). A string is a list of characters, in \<open>Display_Wire\<close> of bytes. Locks:
  what happens under one guard is one function; what other tasks may do in between is a step
  relation. Channels are traces of what was sent, sleeping tasks are sets, clocks and random
  seeds are arguments, results of system calls are arguments. Code that is not in the
  repository (TOML and JSON parsers, float printers, the kernel) is a parameter.

  \<^bold>\<open>Theories.\<close>
  \<^item> \<open>Prelude\<close>, \<open>F32\<close>, \<open>Strings\<close>: integers, hash maps, vectors; single-precision arithmetic; the
    string functions of the standard library.
  \<^item> \<open>Queue\<close> (\<open>queue/state.rs\<close>, \<open>queue/rotator.rs\<close>, \<open>queue/mod.rs\<close>) and \<open>Cursor\<close>
    (\<open>playlist/cursor.rs\<close>): modes, the shuffle generator and its rounds, the watch channel behind
    the rotator, the order of a playlist. A shuffled round visits every entry once.
  \<^item> \<open>Routing_Table\<close> (\<open>routing/table.rs\<close>): links with two indexes. It refines a function from
    displays to renderers; the indexes agree in every reachable state.
  \<^item> \<open>Scheduler\<close> (\<open>scheduler.rs\<close>): displays, the active pool, the frames owed. A frame is completed
    once, when the last display has released it.
  \<^item> \<open>Layout\<close> (\<open>display/layout.rs\<close>): fill modes, alignment, rotation, the inverse map of the pointer.
  \<^item> \<open>Hotkeys\<close> (\<open>hotkeys.rs\<close>), \<open>Settings\<close> (\<open>settings.rs\<close>): the settings cascade, the store with its
    debounced writer as a step relation: what a clean store holds is on disk, the file is never
    torn, a dirty store has a wake-up under way.
  \<^item> \<open>Negotiate\<close> (\<open>dma/negotiate.rs\<close>): capability sets, their decoding, the choice of a format; a
    pick is a common format of the best rank, the error says why there is none, and excluding the
    formats that failed ends.
  \<^item> \<open>Wallpaper\<close>, \<open>Sorts\<close> (\<open>wallpaper/properties.rs\<close>, \<open>wallpaper/sort.rs\<close>): the layout override of a
    wallpaper, properties, and the composite sort as a chain of stable sorts.
  \<^item> \<open>Registry\<close> (\<open>plugin/renderer_registry.rs\<close>, \<open>settings.rs\<close> reconcile): the plugin scan, the
    validation of settings, reconciling the stored ones.
  \<^item> \<open>Renderer\<close> (\<open>renderer_manager.rs\<close>): the handle, the reader thread message by message, what the
    manager writes. Whatever a renderer sends, its handle stays well formed.
  \<^item> \<open>Router\<close> (\<open>routing/router.rs\<close>, \<open>routing/autopause.rs\<close>): every method, in the critical sections of
    its lock. \<open>Router_Sync\<close>: what single methods achieve. \<open>Router_Runs\<close>: all tasks interleaved, as an
    inductive step relation, and the invariant of the reachable states. \<open>Channels\<close>: the numbers of
    the configurations, with those numbered and not yet sent, and the generation a display is bound
    to. \<open>Router_Service\<close>: whole requests are runs of steps. \<open>Router_Promises\<close>: what follows for displays and renderers, with
    witnesses.
  \<^item> \<open>Endpoint\<close> (\<open>display/endpoint.rs\<close>): the handshake, the loop, a connection together with the
    router. What a client receives is what the router queued, in an order it can rely on.
  \<^item> \<open>Reaper\<close> (\<open>sync/reaper.rs\<close>): buckets of release fences by timeline point, flushed when complete
    or late.
  \<^item> \<open>Display_Wire\<close> (\<open>display/proto/codec.rs\<close> and what \<open>tools/wayproto-gen/src/codegen_rust.rs\<close> emits for
    \<open>protocol/waywallen_display_v1.xml\<close>): encoders, decoders, framing, descriptors. What is sent is
    received, however the kernel splits it. \<open>Ipc_Wire\<close> (\<open>ipc/\<close>): the same for renderers.
  \<^item> \<open>Tasks\<close> (\<open>tasks.rs\<close>): the task registry, every method as the sequence of its critical sections.
    Whatever interleaves, a task is reported started, cancelled and finished at most once each.
  \<^item> \<open>Gpu\<close> (\<open>gpu.rs\<close>): the graphics cards found in the file system, and which one to use.
    \<open>Spawn\<close> (\<open>renderer_manager.rs\<close>, spawn): the card, the command line, the handshake, the first frame.
  \<^item> \<open>Wallpaper_Filter\<close> (\<open>model/filter.rs\<close>): the condition for the rules of a filter and their
    groups, with a meaning for conditions; what user text becomes inside raw SQL.
  \<^item> \<open>Control\<close> (\<open>control.rs\<close>): applying a wallpaper, from the entry to the displays and the settings.
    A success shows its renderer on exactly the targets; a failure may leave them dark.
    \<open>Stepping\<close> (\<open>control.rs\<close>, \<open>wallpaper/sort.rs\<close>): next and previous, the restored mode, the tick of
    the rotator, which leaves the displays of playlists alone.
  \<^item> \<open>Playlist\<close> (\<open>playlist/engine.rs\<close>, \<open>resolve.rs\<close>, \<open>restore.rs\<close>): a rotation per display over the
    cursor; no operation panics, and a display that comes back goes on where it was.
  \<^item> \<open>Displays\<close> (\<open>plugin/display_registry.rs\<close>, \<open>display/spawner.rs\<close>): the display backends, the
    choice for the desktop, the restarts of the process.
  \<^item> \<open>Recall\<close> (\<open>events.rs\<close>, \<open>event_process.rs\<close>): the event bus and its latches, the dispatcher
    interleaved with publishers, the recall of last wallpapers, and two applies at the same time.

  \<^bold>\<open>Interfaces.\<close> Where a component relies on another or several share a contract there is a locale,
  interpreted on the model's own definitions: \<open>name_codec\<close> (\<open>Prelude\<close>; names that parse back, for
  the modes of \<open>Queue\<close> and the actions of \<open>Hotkeys\<close>), \<open>backward_shuffle\<close> (\<open>Prelude\<close>; the
  Fisher-Yates loop over any draw, for \<open>Queue\<close> and \<open>Cursor\<close>), \<open>route_table\<close> (\<open>Routing_Table\<close>; what a
  loop of link replacements does to the routes, used again by the relinks of \<open>Router_Sync\<close>),
  \<open>release_ledger\<close> (\<open>Scheduler\<close>; what is owed for a frame), \<open>task_credit\<close> (\<open>Tasks\<close>; events bounded
  by a credit that every section spends, for starts, cancellations and ends).

  \<^bold>\<open>Termination and bounds.\<close> Every definition is total without fuel: loops are folds over lists or
  recursions with a proved measure (the shuffle's Fisher-Yates loop, the digits of a number, the
  reader of a message header). A service loop that runs for ever is one function per turn, run over
  the list of its inputs. Renegotiation, which the program repeats as renderers report failures, is
  shown to end because each failure removes a format.

  \<^bold>\<open>What the models showed.\<close> Some theorems state behaviour that the code, by its comments or the
  protocol file, does not intend: a pause sent after the play that should follow it, a
  configuration for a pool the display does not have, pools announced twice, versions that are
  declared supported and refused, a display that outlives its connection, acknowledgements that a
  closed connection does not give, a timeline point transferred twice, a failed write of the
  settings that is not tried again, a task reported cancelled and completed, wallpapers without a
  rating that a filter skips, an apply that fails and leaves the displays dark, one for all displays
  that never reuses a renderer, one that stops the renderer another is about to link, a shuffled
  step that panics when the library is rescanned, and a restart delay that is never reset.
  The protocol file also promises that generations grow; this holds for configurations unless two
  changes of a link's geometry overlap, and not for the pools of different renderers.

  \<^bold>\<open>Not modelled.\<close> The database, its queries and the synchronisation of the library with it
  (\<open>model/\<close> but for the filter, \<open>playlist/repo.rs\<close>, the rescans of \<open>control.rs\<close>), which are SQL run by a
  library; sources written in Lua and the installer (\<open>plugin/source_manager.rs\<close>,
  \<open>plugin/installer.rs\<close>); the media probe; the surfaces \<open>ws_server.rs\<close>, \<open>control_proto.rs\<close>,
  \<open>dbus_iface.rs\<close>, \<open>tray/\<close> and \<open>session_monitor.rs\<close>, which translate requests into calls of the
  modelled parts; kernel calls (\<open>sync/drm_syncobj.rs\<close>, \<open>ipc/uds.rs\<close>); the text processing of the
  protocol generator; the wiring in \<open>main.rs\<close>.
\<close>

end
